(* ===== verification/Prelude.thy ===== *)
theory Prelude
  imports Main "HOL-Library.Word" "HOL-Library.Multiset" "HOL-Library.Monad_Syntax"
begin

text \<open>
  Shared ground of the development: the C integer operations the sources use, the two
  functions of the C library that several programs call (\<open>atoi\<close> and \<open>qsort\<close>), and the
  theory of null-terminated linked lists that carries the proofs about every pointer queue
  (run queues and caller queues of the kernel, semaphore queues of PM, timer queues).
\<close>

named_theorems c_arith \<open>evaluation of the C integer operations\<close>
named_theorems chain_simps \<open>frame and update rules of linked chains\<close>

section \<open>C integers\<close>

text \<open>A signed 32-bit \<open>int\<close> is kept as a HOL integer; \<open>wrap32\<close> writes the wrap-around out.\<close>

definition INT_MAX :: int where
  "INT_MAX = 2147483647"

definition wrap32 :: "int \<Rightarrow> int" where
  "wrap32 x = (x + 2147483648) mod 4294967296 - 2147483648"

text \<open>The C operators \<open>/\<close> and \<open>%\<close> truncate towards zero.\<close>

definition c_rem :: "int \<Rightarrow> int \<Rightarrow> int" where
  "c_rem a b = sgn a * (\<bar>a\<bar> mod \<bar>b\<bar>)"

lemma wrap32_id [c_arith]: "- 2147483648 \<le> x \<Longrightarrow> x \<le> INT_MAX \<Longrightarrow> wrap32 x = x"
  by (simp add: wrap32_def INT_MAX_def)

lemma wrap32_range: "- 2147483648 \<le> wrap32 x \<and> wrap32 x \<le> INT_MAX"
  by (simp add: wrap32_def INT_MAX_def)

lemma c_rem_nonneg [c_arith]: "0 \<le> a \<Longrightarrow> 0 \<le> b \<Longrightarrow> c_rem a b = a mod b"
  by (cases "a = 0") (simp_all add: c_rem_def)

lemma c_rem_range: "0 \<le> a \<Longrightarrow> 0 < b \<Longrightarrow> 0 \<le> c_rem a b \<and> c_rem a b < b"
  by (simp add: c_rem_nonneg)

section \<open>C library functions\<close>

text \<open>
  \<open>atoi\<close>: skip white space, take an optional sign, then the longest run of digits; the
  value is 0 when there is no digit. (The C standard leaves a value outside \<open>int\<close>
  undefined; the model keeps the mathematical value.)
\<close>

definition is_space :: "char \<Rightarrow> bool" where
  "is_space c \<longleftrightarrow> c \<in> {CHR '' '', CHR 0x09, CHR 0x0A, CHR 0x0B, CHR 0x0C, CHR 0x0D}"

definition is_digit :: "char \<Rightarrow> bool" where
  "is_digit c \<longleftrightarrow> 48 \<le> (of_char c :: nat) \<and> (of_char c :: nat) \<le> 57"

fun digits_val :: "int \<Rightarrow> string \<Rightarrow> int" where
  "digits_val acc [] = acc"
| "digits_val acc (c # cs) =
     (if is_digit c then digits_val (10 * acc + (of_char c - 48)) cs else acc)"

definition atoi :: "string \<Rightarrow> int" where
  "atoi s =
     (case dropWhile is_space s of
        [] \<Rightarrow> 0
      | c # cs \<Rightarrow>
          if c = CHR ''-'' then - digits_val 0 cs
          else if c = CHR ''+'' then digits_val 0 cs
          else digits_val 0 (c # cs))"

text \<open>
  \<open>qsort\<close> with a comparison function: some rearrangement of the array in which no element
  compares greater than a later one. On an array of \<open>int\<close>s the result is unique whenever
  the comparison is a total order, so an insertion sort driven by the comparison computes it.
\<close>

fun qsort_insert :: "('a \<Rightarrow> 'a \<Rightarrow> int) \<Rightarrow> 'a \<Rightarrow> 'a list \<Rightarrow> 'a list" where
  "qsort_insert cmp x [] = [x]"
| "qsort_insert cmp x (y # ys) =
     (if cmp x y \<le> 0 then x # y # ys else y # qsort_insert cmp x ys)"

definition qsort :: "('a \<Rightarrow> 'a \<Rightarrow> int) \<Rightarrow> 'a list \<Rightarrow> 'a list" where
  "qsort cmp xs = foldr (qsort_insert cmp) xs []"

lemma mset_qsort_insert: "mset (qsort_insert cmp x ys) = add_mset x (mset ys)"
  by (induction ys) auto

lemma mset_qsort [simp]: "mset (qsort cmp xs) = mset xs"
  by (induction xs) (simp_all add: qsort_def mset_qsort_insert)

lemma length_qsort [simp]: "length (qsort cmp xs) = length xs"
  by (metis mset_qsort size_mset)

lemma set_qsort [simp]: "set (qsort cmp xs) = set xs"
  by (metis mset_qsort set_mset_mset)

lemma qsort_insert_insort:
  assumes "\<And>y. y \<in> set ys \<Longrightarrow> (cmp x y \<le> 0) = (x \<le> y)"
  shows "qsort_insert cmp x ys = insort x ys"
  using assms by (induction ys) auto

lemma qsort_eq_sort:
  fixes xs :: "'a::linorder list"
  assumes "\<And>x y. x \<in> set xs \<Longrightarrow> y \<in> set xs \<Longrightarrow> (cmp x y \<le> 0) = (x \<le> y)"
  shows "qsort cmp xs = sort xs"
  using assms
proof (induction xs)
  case Nil
  show ?case by (simp add: qsort_def)
next
  case (Cons x xs)
  then have "qsort cmp xs = sort xs" by simp
  moreover have "qsort_insert cmp x (sort xs) = insort x (sort xs)"
    using Cons.prems by (intro qsort_insert_insort) simp
  ultimately show ?case by (simp add: qsort_def)
qed

section \<open>Linked chains\<close>

text \<open>
  \<open>chain nx p xs\<close>: following the links \<open>nx\<close> from the pointer \<open>p\<close> (\<open>None\<close> is the null
  pointer) visits exactly the nodes \<open>xs\<close>, in this order, and then reaches the null pointer.
\<close>

fun chain :: "('a \<Rightarrow> 'a option) \<Rightarrow> 'a option \<Rightarrow> 'a list \<Rightarrow> bool" where
  "chain nx p [] \<longleftrightarrow> p = None"
| "chain nx p (x # xs) \<longleftrightarrow> p = Some x \<and> chain nx (nx x) xs"

lemma chain_None [simp]: "chain nx None xs = (xs = [])"
  by (cases xs) auto

lemma chain_Some: "chain nx (Some x) xs \<longleftrightarrow> (\<exists>ys. xs = x # ys \<and> chain nx (nx x) ys)"
  by (cases xs) auto

lemma chain_unique: "chain nx p xs \<Longrightarrow> chain nx p ys \<Longrightarrow> xs = ys"
  by (induction xs arbitrary: p ys) (auto simp: chain_Some)

lemma chain_frame [chain_simps]:
  "y \<notin> set xs \<Longrightarrow> chain (nx(y := v)) p xs = chain nx p xs"
  by (induction xs arbitrary: p) auto

lemma chain_cong:
  "(\<And>x. x \<in> set xs \<Longrightarrow> nx x = nx' x) \<Longrightarrow> chain nx p xs = chain nx' p xs"
  by (induction xs arbitrary: p) auto

lemma chain_last: "chain nx p xs \<Longrightarrow> xs \<noteq> [] \<Longrightarrow> nx (last xs) = None"
  by (induction xs arbitrary: p) (auto split: if_splits)

lemma chain_distinct: "chain nx p xs \<Longrightarrow> distinct xs"
proof (induction xs arbitrary: p)
  case Nil
  then show ?case by simp
next
  case (Cons x xs)
  have sub: "\<exists>zs. chain nx (nx y) zs \<and> length zs < length ys"
    if "chain nx q ys" "y \<in> set ys" for q ys y
    using that by (induction ys arbitrary: q) (auto, metis less_SucI)
  have "x \<notin> set xs"
  proof
    assume "x \<in> set xs"
    then obtain zs where "chain nx (nx x) zs" "length zs < length xs"
      using sub [of "nx x" xs x] Cons.prems by auto
    then show False using chain_unique [of nx "nx x" zs xs] Cons.prems by auto
  qed
  then show ?case using Cons by auto
qed

text \<open>Appending a node behind the last one, and unlinking a node.\<close>

lemma chain_snoc:
  assumes "chain nx p xs" "y \<notin> set xs"
  shows "xs = [] \<Longrightarrow> chain (nx(y := None)) (Some y) (xs @ [y])"
    and "xs \<noteq> [] \<Longrightarrow> chain (nx(last xs := Some y, y := None)) p (xs @ [y])"
proof -
  show "chain (nx(y := None)) (Some y) (xs @ [y])" if "xs = []" using that by simp
  show "chain (nx(last xs := Some y, y := None)) p (xs @ [y])" if "xs \<noteq> []"
    using assms that
  proof (induction xs arbitrary: p)
    case Nil
    then show ?case by simp
  next
    case (Cons x xs)
    have d: "x \<notin> set xs" "x \<noteq> y" using chain_distinct [OF Cons.prems(1)] Cons.prems(2) by auto
    show ?case
    proof (cases "xs = []")
      case True
      then show ?thesis using Cons.prems d by simp
    next
      case False
      then have "last xs \<noteq> x" using d(1) by (metis last_in_set)
      then show ?thesis using Cons False d by auto
    qed
  qed
qed

lemma chain_unlink:
  assumes "chain nx p (xs @ y # ys)"
  shows "xs = [] \<Longrightarrow> chain nx (nx y) ys"
    and "xs \<noteq> [] \<Longrightarrow> chain (nx(last xs := nx y)) p (xs @ ys)"
proof -
  show "chain nx (nx y) ys" if "xs = []" using assms that by simp
  show "chain (nx(last xs := nx y)) p (xs @ ys)" if "xs \<noteq> []"
    using assms that
  proof (induction xs arbitrary: p)
    case Nil
    then show ?case by simp
  next
    case (Cons x xs)
    have d: "distinct (x # xs @ y # ys)" using Cons.prems(1) chain_distinct by fastforce
    show ?case
    proof (cases "xs = []")
      case True
      then have "chain (nx(x := nx y)) (nx y) ys" "nx x = Some y" "p = Some x"
        using Cons.prems d chain_frame [of x ys nx "nx y" "nx y"] by simp_all
      then show ?thesis using True by (simp del: fun_upd_apply) (simp add: fun_upd_def)
    next
      case False
      then have "last xs \<noteq> x" using d by (metis Un_iff distinct.simps(2) last_in_set set_append)
      then show ?thesis using Cons False d by auto
    qed
  qed
qed

end
