(* ===== verification/Disk_Scheduling.thy ===== *)
theory Disk_Scheduling
  imports Complex_Main Prelude
begin

text \<open>
  The disk-scheduling simulator of \<^verbatim>\<open>program_assignment_4\<close>: the request generator, the seven
  scheduling algorithms of \<^verbatim>\<open>disk_scheduling.c\<close>, and the driver \<^verbatim>\<open>main.c\<close>. A C \<open>for\<close> loop
  without an early exit is a \<open>fold\<close> over its index range; a loop with a compound
  condition is a recursive function. The specification side is \<open>travel\<close>, the head movement
  of a service order, and every algorithm is shown to report the movement of an order that
  serves all requests, together with a closed form and a lower bound over all orders.
\<close>

section \<open>The model\<close>

definition CYLINDERS :: int where
  "CYLINDERS = 5000"

definition REQUESTS :: nat where
  "REQUESTS = 1000"

text \<open>\<open>rand i\<close> is the value of the i-th call of the C library's \<open>rand()\<close>.\<close>

definition generate_requests :: "(nat \<Rightarrow> int) \<Rightarrow> int list \<Rightarrow> int list" where
  "generate_requests rand requests =
     fold (\<lambda>i rs. rs[i := c_rem (rand i) CYLINDERS]) [0..<REQUESTS] requests"

definition cmp :: "int \<Rightarrow> int \<Rightarrow> int" where
  "cmp a b = wrap32 (a - b)"

text \<open>The loop body that most algorithms share: move the head to entry \<open>i\<close> of the array.\<close>

definition visit :: "int list \<Rightarrow> nat \<Rightarrow> int \<times> int \<Rightarrow> int \<times> int" where
  "visit a i = (\<lambda>(total_movement, current_position).
     (total_movement + \<bar>a ! i - current_position\<bar>, a ! i))"

definition fcfs :: "int list \<Rightarrow> int \<Rightarrow> int" where
  "fcfs requests initial_position =
     fst (fold (visit requests) [0..<REQUESTS] (0, initial_position))"

definition sstf_closest :: "int list \<Rightarrow> int list \<Rightarrow> int \<Rightarrow> nat \<Rightarrow> int \<times> int \<Rightarrow> int \<times> int" where
  "sstf_closest requests served current_position j = (\<lambda>(closest_index, closest_distance).
     if served ! j \<noteq> 1 then
       (let distance = \<bar>requests ! j - current_position\<bar>
        in if distance < closest_distance then (int j, distance)
           else (closest_index, closest_distance))
     else (closest_index, closest_distance))"

definition sstf_step :: "int list \<Rightarrow> nat \<Rightarrow> int \<times> int \<times> int list \<Rightarrow> int \<times> int \<times> int list" where
  "sstf_step requests i = (\<lambda>(total_movement, current_position, served).
     (case fold (sstf_closest requests served current_position) [0..<REQUESTS]
             (- 1, CYLINDERS + 1) of
        (closest_index, closest_distance) \<Rightarrow>
          if closest_index \<noteq> - 1
          then (total_movement + closest_distance, requests ! nat closest_index,
                served[nat closest_index := 1])
          else (total_movement, current_position, served)))"

definition sstf :: "int list \<Rightarrow> int \<Rightarrow> int" where
  "sstf requests initial_position =
     fst (fold (sstf_step requests) [0..<REQUESTS]
            (0, initial_position, replicate REQUESTS 0))"

text \<open>
  \<open>while (current_position > sorted_requests[start_index] && start_index != REQUESTS - 1)\<close>:
  the index is compared with \<open>!=\<close>, so the loop is a partial function.
\<close>

partial_function (option) scan_start :: "int list \<Rightarrow> int \<Rightarrow> nat \<Rightarrow> nat option" where
  "scan_start sorted_requests current_position start_index =
     (if current_position > sorted_requests ! start_index \<and> start_index \<noteq> REQUESTS - 1
      then scan_start sorted_requests current_position (Suc start_index)
      else Some start_index)"

function scan_right :: "int list \<Rightarrow> nat \<Rightarrow> nat \<Rightarrow> int \<times> int \<times> int list \<Rightarrow> int \<times> int \<times> int list" where
  "scan_right sorted_requests n i (total_movement, current_position, served) =
     (if i < n \<and> served ! i \<noteq> 1
      then scan_right sorted_requests n (Suc i)
             (total_movement + \<bar>current_position - sorted_requests ! i\<bar>,
              sorted_requests ! i, served[i := 1])
      else (total_movement, current_position, served))"
  by pat_completeness auto
termination
  by (relation "measure (\<lambda>(_, n, i, _). n - i)") auto

function scan_left :: "int list \<Rightarrow> int \<Rightarrow> int \<times> int \<times> int list \<Rightarrow> int \<times> int \<times> int list" where
  "scan_left sorted_requests i (total_movement, current_position, served) =
     (if i \<ge> 0 \<and> served ! nat i \<noteq> 1
      then scan_left sorted_requests (i - 1)
             (total_movement + \<bar>current_position - sorted_requests ! nat i\<bar>,
              sorted_requests ! nat i, served[nat i := 1])
      else (total_movement, current_position, served))"
  by pat_completeness auto
termination
  by (relation "measure (\<lambda>(_, i, _). nat (i + 1))") auto

definition scan :: "int list \<Rightarrow> int \<Rightarrow> int option" where
  "scan requests initial_position =
     (let sorted_requests = qsort cmp (requests @ [CYLINDERS - 1]);
          served = replicate (REQUESTS + 1) 0
      in do {
        start_index \<leftarrow> scan_start sorted_requests initial_position 0;
        let st = scan_right sorted_requests (REQUESTS + 1) start_index
                   (0, initial_position, served);
        Some (fst (scan_left sorted_requests (int start_index - 1) st))
      })"

function cscan_start :: "int list \<Rightarrow> nat \<Rightarrow> int \<Rightarrow> nat \<Rightarrow> nat" where
  "cscan_start sorted_requests n current_position start_index =
     (if start_index < n \<and> sorted_requests ! start_index < current_position
      then cscan_start sorted_requests n current_position (Suc start_index)
      else start_index)"
  by pat_completeness auto
termination
  by (relation "measure (\<lambda>(_, n, _, i). n - i)") auto

definition cscan :: "int list \<Rightarrow> int \<Rightarrow> int" where
  "cscan requests initial_position =
     (let sorted_requests = qsort cmp (requests @ [CYLINDERS - 1, 0]);
          start_index = cscan_start sorted_requests (REQUESTS + 2) initial_position 0;
          (total_movement, current_position) =
            fold (visit sorted_requests) [start_index..<REQUESTS + 2] (0, initial_position)
      in if start_index > 0
         then fst (fold (visit sorted_requests) [0..<start_index]
                     (total_movement + (CYLINDERS - 1), 0))
         else total_movement)"

text \<open>
  \<open>look\<close> copies \<open>REQUESTS\<close> integers into an array of that length but sorts
  \<open>REQUESTS + 1\<close> of them: the sort reads and writes the word that lies behind the array.
  That word is the argument \<open>past_end\<close>; the sort moves the largest of all the values into it.
\<close>

definition look :: "int list \<Rightarrow> int \<Rightarrow> int \<Rightarrow> int option" where
  "look requests initial_position past_end =
     (let sorted_requests = take REQUESTS (qsort cmp (requests @ [past_end]));
          served = replicate (REQUESTS + 1) 0
      in do {
        start_index \<leftarrow> scan_start sorted_requests initial_position 0;
        let st = scan_right sorted_requests REQUESTS start_index (0, initial_position, served);
        Some (fst (scan_left sorted_requests (int start_index - 1) st))
      })"

definition clook :: "int list \<Rightarrow> int \<Rightarrow> int" where
  "clook requests initial_position =
     (let sorted_requests = qsort cmp requests;
          start_index = cscan_start sorted_requests REQUESTS initial_position 0
      in fst (fold (visit sorted_requests) [0..<start_index]
                (fold (visit sorted_requests) [start_index..<REQUESTS] (0, initial_position))))"

definition optimal :: "int list \<Rightarrow> int \<Rightarrow> int" where
  "optimal requests initial_position =
     fst (fold (visit (qsort cmp requests)) [0..<REQUESTS] (0, initial_position))"

text \<open>
  The driver. It prints the total and \<open>total / 100.0\<close> for each algorithm; the report keeps
  the label, the total and the latency, in the order of the \<open>printf\<close> calls.
\<close>

datatype disk_outcome =
    Disk_Usage string
  | Disk_Report "(string \<times> int \<times> rat) list"

definition disk_row :: "string \<Rightarrow> int \<Rightarrow> string \<times> int \<times> rat" where
  "disk_row label tot = (label, tot, of_int tot / 100)"

definition disk_main :: "string list \<Rightarrow> (nat \<Rightarrow> int) \<Rightarrow> int \<Rightarrow> disk_outcome option" where
  "disk_main argv rand past_end =
     (if length argv \<noteq> 2 then Some (Disk_Usage (case argv of [] \<Rightarrow> ''(null)'' | name # _ \<Rightarrow> name))
      else do {
        let initial_position = atoi (argv ! 1);
        let requests = generate_requests rand (replicate REQUESTS 0);
        t_scan \<leftarrow> scan requests initial_position;
        t_look \<leftarrow> look requests initial_position past_end;
        Some (Disk_Report
          [disk_row ''FCFS'' (fcfs requests initial_position),
           disk_row ''SSTF'' (sstf requests initial_position),
           disk_row ''SCAN'' t_scan,
           disk_row ''C-SCAN'' (cscan requests initial_position),
           disk_row ''LOOK'' t_look,
           disk_row ''C-LOOK'' (clook requests initial_position),
           disk_row ''Optimal'' (optimal requests initial_position)])
      })"


section \<open>The specification\<close>

text \<open>Head movement of a service order, and the order a shortest-seek-first head follows.\<close>

fun travel :: "int \<Rightarrow> int list \<Rightarrow> int" where
  "travel p [] = 0"
| "travel p (x # xs) = \<bar>x - p\<bar> + travel x xs"

fun greedy_order :: "int \<Rightarrow> int list \<Rightarrow> bool" where
  "greedy_order p [] \<longleftrightarrow> True"
| "greedy_order p (x # xs) \<longleftrightarrow> (\<forall>y\<in>set xs. \<bar>x - p\<bar> \<le> \<bar>y - p\<bar>) \<and> greedy_order x xs"

text \<open>A request array as \<open>main\<close> builds it, and a head position on the disk.\<close>

definition on_disk :: "int \<Rightarrow> bool" where
  "on_disk x \<longleftrightarrow> 0 \<le> x \<and> x < CYLINDERS"

definition valid_requests :: "int list \<Rightarrow> bool" where
  "valid_requests requests \<longleftrightarrow> length requests = REQUESTS \<and> (\<forall>x\<in>set requests. on_disk x)"

section \<open>Lemmas\<close>

lemma REQUESTS_pos [simp]: "0 < REQUESTS"
  by (simp add: REQUESTS_def)

lemma travel_append: "travel p (xs @ ys) = travel p xs + travel (last (p # xs)) ys"
  by (induction xs arbitrary: p) auto

lemma travel_nonneg: "0 \<le> travel p xs"
  by (induction xs arbitrary: p) auto

lemma travel_sorted:
  "sorted xs \<Longrightarrow> xs \<noteq> [] \<Longrightarrow> travel p xs = \<bar>hd xs - p\<bar> + (last xs - hd xs)"
proof (induction xs arbitrary: p)
  case Nil
  then show ?case by simp
next
  case (Cons x xs)
  then show ?case by (cases xs) auto
qed

lemma travel_rev_sorted:
  "sorted xs \<Longrightarrow> xs \<noteq> [] \<Longrightarrow> travel p (rev xs) = \<bar>last xs - p\<bar> + (last xs - hd xs)"
proof (induction xs)
  case Nil
  then show ?case by simp
next
  case (Cons x xs)
  show ?case
  proof (cases "xs = []")
    case True
    then show ?thesis by simp
  next
    case False
    have "travel p (rev (x # xs)) = travel p (rev xs) + \<bar>x - hd xs\<bar>"
      using False by (simp add: travel_append last_rev)
    moreover have "x \<le> hd xs" using Cons.prems False by (cases xs) auto
    ultimately show ?thesis using Cons False by simp
  qed
qed

lemma travel_reaches: "x \<in> set xs \<Longrightarrow> \<bar>x - p\<bar> \<le> travel p xs"
proof (induction xs arbitrary: p)
  case Nil
  then show ?case by simp
next
  case (Cons y ys)
  show ?case
  proof (cases "x = y")
    case True
    then show ?thesis using travel_nonneg [of y ys] by simp
  next
    case False
    then have "\<bar>x - y\<bar> \<le> travel y ys" using Cons by simp
    then show ?thesis by simp
  qed
qed

text \<open>Whoever visits two cylinders walks to the nearer one and then across.\<close>

lemma travel_reaches_both:
  "x \<in> set xs \<Longrightarrow> y \<in> set xs \<Longrightarrow> min \<bar>x - p\<bar> \<bar>y - p\<bar> + \<bar>x - y\<bar> \<le> travel p xs"
proof (induction xs arbitrary: p)
  case Nil
  then show ?case by simp
next
  case (Cons z zs)
  have nn: "0 \<le> travel z zs" by (rule travel_nonneg)
  consider "x = z" "y = z" | "x = z" "y \<in> set zs" | "y = z" "x \<in> set zs"
    | "x \<in> set zs" "y \<in> set zs"
    using Cons.prems by auto
  then show ?case
  proof cases
    case 1
    then show ?thesis using nn by simp
  next
    case 2
    then show ?thesis using travel_reaches [of y zs z] by simp
  next
    case 3
    then show ?thesis using travel_reaches [of x zs z] by simp
  next
    case 4
    then show ?thesis using Cons.IH [of z] by simp
  qed
qed

subsection \<open>Folds over an index range\<close>

lemma fold_visit_range:
  "fold (visit a) [i..<i + n] (t, p) =
     (t + travel p (map ((!) a) [i..<i + n]), last (p # map ((!) a) [i..<i + n]))"
proof (induction n)
  case 0
  then show ?case by simp
next
  case (Suc n)
  then show ?case by (simp add: visit_def travel_append)
qed

lemma map_nth_range: "j \<le> length a \<Longrightarrow> map ((!) a) [i..<j] = drop i (take j a)"
  by (rule nth_equalityI) auto

lemma fold_visit:
  assumes "i \<le> j" "j \<le> length a"
  shows "fold (visit a) [i..<j] (t, p) =
     (t + travel p (drop i (take j a)), last (p # drop i (take j a)))"
  using fold_visit_range [of a i "j - i" t p] assms by (simp add: map_nth_range)

lemma fold_visit_all:
  "length a = n \<Longrightarrow> fst (fold (visit a) [0..<n] (t, p)) = t + travel p a"
  by (simp add: fold_visit)

subsection \<open>Sorting the requests\<close>

lemma cmp_nonneg:
  "0 \<le> x \<Longrightarrow> x \<le> INT_MAX \<Longrightarrow> 0 \<le> y \<Longrightarrow> y \<le> INT_MAX \<Longrightarrow> (cmp x y \<le> 0) = (x \<le> y)"
  by (simp add: cmp_def c_arith INT_MAX_def)

lemma qsort_nonneg: "\<forall>x\<in>set xs. 0 \<le> x \<and> x \<le> INT_MAX \<Longrightarrow> qsort cmp xs = sort xs"
  by (rule qsort_eq_sort) (simp add: cmp_nonneg)

lemma on_disk_int: "on_disk x \<Longrightarrow> 0 \<le> x \<and> x \<le> INT_MAX"
  by (simp add: on_disk_def CYLINDERS_def INT_MAX_def)

lemma qsort_on_disk: "\<forall>x\<in>set xs. on_disk x \<Longrightarrow> qsort cmp xs = sort xs"
  by (rule qsort_nonneg) (simp add: on_disk_int)

lemma valid_nonempty: "valid_requests requests \<Longrightarrow> requests \<noteq> []"
  by (auto simp: valid_requests_def simp flip: length_greater_0_conv)

lemma hd_sorted_Min: "sorted xs \<Longrightarrow> xs \<noteq> [] \<Longrightarrow> hd xs = Min (set xs)"
  by (cases xs) (auto intro!: Min_eqI [symmetric])

lemma last_sorted_Max: "sorted xs \<Longrightarrow> xs \<noteq> [] \<Longrightarrow> last xs = Max (set xs)"
proof (induction xs rule: rev_induct)
  case Nil
  then show ?case by simp
next
  case (snoc x xs)
  then show ?case by (auto simp: sorted_append intro!: Max_eqI [symmetric])
qed

lemma sort_append_max: "\<forall>x\<in>set xs. x \<le> m \<Longrightarrow> sort (xs @ [m]) = sort xs @ [m]"
  by (intro properties_for_sort) (auto simp: sorted_append)

lemma sort_append_min: "\<forall>x\<in>set xs. m \<le> x \<Longrightarrow> sort (xs @ [m]) = m # sort xs"
  by (intro properties_for_sort) auto


subsection \<open>The sweeps\<close>

declare scan_right.simps [simp del] scan_left.simps [simp del] cscan_start.simps [simp del]

lemma scan_start_returns:
  assumes "i \<le> REQUESTS - 1"
  shows "\<exists>k. scan_start a p i = Some k \<and> i \<le> k \<and> k \<le> REQUESTS - 1 \<and>
    (\<forall>j. i \<le> j \<and> j < k \<longrightarrow> a ! j < p) \<and> (k < REQUESTS - 1 \<longrightarrow> p \<le> a ! k)"
  using assms
proof (induction "REQUESTS - 1 - i" arbitrary: i rule: less_induct)
  case less
  show ?case
  proof (cases "a ! i < p \<and> i \<noteq> REQUESTS - 1")
    case False
    then have "scan_start a p i = Some i" by (subst scan_start.simps) auto
    then show ?thesis using False less.prems by auto
  next
    case True
    then have step: "scan_start a p i = scan_start a p (Suc i)"
      by (subst scan_start.simps) simp
    have "REQUESTS - 1 - Suc i < REQUESTS - 1 - i" "Suc i \<le> REQUESTS - 1"
      using True less.prems by auto
    from less.hyps [OF this] obtain k where k: "scan_start a p (Suc i) = Some k" "Suc i \<le> k"
      "k \<le> REQUESTS - 1" "\<forall>j. Suc i \<le> j \<and> j < k \<longrightarrow> a ! j < p" "k < REQUESTS - 1 \<longrightarrow> p \<le> a ! k"
      by blast
    have "a ! j < p" if "i \<le> j" "j < k" for j
      using that k(4) True by (cases "j = i") auto
    then show ?thesis using step k by auto
  qed
qed

lemma scan_right_travel:
  assumes "i \<le> n" "n \<le> length a" "n \<le> length sv" "\<forall>j. i \<le> j \<and> j < n \<longrightarrow> sv ! j \<noteq> 1"
  shows "\<exists>sv'. scan_right a n i (t, c, sv) =
       (t + travel c (drop i (take n a)), last (c # drop i (take n a)), sv') \<and>
     (\<forall>j<i. sv' ! j = sv ! j)"
  using assms
proof (induction "n - i" arbitrary: i t c sv)
  case 0
  then show ?case by (simp add: scan_right.simps)
next
  case (Suc m)
  then have i: "i < n" by simp
  have d: "drop i (take n a) = a ! i # drop (Suc i) (take n a)"
    using i Suc.prems(2) by (simp add: Cons_nth_drop_Suc [symmetric])
  have step: "scan_right a n i (t, c, sv) =
      scan_right a n (Suc i) (t + \<bar>c - a ! i\<bar>, a ! i, sv[i := 1])"
    using i Suc.prems(4) by (subst scan_right.simps) simp
  have "m = n - Suc i" "Suc i \<le> n" "n \<le> length (sv[i := 1])"
    "\<forall>j. Suc i \<le> j \<and> j < n \<longrightarrow> sv[i := 1] ! j \<noteq> 1"
    using Suc.hyps(2) Suc.prems i by auto
  from Suc.hyps(1) [OF this(1,2) Suc.prems(2) this(3,4)] obtain sv' where sv':
    "scan_right a n (Suc i) (t + \<bar>c - a ! i\<bar>, a ! i, sv[i := 1]) =
       (t + \<bar>c - a ! i\<bar> + travel (a ! i) (drop (Suc i) (take n a)),
        last (a ! i # drop (Suc i) (take n a)), sv')"
    "\<forall>j<Suc i. sv' ! j = sv[i := 1] ! j"
    by blast
  then have "\<forall>j<i. sv' ! j = sv ! j" by simp
  then show ?case using sv'(1) step d by (auto simp: abs_minus_commute)
qed

lemma scan_left_travel:
  assumes "k \<le> length a" "\<And>j. j < k \<Longrightarrow> sv ! j \<noteq> 1"
  shows "fst (scan_left a (int k - 1) (t, c, sv)) = t + travel c (rev (take k a))"
  using assms
proof (induction k arbitrary: t c sv)
  case 0
  then show ?case by (simp add: scan_left.simps)
next
  case (Suc k)
  have "scan_left a (int (Suc k) - 1) (t, c, sv) =
      scan_left a (int k - 1) (t + \<bar>c - a ! k\<bar>, a ! k, sv[k := 1])"
    using Suc.prems(2) [of k] by (subst scan_left.simps) simp
  moreover have "sv[k := 1] ! j \<noteq> 1" if "j < k" for j
    using Suc.prems(2) [of j] that by simp
  ultimately show ?case
    using Suc by (simp add: take_Suc_conv_app_nth abs_minus_commute)
qed

text \<open>Both sweeps of \<open>scan\<close> and \<open>look\<close> together: up from \<open>k\<close>, then down from \<open>k - 1\<close>.\<close>

lemma sweep_travel:
  assumes "k \<le> n" "n = length a" "n \<le> m"
  shows "fst (scan_left a (int k - 1) (scan_right a n k (0, p, replicate m 0))) =
    travel p (drop k a @ rev (take k a))"
proof -
  obtain sv where sv: "scan_right a n k (0, p, replicate m 0) =
      (travel p (drop k a), last (p # drop k a), sv)" "\<And>j. j < k \<Longrightarrow> sv ! j = replicate m 0 ! j"
    using scan_right_travel [of k n a "replicate m 0" 0 p] assms by fastforce
  then have "fst (scan_left a (int k - 1) (travel p (drop k a), last (p # drop k a), sv)) =
      travel p (drop k a) + travel (last (p # drop k a)) (rev (take k a))"
    using assms by (intro scan_left_travel) auto
  then show ?thesis by (simp add: sv travel_append)
qed

lemma cscan_start_index:
  assumes "i \<le> n"
  shows "i \<le> cscan_start a n p i" "cscan_start a n p i \<le> n"
    "\<And>j. i \<le> j \<Longrightarrow> j < cscan_start a n p i \<Longrightarrow> a ! j < p"
    "cscan_start a n p i < n \<Longrightarrow> p \<le> a ! cscan_start a n p i"
proof -
  have "i \<le> cscan_start a n p i \<and> cscan_start a n p i \<le> n \<and>
      (\<forall>j. i \<le> j \<and> j < cscan_start a n p i \<longrightarrow> a ! j < p) \<and>
      (cscan_start a n p i < n \<longrightarrow> p \<le> a ! cscan_start a n p i)"
    using assms
  proof (induction a n p i rule: cscan_start.induct)
    case (1 a n p i)
    show ?case
    proof (cases "i < n \<and> a ! i < p")
      case True
      then show ?thesis
        using 1 by (simp add: cscan_start.simps [of a n p i]) (metis Suc_leI le_eq_less_or_eq)
    next
      case False
      then show ?thesis using 1 by (auto simp: cscan_start.simps [of a n p i])
    qed
  qed
  then show "i \<le> cscan_start a n p i" "cscan_start a n p i \<le> n"
    "\<And>j. i \<le> j \<Longrightarrow> j < cscan_start a n p i \<Longrightarrow> a ! j < p"
    "cscan_start a n p i < n \<Longrightarrow> p \<le> a ! cscan_start a n p i"
    by auto
qed


lemma sweep_closed_form:
  assumes "sorted a" "k < length a" "p \<le> a ! k" "\<forall>j<k. a ! j < p"
  shows "travel p (drop k a @ rev (take k a)) =
    (last a - p) + (if k = 0 then 0 else last a - hd a)"
proof -
  have up: "travel p (drop k a) = last a - p"
    using assms travel_sorted [of "drop k a" p] by (simp add: hd_drop_conv_nth)
  have ne: "drop k a \<noteq> []" using assms(2) by simp
  show ?thesis
  proof (cases "k = 0")
    case True
    then show ?thesis using up by simp
  next
    case False
    obtain k' where k': "k = Suc k'" using False by (cases k) auto
    then have "take k a = take k' a @ [a ! k']"
      using assms(2) by (simp add: take_Suc_conv_app_nth)
    then have t: "take k a \<noteq> []" "hd (take k a) = hd a" "last (take k a) = a ! (k - 1)"
      using False k' hd_take [of k a] by auto
    have "a ! (k - 1) \<le> last a"
      using assms(1,2) False by (subst last_conv_nth) (auto intro: sorted_nth_mono)
    then have "travel (last a) (rev (take k a)) = last a - hd a"
      using t travel_rev_sorted [of "take k a" "last a"] assms(1) sorted_wrt_take by fastforce
    then show ?thesis using up ne False by (simp add: travel_append)
  qed
qed

lemma first_at_least:
  assumes "sorted a" "k < length a" "p \<le> a ! k" "\<forall>j<k. a ! j < p"
  shows "(k = 0) = (\<forall>x\<in>set a. p \<le> x)"
proof
  assume "k = 0"
  then have "p \<le> a ! j" if "j < length a" for j
    using assms that sorted_nth_mono [of a 0 j] by force
  then show "\<forall>x\<in>set a. p \<le> x" by (auto simp: in_set_conv_nth)
next
  assume all: "\<forall>x\<in>set a. p \<le> x"
  show "k = 0"
  proof (rule ccontr)
    assume "k \<noteq> 0"
    then have "a ! 0 < p" "a ! 0 \<in> set a" using assms(2,4) by (auto intro!: nth_mem)
    then show False using all by force
  qed
qed

subsection \<open>The shortest-seek head\<close>

fun greedy_before :: "int \<Rightarrow> int list \<Rightarrow> int set \<Rightarrow> bool" where
  "greedy_before p [] R \<longleftrightarrow> True"
| "greedy_before p (x # xs) R \<longleftrightarrow>
     (\<forall>y\<in>set xs \<union> R. \<bar>x - p\<bar> \<le> \<bar>y - p\<bar>) \<and> greedy_before x xs R"

lemma greedy_before_snoc:
  "greedy_before p xs R \<Longrightarrow> x \<in> R \<Longrightarrow> R' \<subseteq> R \<Longrightarrow>
     \<forall>y\<in>R'. \<bar>x - last (p # xs)\<bar> \<le> \<bar>y - last (p # xs)\<bar> \<Longrightarrow> greedy_before p (xs @ [x]) R'"
  by (induction xs arbitrary: p) auto

lemma greedy_before_empty: "greedy_before p xs {} = greedy_order p xs"
  by (induction xs arbitrary: p) auto

definition unserved :: "int list \<Rightarrow> nat set" where
  "unserved sv = {j. j < REQUESTS \<and> sv ! j \<noteq> 1}"

lemma finite_unserved [simp]: "finite (unserved sv)"
  by (simp add: unserved_def)

lemma sstf_closest_fold:
  assumes "\<forall>j<n. \<bar>rs ! j - c\<bar> < CYLINDERS + 1"
  shows "case fold (sstf_closest rs sv c) [0..<n] (- 1, CYLINDERS + 1) of (ci, cd) \<Rightarrow>
    (if \<forall>j<n. sv ! j = 1 then ci = - 1 \<and> cd = CYLINDERS + 1
     else 0 \<le> ci \<and> nat ci < n \<and> sv ! nat ci \<noteq> 1 \<and> cd = \<bar>rs ! nat ci - c\<bar> \<and>
       (\<forall>j<n. sv ! j \<noteq> 1 \<longrightarrow> cd \<le> \<bar>rs ! j - c\<bar>))"
  using assms
proof (induction n)
  case 0
  then show ?case by simp
next
  case (Suc n)
  then have IH: "case fold (sstf_closest rs sv c) [0..<n] (- 1, CYLINDERS + 1) of (ci, cd) \<Rightarrow>
    (if \<forall>j<n. sv ! j = 1 then ci = - 1 \<and> cd = CYLINDERS + 1
     else 0 \<le> ci \<and> nat ci < n \<and> sv ! nat ci \<noteq> 1 \<and> cd = \<bar>rs ! nat ci - c\<bar> \<and>
       (\<forall>j<n. sv ! j \<noteq> 1 \<longrightarrow> cd \<le> \<bar>rs ! j - c\<bar>))"
    by simp
  obtain ci cd where f: "fold (sstf_closest rs sv c) [0..<n] (- 1, CYLINDERS + 1) = (ci, cd)"
    by fastforce
  have n: "\<bar>rs ! n - c\<bar> < CYLINDERS + 1" using Suc.prems by simp
  have g: "fold (sstf_closest rs sv c) [0..<Suc n] (- 1, CYLINDERS + 1) =
      sstf_closest rs sv c n (ci, cd)"
    by (simp add: f)
  show ?case
    using IH n unfolding f g by (auto simp: sstf_closest_def Let_def less_Suc_eq split: if_splits)
qed

lemma sstf_step_serves:
  assumes "\<forall>x\<in>set rs. on_disk x" "length rs = REQUESTS" "on_disk c" "length sv = REQUESTS"
    and "unserved sv \<noteq> {}"
  shows "\<exists>k\<in>unserved sv. (\<forall>j\<in>unserved sv. \<bar>rs ! k - c\<bar> \<le> \<bar>rs ! j - c\<bar>) \<and>
    sstf_step rs i (t, c, sv) = (t + \<bar>rs ! k - c\<bar>, rs ! k, sv[k := 1])"
proof -
  have near: "\<forall>j<REQUESTS. \<bar>rs ! j - c\<bar> < CYLINDERS + 1"
  proof (intro allI impI)
    fix j
    assume "j < REQUESTS"
    then have "on_disk (rs ! j)" using assms(1,2) by simp
    then show "\<bar>rs ! j - c\<bar> < CYLINDERS + 1" using assms(3) by (auto simp: on_disk_def)
  qed
  obtain ci cd where f:
    "fold (sstf_closest rs sv c) [0..<REQUESTS] (- 1, CYLINDERS + 1) = (ci, cd)"
    by fastforce
  have some: "\<not> (\<forall>j<REQUESTS. sv ! j = 1)" using assms(5) by (auto simp: unserved_def)
  have "0 \<le> ci" "nat ci \<in> unserved sv" "cd = \<bar>rs ! nat ci - c\<bar>"
    "\<forall>j\<in>unserved sv. cd \<le> \<bar>rs ! j - c\<bar>"
    using sstf_closest_fold [OF near, of sv] unfolding f prod.case if_not_P [OF some]
    by (auto simp: unserved_def)
  then show ?thesis by (intro bexI [of _ "nat ci"]) (auto simp: sstf_step_def f)
qed

lemma unserved_update:
  "length sv = REQUESTS \<Longrightarrow> k \<in> unserved sv \<Longrightarrow> unserved (sv[k := 1]) = unserved sv - {k}"
  by (auto simp: unserved_def nth_list_update)

definition sstf_inv :: "int list \<Rightarrow> int \<Rightarrow> nat \<Rightarrow> int \<times> int \<times> int list \<Rightarrow> bool" where
  "sstf_inv rs p n = (\<lambda>(t, c, sv). length sv = REQUESTS \<and> card (unserved sv) = REQUESTS - n \<and>
     on_disk c \<and> (\<exists>ys. t = travel p ys \<and> c = last (p # ys) \<and>
       mset ys + image_mset ((!) rs) (mset_set (unserved sv)) = mset rs \<and>
       greedy_before p ys ((!) rs ` unserved sv)))"

lemma sstf_inv_step:
  assumes valid: "valid_requests rs" and "n < REQUESTS" and inv: "sstf_inv rs p n st"
  shows "sstf_inv rs p (Suc n) (sstf_step rs n st)"
proof -
  obtain t c sv where st: "st = (t, c, sv)" by (cases st) auto
  from inv obtain ys where len: "length sv = REQUESTS" "card (unserved sv) = REQUESTS - n" "on_disk c"
    and ys: "t = travel p ys" "c = last (p # ys)"
      "mset ys + image_mset ((!) rs) (mset_set (unserved sv)) = mset rs"
      "greedy_before p ys ((!) rs ` unserved sv)"
    by (auto simp: sstf_inv_def st)
  have ne: "unserved sv \<noteq> {}" using len(2) assms(2) by (metis card.empty zero_less_diff less_irrefl)
  have rs: "\<forall>x\<in>set rs. on_disk x" "length rs = REQUESTS" using valid by (auto simp: valid_requests_def)
  obtain k where k: "k \<in> unserved sv" "\<forall>j\<in>unserved sv. \<bar>rs ! k - c\<bar> \<le> \<bar>rs ! j - c\<bar>"
    "sstf_step rs n (t, c, sv) = (t + \<bar>rs ! k - c\<bar>, rs ! k, sv[k := 1])"
    using sstf_step_serves [OF rs len(3,1) ne] by blast
  have U: "unserved (sv[k := 1]) = unserved sv - {k}" using unserved_update len(1) k(1) by blast
  have "mset_set (unserved sv) = add_mset k (mset_set (unserved sv - {k}))"
    using k(1) by (simp add: mset_set.remove)
  then have ms: "mset (ys @ [rs ! k]) + image_mset ((!) rs) (mset_set (unserved sv - {k})) = mset rs"
    using ys(3) by simp
  have "greedy_before p (ys @ [rs ! k]) ((!) rs ` (unserved sv - {k}))"
    using ys(4) k(1,2) ys(2) by (intro greedy_before_snoc [OF ys(4)]) auto
  moreover have "on_disk (rs ! k)" using k(1) rs by (auto simp: unserved_def)
  moreover have "card (unserved sv - {k}) = REQUESTS - Suc n" using len(2) k(1) by simp
  moreover have "t + \<bar>rs ! k - c\<bar> = travel p (ys @ [rs ! k])"
    using ys(1,2) by (simp add: travel_append)
  ultimately have "sstf_inv rs p (Suc n) (t + \<bar>rs ! k - c\<bar>, rs ! k, sv[k := 1])"
    using len(1) ms unfolding sstf_inv_def prod.case U
    by (intro conjI exI [of _ "ys @ [rs ! k]"]) simp_all
  then show ?thesis by (simp only: st k(3))
qed

lemma sstf_inv_fold:
  assumes "valid_requests rs" "n \<le> REQUESTS" "on_disk p"
  shows "sstf_inv rs p n (fold (sstf_step rs) [0..<n] (0, p, replicate REQUESTS 0))"
  using assms(2)
proof (induction n)
  case 0
  have U: "unserved (replicate REQUESTS 0) = {0..<REQUESTS}" by (auto simp: unserved_def)
  have "image_mset ((!) rs) (mset_set {0..<REQUESTS}) = mset rs"
    using assms(1) by (metis map_nth mset_map mset_upt valid_requests_def)
  then show ?case using assms(3) by (auto simp: sstf_inv_def U intro!: exI [of _ "[]"])
next
  case (Suc n)
  then show ?case using sstf_inv_step [OF assms(1), of n p] by simp
qed


subsection \<open>The sorted request array\<close>

lemma valid_sorted:
  assumes "valid_requests requests"
  shows "length (sort requests) = REQUESTS" "sort requests \<noteq> []"
    "hd (sort requests) = Min (set requests)" "last (sort requests) = Max (set requests)"
    "sort requests ! (REQUESTS - 1) = Max (set requests)" "qsort cmp requests = sort requests"
    "Min (set requests) \<le> Max (set requests)" "0 \<le> Min (set requests)" "Max (set requests) \<le> 4999"
proof -
  have ne: "requests \<noteq> []" using assms by (rule valid_nonempty)
  show len: "length (sort requests) = REQUESTS" using assms by (simp add: valid_requests_def)
  show sne: "sort requests \<noteq> []" using ne by (simp flip: set_empty)
  show "hd (sort requests) = Min (set requests)" using hd_sorted_Min [OF sorted_sort sne] by simp
  show la: "last (sort requests) = Max (set requests)"
    using last_sorted_Max [OF sorted_sort sne] by simp
  then show "sort requests ! (REQUESTS - 1) = Max (set requests)"
    using sne len by (simp add: last_conv_nth)
  show "qsort cmp requests = sort requests"
    using assms by (simp add: valid_requests_def qsort_on_disk)
  have "Min (set requests) \<in> set requests" "Max (set requests) \<in> set requests" using ne by simp_all
  then show "Min (set requests) \<le> Max (set requests)" "0 \<le> Min (set requests)"
    "Max (set requests) \<le> 4999"
    using assms by (auto simp: valid_requests_def on_disk_def CYLINDERS_def)
qed

lemma valid_sorted_le:
  "valid_requests requests \<Longrightarrow> j < REQUESTS \<Longrightarrow> sort requests ! j \<le> Max (set requests)"
  using valid_sorted(1) [of requests] by (metis List.finite_set Max_ge nth_mem set_sort)

lemma valid_split:
  assumes "valid_requests requests"
  shows "drop (REQUESTS - 1) (sort requests @ ext) = Max (set requests) # ext"
    "take (REQUESTS - 1) (sort requests @ ext) = butlast (sort requests)"
proof -
  have "sort requests = butlast (sort requests) @ [Max (set requests)]"
    using append_butlast_last_id [OF valid_sorted(2) [OF assms]] valid_sorted(4) [OF assms] by simp
  moreover have "length (butlast (sort requests)) = REQUESTS - 1"
    using valid_sorted(1) [OF assms] by simp
  ultimately show "drop (REQUESTS - 1) (sort requests @ ext) = Max (set requests) # ext"
    "take (REQUESTS - 1) (sort requests @ ext) = butlast (sort requests)"
    by (metis append.assoc append_Cons append_Nil append_eq_conv_conj)+
qed

lemma valid_butlast:
  assumes "valid_requests requests"
  shows "butlast (sort requests) \<noteq> []" "hd (butlast (sort requests)) = Min (set requests)"
    "last (butlast (sort requests)) \<le> Max (set requests)" "sorted (butlast (sort requests))"
proof -
  let ?b = "butlast (sort requests)"
  have "length ?b = 999" using valid_sorted(1) [OF assms] by (simp add: REQUESTS_def)
  then show ne: "?b \<noteq> []" by (metis list.size(3) zero_neq_numeral)
  have split: "sort requests = ?b @ [Max (set requests)]"
    using append_butlast_last_id [OF valid_sorted(2) [OF assms]] valid_sorted(4) [OF assms] by simp
  then show "hd ?b = Min (set requests)" using ne valid_sorted(3) [OF assms] by (metis hd_append2)
  have "sorted (?b @ [Max (set requests)])" using split sorted_sort [of requests] by metis
  then show "last ?b \<le> Max (set requests)" "sorted ?b" using ne by (simp_all add: sorted_append)
qed

lemma all_ge_Min: "xs \<noteq> [] \<Longrightarrow> (\<forall>x\<in>set xs. p \<le> x) = (p \<le> Min (set xs))" for p :: int
  by simp

text \<open>Both sweeps over \<open>sort requests @ tl\<close> from the index the start search returns.\<close>

lemma sweep_from_start:
  assumes valid: "valid_requests requests" and a: "a = sort requests @ ext" "sorted a"
    and k: "scan_start a p 0 = Some k" and p: "p \<le> Max (set requests)"
  shows "travel p (drop k a @ rev (take k a)) =
    (last a - p) + (if Min (set requests) < p then last a - Min (set requests) else 0)"
proof -
  note vs = valid_sorted [OF valid]
  have kk: "k \<le> REQUESTS - 1" "\<forall>j<k. a ! j < p" "k < REQUESTS - 1 \<longrightarrow> p \<le> a ! k"
    using scan_start_returns [of 0 a p] k by auto
  have R: "REQUESTS - 1 < REQUESTS" "k < REQUESTS" using REQUESTS_pos kk(1) by linarith+
  have lt: "k < length a" using vs(1) a(1) R by simp
  have "a ! (REQUESTS - 1) = Max (set requests)"
    using a(1) vs(1,5) R by (simp add: nth_append)
  then have pk: "p \<le> a ! k" using kk(1,3) p by (cases "k = REQUESTS - 1") auto
  have hd: "hd a = Min (set requests)" using a(1) vs(2,3) by simp
  have "(k = 0) = (\<forall>x\<in>set a. p \<le> x)" by (rule first_at_least [OF a(2) lt pk kk(2)])
  also have "\<dots> = (p \<le> hd a)"
    using lt hd_sorted_Min [OF a(2)] all_ge_Min [of a p] by (metis length_0_conv not_less_zero)
  finally show ?thesis
    using sweep_closed_form [OF a(2) lt pk kk(2)] hd by auto
qed

lemma start_above_all:
  assumes "valid_requests requests" "scan_start (sort requests @ ext) p 0 = Some k"
    "Max (set requests) < p"
  shows "k = REQUESTS - 1"
proof (rule ccontr)
  assume ne: "k \<noteq> REQUESTS - 1"
  have kk: "k \<le> REQUESTS - 1" "k < REQUESTS - 1 \<longrightarrow> p \<le> (sort requests @ ext) ! k"
    using scan_start_returns [of 0 "sort requests @ ext" p] assms(2) by auto
  then have "k < REQUESTS" using REQUESTS_pos by linarith
  moreover have "p \<le> sort requests ! k"
    using kk ne \<open>k < REQUESTS\<close> valid_sorted(1) [OF assms(1)] by (auto simp: nth_append)
  ultimately have "k < REQUESTS" "p \<le> sort requests ! k" .
  then show False using valid_sorted_le [OF assms(1), of k] assms(3) by simp
qed

lemma set_take_below:
  assumes "sorted a" "k \<le> length a" "\<forall>j<k. a ! j < p" "k < length a \<longrightarrow> p \<le> a ! k"
  shows "set (take k a) = {x \<in> set a. x < p}"
proof -
  have above: "p \<le> x" if "x \<in> set (drop k a)" for x
  proof -
    obtain j where j: "j < length a - k" "x = a ! (k + j)" using \<open>x \<in> set (drop k a)\<close>
      by (auto simp: in_set_conv_nth)
    then have "a ! k \<le> x" using assms(1) by (auto intro: sorted_nth_mono)
    then show ?thesis using assms(4) j(1) by (cases "k < length a") auto
  qed
  have below: "x < p" if "x \<in> set (take k a)" for x
    using that assms(2,3) by (auto simp: in_set_conv_nth)
  have parts: "set a = set (take k a) \<union> set (drop k a)"
    by (metis append_take_drop_id set_append)
  show ?thesis
  proof (intro set_eqI iffI)
    show "x \<in> {x \<in> set a. x < p}" if "x \<in> set (take k a)" for x
      using that below parts by blast
    show "x \<in> set (take k a)" if "x \<in> {x \<in> set a. x < p}" for x
      using that above [of x] parts by auto
  qed
qed

text \<open>One upward sweep from the first entry at or above the head.\<close>

lemma travel_upwards:
  assumes "sorted a" "k < length a" "p \<le> a ! k"
  shows "travel p (drop k a) = last a - p"
  using assms travel_sorted [of "drop k a" p] by (simp add: hd_drop_conv_nth)

lemma travel_prefix:
  assumes "sorted a" "0 < k" "k \<le> length a"
  shows "travel q (take k a) = \<bar>hd a - q\<bar> + (Max (set (take k a)) - hd a)"
proof -
  have "take k a \<noteq> []" "sorted (take k a)" using assms by (auto simp: sorted_wrt_take)
  then show ?thesis
    using travel_sorted [of "take k a" q] last_sorted_Max [of "take k a"] hd_take [of k a] assms(2)
    by simp
qed

lemma travel_on_disk:
  "on_disk p \<Longrightarrow> \<forall>x\<in>set xs. on_disk x \<Longrightarrow> travel p xs \<le> 4999 * int (length xs)"
proof (induction xs arbitrary: p)
  case Nil
  then show ?case by simp
next
  case (Cons x xs)
  then have "travel x xs \<le> 4999 * int (length xs)" by simp
  moreover have "\<bar>x - p\<bar> \<le> 4999" using Cons.prems by (auto simp: on_disk_def CYLINDERS_def)
  ultimately show ?case by simp
qed

subsection \<open>The four long sweeps\<close>

lemma sstf_order:
  assumes "valid_requests requests" "on_disk p"
  shows "\<exists>ys. mset ys = mset requests \<and> greedy_order p ys \<and> sstf requests p = travel p ys"
proof -
  let ?st = "fold (sstf_step requests) [0..<REQUESTS] (0, p, replicate REQUESTS 0)"
  obtain t c sv where st: "?st = (t, c, sv)" by (cases ?st) auto
  have "sstf_inv requests p REQUESTS ?st" using assms by (intro sstf_inv_fold) simp_all
  then obtain ys where ys: "card (unserved sv) = 0" "t = travel p ys"
    "mset ys + image_mset ((!) requests) (mset_set (unserved sv)) = mset requests"
    "greedy_before p ys ((!) requests ` unserved sv)"
    unfolding st sstf_inv_def by auto
  then have "unserved sv = {}" by simp
  with ys have "mset ys = mset requests" "greedy_order p ys" "sstf requests p = travel p ys"
    by (simp_all add: sstf_def st greedy_before_empty)
  then show ?thesis by blast
qed

lemma scan_value:
  assumes "valid_requests requests" "on_disk p"
  shows "scan requests p = Some
    (let lo = Min (set requests); hi = Max (set requests) in
     if p \<le> hi then (4999 - p) + (if lo < p then 4999 - lo else 0)
     else (p - hi) + (4999 - hi) + (4999 - lo))"
proof -
  note vs = valid_sorted [OF assms(1)]
  let ?s = "sort requests" and ?lo = "Min (set requests)" and ?hi = "Max (set requests)"
  let ?a = "?s @ [4999]"
  have "\<forall>x\<in>set requests. x \<le> 4999"
    using assms(1) by (auto simp: valid_requests_def on_disk_def CYLINDERS_def)
  then have a: "qsort cmp (requests @ [CYLINDERS - 1]) = ?a" "sorted ?a"
    using assms(1) by (auto simp: qsort_on_disk valid_requests_def on_disk_def CYLINDERS_def
        sort_append_max sorted_append)
  obtain k where k: "scan_start ?a p 0 = Some k" "k \<le> REQUESTS - 1"
    using scan_start_returns [of 0 ?a p] by auto
  have "scan requests p = Some (travel p (drop k ?a @ rev (take k ?a)))"
    using sweep_travel [of k "REQUESTS + 1" ?a "REQUESTS + 1" p] k vs(1)
    by (simp add: scan_def a(1))
  moreover have "travel p (drop k ?a @ rev (take k ?a)) =
      (if p \<le> ?hi then (4999 - p) + (if ?lo < p then 4999 - ?lo else 0)
       else (p - ?hi) + (4999 - ?hi) + (4999 - ?lo))"
  proof (cases "p \<le> ?hi")
    case True
    then show ?thesis using sweep_from_start [OF assms(1) refl a(2) k(1)] by simp
  next
    case False
    then have "k = REQUESTS - 1" using start_above_all [OF assms(1) k(1)] by simp
    then have dr: "drop k ?a = [?hi, 4999]" "take k ?a = butlast ?s"
      using valid_split [OF assms(1), of "[4999]"] by simp_all
    note bl = valid_butlast [OF assms(1)]
    have "last (butlast ?s) \<le> 4999" using bl(3) vs(9) by linarith
    then have "travel 4999 (rev (butlast ?s)) = 4999 - ?lo"
      using travel_rev_sorted [of "butlast ?s" 4999] bl by simp
    then show ?thesis using False vs(9) unfolding dr by simp
  qed
  ultimately show ?thesis by (simp add: Let_def)
qed

lemma cscan_value:
  assumes "valid_requests requests" "on_disk p"
  shows "cscan requests p =
    (if p = 0 then 4999
     else (4999 - p) + 4999 + Max (insert 0 {x \<in> set requests. x < p}))"
proof -
  note vs = valid_sorted [OF assms(1)]
  let ?a = "0 # sort requests @ [4999]"
  have rng: "\<forall>x\<in>set requests. 0 \<le> x \<and> x \<le> 4999"
    using assms(1) by (auto simp: valid_requests_def on_disk_def CYLINDERS_def)
  then have sa: "sorted ?a" by (auto simp: sorted_append)
  have "sort ((requests @ [4999]) @ [0]) = 0 # sort (requests @ [4999])"
    using rng by (intro sort_append_min) auto
  moreover have "sort (requests @ [4999]) = sort requests @ [4999]"
    using rng by (intro sort_append_max) auto
  ultimately have a: "qsort cmp (requests @ [CYLINDERS - 1, 0]) = ?a"
    using rng by (subst qsort_nonneg) (auto simp: CYLINDERS_def INT_MAX_def)
  have len: "length ?a = REQUESTS + 2" using vs(1) by simp
  define k where "k = cscan_start ?a (REQUESTS + 2) p 0"
  note kk = cscan_start_index [where i = 0 and n = "REQUESTS + 2" and a = ?a and p = p, folded k_def]
  have pr: "0 \<le> p" "p \<le> 4999" using assms(2) by (auto simp: on_disk_def CYLINDERS_def)
  have "k \<noteq> REQUESTS + 2"
  proof
    assume "k = REQUESTS + 2"
    then have "?a ! (REQUESTS + 1) < p" using kk(3) [of "REQUESTS + 1"] by simp
    then show False using pr vs(1) by (simp add: nth_append)
  qed
  then have k: "k < length ?a" "p \<le> ?a ! k" "\<forall>j<k. ?a ! j < p" using kk len by auto
  have k0: "(k = 0) = (p = 0)" using first_at_least [OF sa k] pr rng by auto
  have up: "fold (visit ?a) [k..<REQUESTS + 2] (0, p) = (4999 - p, last (p # drop k ?a))"
    using fold_visit [of k "REQUESTS + 2" ?a 0 p] k(1) len travel_upwards [OF sa k(1,2)] by simp
  have cs: "cscan requests p =
      (if k > 0 then fst (fold (visit ?a) [0..<k] (4999 - p + 4999, 0)) else 4999 - p)"
    unfolding cscan_def Let_def a k_def [symmetric] up by (simp add: CYLINDERS_def)
  show ?thesis
  proof (cases "p = 0")
    case True
    then show ?thesis using k0 cs by simp
  next
    case False
    then have kp: "0 < k" using k0 by simp
    have "set (take k ?a) = {x \<in> set ?a. x < p}"
      using set_take_below [OF sa] k by simp
    also have "\<dots> = insert 0 {x \<in> set requests. x < p}" using False pr by auto
    finally have "travel 0 (take k ?a) = Max (insert 0 {x \<in> set requests. x < p})"
      using travel_prefix [OF sa kp, of 0] k(1) by simp
    then have "fst (fold (visit ?a) [0..<k] (4999 - p + 4999, 0)) =
        4999 - p + 4999 + Max (insert 0 {x \<in> set requests. x < p})"
      using fold_visit [of 0 k ?a "4999 - p + 4999" 0] k(1) by simp
    then show ?thesis using False kp by (simp add: cs)
  qed
qed

lemma clook_order:
  assumes "valid_requests requests"
  shows "\<exists>k\<le>REQUESTS. (\<forall>j<k. sort requests ! j < p) \<and> (k < REQUESTS \<longrightarrow> p \<le> sort requests ! k) \<and>
    clook requests p = travel p (drop k (sort requests) @ take k (sort requests))"
proof -
  note vs = valid_sorted [OF assms]
  let ?s = "sort requests"
  define k where "k = cscan_start ?s REQUESTS p 0"
  note kk = cscan_start_index [where i = 0 and n = REQUESTS and a = ?s and p = p, folded k_def]
  have ks: "k \<le> length ?s" "\<forall>j<k. ?s ! j < p" "k < length ?s \<longrightarrow> p \<le> ?s ! k" using kk vs(1) by auto
  have up: "fold (visit ?s) [k..<REQUESTS] (0, p) = (travel p (drop k ?s), last (p # drop k ?s))"
    using fold_visit [of k REQUESTS ?s 0 p] kk(2) vs(1) by simp
  have tot: "clook requests p = travel p (drop k ?s @ take k ?s)"
    using fold_visit [of 0 k ?s] ks(1)
    unfolding clook_def Let_def vs(6) k_def [symmetric] up by (simp add: travel_append)
  show ?thesis using kk ks tot vs(1) by (intro exI [of _ k]) simp
qed

section \<open>The interface of a scheduling algorithm\<close>

text \<open>
  What a caller of a scheduling function relies on: the number it returns is the head
  movement of some order that serves every request exactly once. Range and lower bound
  follow once for all algorithms that keep this promise.
\<close>

locale seek_algorithm =
  fixes alg :: "int list \<Rightarrow> int \<Rightarrow> int"
  assumes serves_all: "valid_requests requests \<Longrightarrow> on_disk p \<Longrightarrow>
    \<exists>ys. mset ys = mset requests \<and> alg requests p = travel p ys"
begin

lemma in_range:
  assumes "valid_requests requests" "on_disk p"
  shows "alg requests p \<in> {0..INT_MAX}"
proof -
  obtain ys where ys: "mset ys = mset requests" "alg requests p = travel p ys"
    using serves_all [OF assms] by blast
  have "set ys = set requests" "length ys = REQUESTS"
    using mset_eq_setD [OF ys(1)] mset_eq_length [OF ys(1)] assms(1)
    by (simp_all add: valid_requests_def)
  then have "travel p ys \<le> 4999 * int REQUESTS"
    using travel_on_disk [OF assms(2), of ys] assms(1) by (simp add: valid_requests_def)
  then show ?thesis using travel_nonneg [of p ys] ys(2) by (simp add: REQUESTS_def INT_MAX_def)
qed

lemma lower_bound:
  assumes "valid_requests requests" "on_disk p"
  shows "min \<bar>Min (set requests) - p\<bar> \<bar>Max (set requests) - p\<bar> +
    (Max (set requests) - Min (set requests)) \<le> alg requests p"
proof -
  obtain ys where ys: "mset ys = mset requests" "alg requests p = travel p ys"
    using serves_all [OF assms] by blast
  have "set ys = set requests" using mset_eq_setD [OF ys(1)] .
  then have "Min (set requests) \<in> set ys" "Max (set requests) \<in> set ys"
    using valid_nonempty [OF assms(1)] by simp_all
  from travel_reaches_both [OF this, of p] show ?thesis
    using ys(2) valid_sorted(7) [OF assms(1)] by simp
qed

end

interpretation fcfs: seek_algorithm fcfs
  by unfold_locales (auto simp: fcfs_def fold_visit_all valid_requests_def)

interpretation sstf: seek_algorithm sstf
  by unfold_locales (use sstf_order in blast)

interpretation optimal: seek_algorithm optimal
proof
  show "\<exists>ys. mset ys = mset requests \<and> optimal requests p = travel p ys"
    if "valid_requests requests" "on_disk p" for requests p
    using valid_sorted(1,6) [OF that(1)]
    by (intro exI [of _ "sort requests"]) (simp add: optimal_def fold_visit_all)
qed

interpretation clook: seek_algorithm clook
proof
  show "\<exists>ys. mset ys = mset requests \<and> clook requests p = travel p ys"
    if valid: "valid_requests requests" "on_disk p" for requests p
  proof -
    obtain k where "clook requests p = travel p (drop k (sort requests) @ take k (sort requests))"
      using clook_order [OF valid(1)] by blast
    moreover have "mset (drop k (sort requests) @ take k (sort requests)) = mset requests"
      by (metis add.commute append_take_drop_id mset_append mset_sort)
    ultimately show ?thesis by blast
  qed
qed

section \<open>Properties\<close>

text \<open>The generator fills the array with 1000 on-disk cylinders: entry \<open>i\<close> is the i-th
  value of \<open>rand()\<close> reduced modulo 5000 (\<open>rand()\<close> is documented to be nonnegative).\<close>

theorem generate_requests_valid:
  assumes "\<forall>i. 0 \<le> rand i"
  shows "valid_requests (generate_requests rand (replicate REQUESTS 0)) \<and>
    (\<forall>i<REQUESTS. generate_requests rand (replicate REQUESTS 0) ! i = rand i mod CYLINDERS)"
proof -
  have upd: "length (fold (\<lambda>i rs. rs[i := f i]) [0..<n] xs) = length xs \<and>
      (\<forall>i<length xs. fold (\<lambda>i rs. rs[i := f i]) [0..<n] xs ! i = (if i < n then f i else xs ! i))"
    for f :: "nat \<Rightarrow> int" and n xs
    by (induction n) (auto simp: nth_list_update less_Suc_eq)
  have eq: "generate_requests rand (replicate REQUESTS 0) ! i = rand i mod CYLINDERS"
    if "i < REQUESTS" for i
    using upd [of "\<lambda>i. c_rem (rand i) CYLINDERS" REQUESTS "replicate REQUESTS 0"] that assms
    by (simp add: generate_requests_def c_arith CYLINDERS_def)
  moreover have "length (generate_requests rand (replicate REQUESTS 0)) = REQUESTS"
    using upd [of "\<lambda>i. c_rem (rand i) CYLINDERS" REQUESTS "replicate REQUESTS 0"]
    by (simp add: generate_requests_def)
  ultimately show ?thesis
    by (auto simp: valid_requests_def on_disk_def in_set_conv_nth CYLINDERS_def)
qed

theorem generate_requests_valid_witness:
  "valid_requests (generate_requests (\<lambda>i. 7 * int i) (replicate REQUESTS 0)) \<and>
   generate_requests (\<lambda>i. 7 * int i) (replicate REQUESTS 0) ! 999 = 1993"
proof -
  have "999 < REQUESTS" by (simp add: REQUESTS_def)
  then show ?thesis
    using generate_requests_valid [of "\<lambda>i. 7 * int i"] by (simp add: CYLINDERS_def)
qed

text \<open>FCFS reports the head movement of serving the requests in arrival order.\<close>

theorem fcfs_serves_in_order:
  assumes "length requests = REQUESTS"
  shows "fcfs requests p = travel p requests"
  using assms by (simp add: fcfs_def fold_visit_all)

theorem fcfs_serves_in_order_witness:
  "fcfs (replicate REQUESTS 53) 50 = travel 50 (replicate REQUESTS 53)"
  by (rule fcfs_serves_in_order) simp

text \<open>C37. SSTF serves every request exactly once, always moving to a nearest unserved one,
  and reports the movement of that order.\<close>

theorem sstf_serves_nearest_first:
  assumes "valid_requests requests" "on_disk p"
  shows "\<exists>ys. mset ys = mset requests \<and> greedy_order p ys \<and> sstf requests p = travel p ys"
  using assms by (rule sstf_order)

theorem sstf_serves_nearest_first_witness:
  "\<exists>ys. mset ys = mset (replicate REQUESTS 98) \<and> greedy_order 53 ys \<and>
     sstf (replicate REQUESTS 98) 53 = travel 53 ys"
  by (rule sstf_serves_nearest_first) (auto simp: valid_requests_def on_disk_def CYLINDERS_def)


text \<open>SCAN serves the requests and the last cylinder. With the head at or below the
  highest request it sweeps up to cylinder 4999 and, if a request lies below the head, back
  down to the lowest one. With the head above every request the start search stops one entry
  too early, so the head first goes down to the highest request and then up again, a detour
  of twice that distance. The search loop always ends.\<close>

theorem scan_total_movement:
  assumes "valid_requests requests" "on_disk p"
  shows "scan requests p = Some
    (let lo = Min (set requests); hi = Max (set requests) in
     if p \<le> hi then (4999 - p) + (if lo < p then 4999 - lo else 0)
     else (p - hi) + (4999 - hi) + (4999 - lo))"
  using assms by (rule scan_value)

theorem scan_total_movement_witness:
  "scan (replicate REQUESTS 10) 100 = Some (90 + 4989 + 4989) \<and>
   scan (replicate REQUESTS 100) 10 = Some 4989"
  using scan_total_movement [of "replicate REQUESTS 10" 100]
    scan_total_movement [of "replicate REQUESTS 100" 10]
  by (simp add: valid_requests_def on_disk_def CYLINDERS_def)

text \<open>C-SCAN: from cylinder 0 one sweep to 4999; otherwise the sweep to 4999, the jump
  back to 0, and a second sweep to the highest request below the starting position.\<close>

theorem cscan_total_movement:
  assumes "valid_requests requests" "on_disk p"
  shows "cscan requests p =
    (if p = 0 then 4999
     else (4999 - p) + 4999 + Max (insert 0 {x \<in> set requests. x < p}))"
  using assms by (rule cscan_value)

theorem cscan_total_movement_witness:
  "cscan (replicate REQUESTS 10) 100 = 4899 + 4999 + 10"
proof -
  have "{x \<in> set (replicate REQUESTS 10). x < 100} = {10 :: int}" by auto
  then show ?thesis
    using cscan_total_movement [of "replicate REQUESTS 10" 100]
    by (simp add: valid_requests_def on_disk_def CYLINDERS_def)
qed

text \<open>LOOK, when the word behind the array holds a value no smaller than any request: the
  head sweeps up to the highest request and down to the lowest one below it; with the head
  above every request it only sweeps down.\<close>

theorem look_total_movement:
  assumes "valid_requests requests" "on_disk p" "\<forall>x\<in>set requests. x \<le> past_end"
    and "past_end \<le> INT_MAX"
  shows "look requests p past_end = Some
    (let lo = Min (set requests); hi = Max (set requests) in
     if p \<le> hi then (hi - p) + (if lo < p then hi - lo else 0) else p - lo)"
proof -
  note vs = valid_sorted [OF assms(1)]
  let ?s = "sort requests" and ?lo = "Min (set requests)" and ?hi = "Max (set requests)"
  have "\<forall>x\<in>set (requests @ [past_end]). 0 \<le> x \<and> x \<le> INT_MAX"
    using assms(1,3,4) vs(2) by (auto simp: valid_requests_def on_disk_int)
      (metis all_not_in_conv on_disk_int order_trans set_empty set_sort vs(2))
  then have a: "take REQUESTS (qsort cmp (requests @ [past_end])) = ?s"
    using assms(3) vs(1) by (simp add: qsort_nonneg sort_append_max)
  obtain k where k: "scan_start ?s p 0 = Some k" "k \<le> REQUESTS - 1"
    using scan_start_returns [of 0 ?s p] by auto
  have "look requests p past_end = Some (travel p (drop k ?s @ rev (take k ?s)))"
    using sweep_travel [of k REQUESTS ?s "REQUESTS + 1" p] k vs(1) by (simp add: look_def a Let_def)
  moreover have "travel p (drop k ?s @ rev (take k ?s)) =
      (if p \<le> ?hi then (?hi - p) + (if ?lo < p then ?hi - ?lo else 0) else p - ?lo)"
  proof (cases "p \<le> ?hi")
    case True
    then show ?thesis using sweep_from_start [OF assms(1) _ _ k(1), of "[]"] vs(4) by simp
  next
    case False
    then have "k = REQUESTS - 1" using start_above_all [OF assms(1), of "[]"] k(1) by simp
    then have dr: "drop k ?s = [?hi]" "take k ?s = butlast ?s"
      using valid_split [OF assms(1), of "[]"] by simp_all
    have "[?hi] @ rev (butlast ?s) = rev ?s"
      using append_butlast_last_id [OF vs(2)] vs(4) by (metis rev.simps(2) rev_append rev_rev_ident append_Nil rev_singleton_conv)
    then show ?thesis using False travel_rev_sorted [of ?s p] vs(2,3,4) unfolding dr by simp
  qed
  ultimately show ?thesis by (simp add: Let_def)
qed

theorem look_total_movement_witness:
  "look (replicate REQUESTS 10) 100 5000 = Some 90 \<and> look (replicate REQUESTS 100) 10 200 = Some 90"
  using look_total_movement [of "replicate REQUESTS 10" 100 5000]
    look_total_movement [of "replicate REQUESTS 100" 10 200]
  by (simp add: valid_requests_def on_disk_def CYLINDERS_def INT_MAX_def)

text \<open>LOOK sorts one word too many: if the word behind the array is smaller than the
  highest request, that request is sorted out of the array and the head never goes there.\<close>

theorem look_loses_highest_request:
  "\<exists>requests. valid_requests requests \<and> 4999 \<in> set requests \<and> look requests 0 0 = Some 0"
proof -
  let ?r = "replicate (REQUESTS - 1) 0 @ [4999 :: int]"
  have R: "Suc (REQUESTS - 1) = REQUESTS" using REQUESTS_pos by linarith
  then have valid: "valid_requests ?r"
    by (auto simp: valid_requests_def on_disk_def CYLINDERS_def)
  have "replicate_mset REQUESTS 0 = add_mset 0 (replicate_mset (REQUESTS - 1) (0::int))"
    using R by (metis replicate_mset_Suc)
  then have "sort (?r @ [0]) = replicate REQUESTS 0 @ [4999]"
    by (intro properties_for_sort) (auto simp: sorted_append)
  then have a: "take REQUESTS (qsort cmp (?r @ [0])) = replicate REQUESTS 0"
    by (subst qsort_nonneg) (auto simp: INT_MAX_def)
  have z: "travel 0 (replicate n 0) = 0" for n by (induction n) auto
  have "scan_start (replicate REQUESTS 0) 0 0 = Some 0" by (subst scan_start.simps) simp
  then have "look ?r 0 0 = Some 0"
    using sweep_travel [of 0 REQUESTS "replicate REQUESTS 0" "REQUESTS + 1" 0] z
    unfolding look_def Let_def a by simp
  with valid show ?thesis by (intro exI [of _ ?r]) simp
qed

text \<open>C-LOOK: one sweep up from the head to the highest request, then from the lowest
  request up to the highest one below the starting position.\<close>

theorem clook_total_movement:
  assumes "valid_requests requests" "on_disk p"
  shows "clook requests p =
    (let lo = Min (set requests); hi = Max (set requests) in
     if p \<le> lo then hi - p
     else if p \<le> hi then (hi - p) + (hi - lo) + (Max {x \<in> set requests. x < p} - lo)
     else (p - lo) + (hi - lo))"
proof -
  note vs = valid_sorted [OF assms(1)]
  let ?s = "sort requests" and ?lo = "Min (set requests)" and ?hi = "Max (set requests)"
  obtain k where kk: "k \<le> REQUESTS" "\<forall>j<k. ?s ! j < p" "k < REQUESTS \<longrightarrow> p \<le> ?s ! k"
    and tot: "clook requests p = travel p (drop k ?s @ take k ?s)"
    using clook_order [OF assms(1)] by blast
  then have ks: "k \<le> length ?s" "\<forall>j<k. ?s ! j < p" "k < length ?s \<longrightarrow> p \<le> ?s ! k"
    using vs(1) by auto
  have full: "k = REQUESTS" if "?hi < p"
  proof (rule ccontr)
    assume "k \<noteq> REQUESTS"
    then have "k < REQUESTS" using kk(1) by simp
    then show False using kk(3) that valid_sorted_le [OF assms(1), of k] by simp
  qed
  have part: "k < REQUESTS" if "p \<le> ?hi"
  proof (rule ccontr)
    assume "\<not> k < REQUESTS"
    then have "REQUESTS - 1 < k" using REQUESTS_pos by linarith
    then have "?s ! (REQUESTS - 1) < p" using ks(2) by blast
    then show False using that vs(5) by simp
  qed
  show ?thesis
  proof (cases "p \<le> ?hi")
    case False
    then show ?thesis
      using full tot vs travel_sorted [of ?s p] by (simp add: Let_def)
  next
    case True
    have k: "k < length ?s" "p \<le> ?s ! k" using part [OF True] ks vs(1) by auto
    have k0: "(k = 0) = (p \<le> ?lo)"
      using first_at_least [OF sorted_sort k ks(2)] all_ge_Min [OF valid_nonempty [OF assms(1)], of p]
      by (simp only: set_sort)
    have up: "travel p (drop k ?s) = ?hi - p" "last (p # drop k ?s) = ?hi"
      using travel_upwards [OF sorted_sort k] vs(4) k(1) by auto
    show ?thesis
    proof (cases "k = 0")
      case True
      then show ?thesis using k0 up tot by (simp add: Let_def)
    next
      case False
      have "travel ?hi (take k ?s) = (?hi - ?lo) + (Max {x \<in> set requests. x < p} - ?lo)"
        using travel_prefix [OF sorted_sort, of k requests ?hi] False k(1) vs(3,7)
          set_take_below [OF sorted_sort ks] by simp
      then show ?thesis using False k0 True tot up by (simp add: Let_def travel_append)
    qed
  qed
qed

theorem clook_total_movement_witness:
  "clook (replicate REQUESTS 10) 100 = 90 \<and> clook (replicate REQUESTS 100) 10 = 90"
  using clook_total_movement [of "replicate REQUESTS 10" 100]
    clook_total_movement [of "replicate REQUESTS 100" 10]
  by (simp add: valid_requests_def on_disk_def CYLINDERS_def)

text \<open>C38. \<open>optimal\<close> always sweeps upwards from the lowest request. Its movement is a minimum
  over all service orders exactly when the lowest request is at least as near as the highest
  one; otherwise some order of the same requests moves the head strictly less.\<close>

theorem optimal_is_minimal_iff:
  assumes "valid_requests requests" "on_disk p"
  shows "(\<forall>ys. mset ys = mset requests \<longrightarrow> optimal requests p \<le> travel p ys) \<longleftrightarrow>
    \<bar>Min (set requests) - p\<bar> \<le> \<bar>Max (set requests) - p\<bar>"
proof -
  let ?s = "sort requests" and ?lo = "Min (set requests)" and ?hi = "Max (set requests)"
  have ne: "requests \<noteq> []" using assms(1) by (rule valid_nonempty)
  have hl: "hd ?s = ?lo" "last ?s = ?hi"
    using ne hd_sorted_Min [of ?s] last_sorted_Max [of ?s] by (simp_all flip: set_empty)
  have opt: "optimal requests p = \<bar>?lo - p\<bar> + (?hi - ?lo)"
    using assms ne hl travel_sorted [of ?s p]
    by (simp add: optimal_def qsort_on_disk valid_requests_def fold_visit_all flip: set_empty)
  have lohi: "?lo \<le> ?hi" using ne by simp
  show ?thesis
  proof
    assume all: "\<forall>ys. mset ys = mset requests \<longrightarrow> optimal requests p \<le> travel p ys"
    have "travel p (rev ?s) = \<bar>?hi - p\<bar> + (?hi - ?lo)"
      using ne hl travel_rev_sorted [of ?s p] by (simp flip: set_empty)
    moreover have "mset (rev ?s) = mset requests" by simp
    ultimately have "optimal requests p \<le> \<bar>?hi - p\<bar> + (?hi - ?lo)" using all by metis
    then show "\<bar>?lo - p\<bar> \<le> \<bar>?hi - p\<bar>" using opt by simp
  next
    assume near: "\<bar>?lo - p\<bar> \<le> \<bar>?hi - p\<bar>"
    show "\<forall>ys. mset ys = mset requests \<longrightarrow> optimal requests p \<le> travel p ys"
    proof (intro allI impI)
      fix ys
      assume "mset ys = mset requests"
      then have "set ys = set requests" by (rule mset_eq_setD)
      then have "?lo \<in> set ys" "?hi \<in> set ys" using ne by simp_all
      from travel_reaches_both [OF this, of p] show "optimal requests p \<le> travel p ys"
        using near opt lohi by simp
    qed
  qed
qed


theorem optimal_is_minimal_iff_witness:
  "\<not> (\<forall>ys. mset ys = mset (replicate 999 4999 @ [0]) \<longrightarrow>
       optimal (replicate 999 4999 @ [0]) 4000 \<le> travel 4000 ys)"
proof -
  have "set (replicate 999 4999 @ [0]) = {4999, 0 :: int}" by auto
  moreover have "Min {4999, 0 :: int} = 0" "Max {4999, 0 :: int} = 4999" by simp_all
  moreover have "valid_requests (replicate 999 4999 @ [0])"
    by (auto simp: valid_requests_def on_disk_def CYLINDERS_def REQUESTS_def)
  moreover have "on_disk 4000" by (simp add: on_disk_def CYLINDERS_def)
  ultimately show ?thesis using optimal_is_minimal_iff [of "replicate 999 4999 @ [0]" 4000] by simp
qed

text \<open>No algorithm of the program moves the head less than the distance to the nearer
  end of the requests plus their span; \<open>optimal\<close> reaches this bound only from the low side.\<close>

theorem seek_lower_bound:
  assumes "valid_requests requests" "on_disk p" "alg \<in> {fcfs, sstf, clook, optimal}"
  shows "min \<bar>Min (set requests) - p\<bar> \<bar>Max (set requests) - p\<bar> +
    (Max (set requests) - Min (set requests)) \<le> alg requests p"
  using assms fcfs.lower_bound sstf.lower_bound clook.lower_bound optimal.lower_bound by blast

theorem seek_lower_bound_witness:
  "min \<bar>Min (set (replicate REQUESTS 7)) - 3\<bar> \<bar>Max (set (replicate REQUESTS 7)) - 3\<bar> +
    (Max (set (replicate REQUESTS 7)) - Min (set (replicate REQUESTS 7))) \<le> sstf (replicate REQUESTS 7) 3"
  by (rule seek_lower_bound) (auto simp: valid_requests_def on_disk_def CYLINDERS_def)

text \<open>On the inputs the program generates no total leaves the range of \<open>int\<close>.\<close>

theorem disk_totals_in_range:
  assumes "valid_requests requests" "on_disk p"
  shows "{fcfs requests p, sstf requests p, the (scan requests p), cscan requests p,
      clook requests p, optimal requests p} \<subseteq> {0..INT_MAX}"
proof -
  note vs = valid_sorted [OF assms(1)]
  let ?lo = "Min (set requests)" and ?hi = "Max (set requests)"
  have pr: "0 \<le> p" "p \<le> 4999" using assms(2) by (auto simp: on_disk_def CYLINDERS_def)
  have "fcfs requests p \<in> {0..INT_MAX}" "sstf requests p \<in> {0..INT_MAX}"
    "optimal requests p \<in> {0..INT_MAX}" "clook requests p \<in> {0..INT_MAX}"
    using assms by (rule fcfs.in_range sstf.in_range optimal.in_range clook.in_range)+
  moreover have "the (scan requests p) \<in> {0..INT_MAX}"
    using scan_value [OF assms] vs(7,8,9) pr by (simp add: Let_def INT_MAX_def)
  moreover have "cscan requests p \<in> {0..INT_MAX}"
  proof -
    define M where "M = Max (insert 0 {x \<in> set requests. x < p})"
    have "0 \<le> M" "M \<le> 4999" using pr by (auto simp: M_def intro: Max_ge)
    moreover have "cscan requests p = (if p = 0 then 4999 else 4999 - p + 4999 + M)"
      unfolding M_def by (rule cscan_value [OF assms])
    ultimately show ?thesis using pr by (simp add: INT_MAX_def)
  qed
  ultimately show ?thesis by simp
qed


theorem disk_totals_in_range_witness:
  "{fcfs (replicate REQUESTS 7) 0, sstf (replicate REQUESTS 7) 0, the (scan (replicate REQUESTS 7) 0),
     cscan (replicate REQUESTS 7) 0, clook (replicate REQUESTS 7) 0, optimal (replicate REQUESTS 7) 0}
   \<subseteq> {0..INT_MAX}"
  by (rule disk_totals_in_range) (auto simp: valid_requests_def on_disk_def CYLINDERS_def)


text \<open>The driver rejects a wrong argument count with the usage message, and otherwise
  always prints the seven rows, each with its total and a hundredth of it.\<close>

theorem disk_main_reports:
  "disk_main [prog] rand w = Some (Disk_Usage prog) \<and>
   (\<exists>rows. disk_main [prog, arg] rand w = Some (Disk_Report rows) \<and>
      map fst rows = [''FCFS'', ''SSTF'', ''SCAN'', ''C-SCAN'', ''LOOK'', ''C-LOOK'', ''Optimal''] \<and>
      list_all (\<lambda>(label, tot, latency). latency * 100 = of_int tot) rows)"
proof -
  have "\<exists>t. scan r p = Some t" "\<exists>t. look r p w = Some t" for r p
    using scan_start_returns [of 0 "qsort cmp (r @ [CYLINDERS - 1])" p]
      scan_start_returns [of 0 "take REQUESTS (qsort cmp (r @ [w]))" p]
    by (auto simp: scan_def look_def Let_def)
  then obtain ts tl where
    "scan (generate_requests rand (replicate REQUESTS 0)) (atoi arg) = Some ts"
    "look (generate_requests rand (replicate REQUESTS 0)) (atoi arg) w = Some tl"
    by meson
  then show ?thesis by (simp add: disk_main_def disk_row_def Let_def)
qed

end
