(* ===== verification/Shell.thy ===== *)
theory Shell
  imports Prelude
begin

text \<open>
  The command shell of \<^verbatim>\<open>program_assignment_1\<close>: \<open>getCommand\<close>, \<open>anaCommand\<close> and
  \<open>exeCommand\<close> of \<^verbatim>\<open>command.c\<close> and the read-execute loop of \<^verbatim>\<open>main.c\<close>. C strings are HOL
  strings without their terminator. The operating system is a record of functions: what
  \<open>chdir\<close> does to the working directory and what the n-th \<open>fork\<close> returns. An access
  outside \<open>msg[40][256]\<close> is a fault of its own, so that the loop is a total function.
\<close>

section \<open>The model\<close>

subsection \<open>Input\<close>

text \<open>\<open>fgets(buf, size, stdin)\<close>: at most \<open>size - 1\<close> characters, up to and with a newline;
  \<open>None\<close> is the null result at end of file.\<close>

fun read_line :: "nat \<Rightarrow> string \<Rightarrow> string \<times> string" where
  "read_line 0 inp = ([], inp)"
| "read_line (Suc n) [] = ([], [])"
| "read_line (Suc n) (c # cs) =
     (if c = CHR 0x0A then ([c], cs) else (let (l, rest) = read_line n cs in (c # l, rest)))"

definition fgets :: "nat \<Rightarrow> string \<Rightarrow> (string \<times> string) option" where
  "fgets sz inp = (if inp = [] then None else Some (read_line (sz - 1) inp))"

definition c_string :: "string \<Rightarrow> string" where
  "c_string cs = takeWhile (\<lambda>c. c \<noteq> CHR 0x00) cs"

datatype shell_out =
    Prompt "string option" "string option"
  | Read_Mistake
  | Perror string
  | History_Line int string
  | Run "string list"

text \<open>\<open>buf\<close> is the buffer before the call; at end of file it is left alone.\<close>

definition getCommand :: "string \<Rightarrow> nat \<Rightarrow> string \<Rightarrow> string \<times> string \<times> shell_out list" where
  "getCommand buf sz inp =
     (case fgets sz inp of
        None \<Rightarrow> (buf, inp, [Read_Mistake])
      | Some (line, rest) \<Rightarrow>
          (let s = c_string line
           in (if s \<noteq> [] \<and> last s = CHR 0x0A then butlast s else s, rest, [])))"

subsection \<open>Parsing\<close>

text \<open>\<open>strtok\<close> with the delimiter set \<open>" "\<close>: the next token and the text behind it.\<close>

definition strtok :: "string \<Rightarrow> (string \<times> string) option" where
  "strtok s =
     (case dropWhile (\<lambda>c. c = CHR '' '') s of
        [] \<Rightarrow> None
      | c # cs \<Rightarrow>
          Some (takeWhile (\<lambda>c. c \<noteq> CHR '' '') (c # cs),
                drop 1 (dropWhile (\<lambda>c. c \<noteq> CHR '' '') (c # cs))))"

lemma strtok_shorter: "strtok s = Some (w, rest) \<Longrightarrow> length rest < length s"
proof -
  assume a: "strtok s = Some (w, rest)"
  let ?d = "dropWhile (\<lambda>c. c = CHR '' '') s"
  obtain c cs where d: "?d = c # cs" using a by (cases ?d) (auto simp: strtok_def)
  then have "rest = drop 1 (dropWhile (\<lambda>c. c \<noteq> CHR '' '') (c # cs))"
    using a by (simp add: strtok_def)
  moreover have "length (dropWhile (\<lambda>c. c \<noteq> CHR '' '') (c # cs)) \<le> length (c # cs)"
    by (rule length_dropWhile_le)
  moreover have "length (c # cs) \<le> length s" using d length_dropWhile_le [of _ s] by metis
  ultimately show ?thesis by simp
qed

text \<open>The loop of \<open>anaCommand\<close>: it stops at the null token or after 100 words.\<close>

function anaCommand :: "string \<Rightarrow> nat \<Rightarrow> string list \<Rightarrow> nat \<times> string list" where
  "anaCommand buf wordcnt wordmatrix =
     (case strtok buf of
        None \<Rightarrow> (wordcnt, wordmatrix)
      | Some (temp, rest) \<Rightarrow>
          if wordcnt < 100
          then anaCommand rest (wordcnt + 1) (wordmatrix[wordcnt := temp])
          else (wordcnt, wordmatrix))"
  by pat_completeness auto
termination
  by (relation "measure (\<lambda>(buf, _, _). length buf)") (auto dest: strtok_shorter)

declare anaCommand.simps [simp del]

subsection \<open>Execution\<close>

record shell_os =
  os_logname :: "string option"
  os_chdir :: "string \<Rightarrow> string \<Rightarrow> string option"
  os_fork :: "nat \<Rightarrow> int"

record shell_state =
  hcnt :: nat
  msg :: "string list"
  cwd :: string
  nforks :: nat
  input :: string

datatype shell_fault = Msg_Overflow | Msg_Underflow int

datatype shell_next = Continue shell_state | Exited shell_state int

text \<open>\<open>for (i = hcnt - t; i < hcnt; i++) printf(... msg[i])\<close>.\<close>

function history_loop ::
  "string list \<Rightarrow> int \<Rightarrow> int \<Rightarrow> shell_fault + shell_out list" where
  "history_loop m i n =
     (if i < n then
        (if 0 \<le> i \<and> i < int (length m)
         then (case history_loop m (i + 1) n of
                 Inl e \<Rightarrow> Inl e
               | Inr out \<Rightarrow> Inr (History_Line (i + 1) (m ! nat i) # out))
         else Inl (Msg_Underflow i))
      else Inr [])"
  by pat_completeness auto
termination
  by (relation "measure (\<lambda>(_, i, n). nat (n - i))") auto

declare history_loop.simps [simp del]

definition exeCommand ::
  "shell_os \<Rightarrow> nat \<Rightarrow> string list \<Rightarrow> shell_state \<Rightarrow> shell_fault + shell_next \<times> shell_out list" where
  "exeCommand os wordcnt wordmatrix s =
     (if wordmatrix ! 0 = ''cd'' then
        (if wordcnt \<noteq> 1 then
           (case os_chdir os (cwd s) (wordmatrix ! 1) of
              None \<Rightarrow> Inr (Continue s, [Perror ''cd''])
            | Some d \<Rightarrow> Inr (Continue (s\<lparr>cwd := d\<rparr>), []))
         else Inr (Continue s, []))
      else if wordmatrix ! 0 = ''history'' then
        (if wordcnt \<noteq> 1 then
           (let t = atoi (wordmatrix ! 1)
            in case history_loop (msg s) (int (hcnt s) - t) (int (hcnt s)) of
                 Inl e \<Rightarrow> Inl e
               | Inr out \<Rightarrow> Inr (Continue s, out))
         else Inr (Continue s, []))
      else
        (let args = take wordcnt wordmatrix;
             pid = os_fork os (nforks s);
             s' = s\<lparr>nforks := Suc (nforks s)\<rparr>
         in if pid > 0 then Inr (Continue s', [Run args])
            else Inr (Exited s' 1, [Perror ''fork''])))"

subsection \<open>The main loop\<close>

text \<open>\<open>getcwd(cpath, 100)\<close> fails when the path does not fit; then nothing defined is printed.\<close>

definition getcwd_100 :: "string \<Rightarrow> string option" where
  "getcwd_100 d = (if length d < 100 then Some d else None)"

definition shell_step :: "shell_os \<Rightarrow> shell_state \<Rightarrow> shell_fault + shell_next \<times> shell_out list" where
  "shell_step os s =
     (let prompt = Prompt (os_logname os) (getcwd_100 (cwd s));
          (buf, rest, out) = getCommand [] 256 (input s)
      in if hcnt s \<ge> length (msg s) then Inl Msg_Overflow
         else
           (let s1 = s\<lparr>input := rest, msg := (msg s)[hcnt s := buf], hcnt := hcnt s + 1\<rparr>
            in if buf = ''exit'' then Inr (Exited s1 0, prompt # out)
               else
                 (let (wordcnt, wordmatrix) = anaCommand buf 0 (replicate 100 [])
                  in case exeCommand os wordcnt wordmatrix s1 of
                       Inl e \<Rightarrow> Inl e
                     | Inr (nxt, out') \<Rightarrow> Inr (nxt, prompt # out @ out'))))"

lemma exeCommand_keeps:
  "exeCommand os n w s = Inr (Continue s', out) \<Longrightarrow> hcnt s' = hcnt s \<and> msg s' = msg s \<and> input s' = input s"
  by (auto simp: exeCommand_def Let_def split: if_splits option.splits sum.splits)

lemma shell_step_advances:
  "shell_step os s = Inr (Continue s', out) \<Longrightarrow>
     hcnt s < length (msg s) \<and> hcnt s' = Suc (hcnt s) \<and> length (msg s') = length (msg s)"
  by (auto simp: shell_step_def Let_def split: if_splits prod.splits sum.splits dest: exeCommand_keeps)

function shell_run :: "shell_os \<Rightarrow> shell_state \<Rightarrow> (shell_fault + int) \<times> shell_out list" where
  "shell_run os s =
     (case shell_step os s of
        Inl e \<Rightarrow> (Inl e, [])
      | Inr (Exited s' code, out) \<Rightarrow> (Inr code, out)
      | Inr (Continue s', out) \<Rightarrow> (let (r, out') = shell_run os s' in (r, out @ out')))"
  by pat_completeness auto
termination
  by (relation "measure (\<lambda>(_, s). length (msg s) - hcnt s)") (auto dest: shell_step_advances)

definition shell_init :: "string \<Rightarrow> string \<Rightarrow> shell_state" where
  "shell_init dir inp = \<lparr>hcnt = 0, msg = replicate 40 [], cwd = dir, nforks = 0, input = inp\<rparr>"

section \<open>The specification\<close>

text \<open>The words of a line are the nonempty pieces between spaces; \<open>unwords\<close> joins words.\<close>

fun split_spaces :: "string \<Rightarrow> string list" where
  "split_spaces [] = [[]]"
| "split_spaces (c # cs) =
     (if c = CHR '' '' then [] # split_spaces cs
      else (c # hd (split_spaces cs)) # tl (split_spaces cs))"

definition words_of :: "string \<Rightarrow> string list" where
  "words_of s = filter (\<lambda>w. w \<noteq> []) (split_spaces s)"

fun unwords :: "string list \<Rightarrow> string" where
  "unwords [] = []"
| "unwords [w] = w"
| "unwords (w # ws) = w @ CHR '' '' # unwords ws"

definition is_word :: "string \<Rightarrow> bool" where
  "is_word w \<longleftrightarrow> w \<noteq> [] \<and> CHR '' '' \<notin> set w"

section \<open>Lemmas\<close>

declare shell_run.simps [simp del]

lemma split_spaces_nonempty [simp]: "split_spaces s \<noteq> []"
  by (cases s) auto

lemma split_word:
  "CHR '' '' \<notin> set w \<Longrightarrow> split_spaces (w @ CHR '' '' # r) = w # split_spaces r"
  by (induction w) auto

lemma split_last_word: "CHR '' '' \<notin> set w \<Longrightarrow> split_spaces w = [w]"
  by (induction w) auto

lemma words_of_spaces: "words_of (dropWhile (\<lambda>c. c = CHR '' '') s) = words_of s"
  by (induction s) (auto simp: words_of_def)

lemma words_of_word:
  assumes "c \<noteq> CHR '' ''"
  shows "words_of (c # cs) = takeWhile (\<lambda>c. c \<noteq> CHR '' '') (c # cs) #
    words_of (drop 1 (dropWhile (\<lambda>c. c \<noteq> CHR '' '') (c # cs)))"
proof -
  let ?P = "\<lambda>c. c \<noteq> CHR '' ''" and ?s = "c # cs"
  have sp: "?s = takeWhile ?P ?s @ dropWhile ?P ?s" by (simp only: takeWhile_dropWhile_id)
  have nb: "CHR '' '' \<notin> set (takeWhile ?P ?s)" by (metis set_takeWhileD)
  have ne: "takeWhile ?P ?s \<noteq> []" using assms by simp
  show ?thesis
  proof (cases "dropWhile ?P ?s")
    case Nil
    then have "split_spaces ?s = [takeWhile ?P ?s]" using split_last_word [OF nb] sp by simp
    then show ?thesis using ne Nil by (simp only: words_of_def) (simp add: words_of_def)
  next
    case (Cons d ds)
    then have d: "d = CHR '' ''" by (metis (mono_tags, lifting) dropWhile_eq_Cons_conv)
    have "split_spaces ?s = takeWhile ?P ?s # split_spaces ds"
      using split_word [OF nb, of ds] sp Cons d by metis
    then show ?thesis using ne Cons by (simp only: words_of_def) simp
  qed
qed

lemma strtok_words:
  "words_of s = (case strtok s of None \<Rightarrow> [] | Some (w, rest) \<Rightarrow> w # words_of rest)"
proof (cases "dropWhile (\<lambda>c. c = CHR '' '') s")
  case Nil
  then have "words_of s = words_of []" using words_of_spaces [of s] by (simp only:)
  then have "words_of s = []" by (simp add: words_of_def)
  then show ?thesis unfolding strtok_def Nil by simp
next
  case (Cons c cs)
  then have "c \<noteq> CHR '' ''" by (metis (mono_tags, lifting) dropWhile_eq_Cons_conv)
  then show ?thesis
    using Cons words_of_spaces [of s] words_of_word [of c cs] by (simp add: strtok_def)
qed

lemma anaCommand_words:
  assumes "length m = 100" "n \<le> 100"
  shows "anaCommand buf n m =
    (let k = min (100 - n) (length (words_of buf))
     in (n + k, take n m @ take k (words_of buf) @ drop (n + k) m))"
  using assms
proof (induction buf n m rule: anaCommand.induct)
  case (1 buf n m)
  show ?case
  proof (cases "strtok buf")
    case None
    then show ?thesis using strtok_words [of buf] by (simp add: anaCommand.simps [of buf])
  next
    case (Some a)
    obtain w rest where a: "a = (w, rest)" by fastforce
    have ws: "words_of buf = w # words_of rest" using strtok_words [of buf] Some a by simp
    show ?thesis
    proof (cases "n < 100")
      case False
      then show ?thesis using Some a 1 by (simp add: anaCommand.simps [of buf])
    next
      case True
      let ?k = "min (100 - Suc n) (length (words_of rest))"
      have "anaCommand buf n m = anaCommand rest (n + 1) (m[n := w])"
        using Some a True by (simp add: anaCommand.simps [of buf])
      also have "\<dots> = (n + 1 + ?k, take (n + 1) (m[n := w]) @ take ?k (words_of rest) @
          drop (n + 1 + ?k) (m[n := w]))"
        using "1.IH" [OF Some a [symmetric]] True "1.prems" by (simp add: Let_def)
      also have "take (n + 1) (m[n := w]) = take n m @ [w]"
        using True "1.prems" by (simp add: take_Suc_conv_app_nth)
      also have "drop (n + 1 + ?k) (m[n := w]) = drop (n + 1 + ?k) m"
        by (simp add: drop_update_cancel)
      finally have eq: "anaCommand buf n m = (n + 1 + ?k,
          (take n m @ [w]) @ take ?k (words_of rest) @ drop (n + 1 + ?k) m)" .
      have mn: "min (100 - n) (length (words_of buf)) = Suc ?k" using ws True by simp
      show ?thesis unfolding eq Let_def mn unfolding ws by simp
    qed
  qed
qed

lemma words_of_unwords: "list_all is_word ws \<Longrightarrow> words_of (unwords ws) = ws"
proof (induction ws rule: unwords.induct)
  case 1
  then show ?case by (simp add: words_of_def)
next
  case (2 w)
  then show ?case by (simp add: words_of_def is_word_def split_last_word)
next
  case (3 w v ws)
  then show ?case by (simp add: words_of_def is_word_def split_word)
qed

lemma history_loop_ok:
  assumes "0 \<le> i" "n \<le> int (length m)"
  shows "history_loop m i n = Inr (map (\<lambda>j. History_Line (int j + 1) (m ! j)) [nat i..<nat n])"
  using assms
proof (induction m i n rule: history_loop.induct)
  case (1 m i n)
  show ?case
  proof (cases "i < n")
    case False
    then show ?thesis using "1.prems" by (simp add: history_loop.simps [of m i])
  next
    case True
    then have "history_loop m (i + 1) n =
        Inr (map (\<lambda>j. History_Line (int j + 1) (m ! j)) [nat (i + 1)..<nat n])"
      using 1 by simp
    moreover have "[nat i..<nat n] = nat i # [nat (i + 1)..<nat n]"
      using True "1.prems" by (simp add: upt_conv_Cons nat_add_distrib)
    ultimately show ?thesis using True "1.prems" by (simp add: history_loop.simps [of m i])
  qed
qed

lemma read_line_newline:
  "CHR 0x0A \<notin> set line \<Longrightarrow> length line < n \<Longrightarrow>
     read_line n (line @ CHR 0x0A # rest) = (line @ [CHR 0x0A], rest)"
proof (induction line arbitrary: n)
  case Nil
  then show ?case by (cases n) auto
next
  case (Cons c cs)
  then show ?case by (cases n) auto
qed

lemma c_string_id: "CHR 0x00 \<notin> set s \<Longrightarrow> c_string s = s"
  by (auto simp: c_string_def takeWhile_eq_all_conv)

lemma getCommand_line:
  assumes "CHR 0x0A \<notin> set line" "CHR 0x00 \<notin> set line" "length line < 255"
  shows "getCommand buf 256 (line @ CHR 0x0A # rest) = (line, rest, [])"
proof -
  have "read_line 255 (line @ CHR 0x0A # rest) = (line @ [CHR 0x0A], rest)"
    using assms by (intro read_line_newline) auto
  moreover have "c_string (line @ [CHR 0x0A]) = line @ [CHR 0x0A]"
    using assms(2) by (intro c_string_id) auto
  ultimately show ?thesis by (simp add: getCommand_def fgets_def)
qed

section \<open>Properties\<close>

text \<open>Parsing: \<open>anaCommand\<close> stores the words of the line, at most 100 of them, in the
  first rows of the word matrix, leaves the other rows empty and counts what it stored.\<close>

theorem anaCommand_stores_words:
  "anaCommand buf 0 (replicate 100 []) =
     (min 100 (length (words_of buf)),
      take 100 (words_of buf) @ replicate (100 - length (words_of buf)) [])"
  using anaCommand_words [of "replicate 100 []" 0 buf] by (simp add: Let_def min_def)

text \<open>C39. Round trip: a command line put together from up to 100 words with single spaces
  is taken apart into exactly these words.\<close>

theorem anaCommand_unwords:
  assumes "list_all is_word ws" "length ws \<le> 100"
  shows "anaCommand (unwords ws) 0 (replicate 100 []) =
    (length ws, ws @ replicate (100 - length ws) [])"
  using anaCommand_words [of "replicate 100 []" 0 "unwords ws"] words_of_unwords [OF assms(1)] assms(2)
  by (simp add: Let_def)

theorem anaCommand_unwords_witness:
  "anaCommand (unwords [''ls'', ''-a'', ''-l'']) 0 (replicate 100 []) =
    (3, [''ls'', ''-a'', ''-l''] @ replicate 97 [])"
  using anaCommand_unwords [of "[''ls'', ''-a'', ''-l'']"] by (simp add: is_word_def)

text \<open>\<open>history t\<close> prints the last \<open>t\<close> commands in order under their numbers; asking for
  more commands than were entered reads in front of the history table.\<close>

theorem history_prints_last:
  assumes "wordmatrix ! 0 = ''history''" "wordcnt \<noteq> 1" "hcnt s \<le> length (msg s)"
  shows "exeCommand os wordcnt wordmatrix s =
    (let t = atoi (wordmatrix ! 1) in
     if t \<le> int (hcnt s)
     then Inr (Continue s,
       map (\<lambda>j. History_Line (int j + 1) (msg s ! j)) [nat (int (hcnt s) - t)..<hcnt s])
     else Inl (Msg_Underflow (int (hcnt s) - t)))"
proof (cases "atoi (wordmatrix ! 1) \<le> int (hcnt s)")
  case True
  then have "history_loop (msg s) (int (hcnt s) - atoi (wordmatrix ! 1)) (int (hcnt s)) =
     Inr (map (\<lambda>j. History_Line (int j + 1) (msg s ! j))
       [nat (int (hcnt s) - atoi (wordmatrix ! 1))..<hcnt s])"
    using assms(3) history_loop_ok [of "int (hcnt s) - atoi (wordmatrix ! 1)" "int (hcnt s)" "msg s"]
    by simp
  then show ?thesis using assms True by (simp add: exeCommand_def Let_def)
next
  case False
  then show ?thesis
    using assms by (simp add: exeCommand_def Let_def history_loop.simps [of "msg s"])
qed

theorem history_prints_last_witness:
  "exeCommand \<lparr>os_logname = None, os_chdir = (\<lambda>_ _. None), os_fork = (\<lambda>_. 7)\<rparr> 2 [''history'', ''2'']
     \<lparr>hcnt = 3, msg = [''ls'', ''pwd'', ''history 2''] @ replicate 37 [], cwd = ''/'', nforks = 2, input = []\<rparr>
   = Inr (Continue
     \<lparr>hcnt = 3, msg = [''ls'', ''pwd'', ''history 2''] @ replicate 37 [], cwd = ''/'', nforks = 2, input = []\<rparr>,
     [History_Line 2 ''pwd'', History_Line 3 ''history 2''])"
proof -
  have "atoi ''2'' = 2" by (simp add: atoi_def is_space_def is_digit_def)
  then show ?thesis
    by (subst history_prints_last) (simp_all add: Let_def upt_rec numeral_eq_Suc)
qed

text \<open>Every pass of the loop records the line that was read as the next history entry,
  keeps the earlier entries, and leaves the rest of the input for the next pass.\<close>

theorem shell_step_records_line:
  assumes "input s = line @ CHR 0x0A # rest"
    and "CHR 0x0A \<notin> set line" "CHR 0x00 \<notin> set line" "length line < 255"
    and "shell_step os s = Inr (nxt, out)"
  shows "\<exists>s'. (nxt = Continue s' \<or> (\<exists>code. nxt = Exited s' code)) \<and> input s' = rest \<and>
    hcnt s' = Suc (hcnt s) \<and> msg s' = (msg s)[hcnt s := line] \<and> hcnt s < length (msg s)"
proof -
  have g: "getCommand [] 256 (input s) = (line, rest, [])"
    using assms(1-4) by (simp add: getCommand_line)
  have keep: "\<exists>s'. (nxt' = Continue s' \<or> (\<exists>code. nxt' = Exited s' code)) \<and> input s' = input s1 \<and>
      hcnt s' = hcnt s1 \<and> msg s' = msg s1"
    if "exeCommand os n w s1 = Inr (nxt', o')" for n w s1 nxt' o'
    using that by (auto simp: exeCommand_def Let_def split: if_splits option.splits sum.splits)
  show ?thesis
    using assms(5) unfolding shell_step_def g
    by (auto simp: Let_def split: if_splits prod.splits sum.splits dest!: keep)
qed

theorem shell_step_records_line_witness:
  "\<exists>s'. (Exited (shell_init ''/'' []\<lparr>hcnt := 1, msg := ''exit'' # replicate 39 []\<rparr>) 0 = Continue s' \<or>
      (\<exists>code. Exited (shell_init ''/'' []\<lparr>hcnt := 1, msg := ''exit'' # replicate 39 []\<rparr>) 0 = Exited s' code)) \<and>
    input s' = [] \<and> hcnt s' = Suc 0 \<and>
    msg s' = (replicate 40 [])[0 := ''exit''] \<and> 0 < length (replicate 40 ([] :: string))"
proof -
  let ?s = "shell_init ''/'' (''exit'' @ CHR 0x0A # [])"
  have "getCommand [] 256 (''exit'' @ CHR 0x0A # []) = (''exit'', [], [])"
    by (rule getCommand_line) auto
  then have "shell_step os ?s = Inr (Exited (shell_init ''/'' []\<lparr>hcnt := 1, msg := ''exit'' # replicate 39 []\<rparr>) 0,
      [Prompt (os_logname os) (Some ''/'')])" for os
    by (simp add: shell_step_def shell_init_def getcwd_100_def numeral_eq_Suc)
  from shell_step_records_line [OF _ _ _ _ this, of "''exit''" "[]"] show ?thesis
    by (simp add: shell_init_def)
qed

text \<open>C40. The history table is never checked for room: a pass that starts with 40 recorded
  commands writes behind it, whatever the command is; and since the end of the input is read
  as an empty command again and again, a shell at end of file always runs into this.\<close>

theorem shell_overflows_history:
  assumes "hcnt s = length (msg s) \<or>
    input s = [] \<and> hcnt s \<le> length (msg s) \<and> (\<forall>n. 0 < os_fork os n)"
  shows "fst (shell_run os s) = Inl Msg_Overflow"
  using assms
proof (induction os s rule: shell_run.induct)
  case (1 os s)
  show ?case
  proof (cases "hcnt s = length (msg s)")
    case True
    then have "shell_step os s = Inl Msg_Overflow"
      by (simp add: shell_step_def Let_def split: prod.splits)
    then show ?thesis by (simp add: shell_run.simps)
  next
    case False
    then have eof: "input s = []" "hcnt s < length (msg s)" "\<forall>n. 0 < os_fork os n"
      using "1.prems" by auto
    let ?s = "s\<lparr>msg := (msg s)[hcnt s := []], hcnt := Suc (hcnt s), nforks := Suc (nforks s)\<rparr>"
    have "anaCommand [] 0 (replicate 100 []) = (0, replicate 100 [])"
      by (simp add: anaCommand.simps strtok_def)
    then have "shell_step os s = Inr (Continue ?s,
        [Prompt (os_logname os) (getcwd_100 (cwd s)), Read_Mistake, Run []])"
      using eof by (simp add: shell_step_def getCommand_def fgets_def exeCommand_def Let_def)
    moreover from this have "fst (shell_run os ?s) = Inl Msg_Overflow"
      using 1 eof by simp
    ultimately show ?thesis
      by (cases "shell_run os ?s") (simp add: shell_run.simps [of os s])
  qed
qed

theorem shell_overflows_history_witness:
  "fst (shell_run \<lparr>os_logname = None, os_chdir = (\<lambda>_ _. None), os_fork = (\<lambda>_. 7)\<rparr> (shell_init ''/'' []))
     = Inl Msg_Overflow"
  by (rule shell_overflows_history) (simp add: shell_init_def)

end
