(* ===== verification/PM_Semaphore.thy ===== *)
theory PM_Semaphore
  imports Prelude
begin

text \<open>
  The semaphores that \<^verbatim>\<open>program_assignment_3\<close> adds to the process manager:
  \<^verbatim>\<open>servers/pm/psem.c\<close>. Semaphores and queue nodes are heap objects; a pointer is an
  address, the null pointer is \<open>None\<close>. Each handler takes what it reads from the request
  (\<open>m_in\<close>, \<open>who_p\<close>) and from \<open>malloc\<close> as arguments and returns its result code with the new
  heap; \<open>None\<close> stands for a dereference of a null or dangling pointer in PM, or a walk that
  never ends. \<open>setreply\<close> is called but declared nowhere in the sources, so the model
  records the calls.
\<close>

section \<open>The model\<close>

record pnode =
  pn_id :: int
  pn_prev :: "nat option"
  pn_next :: "nat option"

record psem =
  ps_value :: int
  ps_list :: "nat option"

record pm_heap =
  sems :: "nat \<Rightarrow> psem option"
  nodes :: "nat \<Rightarrow> pnode option"
  setreply_calls :: "(int \<times> int) list"

definition OK :: int where "OK = 0"
definition ENOMEM :: int where "ENOMEM = 12"
definition SUSPEND :: int where "SUSPEND = - 998"

text \<open>\<open>while (list->next != NULL) list = list->next;\<close>\<close>

partial_function (option) last_node :: "(nat \<Rightarrow> pnode option) \<Rightarrow> nat \<Rightarrow> nat option" where
  "last_node h a =
     (case h a of
        None \<Rightarrow> None
      | Some n \<Rightarrow> (case pn_next n of None \<Rightarrow> Some a | Some b \<Rightarrow> last_node h b))"

definition psem_enqueue ::
  "(nat \<Rightarrow> pnode option) \<Rightarrow> nat option \<Rightarrow> nat \<Rightarrow> ((nat \<Rightarrow> pnode option) \<times> nat option) option" where
  "psem_enqueue h queue p =
     (case h p of
        None \<Rightarrow> None
      | Some pn \<Rightarrow>
          (case queue of
             None \<Rightarrow> Some (h(p \<mapsto> pn\<lparr>pn_prev := None, pn_next := None\<rparr>), Some p)
           | Some a \<Rightarrow> do {
               l \<leftarrow> last_node h a;
               ln \<leftarrow> h l;
               let h1 = h(l \<mapsto> ln\<lparr>pn_next := Some p\<rparr>);
               pn1 \<leftarrow> h1 p;
               Some (h1(p \<mapsto> pn1\<lparr>pn_prev := Some l, pn_next := None\<rparr>), Some a)
             }))"

definition psem_dequeue ::
  "(nat \<Rightarrow> pnode option) \<Rightarrow> nat option \<Rightarrow>
     ((nat \<Rightarrow> pnode option) \<times> nat option \<times> nat option) option" where
  "psem_dequeue h queue =
     (case queue of
        None \<Rightarrow> Some (h, None, None)
      | Some a \<Rightarrow> do {
          n \<leftarrow> h a;
          h1 \<leftarrow> (case pn_next n of
                   None \<Rightarrow> Some h
                 | Some b \<Rightarrow> do { bn \<leftarrow> h b; Some (h(b \<mapsto> bn\<lparr>pn_prev := None\<rparr>)) });
          n1 \<leftarrow> h1 a;
          Some (h1(a \<mapsto> n1\<lparr>pn_next := None\<rparr>), pn_next n, Some a)
        })"

text \<open>\<open>alloc\<close> is what \<open>malloc\<close> returns; the semaphore's address ends up in \<open>m_in.m1_p1\<close>,
  which is the third component.\<close>

definition do_psem_init :: "nat option \<Rightarrow> int \<Rightarrow> pm_heap \<Rightarrow> int \<times> pm_heap \<times> nat option" where
  "do_psem_init alloc n s =
     (case alloc of
        None \<Rightarrow> (ENOMEM, s, None)
      | Some S \<Rightarrow>
          (OK, s\<lparr>sems := (sems s)(S \<mapsto> \<lparr>ps_value = n, ps_list = None\<rparr>)\<rparr>, Some S))"

definition do_psem_wait :: "nat option \<Rightarrow> int \<Rightarrow> nat \<Rightarrow> pm_heap \<Rightarrow> (int \<times> pm_heap) option" where
  "do_psem_wait alloc who_p S s = do {
     sem \<leftarrow> sems s S;
     let v = ps_value sem - 1;
     if v < 0 then do {
       P \<leftarrow> alloc;
       let h = (nodes s)(P \<mapsto> \<lparr>pn_id = who_p, pn_prev = None, pn_next = None\<rparr>);
       (h', q) \<leftarrow> psem_enqueue h (ps_list sem) P;
       Some (SUSPEND, s\<lparr>sems := (sems s)(S \<mapsto> \<lparr>ps_value = v, ps_list = q\<rparr>), nodes := h'\<rparr>)
     }
     else Some (0, s\<lparr>sems := (sems s)(S \<mapsto> sem\<lparr>ps_value := v\<rparr>)\<rparr>)
   }"

definition do_psem_signal :: "nat \<Rightarrow> pm_heap \<Rightarrow> (int \<times> pm_heap) option" where
  "do_psem_signal S s = do {
     sem \<leftarrow> sems s S;
     let v = ps_value sem + 1;
     if v \<le> 0 then do {
       (h, q, P) \<leftarrow> psem_dequeue (nodes s) (ps_list sem);
       a \<leftarrow> P;
       n \<leftarrow> h a;
       Some (0, s\<lparr>sems := (sems s)(S \<mapsto> \<lparr>ps_value = v, ps_list = q\<rparr>), nodes := h(a := None),
                  setreply_calls := setreply_calls s @ [(pn_id n, 0)]\<rparr>)
     }
     else Some (0, s\<lparr>sems := (sems s)(S \<mapsto> sem\<lparr>ps_value := v\<rparr>)\<rparr>)
   }"

partial_function (option) destroy_loop ::
  "(nat \<Rightarrow> pnode option) \<Rightarrow> nat option \<Rightarrow> nat option \<Rightarrow> (nat \<Rightarrow> pnode option) option" where
  "destroy_loop h queue P =
     (case P of
        None \<Rightarrow> Some h
      | Some a \<Rightarrow>
          (case psem_dequeue (h(a := None)) queue of
             None \<Rightarrow> None
           | Some (h', queue', P') \<Rightarrow> destroy_loop h' queue' P'))"

definition do_psem_destroy :: "nat \<Rightarrow> pm_heap \<Rightarrow> (int \<times> pm_heap) option" where
  "do_psem_destroy S s = do {
     sem \<leftarrow> sems s S;
     (h, q, P) \<leftarrow> psem_dequeue (nodes s) (ps_list sem);
     h' \<leftarrow> destroy_loop h q P;
     Some (0, s\<lparr>sems := (sems s)(S := None), nodes := h'\<rparr>)
   }"

definition do_proc_no :: "int \<Rightarrow> int" where
  "do_proc_no who_p = who_p"

definition do_psem_block :: "nat \<Rightarrow> pm_heap \<Rightarrow> (int \<times> pm_heap) option" where
  "do_psem_block S s = do { (_, s') \<leftarrow> do_psem_signal S s; Some (SUSPEND, s') }"

definition do_psem_wakeup :: "int \<Rightarrow> pm_heap \<Rightarrow> int \<times> pm_heap" where
  "do_psem_wakeup proc_nr s = (0, s\<lparr>setreply_calls := setreply_calls s @ [(proc_nr, 0)]\<rparr>)"

section \<open>The abstract semaphore\<close>

text \<open>
  \<open>queue_of s S\<close> walks the queue of the semaphore \<open>S\<close>; \<open>psem_abs s S\<close> is what the semaphore
  stands for: its value and the processes waiting at it, in order of arrival. The invariant:
  every queue is a null-terminated list of live nodes, no two semaphores share a node, and
  the length of a queue is minus the value of a negative semaphore and 0 otherwise.
\<close>

definition node_next :: "(nat \<Rightarrow> pnode option) \<Rightarrow> nat \<Rightarrow> nat option" where
  "node_next h a = (case h a of None \<Rightarrow> None | Some n \<Rightarrow> pn_next n)"

definition queue_ok :: "(nat \<Rightarrow> pnode option) \<Rightarrow> nat option \<Rightarrow> nat list \<Rightarrow> bool" where
  "queue_ok h q as \<longleftrightarrow> chain (node_next h) q as \<and> set as \<subseteq> dom h"

partial_function (option) walk :: "(nat \<Rightarrow> pnode option) \<Rightarrow> nat option \<Rightarrow> nat list option" where
  "walk h q =
     (case q of
        None \<Rightarrow> Some []
      | Some a \<Rightarrow>
          (case h a of
             None \<Rightarrow> None
           | Some n \<Rightarrow> do { as \<leftarrow> walk h (pn_next n); Some (a # as) }))"

definition queue_of :: "pm_heap \<Rightarrow> nat \<Rightarrow> nat list" where
  "queue_of s S =
     (case sems s S of None \<Rightarrow> [] | Some sem \<Rightarrow> the (walk (nodes s) (ps_list sem)))"

definition waiting :: "(nat \<Rightarrow> pnode option) \<Rightarrow> nat list \<Rightarrow> int list" where
  "waiting h as = map (\<lambda>a. pn_id (the (h a))) as"

definition psem_abs :: "pm_heap \<Rightarrow> nat \<Rightarrow> (int \<times> int list) option" where
  "psem_abs s S =
     map_option (\<lambda>sem. (ps_value sem, waiting (nodes s) (queue_of s S))) (sems s S)"

definition queues_inv :: "(nat \<Rightarrow> nat list) \<Rightarrow> pm_heap \<Rightarrow> bool" where
  "queues_inv L s \<longleftrightarrow>
     finite (dom (nodes s)) \<and>
     (\<forall>S sem. sems s S = Some sem \<longrightarrow>
        queue_ok (nodes s) (ps_list sem) (L S) \<and> int (length (L S)) = max 0 (- ps_value sem)) \<and>
     (\<forall>S S'. S \<noteq> S' \<longrightarrow> S \<in> dom (sems s) \<longrightarrow> S' \<in> dom (sems s) \<longrightarrow> set (L S) \<inter> set (L S') = {})"

definition psem_inv :: "pm_heap \<Rightarrow> bool" where
  "psem_inv s \<longleftrightarrow> queues_inv (queue_of s) s"

section \<open>Lemmas on the queues\<close>

lemma node_next_upd [chain_simps]:
  "node_next (h(a \<mapsto> n)) = (node_next h)(a := pn_next n)"
  by (auto simp: node_next_def fun_eq_iff)

lemma node_next_del [chain_simps]: "node_next (h(a := None)) = (node_next h)(a := None)"
  by (auto simp: node_next_def fun_eq_iff)

lemma queue_ok_Nil [simp]: "queue_ok h q [] \<longleftrightarrow> q = None"
  by (simp add: queue_ok_def)

lemma queue_ok_Cons [simp]:
  "queue_ok h q (a # as) \<longleftrightarrow> q = Some a \<and> (\<exists>n. h a = Some n \<and> queue_ok h (pn_next n) as)"
  by (auto simp: queue_ok_def node_next_def)

lemma queue_ok_distinct: "queue_ok h q as \<Longrightarrow> distinct as"
  unfolding queue_ok_def using chain_distinct by blast

lemma walk_queue_ok: "queue_ok h q as \<Longrightarrow> walk h q = Some as"
  by (induction as arbitrary: q) (auto simp: walk.simps [of h "Some _"] walk.simps [of h None])

lemma last_node_chain:
  "queue_ok h (Some a) as \<Longrightarrow> last_node h a = Some (last as)"
proof (induction as arbitrary: a)
  case Nil
  then show ?case by simp
next
  case (Cons b as)
  then obtain n where n: "b = a" "h a = Some n" "queue_ok h (pn_next n) as" by auto
  then show ?case using Cons.IH
    by (cases "pn_next n"; cases as) (auto simp: last_node.simps [of h a])
qed

lemma queue_ok_frame:
  assumes "queue_ok h q as" "\<forall>a\<in>set as. h' a = h a"
  shows "queue_ok h' q as" "waiting h' as = waiting h as"
  using assms by (induction as arbitrary: q) (auto simp: waiting_def)

lemma psem_enqueue_appends:
  assumes "queue_ok h q as" "p \<notin> set as" "h p = Some pn"
  shows "\<exists>h' q'. psem_enqueue h q p = Some (h', q') \<and> queue_ok h' q' (as @ [p]) \<and>
    waiting h' (as @ [p]) = waiting h as @ [pn_id pn] \<and>
    dom h' = dom h \<and> (\<forall>a. a \<notin> set (as @ [p]) \<longrightarrow> h' a = h a)"
proof (cases as)
  case Nil
  then show ?thesis using assms by (auto simp: psem_enqueue_def waiting_def)
next
  case (Cons a as')
  define l where "l = last as"
  have l: "l \<in> set as" using Cons by (simp add: l_def)
  obtain ln where ln: "h l = Some ln" using assms(1) l by (auto simp: queue_ok_def)
  have q: "q = Some a" using assms(1) Cons by simp
  have lp: "l \<noteq> p" using l assms(2) by auto
  define h' where "h' = h(l \<mapsto> ln\<lparr>pn_next := Some p\<rparr>, p \<mapsto> pn\<lparr>pn_prev := Some l, pn_next := None\<rparr>)"
  have run: "psem_enqueue h q p = Some (h', q)"
    using assms(1,3) q lp ln last_node_chain [of h a as] by (simp add: psem_enqueue_def h'_def l_def Let_def)
  have "chain (node_next h') q (as @ [p])"
    using chain_snoc(2) [of "node_next h" q as p] assms(1,2) Cons
    by (simp add: h'_def l_def node_next_upd queue_ok_def del: fun_upd_apply)
  moreover have "set (as @ [p]) \<subseteq> dom h'" "dom h' = dom h"
    using assms(1,3) ln by (auto simp: h'_def queue_ok_def)
  moreover have "waiting h' (as @ [p]) = waiting h as @ [pn_id pn]"
    using assms(2) ln lp by (auto simp: waiting_def h'_def)
  moreover have "\<forall>a. a \<notin> set (as @ [p]) \<longrightarrow> h' a = h a" using l by (auto simp: h'_def)
  ultimately show ?thesis using run by (auto simp: queue_ok_def)
qed

lemma psem_dequeue_empty: "psem_dequeue h None = Some (h, None, None)"
  by (simp add: psem_dequeue_def)

lemma psem_dequeue_removes:
  assumes "queue_ok h q (a # as)"
  shows "\<exists>h' q'. psem_dequeue h q = Some (h', q', Some a) \<and> queue_ok h' q' as \<and>
    waiting h' as = waiting h as \<and> (\<exists>n. h' a = Some n \<and> pn_id n = pn_id (the (h a))) \<and>
    dom h' = dom h \<and> (\<forall>b. b \<notin> set (a # as) \<longrightarrow> h' b = h b)"
proof -
  obtain n where n: "q = Some a" "h a = Some n" "queue_ok h (pn_next n) as" using assms by auto
  have d: "distinct (a # as)" by (rule queue_ok_distinct [OF assms])
  show ?thesis
  proof (cases as)
    case Nil
    then show ?thesis using n by (auto simp: psem_dequeue_def waiting_def)
  next
    case (Cons b as')
    then obtain bn where bn: "pn_next n = Some b" "h b = Some bn" "queue_ok h (pn_next bn) as'"
      using n by auto
    define h' where "h' = h(b \<mapsto> bn\<lparr>pn_prev := None\<rparr>, a \<mapsto> n\<lparr>pn_next := None\<rparr>)"
    have "psem_dequeue h q = Some (h', Some b, Some a)"
      using n bn d Cons by (simp add: psem_dequeue_def h'_def)
    moreover have fr: "queue_ok h' (pn_next bn) as'" "waiting h' as' = waiting h as'"
    proof -
      have "h' c = h c" if "c \<in> set as'" for c using that d Cons by (auto simp: h'_def)
      then show "queue_ok h' (pn_next bn) as'" "waiting h' as' = waiting h as'"
        using queue_ok_frame [OF bn(3), of h'] by blast+
    qed
    moreover have "queue_ok h' (Some b) as" using fr Cons d by (simp add: h'_def)
    moreover have "waiting h' as = waiting h as"
    proof -
      have "pn_id (the (h' b)) = pn_id (the (h b))" using d Cons bn(2) by (simp add: h'_def)
      then show ?thesis using fr(2) Cons by (simp add: waiting_def)
    qed
    moreover have "h' a = Some (n\<lparr>pn_next := None\<rparr>)" "dom h' = dom h"
      using n bn by (auto simp: h'_def)
    moreover have "\<forall>c. c \<notin> set (a # as) \<longrightarrow> h' c = h c" using Cons by (simp add: h'_def)
    ultimately show ?thesis using n by auto
  qed
qed

text \<open>The invariant with the queues named explicitly.\<close>

lemma queues_inv_queue_of:
  "queues_inv L s \<Longrightarrow> sems s S = Some sem \<Longrightarrow> queue_of s S = L S"
  using walk_queue_ok [of "nodes s" "ps_list sem" "L S"]
  by (simp add: queues_inv_def queue_of_def)

lemma queues_inv_psem_inv:
  assumes "queues_inv L s"
  shows "psem_inv s"
proof -
  have q: "queue_of s S = L S" if "S \<in> dom (sems s)" for S
    using that queues_inv_queue_of [OF assms] by auto
  show ?thesis
    using assms unfolding psem_inv_def queues_inv_def by (simp add: q domI)
qed

lemma psem_absI:
  "queues_inv L s \<Longrightarrow> sems s S = Some sem \<Longrightarrow>
     psem_abs s S = Some (ps_value sem, waiting (nodes s) (L S))"
  by (simp add: psem_abs_def queues_inv_queue_of)

text \<open>Replacing the queue of one semaphore, by a queue of its own and of fresh nodes.\<close>

lemma queues_inv_update:
  assumes inv: "psem_inv s" and S: "sems s S = Some sem"
    and s': "sems s' = (sems s)(S \<mapsto> sem')"
    and fin: "finite (dom (nodes s'))"
    and ok: "queue_ok (nodes s') (ps_list sem') as" "int (length as) = max 0 (- ps_value sem')"
    and sub: "\<And>a. a \<in> set as \<Longrightarrow> a \<in> set (queue_of s S) \<or> a \<notin> dom (nodes s)"
    and frame: "\<And>a. a \<in> dom (nodes s) \<Longrightarrow> a \<notin> set (queue_of s S) \<Longrightarrow> nodes s' a = nodes s a"
  shows "psem_inv s'"
    and "psem_abs s' S = Some (ps_value sem', waiting (nodes s') as)"
    and "\<And>S'. S' \<noteq> S \<Longrightarrow> psem_abs s' S' = psem_abs s S'"
proof -
  define L where "L = (queue_of s)(S := as)"
  have I: "queues_inv (queue_of s) s" using inv by (simp add: psem_inv_def)
  have other: "queue_ok (nodes s') (ps_list t) (queue_of s T) \<and>
      waiting (nodes s') (queue_of s T) = waiting (nodes s) (queue_of s T) \<and>
      set (queue_of s T) \<inter> set as = {} \<and> int (length (queue_of s T)) = max 0 (- ps_value t)"
    if "T \<noteq> S" "sems s T = Some t" for T t
  proof -
    have q: "queue_ok (nodes s) (ps_list t) (queue_of s T)"
        "int (length (queue_of s T)) = max 0 (- ps_value t)"
      using I that(2) by (simp_all add: queues_inv_def)
    have dis: "set (queue_of s T) \<inter> set (queue_of s S) = {}"
      using I that S by (simp add: queues_inv_def domI)
    have "nodes s' a = nodes s a" if "a \<in> set (queue_of s T)" for a
      using frame [of a] that dis q(1) by (auto simp: queue_ok_def)
    then have "queue_ok (nodes s') (ps_list t) (queue_of s T)"
        "waiting (nodes s') (queue_of s T) = waiting (nodes s) (queue_of s T)"
      using queue_ok_frame [OF q(1), of "nodes s'"] by blast+
    moreover have "set (queue_of s T) \<inter> set as = {}"
      using sub dis q(1) unfolding queue_ok_def by blast
    ultimately show ?thesis using q(2) by blast
  qed
  have disj: "set (queue_of s T) \<inter> set (queue_of s T') = {}"
    if "T \<noteq> T'" "T \<in> dom (sems s)" "T' \<in> dom (sems s)" for T T'
    using I that unfolding queues_inv_def by blast
  have L: "queues_inv L s'"
    unfolding queues_inv_def
  proof (intro conjI allI impI)
    show "finite (dom (nodes s'))" by (rule fin)
    fix T t assume "sems s' T = Some t"
    then show "queue_ok (nodes s') (ps_list t) (L T)" "int (length (L T)) = max 0 (- ps_value t)"
      using ok other [of T t] s' by (auto simp: L_def split: if_splits)
  next
    fix T T' assume "T \<noteq> T'" "T \<in> dom (sems s')" "T' \<in> dom (sems s')"
    then show "set (L T) \<inter> set (L T') = {}"
      using other [of T] other [of T'] disj [of T T'] s'
      by (cases "T = S"; cases "T' = S") (auto simp: L_def)
  qed
  show "psem_inv s'" by (rule queues_inv_psem_inv [OF L])
  show "psem_abs s' S = Some (ps_value sem', waiting (nodes s') as)"
    using psem_absI [OF L, of S sem'] s' by (simp add: L_def)
  show "psem_abs s' S' = psem_abs s S'" if "S' \<noteq> S" for S'
  proof (cases "sems s S'")
    case None
    then show ?thesis using that s' by (simp add: psem_abs_def)
  next
    case (Some t)
    then show ?thesis using psem_absI [OF L, of S' t] psem_absI [OF I, of S' t] other [of S' t] that s'
      by (simp add: L_def)
  qed
qed

section \<open>The handlers refine the abstract semaphore\<close>

lemma psem_inv_sem:
  assumes "psem_inv s" "sems s S = Some sem"
  shows "queue_ok (nodes s) (ps_list sem) (queue_of s S)"
    and "int (length (queue_of s S)) = max 0 (- ps_value sem)"
    and "finite (dom (nodes s))"
    and "set (queue_of s S) \<subseteq> dom (nodes s)"
  using assms by (auto simp: psem_inv_def queues_inv_def queue_ok_def)

lemma psem_abs_Some:
  "psem_abs s S = Some (v, q) \<longleftrightarrow>
     (\<exists>sem. sems s S = Some sem \<and> ps_value sem = v \<and> waiting (nodes s) (queue_of s S) = q)"
  by (auto simp: psem_abs_def)

lemma psem_wait_lemma:
  assumes inv: "psem_inv s" and abs: "psem_abs s S = Some (v, q)" and P: "P \<notin> dom (nodes s)"
  shows "\<exists>s'. do_psem_wait (Some P) who S s = Some (if v \<le> 0 then SUSPEND else 0, s') \<and>
    psem_inv s' \<and> psem_abs s' S = Some (v - 1, if v \<le> 0 then q @ [who] else q) \<and>
    (\<forall>S'. S' \<noteq> S \<longrightarrow> psem_abs s' S' = psem_abs s S') \<and> setreply_calls s' = setreply_calls s"
proof -
  obtain sem where sem: "sems s S = Some sem" "ps_value sem = v"
      "waiting (nodes s) (queue_of s S) = q"
    using abs by (auto simp: psem_abs_Some)
  note I = psem_inv_sem [OF inv sem(1)]
  show ?thesis
  proof (cases "v \<le> 0")
    case False
    define s' where "s' = s\<lparr>sems := (sems s)(S \<mapsto> sem\<lparr>ps_value := v - 1\<rparr>)\<rparr>"
    have "psem_inv s'" "psem_abs s' S = Some (v - 1, q)"
        "\<And>S'. S' \<noteq> S \<Longrightarrow> psem_abs s' S' = psem_abs s S'"
      using queues_inv_update [OF inv, of S sem s' "sem\<lparr>ps_value := v - 1\<rparr>" "queue_of s S"] I sem False
      by (simp_all add: s'_def domI)
    then show ?thesis using sem False by (auto simp: do_psem_wait_def s'_def Let_def)
  next
    case True
    let ?h = "(nodes s)(P \<mapsto> \<lparr>pn_id = who, pn_prev = None, pn_next = None\<rparr>)"
    have Pq: "P \<notin> set (queue_of s S)" using I(4) P by auto
    have fr: "queue_ok ?h (ps_list sem) (queue_of s S)" "waiting ?h (queue_of s S) = q"
      using queue_ok_frame [OF I(1), of ?h] Pq sem(3) by auto
    obtain h q' where h: "psem_enqueue ?h (ps_list sem) P = Some (h, q')"
        "queue_ok h q' (queue_of s S @ [P])" "waiting h (queue_of s S @ [P]) = q @ [who]"
        "dom h = dom ?h" "\<forall>a. a \<notin> set (queue_of s S @ [P]) \<longrightarrow> h a = ?h a"
      using psem_enqueue_appends [OF fr(1) Pq, of "\<lparr>pn_id = who, pn_prev = None, pn_next = None\<rparr>"] fr(2)
      by auto
    define s' where
      "s' = s\<lparr>sems := (sems s)(S \<mapsto> \<lparr>ps_value = v - 1, ps_list = q'\<rparr>), nodes := h\<rparr>"
    have ns: "nodes s' = h" "sems s' = (sems s)(S \<mapsto> \<lparr>ps_value = v - 1, ps_list = q'\<rparr>)"
      by (simp_all add: s'_def)
    have upd: "finite (dom (nodes s'))"
        "queue_ok (nodes s') (ps_list \<lparr>ps_value = v - 1, ps_list = q'\<rparr>) (queue_of s S @ [P])"
        "int (length (queue_of s S @ [P])) = max 0 (- ps_value \<lparr>ps_value = v - 1, ps_list = q'\<rparr>)"
      using I(2,3) sem(2) True h(2,4) by (simp_all add: ns)
    have sub: "a \<in> set (queue_of s S) \<or> a \<notin> dom (nodes s)" if "a \<in> set (queue_of s S @ [P])" for a
      using that P by auto
    have frame: "nodes s' a = nodes s a" if "a \<in> dom (nodes s)" "a \<notin> set (queue_of s S)" for a
      using h(5) that P by (auto simp: ns)
    have "psem_inv s'" "psem_abs s' S = Some (v - 1, q @ [who])"
        "\<And>S'. S' \<noteq> S \<Longrightarrow> psem_abs s' S' = psem_abs s S'"
      using queues_inv_update [OF inv sem(1) ns(2) upd sub frame] h(3) ns(1) by simp_all
    then show ?thesis using sem True h(1) by (auto simp: do_psem_wait_def s'_def Let_def)
  qed
qed

lemma psem_signal_lemma:
  assumes inv: "psem_inv s" and abs: "psem_abs s S = Some (v, q)"
  shows "\<exists>s'. do_psem_signal S s = Some (0, s') \<and>
    psem_inv s' \<and> psem_abs s' S = Some (v + 1, tl q) \<and>
    (\<forall>S'. S' \<noteq> S \<longrightarrow> psem_abs s' S' = psem_abs s S') \<and>
    setreply_calls s' = setreply_calls s @ (case q of [] \<Rightarrow> [] | p # _ \<Rightarrow> [(p, 0)])"
proof -
  obtain sem where sem: "sems s S = Some sem" "ps_value sem = v"
      "waiting (nodes s) (queue_of s S) = q"
    using abs by (auto simp: psem_abs_Some)
  note I = psem_inv_sem [OF inv sem(1)]
  show ?thesis
  proof (cases "queue_of s S")
    case Nil
    then have q: "q = []" "0 \<le> v" using sem I(2) by (auto simp: waiting_def)
    define s' where "s' = s\<lparr>sems := (sems s)(S \<mapsto> sem\<lparr>ps_value := v + 1\<rparr>)\<rparr>"
    have "psem_inv s'" "psem_abs s' S = Some (v + 1, tl q)"
        "\<And>S'. S' \<noteq> S \<Longrightarrow> psem_abs s' S' = psem_abs s S'"
      using queues_inv_update [OF inv, of S sem s' "sem\<lparr>ps_value := v + 1\<rparr>" "queue_of s S"] I sem q Nil
      by (simp_all add: s'_def domI waiting_def)
    then show ?thesis using sem q by (auto simp: do_psem_signal_def s'_def Let_def)
  next
    case (Cons a as)
    then have v: "v < 0" "int (length as) = - v - 1" using I(2) sem(2) by auto
    have q: "q = pn_id (the (nodes s a)) # waiting (nodes s) as"
      using sem(3) Cons by (simp add: waiting_def)
    have "queue_ok (nodes s) (ps_list sem) (a # as)" using I(1) Cons by simp
    note D = psem_dequeue_removes [OF this]
    obtain h q' n where h: "psem_dequeue (nodes s) (ps_list sem) = Some (h, q', Some a)"
        "queue_ok h q' as" "waiting h as = waiting (nodes s) as" "h a = Some n"
        "pn_id n = pn_id (the (nodes s a))" "dom h = dom (nodes s)"
        "\<forall>b. b \<notin> set (a # as) \<longrightarrow> h b = nodes s b"
      using D by blast
    have "distinct (a # as)" using queue_ok_distinct [OF I(1)] Cons by simp
    then have fr: "queue_ok (h(a := None)) q' as" "waiting (h(a := None)) as = waiting (nodes s) as"
      using queue_ok_frame [OF h(2), of "h(a := None)"] h(3) by auto
    define s' where "s' = s\<lparr>sems := (sems s)(S \<mapsto> \<lparr>ps_value = v + 1, ps_list = q'\<rparr>),
        nodes := h(a := None), setreply_calls := setreply_calls s @ [(pn_id n, 0)]\<rparr>"
    have ns: "nodes s' = h(a := None)" "sems s' = (sems s)(S \<mapsto> \<lparr>ps_value = v + 1, ps_list = q'\<rparr>)"
      by (simp_all add: s'_def)
    have upd: "finite (dom (nodes s'))"
        "queue_ok (nodes s') (ps_list \<lparr>ps_value = v + 1, ps_list = q'\<rparr>) as"
        "int (length as) = max 0 (- ps_value \<lparr>ps_value = v + 1, ps_list = q'\<rparr>)"
      using I(3) h(6) fr(1) v by (simp_all add: ns)
    have sub: "b \<in> set (queue_of s S) \<or> b \<notin> dom (nodes s)" if "b \<in> set as" for b
      using that Cons by simp
    have frame: "nodes s' b = nodes s b" if "b \<in> dom (nodes s)" "b \<notin> set (queue_of s S)" for b
      using h(7) that Cons by (simp add: ns)
    have "psem_inv s'" "psem_abs s' S = Some (v + 1, tl q)"
        "\<And>S'. S' \<noteq> S \<Longrightarrow> psem_abs s' S' = psem_abs s S'"
      using queues_inv_update [OF inv sem(1) ns(2) upd sub frame] fr(2) ns(1) q
      by simp_all
    then show ?thesis using sem v h(1,4,5) q by (auto simp: do_psem_signal_def s'_def Let_def)
  qed
qed

lemma destroy_loop_frees:
  assumes "queue_ok h q as" "\<forall>x. P = Some x \<longrightarrow> x \<notin> set as \<and> h x \<noteq> None" "P = None \<longrightarrow> as = []"
  shows "\<exists>h'. destroy_loop h q P = Some h' \<and> dom h' = dom h - set as - set_option P \<and>
    (\<forall>x. x \<in> dom h' \<longrightarrow> h' x = h x)"
  using assms
proof (induction as arbitrary: h q P)
  case Nil
  show ?case
  proof (cases P)
    case None
    then show ?thesis by (simp add: destroy_loop.simps [of h q None])
  next
    case (Some x)
    then have "destroy_loop h q P = destroy_loop (h(x := None)) None None" using Nil
      by (simp add: destroy_loop.simps [of h None "Some x"] psem_dequeue_empty)
    then have "destroy_loop h q P = Some (h(x := None))"
      by (simp add: destroy_loop.simps [of "h(x := None)" None None])
    then show ?thesis using Some by auto
  qed
next
  case (Cons a as)
  then obtain x where x: "P = Some x" "x \<notin> set (a # as)" "h x \<noteq> None" by auto
  let ?h = "h(x := None)"
  have ok: "queue_ok ?h q (a # as)"
    using x queue_ok_frame(1) [OF Cons.prems(1), of ?h] by auto
  obtain h1 q1 where d: "psem_dequeue ?h q = Some (h1, q1, Some a)" "queue_ok h1 q1 as"
      "h1 a \<noteq> None" "dom h1 = dom ?h" "\<forall>b. b \<notin> set (a # as) \<longrightarrow> h1 b = ?h b"
    using psem_dequeue_removes [OF ok] by blast
  have "a \<notin> set as" using queue_ok_distinct [OF ok] by simp
  then obtain h' where h': "destroy_loop h1 q1 (Some a) = Some h'"
      "dom h' = dom h1 - set as - {a}" "\<forall>x. x \<in> dom h' \<longrightarrow> h' x = h1 x"
    using Cons.IH [OF d(2), of "Some a"] d(3) by auto
  have "destroy_loop h q P = Some h'"
    using x d(1) h'(1) by (simp add: destroy_loop.simps [of h q])
  moreover have "dom h' = dom h - set (a # as) - set_option P" using h'(2) d(4) x by auto
  moreover have "\<forall>y. y \<in> dom h' \<longrightarrow> h' y = h y" using h'(2,3) d(4,5) x by auto
  ultimately show ?case by blast
qed

section \<open>Counting and order of service\<close>

text \<open>
  The contract of a FIFO semaphore: \<open>wait\<close> and \<open>signal\<close> on states with a value, a waiting
  queue and a log of wake-ups. The client's view is a sequence of operations; \<open>run\<close> collects
  the processes that got past their wait, in the order in which they did.
\<close>

datatype psem_op = P_wait int | P_signal

fun psem_waits :: "psem_op list \<Rightarrow> int list" where
  "psem_waits [] = []"
| "psem_waits (P_wait p # ops) = p # psem_waits ops"
| "psem_waits (P_signal # ops) = psem_waits ops"

fun psem_run ::
  "(int \<Rightarrow> 's \<Rightarrow> (int \<times> 's) option) \<Rightarrow> ('s \<Rightarrow> (int \<times> 's) option) \<Rightarrow> ('s \<Rightarrow> (int \<times> int) list) \<Rightarrow>
     psem_op list \<Rightarrow> 's \<Rightarrow> (int list \<times> 's) option" where
  "psem_run wait signal log [] s = Some ([], s)"
| "psem_run wait signal log (P_wait p # ops) s = do {
     (r, s1) \<leftarrow> wait p s;
     (g, s2) \<leftarrow> psem_run wait signal log ops s1;
     Some (if r = 0 then p # g else g, s2)
   }"
| "psem_run wait signal log (P_signal # ops) s = do {
     (r, s1) \<leftarrow> signal s;
     (g, s2) \<leftarrow> psem_run wait signal log ops s1;
     Some (map fst (drop (length (log s)) (log s1)) @ g, s2)
   }"

locale fifo_semaphore =
  fixes wait :: "int \<Rightarrow> 's \<Rightarrow> (int \<times> 's) option"
    and signal :: "'s \<Rightarrow> (int \<times> 's) option"
    and log :: "'s \<Rightarrow> (int \<times> int) list"
    and good :: "'s \<Rightarrow> bool"
    and abs :: "'s \<Rightarrow> int \<times> int list"
  assumes wait_spec: "good s \<Longrightarrow> abs s = (v, q) \<Longrightarrow>
      \<exists>s'. wait p s = Some (if v \<le> 0 then SUSPEND else 0, s') \<and> good s' \<and>
        abs s' = (v - 1, if v \<le> 0 then q @ [p] else q)"
    and signal_spec: "good s \<Longrightarrow> abs s = (v, q) \<Longrightarrow>
      \<exists>s'. signal s = Some (0, s') \<and> good s' \<and> abs s' = (v + 1, tl q) \<and>
        log s' = log s @ (case q of [] \<Rightarrow> [] | p # _ \<Rightarrow> [(p, 0)])"
    and queue_length: "good s \<Longrightarrow> abs s = (v, q) \<Longrightarrow> int (length q) = max 0 (- v)"
begin

lemma run_grants:
  "good s \<Longrightarrow> abs s = (v, q) \<Longrightarrow>
     \<exists>s'. psem_run wait signal log ops s =
            Some (take (nat v + count_list ops P_signal) (q @ psem_waits ops), s') \<and> good s' \<and>
          snd (abs s') = drop (nat v + count_list ops P_signal) (q @ psem_waits ops)"
proof (induction ops arbitrary: s v q)
  case Nil
  then show ?case using queue_length [OF Nil] by (cases "v \<le> 0") auto
next
  case (Cons x ops)
  have len: "int (length q) = max 0 (- v)" by (rule queue_length [OF Cons.prems])
  show ?case
  proof (cases x)
    case (P_wait p)
    obtain s1 where s1: "wait p s = Some (if v \<le> 0 then SUSPEND else 0, s1)" "good s1"
        "abs s1 = (v - 1, if v \<le> 0 then q @ [p] else q)"
      using wait_spec [OF Cons.prems] by blast
    show ?thesis
    proof (cases "v \<le> 0")
      case True
      then show ?thesis using s1 Cons.IH [OF s1(2), of "v - 1" "q @ [p]"] P_wait
        by (auto simp: SUSPEND_def)
    next
      case False
      then have "nat v = Suc (nat (v - 1))" "q = []" using len by auto
      then show ?thesis using s1 Cons.IH [OF s1(2), of "v - 1" q] P_wait False by auto
    qed
  next
    case P_signal
    obtain s1 where s1: "signal s = Some (0, s1)" "good s1" "abs s1 = (v + 1, tl q)"
        "log s1 = log s @ (case q of [] \<Rightarrow> [] | p # _ \<Rightarrow> [(p, 0)])"
      using signal_spec [OF Cons.prems] by blast
    show ?thesis
    proof (cases q)
      case Nil
      then have "nat (v + 1) = Suc (nat v)" using len by auto
      then show ?thesis using s1 Cons.IH [OF s1(2,3)] P_signal Nil by auto
    next
      case (Cons p q')
      then have "nat v = 0" "nat (v + 1) = 0" using len by auto
      then show ?thesis using s1 Cons.IH [OF s1(2,3)] P_signal Cons by auto
    qed
  qed
qed

end

text \<open>
  The handlers keep the contract, for any \<open>malloc\<close> that never returns the address of a live
  node.
\<close>

definition fresh_malloc :: "((nat \<Rightarrow> pnode option) \<Rightarrow> nat) \<Rightarrow> bool" where
  "fresh_malloc malloc \<longleftrightarrow> (\<forall>h. finite (dom h) \<longrightarrow> malloc h \<notin> dom h)"

definition pm_wait :: "((nat \<Rightarrow> pnode option) \<Rightarrow> nat) \<Rightarrow> nat \<Rightarrow> int \<Rightarrow> pm_heap \<Rightarrow> (int \<times> pm_heap) option" where
  "pm_wait malloc S p s = do_psem_wait (Some (malloc (nodes s))) p S s"

lemma pm_fifo_semaphore:
  assumes "fresh_malloc malloc"
  shows "fifo_semaphore (pm_wait malloc S) (do_psem_signal S) setreply_calls
    (\<lambda>s. psem_inv s \<and> S \<in> dom (sems s)) (\<lambda>s. the (psem_abs s S))"
proof
  fix s v q p
  assume good: "psem_inv s \<and> S \<in> dom (sems s)" and "the (psem_abs s S) = (v, q)"
  then have inv: "psem_inv s" and abs: "psem_abs s S = Some (v, q)" by (auto simp: psem_abs_def)
  have dom: "S \<in> dom (sems s')" if "psem_abs s' S = Some z" for s' z
    using that by (auto simp: psem_abs_def)
  have "malloc (nodes s) \<notin> dom (nodes s)"
    using assms inv by (simp add: fresh_malloc_def psem_inv_def queues_inv_def)
  from psem_wait_lemma [OF inv abs this, of p]
  show "\<exists>s'. pm_wait malloc S p s = Some (if v \<le> 0 then SUSPEND else 0, s') \<and>
      (psem_inv s' \<and> S \<in> dom (sems s')) \<and>
      the (psem_abs s' S) = (v - 1, if v \<le> 0 then q @ [p] else q)"
    using dom unfolding pm_wait_def by (metis option.sel)
  from psem_signal_lemma [OF inv abs]
  show "\<exists>s'. do_psem_signal S s = Some (0, s') \<and> (psem_inv s' \<and> S \<in> dom (sems s')) \<and>
      the (psem_abs s' S) = (v + 1, tl q) \<and>
      setreply_calls s' = setreply_calls s @ (case q of [] \<Rightarrow> [] | p # _ \<Rightarrow> [(p, 0)])"
    using dom by (metis option.sel)
  show "int (length q) = max 0 (- v)"
    using abs psem_inv_sem(2) [OF inv] by (auto simp: psem_abs_Some waiting_def)
qed

text \<open>A first-fit allocator is one such \<open>malloc\<close>.\<close>

definition first_fit :: "(nat \<Rightarrow> pnode option) \<Rightarrow> nat" where
  "first_fit h = (LEAST a. a \<notin> dom h)"

lemma fresh_first_fit: "fresh_malloc first_fit"
  unfolding fresh_malloc_def first_fit_def
  by (metis LeastI ex_new_if_finite infinite_UNIV_nat)

interpretation pm_first_fit: fifo_semaphore "pm_wait first_fit S" "do_psem_signal S" setreply_calls
  "\<lambda>s. psem_inv s \<and> S \<in> dom (sems s)" "\<lambda>s. the (psem_abs s S)" for S
  by (rule pm_fifo_semaphore [OF fresh_first_fit])

lemma psem_init_abs:
  assumes inv: "psem_inv s" and S: "sems s S = None" and n: "0 \<le> n"
  shows "\<exists>s'. do_psem_init (Some S) n s = (OK, s', Some S) \<and> psem_inv s' \<and>
    psem_abs s' S = Some (n, []) \<and> (\<forall>S'. S' \<noteq> S \<longrightarrow> psem_abs s' S' = psem_abs s S')"
proof -
  define s' where "s' = s\<lparr>sems := (sems s)(S \<mapsto> \<lparr>ps_value = n, ps_list = None\<rparr>)\<rparr>"
  define L where "L = (queue_of s)(S := [])"
  have I: "queues_inv (queue_of s) s" using inv by (simp add: psem_inv_def)
  have L: "queues_inv L s'" using I n by (auto simp: queues_inv_def L_def s'_def)
  have "psem_abs s' S' = psem_abs s S'" if "S' \<noteq> S" for S'
  proof -
    have "queue_of s' S' = queue_of s S'" using that unfolding queue_of_def by (simp add: s'_def split: option.split)
    then show ?thesis using that unfolding psem_abs_def by (simp add: s'_def)
  qed
  moreover have "psem_abs s' S = Some (n, [])"
    using psem_absI [OF L, of S "\<lparr>ps_value = n, ps_list = None\<rparr>"]
    by (simp add: s'_def L_def waiting_def)
  moreover have "psem_inv s'" by (rule queues_inv_psem_inv [OF L])
  ultimately show ?thesis by (simp add: do_psem_init_def s'_def)
qed

lemma psem_destroy_lemma:
  assumes inv: "psem_inv s" and S: "sems s S = Some sem"
  shows "\<exists>s'. do_psem_destroy S s = Some (0, s') \<and> psem_inv s' \<and> sems s' S = None \<and>
    dom (nodes s') = dom (nodes s) - set (queue_of s S) \<and>
    (\<forall>S'. S' \<noteq> S \<longrightarrow> psem_abs s' S' = psem_abs s S') \<and> setreply_calls s' = setreply_calls s"
proof -
  note I = psem_inv_sem [OF inv S]
  have L: "queues_inv (queue_of s) s" using inv by (simp add: psem_inv_def)
  obtain h q P h' where d: "psem_dequeue (nodes s) (ps_list sem) = Some (h, q, P)"
      "destroy_loop h q P = Some h'" "dom h' = dom (nodes s) - set (queue_of s S)"
      "\<forall>x. x \<in> dom h' \<longrightarrow> h' x = nodes s x"
  proof (cases "queue_of s S")
    case Nil
    then show ?thesis using that [of "nodes s" None None "nodes s"] I(1)
      by (simp add: psem_dequeue_empty destroy_loop.simps [of "nodes s" None None])
  next
    case (Cons a as)
    then have ok: "queue_ok (nodes s) (ps_list sem) (a # as)" using I(1) by simp
    have a: "a \<notin> set as" using queue_ok_distinct [OF ok] by simp
    obtain h q where h: "psem_dequeue (nodes s) (ps_list sem) = Some (h, q, Some a)"
        "queue_ok h q as" "h a \<noteq> None" "dom h = dom (nodes s)"
        "\<forall>b. b \<notin> set (a # as) \<longrightarrow> h b = nodes s b"
      using psem_dequeue_removes [OF ok] by blast
    obtain h' where h': "destroy_loop h q (Some a) = Some h'"
        "dom h' = dom h - set as - {a}" "\<forall>x. x \<in> dom h' \<longrightarrow> h' x = h x"
      using destroy_loop_frees [OF h(2), of "Some a"] h(3) a by auto
    show ?thesis using that [OF h(1) h'(1)] h'(2,3) h(4,5) Cons by auto
  qed
  define s' where "s' = s\<lparr>sems := (sems s)(S := None), nodes := h'\<rparr>"
  have other: "queue_ok h' (ps_list t) (queue_of s T) \<and>
      waiting h' (queue_of s T) = waiting (nodes s) (queue_of s T)"
    if "T \<noteq> S" "sems s T = Some t" for T t
  proof -
    have q: "queue_ok (nodes s) (ps_list t) (queue_of s T)" using L that by (simp add: queues_inv_def)
    have "set (queue_of s T) \<inter> set (queue_of s S) = {}"
      using L that S unfolding queues_inv_def by (simp add: domI)
    then have "\<forall>a\<in>set (queue_of s T). h' a = nodes s a"
      using d(3,4) q unfolding queue_ok_def by blast
    then show ?thesis using queue_ok_frame [OF q] by blast
  qed
  have L': "queues_inv (queue_of s) s'"
    using L other d(3) I(3) unfolding queues_inv_def s'_def by auto
  have "psem_abs s' S' = psem_abs s S'" if "S' \<noteq> S" for S'
  proof (cases "sems s S'")
    case None
    then show ?thesis using that by (simp add: psem_abs_def s'_def)
  next
    case (Some t)
    then show ?thesis
      using that other [of S' t] psem_absI [OF L', of S' t] psem_absI [OF L, of S' t]
      by (simp add: s'_def)
  qed
  then show ?thesis using S d queues_inv_psem_inv [OF L']
    by (simp add: do_psem_destroy_def s'_def)
qed

section \<open>Properties\<close>

text \<open>C32. \<open>do_psem_wait\<close> on a live semaphore decrements its value; when the value was positive the
  caller goes on (result 0), otherwise the caller is appended behind all waiting processes
  and suspended. Every other semaphore keeps its value and its queue, and the invariant of the
  queues holds again.
\<close>

theorem psem_wait_refines:
  assumes "psem_inv s" and "psem_abs s S = Some (v, q)" and "P \<notin> dom (nodes s)"
  shows "\<exists>s'. do_psem_wait (Some P) who_p S s = Some (if v \<le> 0 then SUSPEND else 0, s') \<and>
    psem_inv s' \<and> psem_abs s' S = Some (v - 1, if v \<le> 0 then q @ [who_p] else q) \<and>
    (\<forall>S'. S' \<noteq> S \<longrightarrow> psem_abs s' S' = psem_abs s S') \<and> setreply_calls s' = setreply_calls s"
  by (rule psem_wait_lemma [OF assms])

text \<open>A heap with one semaphore of value -1, at which process 7 waits.\<close>

definition demo_heap :: pm_heap where
  "demo_heap = \<lparr>sems = [1 \<mapsto> \<lparr>ps_value = - 1, ps_list = Some 10\<rparr>],
     nodes = [10 \<mapsto> \<lparr>pn_id = 7, pn_prev = None, pn_next = None\<rparr>], setreply_calls = []\<rparr>"

lemma demo_heap_queue: "queue_of demo_heap 1 = [10]"
  using walk_queue_ok [of "nodes demo_heap" "Some 10" "[10]"]
  by (simp add: queue_of_def demo_heap_def)

lemma demo_heap_inv: "psem_inv demo_heap" "psem_abs demo_heap 1 = Some (- 1, [7])"
proof -
  show "psem_inv demo_heap"
    using demo_heap_queue by (auto simp: psem_inv_def queues_inv_def demo_heap_def split: if_splits)
  show "psem_abs demo_heap 1 = Some (- 1, [7])"
    using demo_heap_queue by (simp add: psem_abs_def waiting_def) (simp add: demo_heap_def)
qed

theorem psem_wait_refines_witness:
  "\<exists>s'. do_psem_wait (Some 11) 9 1 demo_heap = Some (SUSPEND, s') \<and>
     psem_inv s' \<and> psem_abs s' 1 = Some (- 2, [7, 9])"
proof -
  have "(11::nat) \<notin> dom (nodes demo_heap)" by (simp add: demo_heap_def)
  from psem_wait_refines [OF demo_heap_inv this, of 9] show ?thesis by auto
qed





text \<open>C34. \<open>do_psem_destroy\<close> returns, frees the semaphore and exactly the nodes queued at it, and
  leaves the other semaphores as they are. The processes that were waiting get no reply.
\<close>

theorem psem_destroy_frees:
  assumes "psem_inv s" and "sems s S = Some sem"
  shows "\<exists>s'. do_psem_destroy S s = Some (0, s') \<and> psem_inv s' \<and> sems s' S = None \<and>
    dom (nodes s') = dom (nodes s) - set (queue_of s S) \<and>
    (\<forall>S'. S' \<noteq> S \<longrightarrow> psem_abs s' S' = psem_abs s S') \<and> setreply_calls s' = setreply_calls s"
  by (rule psem_destroy_lemma [OF assms])

theorem psem_destroy_frees_witness:
  "\<exists>s'. do_psem_destroy 1 demo_heap = Some (0, s') \<and> psem_inv s' \<and> dom (nodes s') = {}"
proof -
  have "sems demo_heap 1 = Some \<lparr>ps_value = - 1, ps_list = Some 10\<rparr>" by (simp add: demo_heap_def)
  from psem_destroy_frees [OF demo_heap_inv(1) this] demo_heap_queue show ?thesis
    by (auto simp: demo_heap_def)
qed

text \<open>C35. A semaphore initialised with a negative value (which \<open>do_psem_init\<close> accepts) makes the
  next \<open>do_psem_signal\<close> follow the null pointer its empty queue returns: PM crashes.
\<close>

theorem psem_negative_init_crashes:
  assumes "n < 0" and "do_psem_init (Some S) n s = (OK, s1, Some S)"
  shows "do_psem_signal S s1 = None"
  using assms by (auto simp: do_psem_init_def do_psem_signal_def psem_dequeue_empty)

theorem psem_negative_init_crashes_witness:
  "do_psem_signal 2 (fst (snd (do_psem_init (Some 2) (- 1) demo_heap))) = None"
  by (rule psem_negative_init_crashes [of "- 1" 2 demo_heap]) (simp_all add: do_psem_init_def)

end
