(* ===== verification/Timers.thy ===== *)
theory Timers
  imports Prelude
begin

text \<open>
  The watchdog timers of \<^verbatim>\<open>lib/libtimers\<close> (\<^verbatim>\<open>minix/timers.h\<close>): a linked queue of timers in the
  order in which they expire. A timer is a number, the queue a pointer to its first timer; the
  pointer-to-pointer \<open>atp\<close> of the loops addresses that pointer (\<open>None\<close>) or the link of a timer. Times
  are \<open>clock_t\<close>, unsigned and 32 bits wide on this machine. What a watchdog function is, and what
  running one does to the world around the queue, is left open: the locale \<open>timer_host\<close> says what the expiry loop
  relies on.
\<close>

section \<open>The queue\<close>

type_synonym clock_t = "32 word"

definition TMR_NEVER :: clock_t where "TMR_NEVER = 0x7FFFFFFF"

record 'f mtimer =
  tmr_next :: "nat option"
  tmr_exp_time :: clock_t
  tmr_func :: 'f
  tmr_arg :: int

record 'f tmr_queue =
  tmrs :: "nat option"
  tmr :: "nat \<Rightarrow> 'f mtimer"

definition upd_tmr :: "nat \<Rightarrow> ('f mtimer \<Rightarrow> 'f mtimer) \<Rightarrow> 'f tmr_queue \<Rightarrow> 'f tmr_queue" where
  "upd_tmr t f q = q\<lparr>tmr := (tmr q)(t := f (tmr q t))\<rparr>"

definition head_time :: "'f tmr_queue \<Rightarrow> clock_t" where
  "head_time q = (case tmrs q of None \<Rightarrow> 0 | Some t \<Rightarrow> tmr_exp_time (tmr q t))"

definition atp_get :: "nat option \<Rightarrow> 'f tmr_queue \<Rightarrow> nat option" where
  "atp_get atp q = (case atp of None \<Rightarrow> tmrs q | Some t \<Rightarrow> tmr_next (tmr q t))"

definition atp_set :: "nat option \<Rightarrow> nat option \<Rightarrow> 'f tmr_queue \<Rightarrow> 'f tmr_queue" where
  "atp_set atp v q =
     (case atp of None \<Rightarrow> q\<lparr>tmrs := v\<rparr> | Some t \<Rightarrow> upd_tmr t (\<lambda>r. r\<lparr>tmr_next := v\<rparr>) q)"

partial_function (option) clr_walk :: "nat \<Rightarrow> nat option \<Rightarrow> 'f tmr_queue \<Rightarrow> 'f tmr_queue option" where
  "clr_walk tp atp q =
     (case atp_get atp q of
        None \<Rightarrow> Some q
      | Some t \<Rightarrow>
          if t = tp then Some (atp_set atp (tmr_next (tmr q tp)) q) else clr_walk tp (Some t) q)"

text \<open>The results are the time of the first timer before the call, that of the first one after it, and the queue.\<close>

definition tmrs_clrtimer :: "nat \<Rightarrow> 'f tmr_queue \<Rightarrow> (clock_t \<times> clock_t \<times> 'f tmr_queue) option" where
  "tmrs_clrtimer tp q = do {
     let prev_time = head_time q;
     q1 \<leftarrow> clr_walk tp None (upd_tmr tp (\<lambda>r. r\<lparr>tmr_exp_time := TMR_NEVER\<rparr>) q);
     Some (prev_time, head_time q1, q1)
   }"

partial_function (option) set_walk :: "clock_t \<Rightarrow> nat option \<Rightarrow> 'f tmr_queue \<Rightarrow> nat option option" where
  "set_walk exp_time atp q =
     (case atp_get atp q of
        None \<Rightarrow> Some atp
      | Some t \<Rightarrow> if exp_time < tmr_exp_time (tmr q t) then Some atp else set_walk exp_time (Some t) q)"

definition tmrs_settimer ::
  "nat \<Rightarrow> clock_t \<Rightarrow> 'f \<Rightarrow> 'f tmr_queue \<Rightarrow> (clock_t \<times> clock_t \<times> 'f tmr_queue) option" where
  "tmrs_settimer tp exp_time watchdog q = do {
     let old_head = head_time q;
     (_, _, q1) \<leftarrow> tmrs_clrtimer tp q;
     let q2 = upd_tmr tp (\<lambda>r. r\<lparr>tmr_exp_time := exp_time, tmr_func := watchdog\<rparr>) q1;
     atp \<leftarrow> set_walk exp_time None q2;
     let q3 = atp_set atp (Some tp) (upd_tmr tp (\<lambda>r. r\<lparr>tmr_next := atp_get atp q2\<rparr>) q2);
     Some (old_head, head_time q3, q3)
   }"

text \<open>
  The queue is part of a larger state \<open>'s\<close>, read with \<open>get\<close> and written with \<open>put\<close>, which the
  watchdog functions change: \<open>run f t s\<close> calls \<open>f\<close> with the timer \<open>t\<close>.
\<close>

partial_function (option) exp_loop ::
  "('s \<Rightarrow> 'f tmr_queue) \<Rightarrow> ('f tmr_queue \<Rightarrow> 's \<Rightarrow> 's) \<Rightarrow> ('f \<Rightarrow> nat \<Rightarrow> 's \<Rightarrow> 's option) \<Rightarrow> clock_t \<Rightarrow> 's \<Rightarrow>
   's option" where
  "exp_loop get put run now s =
     (case tmrs (get s) of
        None \<Rightarrow> Some s
      | Some tp \<Rightarrow>
          let q = get s in
          if tmr_exp_time (tmr q tp) \<le> now
          then do {
            let q1 = upd_tmr tp (\<lambda>r. r\<lparr>tmr_exp_time := TMR_NEVER\<rparr>) (q\<lparr>tmrs := tmr_next (tmr q tp)\<rparr>);
            s1 \<leftarrow> run (tmr_func (tmr q tp)) tp (put q1 s);
            exp_loop get put run now s1
          }
          else Some s)"

definition tmrs_exptimers ::
  "('s \<Rightarrow> 'f tmr_queue) \<Rightarrow> ('f tmr_queue \<Rightarrow> 's \<Rightarrow> 's) \<Rightarrow> ('f \<Rightarrow> nat \<Rightarrow> 's \<Rightarrow> 's option) \<Rightarrow> clock_t \<Rightarrow> 's \<Rightarrow>
   (clock_t \<times> 's) option" where
  "tmrs_exptimers get put run now s =
     do { s1 \<leftarrow> exp_loop get put run now s; Some (head_time (get s1), s1) }"

text \<open>What taking timers off the queue and running their watchdogs leaves alone.\<close>

lemma exp_loop_field:
  assumes "exp_loop get put run now s = Some s'"
    and "\<And>f t a b. run f t a = Some b \<Longrightarrow> F b = F a" "\<And>q a. F (put q a) = F a"
  shows "F s' = F s"
proof -
  have "(\<forall>f t a b. run f t a = Some b \<longrightarrow> F b = F a) \<longrightarrow> (\<forall>q a. F (put q a) = F a) \<longrightarrow> F s' = F s"
    by (rule exp_loop.raw_induct [where P = "\<lambda>get put run now s s'. (\<forall>f t a b. run f t a = Some b \<longrightarrow> F b = F a) \<longrightarrow>
          (\<forall>q a. F (put q a) = F a) \<longrightarrow> F s' = F s", OF _ assms(1)])
      (fastforce simp: Let_def bind_eq_Some_conv split: option.splits if_splits)
  then show ?thesis using assms(2,3) by blast
qed

section \<open>The queue as a sorted list\<close>

definition timer_next :: "'f tmr_queue \<Rightarrow> nat \<Rightarrow> nat option" where
  "timer_next q t = tmr_next (tmr q t)"

definition timer_list :: "'f tmr_queue \<Rightarrow> nat list \<Rightarrow> bool" where
  "timer_list q ts \<longleftrightarrow> chain (timer_next q) (tmrs q) ts"

definition expiry :: "'f tmr_queue \<Rightarrow> nat \<Rightarrow> clock_t" where
  "expiry q t = tmr_exp_time (tmr q t)"

definition timers_sorted :: "'f tmr_queue \<Rightarrow> nat list \<Rightarrow> bool" where
  "timers_sorted q ts \<longleftrightarrow> sorted (map (expiry q) ts)"

text \<open>Everything about a timer but its link.\<close>

definition timer_data :: "'f tmr_queue \<Rightarrow> nat \<Rightarrow> clock_t \<times> 'f \<times> int" where
  "timer_data q t = (tmr_exp_time (tmr q t), tmr_func (tmr q t), tmr_arg (tmr q t))"

definition last_opt :: "nat list \<Rightarrow> nat option" where
  "last_opt ts = (if ts = [] then None else Some (last ts))"

definition hd_opt :: "nat list \<Rightarrow> nat option" where
  "hd_opt ts = (case ts of [] \<Rightarrow> None | t # _ \<Rightarrow> Some t)"

lemma hd_opt_simps [simp]: "hd_opt [] = None" "hd_opt (t # ts) = Some t"
  by (simp_all add: hd_opt_def)

lemma last_opt_simps [simp]: "last_opt [] = None" "last_opt (ts @ [t]) = Some t"
  by (simp_all add: last_opt_def)

lemma expiry_upd [simp]:
  "expiry (upd_tmr t f q) u = (if u = t then tmr_exp_time (f (tmr q t)) else expiry q u)"
  "expiry (q\<lparr>tmrs := v\<rparr>) u = expiry q u"
  "timer_next (upd_tmr t f q) = (timer_next q)(t := tmr_next (f (tmr q t)))"
  "timer_next (q\<lparr>tmrs := v\<rparr>) = timer_next q"
  "timer_data (upd_tmr t f q) u =
     (if u = t then (tmr_exp_time (f (tmr q t)), tmr_func (f (tmr q t)), tmr_arg (f (tmr q t))) else timer_data q u)"
  "timer_data (q\<lparr>tmrs := v\<rparr>) u = timer_data q u"
  "tmrs (upd_tmr t f q) = tmrs q"
  by (auto simp: expiry_def upd_tmr_def timer_next_def timer_data_def)

lemma timer_list_distinct: "timer_list q ts \<Longrightarrow> distinct ts"
  by (simp add: timer_list_def chain_distinct)

lemma expiry_data: "timer_data q' t = timer_data q t \<Longrightarrow> expiry q' t = expiry q t"
  by (simp add: timer_data_def expiry_def)

lemma atp_get_chain:
  assumes "timer_list q (us @ ts)"
  shows "atp_get (last_opt us) q = hd_opt ts"
proof (cases us rule: rev_cases)
  case Nil
  then show ?thesis using assms by (cases ts) (simp_all add: timer_list_def atp_get_def)
next
  case (snoc us' u)
  have "chain nx p (us' @ u # ts) \<Longrightarrow> nx u = hd_opt ts" for nx p
    by (induction us' arbitrary: p) (cases ts; simp)+
  then show ?thesis
    using assms snoc by (simp add: timer_list_def atp_get_def timer_next_def [symmetric])
qed

lemma clr_walk_result:
  assumes "timer_list q (us @ ts)" "tp \<notin> set us"
  shows "\<exists>q'. clr_walk tp (last_opt us) q = Some q' \<and> timer_list q' (us @ remove1 tp ts) \<and>
    timer_data q' = timer_data q"
  using assms
proof (induction ts arbitrary: us)
  case Nil
  then have "atp_get (last_opt us) q = None" using atp_get_chain [of q us "[]"] by simp
  then show ?case using Nil by (simp add: clr_walk.simps)
next
  case (Cons t ts)
  have at: "atp_get (last_opt us) q = Some t" using atp_get_chain [OF Cons.prems(1)] by simp
  show ?case
  proof (cases "t = tp")
    case False
    have "\<exists>q'. clr_walk tp (last_opt (us @ [t])) q = Some q' \<and> timer_list q' ((us @ [t]) @ remove1 tp ts) \<and>
        timer_data q' = timer_data q"
      using Cons.prems False by (intro Cons.IH) simp_all
    then show ?thesis using at False by (simp add: clr_walk.simps [of tp "last_opt us"])
  next
    case True
    let ?q' = "atp_set (last_opt us) (tmr_next (tmr q tp)) q"
    have "clr_walk tp (last_opt us) q = Some ?q'" using at True by (simp add: clr_walk.simps)
    moreover have "timer_list ?q' (us @ ts)"
    proof (cases "us = []")
      case True
      then show ?thesis using Cons.prems(1) \<open>t = tp\<close>
        by (simp add: timer_list_def atp_set_def timer_next_def [symmetric] last_opt_def)
    next
      case False
      have "chain (timer_next q) (tmrs q) (us @ t # ts)" using Cons.prems(1) by (simp add: timer_list_def)
      from chain_unlink(2) [OF this False] False \<open>t = tp\<close> show ?thesis
        by (simp add: timer_list_def atp_set_def timer_next_def [symmetric] last_opt_def)
    qed
    moreover have "timer_data ?q' = timer_data q"
      by (rule ext) (simp add: atp_set_def timer_data_def [symmetric] split: option.split)
    ultimately show ?thesis using True by auto
  qed
qed

lemma tmrs_clrtimer_result:
  assumes "timer_list q ts"
  shows "\<exists>q'. tmrs_clrtimer tp q = Some (head_time q, head_time q', q') \<and> timer_list q' (remove1 tp ts) \<and>
    timer_data q' = (timer_data q)(tp := (TMR_NEVER, tmr_func (tmr q tp), tmr_arg (tmr q tp)))"
proof -
  let ?q = "upd_tmr tp (\<lambda>r. r\<lparr>tmr_exp_time := TMR_NEVER\<rparr>) q"
  have "timer_list ?q ([] @ ts)"
    using assms by (simp add: timer_list_def fun_upd_idem timer_next_def)
  from clr_walk_result [OF this, of tp] obtain q' where
    "clr_walk tp None ?q = Some q'" "timer_list q' (remove1 tp ts)" "timer_data q' = timer_data ?q" by auto
  then show ?thesis by (auto simp: tmrs_clrtimer_def)
qed

lemma chain_insert:
  assumes "chain nx p (us @ ts)" "y \<notin> set (us @ ts)"
  shows "us = [] \<Longrightarrow> chain (nx(y := hd_opt ts)) (Some y) (y # ts)"
    and "us \<noteq> [] \<Longrightarrow> chain (nx(y := hd_opt ts, last us := Some y)) p (us @ y # ts)"
proof -
  have first: "chain (nx(y := hd_opt ts)) (Some y) (y # ts)" if "chain nx p ts" "y \<notin> set ts" for nx p
  proof -
    have "p = hd_opt ts" using that(1) by (cases ts) simp_all
    then show ?thesis using that by (simp add: chain_frame)
  qed
  show "chain (nx(y := hd_opt ts)) (Some y) (y # ts)" if "us = []" using assms that first by simp
  show "chain (nx(y := hd_opt ts, last us := Some y)) p (us @ y # ts)" if "us \<noteq> []"
    using assms that
  proof (induction us arbitrary: p)
    case Nil
    then show ?case by simp
  next
    case (Cons u us)
    have d: "distinct (u # us @ ts)" "u \<noteq> y" using chain_distinct [OF Cons.prems(1)] Cons.prems(2) by auto
    show ?case
    proof (cases "us = []")
      case True
      have "chain nx (nx u) ts" "y \<notin> set ts" using Cons.prems True by simp_all
      from first [OF this] have "chain ((nx(y := hd_opt ts))(u := Some y)) (Some y) (y # ts)"
        using d True by (subst chain_frame) auto
      then show ?thesis using Cons.prems True by (simp add: fun_upd_def)
    next
      case False
      then have "last us \<noteq> u" using d(1) by (metis Un_iff distinct.simps(2) last_in_set set_append)
      then show ?thesis using Cons False d(2) by simp
    qed
  qed
qed

lemma set_walk_result:
  assumes "timer_list q (us @ ts)"
  shows "set_walk e (last_opt us) q = Some (last_opt (us @ takeWhile (\<lambda>t. expiry q t \<le> e) ts))"
  using assms
proof (induction ts arbitrary: us)
  case Nil
  then have "atp_get (last_opt us) q = None" using atp_get_chain [of q us "[]"] by simp
  then show ?case by (simp add: set_walk.simps)
next
  case (Cons t ts)
  have at: "atp_get (last_opt us) q = Some t" using atp_get_chain [OF Cons.prems] by simp
  show ?case
  proof (cases "expiry q t \<le> e")
    case True
    then have "set_walk e (last_opt us) q = set_walk e (last_opt (us @ [t])) q"
      using at by (simp add: set_walk.simps [of e "last_opt us"] expiry_def not_less [symmetric])
    then show ?thesis using Cons.IH [of "us @ [t]"] Cons.prems True by simp
  next
    case False
    then show ?thesis using at by (auto simp: set_walk.simps expiry_def)
  qed
qed

text \<open>Where a timer goes: behind all timers that expire no later than it does.\<close>

definition insert_timer :: "(nat \<Rightarrow> clock_t) \<Rightarrow> clock_t \<Rightarrow> nat \<Rightarrow> nat list \<Rightarrow> nat list" where
  "insert_timer f e tp ts = takeWhile (\<lambda>t. f t \<le> e) ts @ tp # dropWhile (\<lambda>t. f t \<le> e) ts"

lemma tmrs_settimer_result:
  assumes "timer_list q ts"
  shows "\<exists>q'. tmrs_settimer tp e w q = Some (head_time q, head_time q', q') \<and>
    timer_list q' (insert_timer (expiry q) e tp (remove1 tp ts)) \<and>
    timer_data q' = (timer_data q)(tp := (e, w, tmr_arg (tmr q tp)))"
proof -
  obtain q1 where q1: "tmrs_clrtimer tp q = Some (head_time q, head_time q1, q1)" "timer_list q1 (remove1 tp ts)"
    "timer_data q1 = (timer_data q)(tp := (TMR_NEVER, tmr_func (tmr q tp), tmr_arg (tmr q tp)))"
    using tmrs_clrtimer_result [OF assms] by blast
  define q2 where "q2 = upd_tmr tp (\<lambda>r. r\<lparr>tmr_exp_time := e, tmr_func := w\<rparr>) q1"
  have arg: "tmr_arg (tmr q1 tp) = tmr_arg (tmr q tp)"
    using fun_cong [OF q1(3), of tp] by (simp add: timer_data_def)
  have d2: "timer_data q2 = (timer_data q)(tp := (e, w, tmr_arg (tmr q tp)))"
    by (rule ext) (simp add: q2_def q1(3) arg)
  have l2: "timer_list q2 (remove1 tp ts)"
    using q1(2) by (simp add: q2_def timer_list_def fun_upd_idem timer_next_def)
  define us vs where "us = takeWhile (\<lambda>t. expiry q2 t \<le> e) (remove1 tp ts)"
    and "vs = dropWhile (\<lambda>t. expiry q2 t \<le> e) (remove1 tp ts)"
  have uv: "remove1 tp ts = us @ vs" by (simp add: us_def vs_def)
  have nin: "tp \<notin> set (us @ vs)"
    using timer_list_distinct [OF assms] by (simp add: uv [symmetric])
  have at: "set_walk e None q2 = Some (last_opt us)"
    using set_walk_result [of q2 "[]" "remove1 tp ts" e] l2 by (simp add: us_def)
  have nx: "atp_get (last_opt us) q2 = hd_opt vs" using atp_get_chain l2 uv by metis
  define q3 where "q3 = atp_set (last_opt us) (Some tp) (upd_tmr tp (\<lambda>r. r\<lparr>tmr_next := hd_opt vs\<rparr>) q2)"
  have ch: "chain (timer_next q2) (tmrs q2) (us @ vs)" using l2 uv by (simp add: timer_list_def)
  have l3: "timer_list q3 (us @ tp # vs)"
    using chain_insert [OF ch nin]
    by (cases "us = []") (simp_all add: q3_def timer_list_def atp_set_def last_opt_def)
  have d3: "timer_data q3 = timer_data q2"
    by (rule ext) (auto simp: q3_def atp_set_def timer_data_def upd_tmr_def split: option.split)
  have ex: "expiry q2 t = expiry q t" if "t \<in> set (remove1 tp ts)" for t
    using that nin uv fun_cong [OF d2, of t] by (intro expiry_data) auto
  have "us = takeWhile (\<lambda>t. expiry q t \<le> e) (remove1 tp ts)" "vs = dropWhile (\<lambda>t. expiry q t \<le> e) (remove1 tp ts)"
    unfolding us_def vs_def by (auto intro!: takeWhile_cong dropWhile_cong simp: ex)
  then have "us @ tp # vs = insert_timer (expiry q) e tp (remove1 tp ts)" by (simp add: insert_timer_def)
  moreover have "tmrs_settimer tp e w q = Some (head_time q, head_time q3, q3)"
    by (simp add: tmrs_settimer_def q1(1) q2_def [symmetric] at nx q3_def Let_def)
  ultimately show ?thesis using l3 d3 d2 by auto
qed

lemma insert_timer_sorted:
  assumes "sorted (map f ts)" "f tp = e"
  shows "sorted (map f (insert_timer f e tp ts))"
proof -
  let ?us = "takeWhile (\<lambda>t. f t \<le> e) ts" and ?vs = "dropWhile (\<lambda>t. f t \<le> e) ts"
  have s: "sorted (map f (?us @ ?vs))" using assms(1) by simp
  have "e \<le> f v" if "v \<in> set ?vs" for v
  proof (cases ?vs)
    case Nil
    from that show ?thesis unfolding Nil by simp
  next
    case (Cons w ws)
    have "sorted (map f ?vs)" using s unfolding map_append sorted_append by blast
    then have "f w \<le> f v" using that Cons by auto
    moreover have "\<not> f w \<le> e" using hd_dropWhile [of "\<lambda>t. f t \<le> e" ts] Cons by simp
    ultimately show ?thesis by simp
  qed
  moreover have "f u \<le> e" if "u \<in> set ?us" for u using that by (auto dest: set_takeWhileD)
  moreover have "sorted (map f ?us)" "sorted (map f ?vs)" using s unfolding map_append sorted_append by blast+
  ultimately show ?thesis
    using assms(2) by (auto simp: insert_timer_def sorted_append intro: order_trans)
qed

lemma sorted_split:
  fixes f :: "nat \<Rightarrow> clock_t"
  assumes "sorted (map f ts)"
  shows "takeWhile (\<lambda>t. f t \<le> now) ts = filter (\<lambda>t. f t \<le> now) ts \<and>
    dropWhile (\<lambda>t. f t \<le> now) ts = filter (\<lambda>t. now < f t) ts"
  using assms
proof (induction ts)
  case (Cons t ts)
  show ?case
  proof (cases "f t \<le> now")
    case False
    then have "\<not> f u \<le> now" if "u \<in> set (t # ts)" for u
      using that Cons.prems by (auto dest: order_trans)
    then show ?thesis by (simp add: not_le [symmetric])
  qed (use Cons in \<open>simp add: not_less\<close>)
qed simp

section \<open>Expiry\<close>

definition pop_timer :: "nat \<Rightarrow> 'f tmr_queue \<Rightarrow> 'f tmr_queue" where
  "pop_timer t q = upd_tmr t (\<lambda>r. r\<lparr>tmr_exp_time := TMR_NEVER\<rparr>) (q\<lparr>tmrs := tmr_next (tmr q t)\<rparr>)"

locale timer_host =
  fixes get :: "'s \<Rightarrow> 'f tmr_queue"
    and put :: "'f tmr_queue \<Rightarrow> 's \<Rightarrow> 's"
    and run :: "'f \<Rightarrow> nat \<Rightarrow> 's \<Rightarrow> 's option"
  assumes get_put [simp]: "get (put q s) = q"
    and quiet: "run f t s = Some s' \<Longrightarrow> get s' = get s"
begin

text \<open>The timers \<open>ts\<close> leave the queue one after the other, and each watchdog runs with its timer.\<close>

primrec run_timers :: "nat list \<Rightarrow> 's \<Rightarrow> 's option" where
  "run_timers [] s = Some s"
| "run_timers (t # ts) s =
     do { s1 \<leftarrow> run (tmr_func (tmr (get s) t)) t (put (pop_timer t (get s)) s); run_timers ts s1 }"

lemma pop_timer_list:
  assumes "timer_list q (t # ts)"
  shows "timer_list (pop_timer t q) ts"
    and "u \<noteq> t \<Longrightarrow> timer_data (pop_timer t q) u = timer_data q u"
  using assms by (simp_all add: pop_timer_def timer_list_def fun_upd_idem timer_next_def)

lemma exp_loop_runs:
  assumes "timer_list (get s) ts"
  shows "exp_loop get put run now s = run_timers (takeWhile (\<lambda>t. expiry (get s) t \<le> now) ts) s"
  using assms
proof (induction ts arbitrary: s)
  case Nil
  then show ?case by (simp add: exp_loop.simps timer_list_def)
next
  case (Cons t ts)
  have hd: "tmrs (get s) = Some t" using Cons.prems by (simp add: timer_list_def)
  have nin: "t \<notin> set ts" using timer_list_distinct [OF Cons.prems] by simp
  show ?case
  proof (cases "expiry (get s) t \<le> now")
    case False
    then show ?thesis using hd by (simp add: exp_loop.simps expiry_def)
  next
    case True
    have step: "exp_loop get put run now s1 = run_timers (takeWhile (\<lambda>t. expiry (get s) t \<le> now) ts) s1"
      if "run f t (put (pop_timer t (get s)) s) = Some s1" for f s1
    proof -
      have g: "get s1 = pop_timer t (get s)" using quiet [OF that] by simp
      have "timer_list (get s1) ts" using pop_timer_list(1) [OF Cons.prems] g by simp
      moreover have "takeWhile (\<lambda>t. expiry (get s1) t \<le> now) ts = takeWhile (\<lambda>t. expiry (get s) t \<le> now) ts"
        using nin by (intro takeWhile_cong refl) (auto simp: g pop_timer_def)
      ultimately show ?thesis using Cons.IH by simp
    qed
    have "tmr_exp_time (tmr (get s) t) \<le> now" using True by (simp add: expiry_def)
    then have "exp_loop get put run now s = do {
        s1 \<leftarrow> run (tmr_func (tmr (get s) t)) t (put (pop_timer t (get s)) s); exp_loop get put run now s1 }"
      using hd by (simp add: exp_loop.simps [of get put run now s] pop_timer_def Let_def)
    also have "\<dots> = do { s1 \<leftarrow> run (tmr_func (tmr (get s) t)) t (put (pop_timer t (get s)) s);
        run_timers (takeWhile (\<lambda>t. expiry (get s) t \<le> now) ts) s1 }"
      by (intro Option.bind_cong refl step)
    finally show ?thesis using True by simp
  qed
qed

lemma run_timers_queue:
  assumes "run_timers us s = Some s'" "timer_list (get s) (us @ ts)"
  shows "timer_list (get s') ts \<and>
    timer_data (get s') = (\<lambda>t. if t \<in> set us then (TMR_NEVER, snd (timer_data (get s) t)) else timer_data (get s) t)"
  using assms
proof (induction us arbitrary: s)
  case Nil
  then show ?case by simp
next
  case (Cons u us)
  obtain s1 where s1: "run (tmr_func (tmr (get s) u)) u (put (pop_timer u (get s)) s) = Some s1" "run_timers us s1 = Some s'"
    using Cons.prems(1) by (auto simp: bind_eq_Some_conv)
  have g: "get s1 = pop_timer u (get s)" using quiet [OF s1(1)] by simp
  have "timer_list (get s1) (us @ ts)" using pop_timer_list(1) Cons.prems(2) g by simp
  note IH = Cons.IH [OF s1(2) this]
  have "u \<notin> set us" using timer_list_distinct [OF Cons.prems(2)] by simp
  moreover have "timer_data (get s1) t = (if t = u then (TMR_NEVER, snd (timer_data (get s) u)) else timer_data (get s) t)" for t
    by (simp add: g pop_timer_def) (simp add: timer_data_def)
  ultimately show ?case using IH by auto
qed

text \<open>The expiry loop runs every timer whose time has come, first come first served, and no other.\<close>

lemma exptimers_exact:
  assumes "timer_list (get s) ts" "timers_sorted (get s) ts" "tmrs_exptimers get put run now s = Some (h, s')"
  shows "run_timers (filter (\<lambda>t. expiry (get s) t \<le> now) ts) s = Some s' \<and>
    timer_list (get s') (filter (\<lambda>t. now < expiry (get s) t) ts) \<and> h = head_time (get s') \<and>
    timers_sorted (get s') (filter (\<lambda>t. now < expiry (get s) t) ts)"
proof -
  let ?P = "\<lambda>t. expiry (get s) t \<le> now"
  have tw: "takeWhile ?P ts = filter ?P ts" and dw: "dropWhile ?P ts = filter (\<lambda>t. now < expiry (get s) t) ts"
    using sorted_split [of "expiry (get s)" ts now] assms(2) by (simp_all add: timers_sorted_def)
  have run: "run_timers (filter ?P ts) s = Some s'" and h: "h = head_time (get s')"
    using assms(3) exp_loop_runs [OF assms(1)] by (auto simp: tmrs_exptimers_def bind_eq_Some_conv tw)
  have spl: "timer_list (get s) (filter ?P ts @ filter (\<lambda>t. now < expiry (get s) t) ts)"
    using assms(1) takeWhile_dropWhile_id [of ?P ts] by (simp add: tw dw)
  note q = run_timers_queue [OF run spl]
  have "expiry (get s') t = expiry (get s) t" if "now < expiry (get s) t" for t
    using fun_cong [OF conjunct2 [OF q], of t] that by (intro expiry_data) auto
  then have "map (expiry (get s')) (filter (\<lambda>t. now < expiry (get s) t) ts) =
      map (expiry (get s)) (filter (\<lambda>t. now < expiry (get s) t) ts)" by simp
  then have "timers_sorted (get s') (filter (\<lambda>t. now < expiry (get s) t) ts)"
    using assms(2) unfolding timers_sorted_def by (simp only: sorted_filter)
  then show ?thesis using run h q by blast
qed

end

end
