(* ===== verification/Kernel_State.thy ===== *)
theory Kernel_State
  imports Timers
begin

text \<open>
  Data of the MINIX kernel of \<^verbatim>\<open>program_assignment_2\<close>: the process and privilege structures
  of \<^verbatim>\<open>kernel/proc.h\<close> and \<^verbatim>\<open>kernel/priv.h\<close>, endpoint numbers (\<^verbatim>\<open>minix/endpoint.h\<close>), messages,
  the flag words, and the state of a kernel on one CPU (the build without \<open>CONFIG_SMP\<close>).

  A pointer into the process table is the process number, a pointer into the privilege table
  the index; the null pointer is \<open>None\<close>. The idle process of the CPU lives outside the table
  and has the number \<open>idle_proc\<close>, its privilege structure the index 64. Kernel bit maps
  (\<open>sys_map_t\<close>, \<open>sigset_t\<close>) are characteristic functions and sets. Functions of the kernel
  return \<open>None\<close> for a failed \<open>assert\<close>, a \<open>panic\<close>, a null dereference or a walk that never ends.
\<close>

unbundle bit_operations_syntax

section \<open>Constants\<close>

definition NR_TASKS :: int where "NR_TASKS = 5"
definition NR_PROCS :: int where "NR_PROCS = 256"
definition NR_SYS_PROCS :: int where "NR_SYS_PROCS = 64"
definition NR_SCHED_QUEUES :: nat where "NR_SCHED_QUEUES = 16"
definition MAX_NR_TASKS :: int where "MAX_NR_TASKS = 1023"
definition PMAGIC :: int where "PMAGIC = 0xC0FFEE1"
definition STACK_GUARD :: "32 word" where "STACK_GUARD = 0xDEADBEEF"
definition NULL_PRIV_ID :: int where "NULL_PRIV_ID = - 1"

text \<open>Result codes, by name (the numbers come from a header outside the sources).\<close>

datatype code =
    OK | EDEADSRCDST | EFAULT | ENOTREADY | ELOCKED | EINVAL | ETRAPDENIED | ECALLDENIED
  | EBADCALL | EDOM | EPERM | EAGAIN | ESRCH | ENOENT | ENOSPC | ENOMEM | EBUSY | EDONTREPLY
  | EBADEPT | EDEADEPT | ENOSYS | EBADCPU | EBADREQUEST | VMSUSPEND | ELOOP | EFAULT_SRC | EFAULT_DST | Code int

datatype signal = SIGTRAP | SIGSEGV | SIGABRT | SIGVTALRM | SIGPROF | SIGKSIG | SIGKSIGSM | SIGSNDELAY | SIGKMESS | Sig int

section \<open>Endpoints\<close>

definition ENDPOINT_GENERATION_SIZE :: int where "ENDPOINT_GENERATION_SIZE = 32768"
definition ENDPOINT_MAX_GENERATION :: int where
  "ENDPOINT_MAX_GENERATION = INT_MAX div ENDPOINT_GENERATION_SIZE - 1"
definition ENDPOINT_SLOT_TOP :: int where
  "ENDPOINT_SLOT_TOP = ENDPOINT_GENERATION_SIZE - MAX_NR_TASKS"
definition ANY :: int where "ANY = ENDPOINT_SLOT_TOP - 1"
definition NONE :: int where "NONE = ENDPOINT_SLOT_TOP - 2"
definition SELF :: int where "SELF = ENDPOINT_SLOT_TOP - 3"

definition ENDPOINT :: "int \<Rightarrow> int \<Rightarrow> int" where
  "ENDPOINT g p = g * ENDPOINT_GENERATION_SIZE + p"

definition ENDPOINT_G :: "int \<Rightarrow> int" where
  "ENDPOINT_G e = (e + MAX_NR_TASKS) div ENDPOINT_GENERATION_SIZE"

definition ENDPOINT_P :: "int \<Rightarrow> int" where
  "ENDPOINT_P e = (e + MAX_NR_TASKS) mod ENDPOINT_GENERATION_SIZE - MAX_NR_TASKS"

definition ASYNCM :: int where "ASYNCM = - 5"
definition IDLE :: int where "IDLE = - 4"
definition CLOCK :: int where "CLOCK = - 3"
definition SYSTEM :: int where "SYSTEM = - 2"
definition KERNEL :: int where "KERNEL = - 1"
definition HARDWARE :: int where "HARDWARE = KERNEL"
definition idle_proc :: int where "idle_proc = - 6"

lemmas endpoint_defs = ENDPOINT_def ENDPOINT_G_def ENDPOINT_P_def ENDPOINT_GENERATION_SIZE_def
  ENDPOINT_SLOT_TOP_def ENDPOINT_MAX_GENERATION_def MAX_NR_TASKS_def ANY_def NONE_def SELF_def

section \<open>Flag words\<close>

definition RTS_SLOT_FREE :: "32 word" where "RTS_SLOT_FREE = 0x01"
definition RTS_PROC_STOP :: "32 word" where "RTS_PROC_STOP = 0x02"
definition RTS_SENDING :: "32 word" where "RTS_SENDING = 0x04"
definition RTS_RECEIVING :: "32 word" where "RTS_RECEIVING = 0x08"
definition RTS_SIGNALED :: "32 word" where "RTS_SIGNALED = 0x10"
definition RTS_SIG_PENDING :: "32 word" where "RTS_SIG_PENDING = 0x20"
definition RTS_P_STOP :: "32 word" where "RTS_P_STOP = 0x40"
definition RTS_NO_PRIV :: "32 word" where "RTS_NO_PRIV = 0x80"
definition RTS_NO_ENDPOINT :: "32 word" where "RTS_NO_ENDPOINT = 0x100"
definition RTS_VMINHIBIT :: "32 word" where "RTS_VMINHIBIT = 0x200"
definition RTS_VMREQUEST :: "32 word" where "RTS_VMREQUEST = 0x800"
definition RTS_PREEMPTED :: "32 word" where "RTS_PREEMPTED = 0x4000"
definition RTS_NO_QUANTUM :: "32 word" where "RTS_NO_QUANTUM = 0x8000"

lemmas RTS_defs = RTS_SLOT_FREE_def RTS_PROC_STOP_def RTS_SENDING_def RTS_RECEIVING_def
  RTS_SIGNALED_def RTS_SIG_PENDING_def RTS_P_STOP_def RTS_NO_PRIV_def RTS_NO_ENDPOINT_def
  RTS_VMINHIBIT_def RTS_VMREQUEST_def RTS_PREEMPTED_def RTS_NO_QUANTUM_def

definition MF_REPLY_PEND :: "32 word" where "MF_REPLY_PEND = 0x001"
definition MF_VIRT_TIMER :: "32 word" where "MF_VIRT_TIMER = 0x002"
definition MF_PROF_TIMER :: "32 word" where "MF_PROF_TIMER = 0x004"
definition MF_KCALL_RESUME :: "32 word" where "MF_KCALL_RESUME = 0x008"
definition MF_DELIVERMSG :: "32 word" where "MF_DELIVERMSG = 0x040"
definition MF_SIG_DELAY :: "32 word" where "MF_SIG_DELAY = 0x080"
definition MF_SC_ACTIVE :: "32 word" where "MF_SC_ACTIVE = 0x100"
definition MF_SC_DEFER :: "32 word" where "MF_SC_DEFER = 0x200"
definition MF_SC_TRACE :: "32 word" where "MF_SC_TRACE = 0x400"
definition MF_SENDING_FROM_KERNEL :: "32 word" where "MF_SENDING_FROM_KERNEL = 0x2000"
definition MF_CONTEXT_SET :: "32 word" where "MF_CONTEXT_SET = 0x4000"
definition MF_SPROF_SEEN :: "32 word" where "MF_SPROF_SEEN = 0x8000"
definition MF_STEP :: "32 word" where "MF_STEP = 0x40000"

lemmas MF_defs = MF_REPLY_PEND_def MF_VIRT_TIMER_def MF_PROF_TIMER_def MF_KCALL_RESUME_def MF_DELIVERMSG_def
  MF_SIG_DELAY_def MF_SC_ACTIVE_def MF_SC_DEFER_def MF_SC_TRACE_def MF_SENDING_FROM_KERNEL_def
  MF_CONTEXT_SET_def MF_SPROF_SEEN_def MF_STEP_def

definition PREEMPTIBLE :: "16 word" where "PREEMPTIBLE = 0x002"
definition BILLABLE :: "16 word" where "BILLABLE = 0x004"
definition SYS_PROC :: "16 word" where "SYS_PROC = 0x010"

text \<open>A test \<open>if (flags & f)\<close>.\<close>

definition has :: "'a::len word \<Rightarrow> 'a word \<Rightarrow> bool" where
  "has w f \<longleftrightarrow> w AND f \<noteq> 0"

section \<open>Messages\<close>

text \<open>
  The payload of a message is a union; the constructors are the variants the kernel writes,
  \<open>Raw\<close> is a payload the kernel only copies.
\<close>

datatype payload =
    Raw "int list"
  | Notify_Payload clock_t "int set" "signal set"  \<comment> \<open>timestamp, interrupts, signals\<close>
  | No_Quantum_Payload nat nat nat nat nat nat \<comment> \<open>queue time, dequeues, sync, async, preempted, load\<close>

record message =
  m_source :: int
  m_type :: int
  m_body :: payload

definition NOTIFY_MESSAGE :: int where "NOTIFY_MESSAGE = 0x1000"

record asynmsg =
  am_flags :: "32 word"
  am_dst :: int
  am_result :: code
  am_msg :: message

section \<open>Process and privilege structures\<close>

record accounting =
  enter_queue :: "64 word"
  time_in_queue :: "64 word"
  dequeues :: "32 word"
  ipc_sync :: "32 word"
  ipc_async :: "32 word"
  preempted :: "32 word"

text \<open>
  Of the saved registers the code modelled here writes the return register, the IPC status
  register and the secondary return register. Of the request to VM that suspends a kernel call
  (\<open>p_vmrequest\<close>) it reads whether the type is \<open>VMSTYPE_KERNELCALL\<close> and keeps the saved message.
\<close>

record proc =
  p_retreg :: code
  p_ipc_status :: "32 word"
  p_ipc_return2 :: nat
  p_nr :: int
  p_priv :: "nat option"
  p_rts_flags :: "32 word"
  p_misc_flags :: "32 word"
  p_priority :: int
  p_cpu_time_left :: nat
  p_quantum_size_ms :: nat
  p_scheduler :: "int option"
  p_tickets :: int
  p_accounting :: accounting
  p_user_time :: clock_t
  p_sys_time :: clock_t
  p_virt_left :: clock_t
  p_prof_left :: clock_t
  p_cycles :: nat
  p_kcall_cycles :: nat
  p_kipc_cycles :: nat
  p_nextready :: "int option"
  p_caller_q :: "int option"
  p_q_link :: "int option"
  p_getfrom_e :: int
  p_sendto_e :: int
  p_pending :: "signal set"
  p_name :: string
  p_endpoint :: int
  p_sendmsg :: message
  p_delivermsg :: message
  p_delivermsg_vir :: nat
  p_magic :: int
  p_defer :: "int \<times> int \<times> int"
  p_signal_received :: nat
  p_vm_kernelcall :: bool
  p_reqmsg :: message

record io_range =
  ior_base :: "32 word"
  ior_limit :: "32 word"

record minix_mem_range =
  mr_base :: "32 word"
  mr_limit :: "32 word"

record priv =
  s_proc_nr :: int
  s_id :: int
  s_flags :: "16 word"
  s_asyntab :: int
  s_asynsize :: nat
  s_trap_mask :: "16 word"
  s_ipc_to :: "int \<Rightarrow> bool"
  s_sig_mgr :: int
  s_bak_sig_mgr :: int
  s_notify_pending :: "int \<Rightarrow> bool"
  s_asyn_pending :: "int \<Rightarrow> bool"
  s_int_pending :: "int set"
  s_sig_pending :: "signal set"
  s_stack_guard :: "32 word"
  s_diag_sig :: bool
  s_k_call_mask :: "int \<Rightarrow> bool"
  s_nr_irq :: int
  s_irq_tab :: "nat \<Rightarrow> int"
  s_nr_io_range :: int
  s_io_tab :: "nat \<Rightarrow> io_range"
  s_nr_mem_range :: int
  s_mem_tab :: "nat \<Rightarrow> minix_mem_range"
  s_grant_table :: int
  s_grant_entries :: int

text \<open>
  The variables of \<^verbatim>\<open>kernel/clock.c\<close>. Timer \<open>i\<close> is the alarm timer \<open>s_alarm_timer\<close> of the
  privilege structure \<open>i\<close>; the one timer outside the privilege table is \<open>shutdown_timer\<close> of \<^verbatim>\<open>kernel/main.c\<close>.
\<close>

datatype watchdog = Cause_Alarm | Minix_Shutdown

record clock =
  clock_timers :: "watchdog tmr_queue"
  next_timeout :: clock_t
  realtime :: clock_t
  adjtime_delta :: "32 word"
  boottime :: int
  system_hz :: "32 word"
  proc_load_history :: "nat \<Rightarrow> 16 word"
  proc_last_slot :: "16 word"
  last_clock :: clock_t

text \<open>
  The variables of \<^verbatim>\<open>kernel/interrupt.c\<close>: the hooks, of which number \<open>NR_IRQ_HOOKS\<close> is the one of the
  timer (\<open>pic_timer_hook\<close>) and those below form the array \<open>irq_hooks\<close>; for each line the chain of its hooks, the
  identifiers of the hooks that are active, and whether the interrupt controller masks it.
\<close>

datatype irq_handler = Generic_Handler | Timer_Int_Handler

record irq_hook =
  hook_next :: "nat option"
  hook_handler :: irq_handler
  hook_irq :: int
  hook_id :: "32 word"
  hook_proc_nr_e :: int
  hook_notify_id :: "32 word"
  hook_policy :: "32 word"

record irq_state =
  hooks :: "nat \<Rightarrow> irq_hook"
  irq_handlers :: "int \<Rightarrow> nat option"
  irq_actids :: "int \<Rightarrow> 32 word"
  irq_masked :: "int \<Rightarrow> bool"

text \<open>
  The kernel. \<open>tsc\<close> is the sequence of values the time stamp counter shows at its successive
  reads, of which \<open>tsc_reads\<close> have happened. The memory of the processes appears as what the
  kernel can copy from it: \<open>user_msg p a\<close> is the message at address \<open>a\<close> of process \<open>p\<close>
  (\<open>None\<close>: the copy faults), \<open>asyn_tab e t\<close> the entries of the table of asynchronous messages
  at address \<open>t\<close> of the process with endpoint \<open>e\<close>, \<open>asyn_ro e t i\<close> that the entry is read-only.
\<close>

record kernel =
  procs :: "int \<Rightarrow> proc"
  privs :: "nat \<Rightarrow> priv"
  run_q_head :: "nat \<Rightarrow> int option"
  run_q_tail :: "nat \<Rightarrow> int option"
  proc_ptr :: int
  bill_ptr :: int
  total_tickets :: int
  style :: int
  tsc :: "nat \<Rightarrow> 64 word"
  tsc_reads :: nat
  monotonic :: clock_t
  tsc_per_ms :: nat
  kbill_ipc :: int
  kbill_kcall :: int
  minix_kerninfo_user :: nat
  user_msg :: "int \<Rightarrow> nat \<Rightarrow> message option"
  asyn_tab :: "int \<Rightarrow> int \<Rightarrow> nat \<Rightarrow> asynmsg option"
  asyn_ro :: "int \<Rightarrow> int \<Rightarrow> nat \<Rightarrow> bool"
  clk :: clock
  irqs :: irq_state

section \<open>Access\<close>

definition upd_proc :: "int \<Rightarrow> (proc \<Rightarrow> proc) \<Rightarrow> kernel \<Rightarrow> kernel" where
  "upd_proc p f k = k\<lparr>procs := (procs k)(p := f (procs k p))\<rparr>"

definition upd_priv :: "nat \<Rightarrow> (priv \<Rightarrow> priv) \<Rightarrow> kernel \<Rightarrow> kernel" where
  "upd_priv i f k = k\<lparr>privs := (privs k)(i := f (privs k i))\<rparr>"

definition priv_of :: "kernel \<Rightarrow> int \<Rightarrow> priv option" where
  "priv_of k p = map_option (privs k) (p_priv (procs k p))"

definition proc_is_runnable :: "kernel \<Rightarrow> int \<Rightarrow> bool" where
  "proc_is_runnable k p \<longleftrightarrow> p_rts_flags (procs k p) = 0"

definition proc_is_preempted :: "kernel \<Rightarrow> int \<Rightarrow> bool" where
  "proc_is_preempted k p \<longleftrightarrow> has (p_rts_flags (procs k p)) RTS_PREEMPTED"

definition proc_ptr_ok :: "kernel \<Rightarrow> int \<Rightarrow> bool" where
  "proc_ptr_ok k p \<longleftrightarrow> p_magic (procs k p) = PMAGIC"

definition proc_kernel_scheduler :: "kernel \<Rightarrow> int \<Rightarrow> bool" where
  "proc_kernel_scheduler k p \<longleftrightarrow>
     p_scheduler (procs k p) = None \<or> p_scheduler (procs k p) = Some p"

definition RTS_ISSET :: "kernel \<Rightarrow> int \<Rightarrow> 32 word \<Rightarrow> bool" where
  "RTS_ISSET k p f \<longleftrightarrow> p_rts_flags (procs k p) AND f = f"

definition P_BLOCKEDON :: "kernel \<Rightarrow> int \<Rightarrow> int" where
  "P_BLOCKEDON k p =
     (if has (p_rts_flags (procs k p)) RTS_SENDING then p_sendto_e (procs k p)
      else if has (p_rts_flags (procs k p)) RTS_RECEIVING then p_getfrom_e (procs k p)
      else NONE)"

definition isokprocn :: "int \<Rightarrow> bool" where
  "isokprocn n \<longleftrightarrow> 0 \<le> n + NR_TASKS \<and> n + NR_TASKS < NR_PROCS + NR_TASKS"

definition isemptyn :: "kernel \<Rightarrow> int \<Rightarrow> bool" where
  "isemptyn k n \<longleftrightarrow> p_rts_flags (procs k n) = RTS_SLOT_FREE"

definition iskerneln :: "int \<Rightarrow> bool" where
  "iskerneln n \<longleftrightarrow> n < 0"

text \<open>\<open>isokendpt\<close> (without the panic of \<open>okendpt\<close>): the process number, if the endpoint is that
  of a live process.\<close>

definition isokendpt :: "kernel \<Rightarrow> int \<Rightarrow> int option" where
  "isokendpt k e =
     (let p = ENDPOINT_P e
      in if isokprocn p \<and> \<not> isemptyn k p \<and> p_endpoint (procs k p) = e then Some p else None)"

definition endpoint_lookup :: "kernel \<Rightarrow> int \<Rightarrow> int option" where
  "endpoint_lookup k e = (case isokendpt k e of None \<Rightarrow> None | Some n \<Rightarrow> Some n)"

definition nr_to_id :: "kernel \<Rightarrow> int \<Rightarrow> int option" where
  "nr_to_id k n = map_option s_id (priv_of k n)"

definition id_to_nr :: "kernel \<Rightarrow> int \<Rightarrow> int" where
  "id_to_nr k i = s_proc_nr (privs k (nat i))"

definition may_send_to :: "kernel \<Rightarrow> int \<Rightarrow> int \<Rightarrow> bool option" where
  "may_send_to k rp n = do { pr \<leftarrow> priv_of k rp; i \<leftarrow> nr_to_id k n; Some (s_ipc_to pr i) }"

definition read_tsc :: "kernel \<Rightarrow> 64 word \<times> kernel" where
  "read_tsc k = (tsc k (tsc_reads k), k\<lparr>tsc_reads := Suc (tsc_reads k)\<rparr>)"

section \<open>Initialisation\<close>

definition no_message :: message where
  "no_message = \<lparr>m_source = 0, m_type = 0, m_body = Raw []\<rparr>"

definition no_accounting :: accounting where
  "no_accounting = \<lparr>enter_queue = 0, time_in_queue = 0, dequeues = 0, ipc_sync = 0,
     ipc_async = 0, preempted = 0\<rparr>"

text \<open>\<open>set_idle_name\<close>: the digits of the CPU number without leading zeros.\<close>

fun idle_digits :: "nat \<Rightarrow> bool \<Rightarrow> nat list \<Rightarrow> nat list" where
  "idle_digits n p_z [] = []"
| "idle_digits n p_z (c # cs) =
     (let digit = n div c; n' = n - digit * c
      in if p_z \<or> digit \<noteq> 0 \<or> c = 1
         then digit # idle_digits n' True cs
         else idle_digits n' p_z cs)"

definition set_idle_name :: "nat \<Rightarrow> string" where
  "set_idle_name n =
     ''idle'' @ map (\<lambda>d. char_of (48 + d)) (idle_digits (if n > 999 then 999 else n) False [100, 10, 1])"

definition proc_init_slot :: "int \<Rightarrow> proc \<Rightarrow> proc" where
  "proc_init_slot i rp =
     rp\<lparr>p_rts_flags := RTS_SLOT_FREE, p_magic := PMAGIC, p_nr := i, p_endpoint := ENDPOINT 0 i,
        p_scheduler := None, p_priority := 0, p_quantum_size_ms := 0, p_tickets := 5\<rparr>"

definition proc_init :: "kernel \<Rightarrow> kernel" where
  "proc_init k =
     (let k1 = foldl (\<lambda>k i. upd_proc i (proc_init_slot i) k) k [- NR_TASKS..NR_PROCS - 1];
          k2 = foldl (\<lambda>k i. upd_priv i (\<lambda>sp. sp\<lparr>s_proc_nr := NONE, s_id := int i,
                                 s_sig_mgr := NONE, s_bak_sig_mgr := NONE\<rparr>) k)
                 k1 [0..<nat NR_SYS_PROCS];
          k3 = upd_priv (nat NR_SYS_PROCS) (\<lambda>sp. sp\<lparr>s_flags := SYS_PROC OR BILLABLE\<rparr>) k2
      in upd_proc idle_proc (\<lambda>ip. ip\<lparr>p_endpoint := IDLE, p_priv := Some (nat NR_SYS_PROCS),
           p_rts_flags := p_rts_flags ip OR RTS_PROC_STOP, p_name := set_idle_name 0\<rparr>) k3)"

section \<open>Lemmas\<close>

lemma upd_proc_procs [simp]: "procs (upd_proc p f k) = (procs k)(p := f (procs k p))"
  by (simp add: upd_proc_def)

lemma upd_proc_sel [simp]:
  "privs (upd_proc p f k) = privs k" "run_q_head (upd_proc p f k) = run_q_head k"
  "run_q_tail (upd_proc p f k) = run_q_tail k" "proc_ptr (upd_proc p f k) = proc_ptr k"
  "bill_ptr (upd_proc p f k) = bill_ptr k" "total_tickets (upd_proc p f k) = total_tickets k"
  "style (upd_proc p f k) = style k" "tsc (upd_proc p f k) = tsc k"
  "tsc_reads (upd_proc p f k) = tsc_reads k" "monotonic (upd_proc p f k) = monotonic k"
  "tsc_per_ms (upd_proc p f k) = tsc_per_ms k" "kbill_ipc (upd_proc p f k) = kbill_ipc k"
  "minix_kerninfo_user (upd_proc p f k) = minix_kerninfo_user k" "kbill_kcall (upd_proc p f k) = kbill_kcall k"
  "user_msg (upd_proc p f k) = user_msg k" "asyn_tab (upd_proc p f k) = asyn_tab k"
  "asyn_ro (upd_proc p f k) = asyn_ro k" "clk (upd_proc p f k) = clk k" "irqs (upd_proc p f k) = irqs k"
  by (simp_all add: upd_proc_def)

lemma upd_priv_sel [simp]:
  "privs (upd_priv i g k) = (privs k)(i := g (privs k i))"
  "procs (upd_priv i g k) = procs k" "run_q_head (upd_priv i g k) = run_q_head k"
  "run_q_tail (upd_priv i g k) = run_q_tail k" "proc_ptr (upd_priv i g k) = proc_ptr k"
  "bill_ptr (upd_priv i g k) = bill_ptr k" "total_tickets (upd_priv i g k) = total_tickets k"
  "style (upd_priv i g k) = style k" "tsc (upd_priv i g k) = tsc k"
  "tsc_reads (upd_priv i g k) = tsc_reads k" "monotonic (upd_priv i g k) = monotonic k"
  "tsc_per_ms (upd_priv i g k) = tsc_per_ms k" "kbill_ipc (upd_priv i g k) = kbill_ipc k"
  "minix_kerninfo_user (upd_priv i g k) = minix_kerninfo_user k" "kbill_kcall (upd_priv i g k) = kbill_kcall k"
  "user_msg (upd_priv i g k) = user_msg k" "asyn_tab (upd_priv i g k) = asyn_tab k"
  "asyn_ro (upd_priv i g k) = asyn_ro k" "clk (upd_priv i g k) = clk k" "irqs (upd_priv i g k) = irqs k"
  by (simp_all add: upd_priv_def)

lemma or_nonzero [simp]: "f \<noteq> 0 \<Longrightarrow> w OR f \<noteq> 0" for w f :: "'a::len word"
  by (metis or_eq_0_iff)

lemma endpoint_roundtrip:
  assumes "- MAX_NR_TASKS \<le> p" "p < ENDPOINT_SLOT_TOP"
  shows "ENDPOINT_P (ENDPOINT g p) = p" "ENDPOINT_G (ENDPOINT g p) = g"
proof -
  have e: "ENDPOINT g p + MAX_NR_TASKS = (p + 1023) + g * 32768" by (simp add: endpoint_defs)
  have r: "0 \<le> p + 1023" "p + 1023 < 32768" using assms by (simp_all add: endpoint_defs)
  have "((p + 1023) + g * 32768) mod 32768 = (p + 1023) mod 32768" by (rule mod_mult_self1)
  then show "ENDPOINT_P (ENDPOINT g p) = p"
    using r unfolding ENDPOINT_P_def e by (simp add: endpoint_defs)
  have "((p + 1023) + g * 32768) div 32768 = g + (p + 1023) div 32768"
    by (rule div_mult_self1) simp
  then show "ENDPOINT_G (ENDPOINT g p) = g"
    using r unfolding ENDPOINT_G_def e by (simp add: endpoint_defs)
qed

text \<open>Setting and clearing flags.\<close>

lemma has_clear_other:
  fixes w f g :: "'a::len word"
  assumes "f AND g = 0"
  shows "has (w AND NOT f) g = has w g"
proof -
  have "\<not> (bit f n \<and> bit g n)" for n using assms by (metis bit_and_iff bit_0_eq bot_apply bot_bool_def)
  then have "(w AND NOT f) AND g = w AND g" by (intro bit_eqI) (auto simp: bit_simps)
  then show ?thesis by (simp add: has_def)
qed

lemma has_set_same [simp]:
  fixes w f :: "'a::len word"
  assumes "f \<noteq> 0"
  shows "has (w OR f) f"
proof -
  have "(w OR f) AND f = f" by (intro bit_eqI) (auto simp: bit_simps)
  then show ?thesis using assms by (simp add: has_def)
qed

lemma has_clear_same [simp]: "\<not> has (w AND NOT f) f" for w f :: "'a::len word"
  by (simp add: has_def and.assoc)

lemma has_set_mono:
  fixes w f g :: "'a::len word"
  assumes "has w g"
  shows "has (w OR f) g"
proof -
  have "(w OR f) AND g = (w AND g) OR (f AND g)" by (intro bit_eqI) (auto simp: bit_simps)
  then show ?thesis using assms by (simp add: has_def or_eq_0_iff)
qed

lemma MF_nonzero [simp]:
  "MF_REPLY_PEND \<noteq> 0" "MF_KCALL_RESUME \<noteq> 0" "MF_DELIVERMSG \<noteq> 0" "MF_SIG_DELAY \<noteq> 0" "MF_SC_ACTIVE \<noteq> 0" "MF_SC_DEFER \<noteq> 0"
  "MF_SC_TRACE \<noteq> 0" "MF_SENDING_FROM_KERNEL \<noteq> 0" "MF_CONTEXT_SET \<noteq> 0"
  by (simp_all add: MF_defs)

lemma has_clear_MF [simp]:
  "has (w AND NOT MF_SENDING_FROM_KERNEL) MF_SIG_DELAY = has w MF_SIG_DELAY"
  "has (w AND NOT MF_REPLY_PEND) MF_DELIVERMSG = has w MF_DELIVERMSG"
  by (rule has_clear_other; simp add: MF_defs)+

end
