(* ===== verification/Run_Queues.thy ===== *)
theory Run_Queues
  imports Kernel_State
begin

text \<open>
  The scheduler of \<^verbatim>\<open>kernel/proc.c\<close> with the lottery of \<^verbatim>\<open>program_assignment_2\<close>: the sixteen run
  queues (\<open>enqueue\<close>, \<open>enqueue_head\<close>, \<open>dequeue\<close>), the flag macros that drive them (\<open>RTS_SET\<close>,
  \<open>RTS_UNSET\<close>, \<open>RTS_SETFLAGS\<close>), the ticket accounts (\<open>ProcessSetPriority\<close>, \<open>total_tickets\<close>) and
  \<open>pick_proc\<close>. The invariant \<open>sched_inv\<close> ties the linked queues, the flags and
  \<open>total_tickets\<close> together; every operation is shown to keep it.
\<close>

section \<open>The model\<close>

text \<open>
  The pointer-to-pointer \<open>xpp\<close> of \<open>dequeue\<close> addresses the head of the queue when there is no
  previous process, and the link of the previous one otherwise.
\<close>

definition xpp_get :: "kernel \<Rightarrow> nat \<Rightarrow> int option \<Rightarrow> int option" where
  "xpp_get k q prev_xp =
     (case prev_xp of None \<Rightarrow> run_q_head k q | Some x \<Rightarrow> p_nextready (procs k x))"

definition xpp_set :: "nat \<Rightarrow> int option \<Rightarrow> int option \<Rightarrow> kernel \<Rightarrow> kernel" where
  "xpp_set q prev_xp v k =
     (case prev_xp of
        None \<Rightarrow> k\<lparr>run_q_head := (run_q_head k)(q := v)\<rparr>
      | Some x \<Rightarrow> upd_proc x (\<lambda>p. p\<lparr>p_nextready := v\<rparr>) k)"

definition dequeue_found :: "kernel \<Rightarrow> int \<Rightarrow> nat \<Rightarrow> int option \<Rightarrow> kernel" where
  "dequeue_found k rp q prev_xp =
     (let k1 = xpp_set q prev_xp (p_nextready (procs k rp)) k
      in if run_q_tail k1 q = Some rp
         then k1\<lparr>run_q_tail := (run_q_tail k1)(q := prev_xp)\<rparr> else k1)"

partial_function (option) dequeue_walk :: "kernel \<Rightarrow> int \<Rightarrow> nat \<Rightarrow> int option \<Rightarrow> kernel option" where
  "dequeue_walk k rp q prev_xp =
     (case xpp_get k q prev_xp of
        None \<Rightarrow> Some k
      | Some x \<Rightarrow>
          if x = rp then Some (dequeue_found k rp q prev_xp)
          else dequeue_walk k rp q (Some x))"

text \<open>The index \<open>run_q_head[q]\<close>: outside the array there is no queue.\<close>

definition queue_index :: "kernel \<Rightarrow> int \<Rightarrow> nat option" where
  "queue_index k rp =
     (let q = p_priority (procs k rp)
      in if 0 \<le> q \<and> q < int NR_SCHED_QUEUES then Some (nat q) else None)"

definition dequeue_accounting :: "int \<Rightarrow> kernel \<Rightarrow> kernel" where
  "dequeue_accounting rp k =
     (let k1 = upd_proc rp (\<lambda>p. p\<lparr>p_accounting :=
                 (p_accounting p)\<lparr>dequeues := dequeues (p_accounting p) + 1\<rparr>\<rparr>) k;
          entered = enter_queue (p_accounting (procs k1 rp))
      in if entered \<noteq> 0 then
           (let (t, k2) = read_tsc k1
            in upd_proc rp (\<lambda>p. p\<lparr>p_accounting := (p_accounting p)\<lparr>
                 time_in_queue := time_in_queue (p_accounting p) + (t - entered),
                 enter_queue := 0\<rparr>\<rparr>) k2)
         else k1)"

definition dequeue :: "int \<Rightarrow> kernel \<Rightarrow> kernel option" where
  "dequeue rp k = do {
     q \<leftarrow> queue_index k rp;
     if \<not> proc_ptr_ok k rp \<or> proc_is_runnable k rp then None
     else do {
       guard \<leftarrow> (if iskerneln rp then map_option s_stack_guard (priv_of k rp) else Some STACK_GUARD);
       if guard \<noteq> STACK_GUARD then None
       else do {
         k1 \<leftarrow> dequeue_walk k rp q None;
         let k2 = dequeue_accounting rp k1;
         Some (k2\<lparr>total_tickets := total_tickets k2 - p_tickets (procs k2 rp)\<rparr>)
       }
     }
   }"

definition RTS_SET :: "int \<Rightarrow> 32 word \<Rightarrow> kernel \<Rightarrow> kernel option" where
  "RTS_SET rp f k =
     (let rts = p_rts_flags (procs k rp);
          k1 = upd_proc rp (\<lambda>p. p\<lparr>p_rts_flags := p_rts_flags p OR f\<rparr>) k
      in if rts = 0 \<and> \<not> proc_is_runnable k1 rp then dequeue rp k1 else Some k1)"

definition enqueue_tail :: "int \<Rightarrow> nat \<Rightarrow> kernel \<Rightarrow> kernel option" where
  "enqueue_tail rp q k =
     (case run_q_head k q of
        None \<Rightarrow>
          Some (upd_proc rp (\<lambda>p. p\<lparr>p_nextready := None\<rparr>)
                 (k\<lparr>run_q_head := (run_q_head k)(q \<mapsto> rp), run_q_tail := (run_q_tail k)(q \<mapsto> rp)\<rparr>))
      | Some _ \<Rightarrow> do {
          t \<leftarrow> run_q_tail k q;
          let k1 = upd_proc t (\<lambda>p. p\<lparr>p_nextready := Some rp\<rparr>) k;
          Some (upd_proc rp (\<lambda>p. p\<lparr>p_nextready := None\<rparr>)
                 (k1\<lparr>run_q_tail := (run_q_tail k1)(q \<mapsto> rp)\<rparr>))
        })"

definition note_enter_queue :: "kernel \<Rightarrow> kernel" where
  "note_enter_queue k =
     (let (t, k1) = read_tsc k
      in upd_proc (proc_ptr k1) (\<lambda>p. p\<lparr>p_accounting := (p_accounting p)\<lparr>enter_queue := t\<rparr>\<rparr>) k1)"

definition enqueue_preempt :: "int \<Rightarrow> kernel \<Rightarrow> kernel option" where
  "enqueue_preempt rp k =
     (let p = proc_ptr k
      in if p_priority (procs k p) > p_priority (procs k rp)
         then do {
           pr \<leftarrow> priv_of k p;
           if has (s_flags pr) PREEMPTIBLE then RTS_SET p RTS_PREEMPTED k else Some k
         }
         else Some k)"

definition enqueue :: "int \<Rightarrow> kernel \<Rightarrow> kernel option" where
  "enqueue rp k =
     (if \<not> proc_is_runnable k rp then None
      else do {
        q \<leftarrow> queue_index k rp;
        k1 \<leftarrow> enqueue_tail rp q k;
        k2 \<leftarrow> enqueue_preempt rp k1;
        let k3 = note_enter_queue k2;
        Some (k3\<lparr>total_tickets := total_tickets k3 + p_tickets (procs k3 rp)\<rparr>)
      })"

definition enqueue_front :: "int \<Rightarrow> nat \<Rightarrow> kernel \<Rightarrow> kernel" where
  "enqueue_front rp q k =
     (case run_q_head k q of
        None \<Rightarrow> upd_proc rp (\<lambda>p. p\<lparr>p_nextready := None\<rparr>)
          (k\<lparr>run_q_head := (run_q_head k)(q \<mapsto> rp), run_q_tail := (run_q_tail k)(q \<mapsto> rp)\<rparr>)
      | Some h \<Rightarrow> (upd_proc rp (\<lambda>p. p\<lparr>p_nextready := Some h\<rparr>) k)
          \<lparr>run_q_head := (run_q_head k)(q \<mapsto> rp)\<rparr>)"

definition enqueue_head :: "int \<Rightarrow> kernel \<Rightarrow> kernel option" where
  "enqueue_head rp k =
     (if \<not> proc_ptr_ok k rp \<or> \<not> proc_is_runnable k rp \<or> p_cpu_time_left (procs k rp) = 0 then None
      else do {
        q \<leftarrow> queue_index k rp;
        let k2 = note_enter_queue (enqueue_front rp q k);
        let k3 = upd_proc rp (\<lambda>p. p\<lparr>p_accounting := (p_accounting p)\<lparr>
                   dequeues := dequeues (p_accounting p) - 1,
                   preempted := preempted (p_accounting p) + 1\<rparr>\<rparr>) k2;
        Some (k3\<lparr>total_tickets := total_tickets k3 + p_tickets (procs k3 rp)\<rparr>)
      })"

definition RTS_UNSET :: "int \<Rightarrow> 32 word \<Rightarrow> kernel \<Rightarrow> kernel option" where
  "RTS_UNSET rp f k =
     (let rts = p_rts_flags (procs k rp);
          k1 = upd_proc rp (\<lambda>p. p\<lparr>p_rts_flags := p_rts_flags p AND NOT f\<rparr>) k
      in if rts \<noteq> 0 \<and> proc_is_runnable k1 rp then enqueue rp k1 else Some k1)"

definition RTS_SETFLAGS :: "int \<Rightarrow> 32 word \<Rightarrow> kernel \<Rightarrow> kernel option" where
  "RTS_SETFLAGS rp f k = do {
     k1 \<leftarrow> (if proc_is_runnable k rp \<and> f \<noteq> 0 then dequeue rp k else Some k);
     Some (upd_proc rp (\<lambda>p. p\<lparr>p_rts_flags := f\<rparr>) k1)
   }"

definition ProcessSetPriority :: "int \<Rightarrow> int \<Rightarrow> kernel \<Rightarrow> kernel" where
  "ProcessSetPriority rp n k =
     (let t = p_tickets (procs k rp);
          set = (\<lambda>t'. upd_proc rp (\<lambda>p. p\<lparr>p_tickets := t'\<rparr>))
      in if n > 0 then
           (if n + t > 20 \<or> t = 20 then set 20 k
            else (set (t + n) k)\<lparr>total_tickets := total_tickets k + n\<rparr>)
         else
           (if t + n < 0 \<or> t = 0 then set 0 k
            else (set (t + n) k)\<lparr>total_tickets := total_tickets k + n\<rparr>))"

text \<open>
  \<open>pick_proc\<close>. In the lottery branch the local \<open>rdy_head\<close> is used without having been
  assigned; the array it happens to point to is the argument \<open>rdy_head\<close>. \<open>rnd\<close> is the value
  of \<open>random()\<close>. The result is the process picked (\<open>None\<close> inside: \<open>NULL\<close>) and the kernel.
\<close>

definition picked :: "int \<Rightarrow> kernel \<Rightarrow> (int option \<times> kernel) option" where
  "picked rp k =
     (if \<not> proc_is_runnable k rp then None
      else do {
        pr \<leftarrow> priv_of k rp;
        Some (Some rp, if has (s_flags pr) BILLABLE then k\<lparr>bill_ptr := rp\<rparr> else k)
      })"

fun pick_standard :: "nat list \<Rightarrow> kernel \<Rightarrow> (int option \<times> kernel) option" where
  "pick_standard [] k = Some (None, k)"
| "pick_standard (q # qs) k =
     (case run_q_head k q of None \<Rightarrow> pick_standard qs k | Some rp \<Rightarrow> picked rp k)"

text \<open>The inner loop over one queue: the winner, or the tickets passed so far.\<close>

partial_function (option) lottery_queue ::
  "kernel \<Rightarrow> int \<Rightarrow> int option \<Rightarrow> int \<Rightarrow> (int option \<times> int) option" where
  "lottery_queue k chosen_ticket rp sum_tickets =
     (case rp of
        None \<Rightarrow> Some (None, sum_tickets)
      | Some x \<Rightarrow>
          (let passed = sum_tickets + p_tickets (procs k x)
           in if passed \<ge> chosen_ticket then Some (Some x, passed)
              else lottery_queue k chosen_ticket (p_nextready (procs k x)) passed))"

fun lottery_queues ::
  "kernel \<Rightarrow> (nat \<Rightarrow> int option) \<Rightarrow> int \<Rightarrow> nat list \<Rightarrow> int \<Rightarrow> (int option) option" where
  "lottery_queues k rdy_head chosen_ticket [] sum_tickets = Some None"
| "lottery_queues k rdy_head chosen_ticket (q # qs) sum_tickets =
     (case lottery_queue k chosen_ticket (rdy_head q) sum_tickets of
        None \<Rightarrow> None
      | Some (Some x, _) \<Rightarrow> Some (Some x)
      | Some (None, passed) \<Rightarrow> lottery_queues k rdy_head chosen_ticket qs passed)"

definition pick_proc ::
  "(nat \<Rightarrow> int option) \<Rightarrow> int \<Rightarrow> kernel \<Rightarrow> (int option \<times> kernel) option" where
  "pick_proc rdy_head rnd k =
     (if style k = 0 then pick_standard [0..<NR_SCHED_QUEUES] k
      else if total_tickets k \<le> 0 then Some (None, k)
      else
        (let chosen_ticket = c_rem rnd (total_tickets k) + 1
         in case lottery_queues k rdy_head chosen_ticket [0..<NR_SCHED_QUEUES] 0 of
              None \<Rightarrow> None
            | Some None \<Rightarrow> Some (None, k)
            | Some (Some rp) \<Rightarrow> picked rp k))"

definition reset_proc_accounting :: "int \<Rightarrow> kernel \<Rightarrow> kernel" where
  "reset_proc_accounting p k =
     upd_proc p (\<lambda>r. r\<lparr>p_accounting := (p_accounting r)\<lparr>preempted := 0, ipc_sync := 0,
       ipc_async := 0, dequeues := 0, time_in_queue := 0, enter_queue := 0\<rparr>\<rparr>) k"

section \<open>The invariant\<close>

text \<open>
  \<open>run_queues L k\<close>: the linked list of each queue \<open>q\<close> is \<open>L q\<close>, its tail pointer is right, and
  the processes on it have priority \<open>q\<close>. \<open>ticket_sum\<close> adds up the tickets of the queued
  processes. \<open>sched_inv\<close>: the processes on the queues are exactly the runnable ones, and
  \<open>total_tickets\<close> is the number of tickets they hold.
\<close>

definition next_of :: "kernel \<Rightarrow> int \<Rightarrow> int option" where
  "next_of k p = p_nextready (procs k p)"

definition run_queues :: "(nat \<Rightarrow> int list) \<Rightarrow> kernel \<Rightarrow> bool" where
  "run_queues L k \<longleftrightarrow>
     (\<forall>q < NR_SCHED_QUEUES.
        chain (next_of k) (run_q_head k q) (L q) \<and>
        run_q_tail k q = (if L q = [] then None else Some (last (L q))) \<and>
        (\<forall>p \<in> set (L q). p_priority (procs k p) = int q))"

definition queued :: "(nat \<Rightarrow> int list) \<Rightarrow> int set" where
  "queued L = (\<Union>q < NR_SCHED_QUEUES. set (L q))"

definition ticket_sum :: "(nat \<Rightarrow> int list) \<Rightarrow> kernel \<Rightarrow> int" where
  "ticket_sum L k = (\<Sum>q < NR_SCHED_QUEUES. \<Sum>p \<leftarrow> L q. p_tickets (procs k p))"

definition is_proc :: "int \<Rightarrow> bool" where
  "is_proc p \<longleftrightarrow> isokprocn p \<or> p = idle_proc"

definition wf_proc :: "kernel \<Rightarrow> int \<Rightarrow> bool" where
  "wf_proc k p \<longleftrightarrow>
     proc_ptr_ok k p \<and> queue_index k p \<noteq> None \<and> 0 \<le> p_tickets (procs k p) \<and>
     (\<exists>pr. priv_of k p = Some pr \<and> (iskerneln p \<longrightarrow> s_stack_guard pr = STACK_GUARD))"

definition wf_kernel :: "kernel \<Rightarrow> bool" where
  "wf_kernel k \<longleftrightarrow> (\<forall>p. is_proc p \<longrightarrow> wf_proc k p) \<and> is_proc (proc_ptr k)"

definition queues_hold :: "(nat \<Rightarrow> int list) \<Rightarrow> int set \<Rightarrow> kernel \<Rightarrow> bool" where
  "queues_hold L Q k \<longleftrightarrow>
     wf_kernel k \<and> run_queues L k \<and> queued L = Q \<and> Q \<subseteq> Collect is_proc"

definition runnables :: "kernel \<Rightarrow> int set" where
  "runnables k = {p. is_proc p \<and> proc_is_runnable k p}"

definition sched_inv :: "(nat \<Rightarrow> int list) \<Rightarrow> kernel \<Rightarrow> bool" where
  "sched_inv L k \<longleftrightarrow> queues_hold L (runnables k) k \<and> total_tickets k = ticket_sum L k"

text \<open>
  What a change of the queues leaves alone: of the processes everything but links, accounting
  and run-time flags, of the kernel everything but the queues, the ticket total and the time
  stamp reads.
\<close>

definition sched_frame :: "kernel \<Rightarrow> kernel \<Rightarrow> bool" where
  "sched_frame k k' \<longleftrightarrow>
     (\<forall>p. \<exists>x y z. procs k' p = procs k p\<lparr>p_nextready := x, p_accounting := y, p_rts_flags := z\<rparr>) \<and>
     k' = k\<lparr>procs := procs k', run_q_head := run_q_head k', run_q_tail := run_q_tail k',
            total_tickets := total_tickets k', tsc_reads := tsc_reads k'\<rparr>"

definition same_flags :: "kernel \<Rightarrow> kernel \<Rightarrow> bool" where
  "same_flags k k' \<longleftrightarrow> (\<forall>p. p_rts_flags (procs k' p) = p_rts_flags (procs k p))"

section \<open>Frame lemmas\<close>

lemma proc_same: "\<exists>x y z. p = p\<lparr>p_nextready := x, p_accounting := y, p_rts_flags := z\<rparr>" for p :: proc
proof (intro exI)
  show "p = p\<lparr>p_nextready := p_nextready p, p_accounting := p_accounting p, p_rts_flags := p_rts_flags p\<rparr>"
    by (cases p) simp
qed

lemma sched_frame_refl [simp]: "sched_frame k k"
  unfolding sched_frame_def using proc_same by (cases k) simp

lemma sched_frame_trans [trans]:
  assumes "sched_frame k k'" "sched_frame k' k''"
  shows "sched_frame k k''"
proof -
  have "\<exists>x y z. procs k'' p = procs k p\<lparr>p_nextready := x, p_accounting := y, p_rts_flags := z\<rparr>" for p
  proof -
    obtain x y z where "procs k' p = procs k p\<lparr>p_nextready := x, p_accounting := y, p_rts_flags := z\<rparr>"
      using assms(1) unfolding sched_frame_def by blast
    moreover obtain x' y' z' where
      "procs k'' p = procs k' p\<lparr>p_nextready := x', p_accounting := y', p_rts_flags := z'\<rparr>"
      using assms(2) unfolding sched_frame_def by blast
    ultimately have "procs k'' p = procs k p\<lparr>p_nextready := x', p_accounting := y', p_rts_flags := z'\<rparr>"
      by simp
    then show ?thesis by blast
  qed
  moreover have "k'' = k\<lparr>procs := procs k'', run_q_head := run_q_head k'', run_q_tail := run_q_tail k'',
      total_tickets := total_tickets k'', tsc_reads := tsc_reads k''\<rparr>"
    using assms unfolding sched_frame_def by (cases k, cases k', cases k'') simp
  ultimately show ?thesis unfolding sched_frame_def by blast
qed

lemma sched_frame_upd_proc:
  assumes "\<And>p. \<exists>x y z. f p = p\<lparr>p_nextready := x, p_accounting := y, p_rts_flags := z\<rparr>"
  shows "sched_frame k (upd_proc r f k)"
proof -
  have "\<exists>x y z. procs (upd_proc r f k) p = procs k p\<lparr>p_nextready := x, p_accounting := y, p_rts_flags := z\<rparr>" for p
    using assms [of "procs k r"] proc_same [of "procs k p"] by (cases "p = r") simp_all
  moreover have "upd_proc r f k = k\<lparr>procs := procs (upd_proc r f k), run_q_head := run_q_head k,
      run_q_tail := run_q_tail k, total_tickets := total_tickets k, tsc_reads := tsc_reads k\<rparr>"
    by (cases k) (simp add: upd_proc_def)
  ultimately show ?thesis unfolding sched_frame_def by simp
qed

lemma sched_frame_sel:
  assumes "sched_frame k k'"
  shows "privs k' = privs k" "proc_ptr k' = proc_ptr k" "bill_ptr k' = bill_ptr k"
    "style k' = style k" "tsc k' = tsc k" "monotonic k' = monotonic k" "tsc_per_ms k' = tsc_per_ms k"
    "kbill_ipc k' = kbill_ipc k" "minix_kerninfo_user k' = minix_kerninfo_user k" "user_msg k' = user_msg k"
    "asyn_tab k' = asyn_tab k" "asyn_ro k' = asyn_ro k" "clk k' = clk k" "irqs k' = irqs k"
proof -
  obtain a b c d e where "k' = k\<lparr>procs := a, run_q_head := b, run_q_tail := c,
      total_tickets := d, tsc_reads := e\<rparr>"
    using assms unfolding sched_frame_def by blast
  then show "privs k' = privs k" "proc_ptr k' = proc_ptr k" "bill_ptr k' = bill_ptr k"
    "style k' = style k" "tsc k' = tsc k" "monotonic k' = monotonic k" "tsc_per_ms k' = tsc_per_ms k"
    "kbill_ipc k' = kbill_ipc k" "minix_kerninfo_user k' = minix_kerninfo_user k" "user_msg k' = user_msg k"
    "asyn_tab k' = asyn_tab k" "asyn_ro k' = asyn_ro k" "clk k' = clk k" "irqs k' = irqs k"
    by simp_all
qed

lemma sched_frame_proc:
  assumes "sched_frame k k'"
  shows "\<exists>x y z. procs k' p = procs k p\<lparr>p_nextready := x, p_accounting := y, p_rts_flags := z\<rparr>"
  using assms unfolding sched_frame_def by blast

lemma sched_frame_fields:
  assumes "sched_frame k k'"
  shows "p_priority (procs k' p) = p_priority (procs k p)" "p_tickets (procs k' p) = p_tickets (procs k p)"
    "p_priv (procs k' p) = p_priv (procs k p)" "p_magic (procs k' p) = p_magic (procs k p)"
    "p_endpoint (procs k' p) = p_endpoint (procs k p)" "p_misc_flags (procs k' p) = p_misc_flags (procs k p)"
    "p_caller_q (procs k' p) = p_caller_q (procs k p)" "p_q_link (procs k' p) = p_q_link (procs k p)"
    "p_sendto_e (procs k' p) = p_sendto_e (procs k p)" "p_getfrom_e (procs k' p) = p_getfrom_e (procs k p)"
    "p_sendmsg (procs k' p) = p_sendmsg (procs k p)" "p_delivermsg (procs k' p) = p_delivermsg (procs k p)"
    "p_scheduler (procs k' p) = p_scheduler (procs k p)" "p_cpu_time_left (procs k' p) = p_cpu_time_left (procs k p)"
  using sched_frame_proc [OF assms, of p] by auto

lemma sched_frame_wf:
  "sched_frame k k' \<Longrightarrow> wf_kernel k' = wf_kernel k"
  by (simp add: wf_kernel_def wf_proc_def proc_ptr_ok_def queue_index_def priv_of_def
      sched_frame_sel sched_frame_fields)

lemma ticket_sum_frame: "sched_frame k k' \<Longrightarrow> ticket_sum L k' = ticket_sum L k"
  by (simp add: ticket_sum_def sched_frame_fields)

lemma run_queues_cong:
  assumes "run_queues L k" "run_q_head k' = run_q_head k" "run_q_tail k' = run_q_tail k"
    "\<And>p. p \<in> queued L \<Longrightarrow> next_of k' p = next_of k p \<and> p_priority (procs k' p) = p_priority (procs k p)"
  shows "run_queues L k'"
  unfolding run_queues_def
proof (intro allI impI)
  fix q assume q: "q < NR_SCHED_QUEUES"
  have mem: "p \<in> queued L" if "p \<in> set (L q)" for p using that q by (auto simp: queued_def)
  have "chain (next_of k') (run_q_head k q) (L q) = chain (next_of k) (run_q_head k q) (L q)"
    using assms(4) mem by (intro chain_cong) simp
  then show "chain (next_of k') (run_q_head k' q) (L q) \<and>
      run_q_tail k' q = (if L q = [] then None else Some (last (L q))) \<and>
      (\<forall>p\<in>set (L q). p_priority (procs k' p) = int q)"
    using assms q mem unfolding run_queues_def by simp
qed

text \<open>Each elementary update of the scheduler stays within the frame.\<close>

lemma proc_same_upd:
  "\<exists>x y z. p\<lparr>p_nextready := u\<rparr> = p\<lparr>p_nextready := x, p_accounting := y, p_rts_flags := z\<rparr>"
  "\<exists>x y z. p\<lparr>p_accounting := a\<rparr> = p\<lparr>p_nextready := x, p_accounting := y, p_rts_flags := z\<rparr>"
  "\<exists>x y z. p\<lparr>p_rts_flags := w\<rparr> = p\<lparr>p_nextready := x, p_accounting := y, p_rts_flags := z\<rparr>" for p :: proc
proof -
  show "\<exists>x y z. p\<lparr>p_nextready := u\<rparr> = p\<lparr>p_nextready := x, p_accounting := y, p_rts_flags := z\<rparr>"
    by (rule exI [of _ u], rule exI [of _ "p_accounting p"], rule exI [of _ "p_rts_flags p"]) simp
  show "\<exists>x y z. p\<lparr>p_accounting := a\<rparr> = p\<lparr>p_nextready := x, p_accounting := y, p_rts_flags := z\<rparr>"
    by (rule exI [of _ "p_nextready p"], rule exI [of _ a], rule exI [of _ "p_rts_flags p"]) simp
  show "\<exists>x y z. p\<lparr>p_rts_flags := w\<rparr> = p\<lparr>p_nextready := x, p_accounting := y, p_rts_flags := z\<rparr>"
    by (rule exI [of _ "p_nextready p"], rule exI [of _ "p_accounting p"], rule exI [of _ w]) simp
qed

lemma sched_frame_upd [simp]:
  "sched_frame k (upd_proc r (\<lambda>p. p\<lparr>p_nextready := u p\<rparr>) k)"
  "sched_frame k (upd_proc r (\<lambda>p. p\<lparr>p_accounting := a p\<rparr>) k)"
  "sched_frame k (upd_proc r (\<lambda>p. p\<lparr>p_rts_flags := w p\<rparr>) k)"
  by (rule sched_frame_upd_proc, rule proc_same_upd)+

lemma sched_frame_kernel [simp]:
  "sched_frame k (k\<lparr>run_q_head := h\<rparr>)" "sched_frame k (k\<lparr>run_q_tail := h'\<rparr>)"
  "sched_frame k (k\<lparr>total_tickets := n\<rparr>)" "sched_frame k (k\<lparr>tsc_reads := m\<rparr>)"
  unfolding sched_frame_def using proc_same by (cases k, simp)+

lemma sched_frame_steps:
  assumes "sched_frame k k1"
  shows "sched_frame k (upd_proc r (\<lambda>p. p\<lparr>p_nextready := u p\<rparr>) k1)"
    "sched_frame k (upd_proc r (\<lambda>p. p\<lparr>p_accounting := a p\<rparr>) k1)"
    "sched_frame k (upd_proc r (\<lambda>p. p\<lparr>p_rts_flags := w p\<rparr>) k1)"
    "sched_frame k (k1\<lparr>run_q_head := h\<rparr>)" "sched_frame k (k1\<lparr>run_q_tail := h'\<rparr>)"
    "sched_frame k (k1\<lparr>total_tickets := n\<rparr>)" "sched_frame k (k1\<lparr>tsc_reads := m\<rparr>)"
  by (rule sched_frame_trans [OF assms], rule sched_frame_upd sched_frame_kernel)+

lemma same_flags_trans [trans]: "same_flags k k' \<Longrightarrow> same_flags k' k'' \<Longrightarrow> same_flags k k''"
  by (simp add: same_flags_def)

lemma dequeue_accounting_frame:
  "sched_frame k (dequeue_accounting rp k)" "same_flags k (dequeue_accounting rp k)"
  "next_of (dequeue_accounting rp k) = next_of k"
  "run_q_head (dequeue_accounting rp k) = run_q_head k"
  "run_q_tail (dequeue_accounting rp k) = run_q_tail k"
  "total_tickets (dequeue_accounting rp k) = total_tickets k"
proof -
  show "sched_frame k (dequeue_accounting rp k)"
    unfolding dequeue_accounting_def Let_def read_tsc_def
    by (auto intro!: sched_frame_steps)
  show "same_flags k (dequeue_accounting rp k)" "next_of (dequeue_accounting rp k) = next_of k"
    "run_q_head (dequeue_accounting rp k) = run_q_head k"
    "run_q_tail (dequeue_accounting rp k) = run_q_tail k"
    "total_tickets (dequeue_accounting rp k) = total_tickets k"
    by (simp_all add: dequeue_accounting_def read_tsc_def Let_def same_flags_def next_of_def fun_eq_iff)
qed

lemma note_enter_queue_frame:
  "sched_frame k (note_enter_queue k)" "same_flags k (note_enter_queue k)"
  "next_of (note_enter_queue k) = next_of k"
  "run_q_head (note_enter_queue k) = run_q_head k" "run_q_tail (note_enter_queue k) = run_q_tail k"
  "total_tickets (note_enter_queue k) = total_tickets k"
proof -
  show "sched_frame k (note_enter_queue k)"
    unfolding note_enter_queue_def read_tsc_def Let_def
    by (auto intro!: sched_frame_steps)
  show "same_flags k (note_enter_queue k)" "next_of (note_enter_queue k) = next_of k"
    "run_q_head (note_enter_queue k) = run_q_head k" "run_q_tail (note_enter_queue k) = run_q_tail k"
    "total_tickets (note_enter_queue k) = total_tickets k"
    by (simp_all add: note_enter_queue_def read_tsc_def Let_def same_flags_def next_of_def fun_eq_iff)
qed

section \<open>Removing from a queue\<close>

lemma dequeue_walk_finds:
  assumes "chain (next_of k) (xpp_get k q prev) (xs @ rp # ys)" "rp \<notin> set xs"
  shows "dequeue_walk k rp q prev =
    Some (dequeue_found k rp q (if xs = [] then prev else Some (last xs)))"
  using assms
proof (induction xs arbitrary: prev)
  case Nil
  then show ?case by (simp add: dequeue_walk.simps [of k rp q prev])
next
  case (Cons x xs)
  then have x: "xpp_get k q prev = Some x" "x \<noteq> rp"
      "chain (next_of k) (xpp_get k q (Some x)) (xs @ rp # ys)"
    by (simp_all add: xpp_get_def flip: next_of_def)
  then show ?case using Cons.IH [OF x(3)] Cons.prems(2)
    by (simp add: dequeue_walk.simps [of k rp q prev])
qed

lemma dequeue_found_frame:
  "sched_frame k (dequeue_found k rp q prev)" "same_flags k (dequeue_found k rp q prev)"
  "total_tickets (dequeue_found k rp q prev) = total_tickets k"
proof -
  show "sched_frame k (dequeue_found k rp q prev)"
    unfolding dequeue_found_def xpp_set_def Let_def
    by (cases prev) (auto intro!: sched_frame_steps)
  show "same_flags k (dequeue_found k rp q prev)"
    "total_tickets (dequeue_found k rp q prev) = total_tickets k"
    by (cases prev; simp add: dequeue_found_def xpp_set_def Let_def same_flags_def)+
qed

lemma queued_disjoint:
  assumes "run_queues L k" "q < NR_SCHED_QUEUES" "q' < NR_SCHED_QUEUES" "p \<in> set (L q)" "p \<in> set (L q')"
  shows "q = q'"
  using assms unfolding run_queues_def by (metis of_nat_eq_iff)

lemma dequeue_found_removes:
  assumes rq: "run_queues L k" and q: "q < NR_SCHED_QUEUES" and L: "L q = xs @ rp # ys"
  shows "run_queues (L(q := xs @ ys)) (dequeue_found k rp q (if xs = [] then None else Some (last xs)))"
    (is "run_queues ?L ?k'")
proof -
  define prev where "prev = (if xs = [] then None else Some (last xs))"
  have c: "chain (next_of k) (run_q_head k q) (xs @ rp # ys)"
      "run_q_tail k q = Some (last (xs @ rp # ys))"
    using rq q L unfolding run_queues_def by auto
  have d: "distinct (xs @ rp # ys)" by (rule chain_distinct [OF c(1)])
  have nx: "next_of ?k' = (if xs = [] then next_of k else (next_of k)(last xs := next_of k rp))"
    by (auto simp: dequeue_found_def xpp_set_def Let_def next_of_def fun_eq_iff)
  have hd: "run_q_head ?k' = (if xs = [] then (run_q_head k)(q := next_of k rp) else run_q_head k)"
    by (simp add: dequeue_found_def xpp_set_def Let_def next_of_def)
  have tl: "run_q_tail ?k' = (if ys = [] then (run_q_tail k)(q := prev) else run_q_tail k)"
  proof -
    have "last (xs @ rp # ys) = rp \<longleftrightarrow> ys = []" using d by (cases ys rule: rev_cases) auto
    then show ?thesis using c(2) by (auto simp: dequeue_found_def xpp_set_def Let_def prev_def)
  qed
  have pri: "p_priority (procs ?k' p) = p_priority (procs k p)" for p
    by (rule sched_frame_fields(1) [OF dequeue_found_frame(1)])
  show ?thesis
    unfolding run_queues_def
  proof (intro allI impI)
    fix q' assume q': "q' < NR_SCHED_QUEUES"
    have old: "chain (next_of k) (run_q_head k q') (L q')"
        "run_q_tail k q' = (if L q' = [] then None else Some (last (L q')))"
        "\<forall>p\<in>set (L q'). p_priority (procs k p) = int q'"
      using rq q' unfolding run_queues_def by auto
    show "chain (next_of ?k') (run_q_head ?k' q') (?L q') \<and>
        run_q_tail ?k' q' = (if ?L q' = [] then None else Some (last (?L q'))) \<and>
        (\<forall>p\<in>set (?L q'). p_priority (procs ?k' p) = int q')"
    proof (cases "q' = q")
      case True
      have "chain (next_of ?k') (run_q_head ?k' q) (xs @ ys)"
        using chain_unlink [OF c(1)] by (simp add: nx hd)
      moreover have "run_q_tail ?k' q = (if xs @ ys = [] then None else Some (last (xs @ ys)))"
        using c(2) by (simp add: tl prev_def)
      ultimately show ?thesis using True old(3) L pri by auto
    next
      case False
      have "last xs \<notin> set (L q')" if "xs \<noteq> []"
        using queued_disjoint [OF rq q q', of "last xs"] that False L by auto
      then have "chain (next_of ?k') (run_q_head ?k' q') (L q')"
        using old(1) False by (simp add: nx hd chain_frame)
      then show ?thesis using False old pri by (simp add: tl)
    qed
  qed
qed

abbreviation qof :: "kernel \<Rightarrow> int \<Rightarrow> nat" where
  "qof k p \<equiv> nat (p_priority (procs k p))"

lemma wf_kernelD:
  assumes "wf_kernel k" "is_proc p"
  shows "proc_ptr_ok k p" "queue_index k p = Some (qof k p)" "qof k p < NR_SCHED_QUEUES"
    "\<exists>pr. priv_of k p = Some pr \<and> (iskerneln p \<longrightarrow> s_stack_guard pr = STACK_GUARD)"
    "int (qof k p) = p_priority (procs k p)" "0 \<le> p_tickets (procs k p)"
  using assms by (auto simp: wf_kernel_def wf_proc_def queue_index_def Let_def split: if_splits)

lemma queues_hold_member:
  assumes "queues_hold L Q k" "p \<in> Q"
  shows "p \<in> set (L (qof k p))"
proof -
  obtain q where "q < NR_SCHED_QUEUES" "p \<in> set (L q)"
    using assms by (auto simp: queues_hold_def queued_def)
  then show ?thesis using assms(1) by (simp add: queues_hold_def run_queues_def)
qed

lemma queued_upd:
  "q < NR_SCHED_QUEUES \<Longrightarrow>
     queued (L(q := xs)) = (\<Union>q' \<in> {..<NR_SCHED_QUEUES} - {q}. set (L q')) \<union> set xs"
  by (auto simp: queued_def split: if_splits)

lemma ticket_sum_upd:
  assumes "q < NR_SCHED_QUEUES"
  shows "ticket_sum (L(q := xs)) k =
    ticket_sum L k - (\<Sum>p \<leftarrow> L q. p_tickets (procs k p)) + (\<Sum>p \<leftarrow> xs. p_tickets (procs k p))"
proof -
  have "ticket_sum M k = (\<Sum>p \<leftarrow> M q. p_tickets (procs k p)) +
      (\<Sum>q' \<in> {..<NR_SCHED_QUEUES} - {q}. \<Sum>p \<leftarrow> M q'. p_tickets (procs k p))" for M
    unfolding ticket_sum_def using assms by (intro sum.remove) auto
  from this [of L] this [of "L(q := xs)"] show ?thesis by simp
qed

lemma queued_remove1:
  assumes "run_queues L k" "q < NR_SCHED_QUEUES" "p \<in> set (L q)"
  shows "queued (L(q := remove1 p (L q))) = queued L - {p}"
proof -
  have "distinct (L q)" using assms(1,2) chain_distinct unfolding run_queues_def by blast
  moreover have "p \<notin> set (L q')" if "q' < NR_SCHED_QUEUES" "q' \<noteq> q" for q'
    using queued_disjoint [OF assms(1,2) that(1) assms(3)] that by auto
  moreover have "queued L = (\<Union>q' \<in> {..<NR_SCHED_QUEUES} - {q}. set (L q')) \<union> set (L q)"
    using queued_upd [OF assms(2), of L "L q"] by simp
  ultimately show ?thesis
    unfolding queued_upd [OF assms(2)] by (auto simp: set_remove1_eq)
qed

lemma dequeue_removes:
  assumes hold: "queues_hold L Q k" and rp: "rp \<in> Q" and nr: "\<not> proc_is_runnable k rp"
  defines "q \<equiv> qof k rp"
  shows "\<exists>k'. dequeue rp k = Some k' \<and> queues_hold (L(q := remove1 rp (L q))) (Q - {rp}) k' \<and>
    sched_frame k k' \<and> same_flags k k' \<and> total_tickets k' = total_tickets k - p_tickets (procs k rp) \<and>
    ticket_sum (L(q := remove1 rp (L q))) k' = ticket_sum L k - p_tickets (procs k rp)"
proof -
  have wf: "wf_kernel k" and rq: "run_queues L k" and ip: "is_proc rp"
    using hold rp by (auto simp: queues_hold_def)
  note w = wf_kernelD [OF wf ip]
  have mem: "rp \<in> set (L q)" using queues_hold_member [OF hold rp] by (simp add: q_def)
  then obtain xs ys where L: "L q = xs @ rp # ys" "rp \<notin> set xs" by (metis split_list_first)
  have q: "q < NR_SCHED_QUEUES" using w(3) by (simp add: q_def)
  have rem: "remove1 rp (L q) = xs @ ys" using L by (simp add: remove1_append)
  have "chain (next_of k) (run_q_head k q) (L q)" using rq q unfolding run_queues_def by blast
  then have c: "chain (next_of k) (xpp_get k q None) (xs @ rp # ys)" using L(1) by (simp add: xpp_get_def)
  define k1 where "k1 = dequeue_found k rp q (if xs = [] then None else Some (last xs))"
  define k2 where "k2 = dequeue_accounting rp k1"
  define k' where "k' = k2\<lparr>total_tickets := total_tickets k2 - p_tickets (procs k2 rp)\<rparr>"
  have walk: "dequeue_walk k rp q None = Some k1"
    unfolding k1_def by (rule dequeue_walk_finds [OF c L(2)])
  have fr: "sched_frame k k'" "same_flags k k'"
    unfolding k'_def k2_def k1_def
    by (rule sched_frame_steps, rule sched_frame_trans [OF dequeue_found_frame(1) dequeue_accounting_frame(1)])
      (use dequeue_found_frame(2) [of k rp q] dequeue_accounting_frame(2) [of _ rp] in \<open>simp add: same_flags_def\<close>)
  have "dequeue rp k = Some k'"
    using w(1,2,4) walk nr unfolding dequeue_def k'_def k2_def q_def
    by (cases "iskerneln rp") (auto simp: Let_def)
  moreover have "run_queues (L(q := remove1 rp (L q))) k1"
    unfolding rem k1_def by (rule dequeue_found_removes [OF rq q L(1)])
  then have "run_queues (L(q := remove1 rp (L q))) k'"
    by (rule run_queues_cong)
      (simp_all add: k'_def k2_def dequeue_accounting_frame next_of_def
        sched_frame_fields [OF dequeue_accounting_frame(1)]
        dequeue_accounting_frame(3) [unfolded next_of_def, THEN fun_cong])
  moreover have "queued (L(q := remove1 rp (L q))) = Q - {rp}"
    using queued_remove1 [OF rq q mem] hold by (simp add: queues_hold_def)
  moreover have "total_tickets k' = total_tickets k - p_tickets (procs k rp)"
    by (simp add: k'_def k2_def k1_def dequeue_accounting_frame dequeue_found_frame
        sched_frame_fields [OF dequeue_accounting_frame(1)] sched_frame_fields [OF dequeue_found_frame(1)])
  moreover have "ticket_sum (L(q := remove1 rp (L q))) k' = ticket_sum L k - p_tickets (procs k rp)"
  proof -
    have "(\<Sum>p \<leftarrow> remove1 rp (L q). p_tickets (procs k p)) =
        (\<Sum>p \<leftarrow> L q. p_tickets (procs k p)) - p_tickets (procs k rp)"
      unfolding rem by (simp add: L(1))
    then show ?thesis by (simp add: ticket_sum_frame [OF fr(1)] ticket_sum_upd [OF q])
  qed
  ultimately show ?thesis
    using fr hold sched_frame_wf [OF fr(1)] by (auto simp: queues_hold_def)
qed

section \<open>Adding to a queue\<close>

lemma run_queues_change:
  assumes rq: "run_queues L k" and fr: "sched_frame k k'"
    and new: "chain (next_of k') (run_q_head k' q) xs"
      "run_q_tail k' q = (if xs = [] then None else Some (last xs))"
      "\<forall>p\<in>set xs. p_priority (procs k p) = int q"
    and other: "\<And>q'. q' \<noteq> q \<Longrightarrow> run_q_head k' q' = run_q_head k q' \<and> run_q_tail k' q' = run_q_tail k q'"
      "\<And>q' p. q' < NR_SCHED_QUEUES \<Longrightarrow> q' \<noteq> q \<Longrightarrow> p \<in> set (L q') \<Longrightarrow> next_of k' p = next_of k p"
  shows "run_queues (L(q := xs)) k'"
  unfolding run_queues_def
proof (intro allI impI)
  fix q' assume q': "q' < NR_SCHED_QUEUES"
  show "chain (next_of k') (run_q_head k' q') ((L(q := xs)) q') \<and>
      run_q_tail k' q' = (if (L(q := xs)) q' = [] then None else Some (last ((L(q := xs)) q'))) \<and>
      (\<forall>p\<in>set ((L(q := xs)) q'). p_priority (procs k' p) = int q')"
  proof (cases "q' = q")
    case True
    then show ?thesis using new sched_frame_fields(1) [OF fr] by simp
  next
    case False
    have "chain (next_of k') (run_q_head k q') (L q') = chain (next_of k) (run_q_head k q') (L q')"
      using other(2) [OF q' False] by (intro chain_cong) simp
    then show ?thesis using False q' rq other(1) [OF False] sched_frame_fields(1) [OF fr]
      unfolding run_queues_def by simp
  qed
qed

lemma queued_insert:
  assumes "q < NR_SCHED_QUEUES" "set xs = insert p (set (L q))"
  shows "queued (L(q := xs)) = insert p (queued L)"
  using queued_upd [OF assms(1), of L xs] queued_upd [OF assms(1), of L "L q"] assms(2) by auto

lemma enqueue_tail_appends:
  assumes hold: "queues_hold L Q k" and rp: "rp \<notin> Q" "is_proc rp"
  defines "q \<equiv> qof k rp"
  shows "\<exists>k'. enqueue_tail rp q k = Some k' \<and>
    queues_hold (L(q := L q @ [rp])) (insert rp Q) k' \<and>
    sched_frame k k' \<and> same_flags k k' \<and> total_tickets k' = total_tickets k"
proof -
  have wf: "wf_kernel k" and rq: "run_queues L k" and Q: "queued L = Q"
    using hold by (auto simp: queues_hold_def)
  have q: "q < NR_SCHED_QUEUES" "int q = p_priority (procs k rp)"
    using wf_kernelD(3,5) [OF wf rp(2)] by (simp_all add: q_def)
  have c: "chain (next_of k) (run_q_head k q) (L q)"
      "run_q_tail k q = (if L q = [] then None else Some (last (L q)))"
      "\<forall>p\<in>set (L q). p_priority (procs k p) = int q"
    using rq q(1) unfolding run_queues_def by blast+
  have out: "rp \<notin> set (L q')" if "q' < NR_SCHED_QUEUES" for q'
    using rp(1) Q that by (auto simp: queued_def)
  define k' where "k' = the (enqueue_tail rp q k)"
  have hd: "run_q_head k q = None \<longleftrightarrow> L q = []" using c(1) by (cases "L q") auto
  have run: "enqueue_tail rp q k = Some k'"
    using c(2) hd by (cases "L q = []") (auto simp: k'_def enqueue_tail_def Let_def)
  have fr: "sched_frame k k'" "same_flags k k'" "total_tickets k' = total_tickets k"
    using run c(2) hd
    by (cases "L q = []"; auto simp: enqueue_tail_def Let_def same_flags_def intro!: sched_frame_steps)+
  have nx: "next_of k' = (if L q = [] then (next_of k)(rp := None)
      else (next_of k)(last (L q) := Some rp, rp := None))"
    using run c(2) hd by (cases "L q = []") (auto simp: enqueue_tail_def Let_def next_of_def fun_eq_iff)
  have heads: "run_q_head k' = (if L q = [] then (run_q_head k)(q \<mapsto> rp) else run_q_head k)"
      "run_q_tail k' = (run_q_tail k)(q \<mapsto> rp)"
    using run c(2) hd by (cases "L q = []"; auto simp: enqueue_tail_def Let_def)+
  have "run_queues (L(q := L q @ [rp])) k'"
  proof (rule run_queues_change [OF rq fr(1)])
    show "chain (next_of k') (run_q_head k' q) (L q @ [rp])"
      using chain_snoc [OF c(1) out [OF q(1)]] by (simp add: nx heads)
    show "next_of k' p = next_of k p" if "q' < NR_SCHED_QUEUES" "q' \<noteq> q" "p \<in> set (L q')" for q' p
    proof -
      have "p \<noteq> rp" using out that by blast
      moreover have "p \<noteq> last (L q)" if "L q \<noteq> []"
        using queued_disjoint [OF rq q(1) \<open>q' < NR_SCHED_QUEUES\<close>, of p] \<open>q' \<noteq> q\<close> \<open>p \<in> set (L q')\<close> that by auto
      ultimately show ?thesis by (simp add: nx)
    qed
  qed (use c(3) q(2) in \<open>auto simp: heads\<close>)
  moreover have "queued (L(q := L q @ [rp])) = insert rp Q"
    using queued_insert [OF q(1), of "L q @ [rp]" rp L] Q by simp
  ultimately show ?thesis
    using run fr hold rp(2) sched_frame_wf [OF fr(1)] by (auto simp: queues_hold_def)
qed

text \<open>Whether adding \<open>rp\<close> preempts the current process.\<close>

definition preempts :: "kernel \<Rightarrow> int \<Rightarrow> bool" where
  "preempts k rp \<longleftrightarrow>
     p_priority (procs k (proc_ptr k)) > p_priority (procs k rp) \<and>
     (\<exists>pr. priv_of k (proc_ptr k) = Some pr \<and> has (s_flags pr) PREEMPTIBLE)"

lemma RTS_nonzero [simp]:
  "RTS_SLOT_FREE \<noteq> 0" "RTS_PROC_STOP \<noteq> 0" "RTS_SENDING \<noteq> 0" "RTS_RECEIVING \<noteq> 0"
  "RTS_SIGNALED \<noteq> 0" "RTS_SIG_PENDING \<noteq> 0" "RTS_P_STOP \<noteq> 0" "RTS_NO_PRIV \<noteq> 0"
  "RTS_NO_ENDPOINT \<noteq> 0" "RTS_VMINHIBIT \<noteq> 0" "RTS_PREEMPTED \<noteq> 0" "RTS_NO_QUANTUM \<noteq> 0"
  by (simp_all add: RTS_defs)

text \<open>\<open>RTS_SET\<close> in a state whose queues hold \<open>Q\<close>, with the runnable process among them.\<close>

lemma RTS_SET_lemma:
  assumes hold: "queues_hold L Q k" and rp: "is_proc rp" "rp \<in> Q \<longleftrightarrow> proc_is_runnable k rp"
    and f: "f \<noteq> 0"
  defines "L' \<equiv> (if proc_is_runnable k rp then L(qof k rp := remove1 rp (L (qof k rp))) else L)"
  shows "\<exists>k'. RTS_SET rp f k = Some k' \<and> queues_hold L' (Q - {rp}) k' \<and> sched_frame k k' \<and>
    (\<forall>p. p_rts_flags (procs k' p) = (if p = rp then p_rts_flags (procs k p) OR f else p_rts_flags (procs k p))) \<and>
    total_tickets k' - ticket_sum L' k' = total_tickets k - ticket_sum L k"
proof -
  define k1 where "k1 = upd_proc rp (\<lambda>p. p\<lparr>p_rts_flags := p_rts_flags p OR f\<rparr>) k"
  have fr1: "sched_frame k k1" by (simp add: k1_def)
  have nr: "\<not> proc_is_runnable k1 rp" using f by (simp add: k1_def proc_is_runnable_def)
  have hold1: "queues_hold L Q k1"
    using hold sched_frame_wf [OF fr1]
    by (auto simp: queues_hold_def k1_def next_of_def intro: run_queues_cong)
  have fl: "p_rts_flags (procs k1 p) = (if p = rp then p_rts_flags (procs k p) OR f else p_rts_flags (procs k p))" for p
    by (simp add: k1_def)
  show ?thesis
  proof (cases "proc_is_runnable k rp")
    case False
    then have "RTS_SET rp f k = Some k1" "L' = L" "Q - {rp} = Q"
      using rp by (auto simp: RTS_SET_def k1_def proc_is_runnable_def L'_def)
    then show ?thesis using hold1 fr1 fl ticket_sum_frame [OF fr1] by (auto simp: k1_def)
  next
    case True
    then have "rp \<in> Q" using rp by simp
    from dequeue_removes [OF hold1 this nr] obtain k' where k':
      "dequeue rp k1 = Some k'" "queues_hold L' (Q - {rp}) k'" "sched_frame k1 k'" "same_flags k1 k'"
      "total_tickets k' = total_tickets k1 - p_tickets (procs k1 rp)"
      "ticket_sum L' k' = ticket_sum L k1 - p_tickets (procs k1 rp)"
      using True by (auto simp: k1_def L'_def)
    have "RTS_SET rp f k = Some k'"
      using k'(1) nr True by (simp add: RTS_SET_def k1_def proc_is_runnable_def Let_def)
    then show ?thesis
      using k' sched_frame_trans [OF fr1 k'(3)] fl ticket_sum_frame [OF fr1, of L]
      by (auto simp: same_flags_def k1_def)
  qed
qed

lemma enqueue_preempt_lemma:
  fixes rp :: int
  assumes hold: "queues_hold L (runnables k) k"
  defines "p \<equiv> proc_ptr k"
  defines "L' \<equiv> (if preempts k rp \<and> proc_is_runnable k p then L(qof k p := remove1 p (L (qof k p))) else L)"
  shows "\<exists>k'. enqueue_preempt rp k = Some k' \<and> queues_hold L' (runnables k') k' \<and> sched_frame k k' \<and>
    (\<forall>x. p_rts_flags (procs k' x) =
       (if preempts k rp \<and> x = p then p_rts_flags (procs k x) OR RTS_PREEMPTED else p_rts_flags (procs k x))) \<and>
    total_tickets k' - ticket_sum L' k' = total_tickets k - ticket_sum L k"
proof -
  have wf: "wf_kernel k" using hold by (simp add: queues_hold_def)
  have ip: "is_proc p" using wf by (simp add: wf_kernel_def p_def)
  obtain pr where pr: "priv_of k p = Some pr" using wf_kernelD(4) [OF wf ip] by blast
  show ?thesis
  proof (cases "preempts k rp")
    case False
    then have "\<not> (p_priority (procs k p) > p_priority (procs k rp) \<and> has (s_flags pr) PREEMPTIBLE)"
      using pr by (auto simp: preempts_def p_def)
    then have "enqueue_preempt rp k = Some k" using pr by (auto simp: enqueue_preempt_def p_def Let_def)
    then show ?thesis using False hold by (simp add: L'_def)
  next
    case True
    then have run: "enqueue_preempt rp k = RTS_SET p RTS_PREEMPTED k"
      using pr by (auto simp: preempts_def enqueue_preempt_def p_def Let_def)
    have "p \<in> runnables k \<longleftrightarrow> proc_is_runnable k p" using ip by (simp add: runnables_def)
    from RTS_SET_lemma [OF hold ip this, of RTS_PREEMPTED] obtain k' where k':
      "RTS_SET p RTS_PREEMPTED k = Some k'" "queues_hold L' (runnables k - {p}) k'" "sched_frame k k'"
      "\<forall>x. p_rts_flags (procs k' x) =
         (if x = p then p_rts_flags (procs k x) OR RTS_PREEMPTED else p_rts_flags (procs k x))"
      "total_tickets k' - ticket_sum L' k' = total_tickets k - ticket_sum L k"
      using True by (auto simp: L'_def)
    moreover have "runnables k' = runnables k - {p}"
      using k'(4) by (auto simp: runnables_def proc_is_runnable_def)
    ultimately show ?thesis using run True by auto
  qed
qed

lemma enqueue_finish:
  fixes n :: int
  assumes "queues_hold L (runnables k) k"
  defines "k' \<equiv> (note_enter_queue k)\<lparr>total_tickets := n\<rparr>"
  shows "queues_hold L (runnables k') k'" "sched_frame k k'" "same_flags k k'"
proof -
  show fr: "sched_frame k k'"
    unfolding k'_def by (rule sched_frame_steps, rule note_enter_queue_frame(1))
  show fl: "same_flags k k'" using note_enter_queue_frame(2) [of k] by (simp add: k'_def same_flags_def)
  have "runnables k' = runnables k" using fl by (simp add: runnables_def proc_is_runnable_def same_flags_def)
  moreover have "run_queues L k'"
    using assms(1) unfolding queues_hold_def
    by (elim conjE, intro run_queues_cong [of L k k'])
      (auto simp: k'_def note_enter_queue_frame next_of_def
        sched_frame_fields [OF note_enter_queue_frame(1)]
        note_enter_queue_frame(3) [unfolded next_of_def, THEN fun_cong])
  ultimately show "queues_hold L (runnables k') k'"
    using assms(1) sched_frame_wf [OF fr] by (simp add: queues_hold_def)
qed

text \<open>
  \<open>enqueue\<close> in a state whose queues hold the runnable processes except \<open>rp\<close>: afterwards \<open>rp\<close>
  is the last of its queue, and the current process is preempted if \<open>rp\<close> goes before it.
\<close>

definition enqueue_result :: "(nat \<Rightarrow> int list) \<Rightarrow> kernel \<Rightarrow> int \<Rightarrow> nat \<Rightarrow> int list" where
  "enqueue_result L k rp =
     (let L1 = L(qof k rp := L (qof k rp) @ [rp]); p = proc_ptr k
      in if preempts k rp \<and> proc_is_runnable k p then L1(qof k p := remove1 p (L1 (qof k p))) else L1)"

lemma enqueue_lemma:
  assumes hold: "queues_hold L (runnables k - {rp}) k" and rp: "is_proc rp" "proc_is_runnable k rp"
  defines "L' \<equiv> enqueue_result L k rp"
  shows "\<exists>k'. enqueue rp k = Some k' \<and> queues_hold L' (runnables k') k' \<and> sched_frame k k' \<and>
    (\<forall>p. p_rts_flags (procs k' p) =
       (if preempts k rp \<and> p = proc_ptr k then p_rts_flags (procs k p) OR RTS_PREEMPTED
        else p_rts_flags (procs k p))) \<and>
    total_tickets k' - ticket_sum L' k' = total_tickets k - ticket_sum L k"
proof -
  define q where "q = qof k rp"
  define L1 where "L1 = L(q := L q @ [rp])"
  have wf: "wf_kernel k" using hold by (simp add: queues_hold_def)
  have q: "q < NR_SCHED_QUEUES" using wf_kernelD(3) [OF wf rp(1)] by (simp add: q_def)
  have Q: "insert rp (runnables k - {rp}) = runnables k" using rp by (auto simp: runnables_def)
  obtain k1 where k1: "enqueue_tail rp q k = Some k1"
      "queues_hold L1 (insert rp (runnables k - {rp})) k1" "sched_frame k k1" "same_flags k k1"
      "total_tickets k1 = total_tickets k"
    using enqueue_tail_appends [OF hold _ rp(1)] by (auto simp: q_def L1_def)
  have run1: "runnables k1 = runnables k" "\<And>x. proc_is_runnable k1 x = proc_is_runnable k x"
    using k1(4) by (simp_all add: runnables_def same_flags_def proc_is_runnable_def)
  have pre: "preempts k1 rp = preempts k rp"
    by (simp add: preempts_def priv_of_def sched_frame_fields [OF k1(3)] sched_frame_sel [OF k1(3)])
  have L': "L' = (if preempts k1 rp \<and> proc_is_runnable k1 (proc_ptr k1)
      then L1(qof k1 (proc_ptr k1) := remove1 (proc_ptr k1) (L1 (qof k1 (proc_ptr k1)))) else L1)"
    by (simp add: L'_def enqueue_result_def Let_def pre run1 sched_frame_sel [OF k1(3)]
        sched_frame_fields [OF k1(3)] L1_def q_def)
  have tick1: "ticket_sum L1 k1 = ticket_sum L k + p_tickets (procs k rp)"
    by (simp add: ticket_sum_frame [OF k1(3)] L1_def ticket_sum_upd [OF q])
  obtain k2 where k2: "enqueue_preempt rp k1 = Some k2" "queues_hold L' (runnables k2) k2" "sched_frame k1 k2"
      "\<forall>x. p_rts_flags (procs k2 x) = (if preempts k1 rp \<and> x = proc_ptr k1
         then p_rts_flags (procs k1 x) OR RTS_PREEMPTED else p_rts_flags (procs k1 x))"
      "total_tickets k2 - ticket_sum L' k2 = total_tickets k1 - ticket_sum L1 k1"
    using enqueue_preempt_lemma [of L1 k1 rp] k1(2) Q run1(1) unfolding L' by auto
  define n where "n = total_tickets k2 + p_tickets (procs k2 rp)"
  define k' where "k' = (note_enter_queue k2)\<lparr>total_tickets := n\<rparr>"
  note fin = enqueue_finish [OF k2(2), of n, folded k'_def]
  have fr: "sched_frame k k'" by (rule sched_frame_trans [OF sched_frame_trans [OF k1(3) k2(3)] fin(2)])
  have "enqueue rp k = Some k'"
    using rp(2) wf_kernelD(2) [OF wf rp(1)] k1(1) k2(1) sched_frame_fields(2) [OF note_enter_queue_frame(1)]
    by (simp add: enqueue_def q_def Let_def k'_def n_def note_enter_queue_frame)
  moreover have "p_rts_flags (procs k' x) = (if preempts k rp \<and> x = proc_ptr k
      then p_rts_flags (procs k x) OR RTS_PREEMPTED else p_rts_flags (procs k x))" for x
    using k2(4) k1(4) fin(3) pre sched_frame_sel(2) [OF k1(3)] by (simp add: same_flags_def)
  moreover have "total_tickets k' - ticket_sum L' k' = total_tickets k - ticket_sum L k"
  proof -
    have "total_tickets k' = n" by (simp add: k'_def)
    then show ?thesis
      using k2(5) k1(5) tick1 sched_frame_fields(2) [OF sched_frame_trans [OF k1(3) k2(3)], of rp]
        ticket_sum_frame [OF fin(2), of L'] by (simp add: n_def)
  qed
  ultimately show ?thesis using fin(1) fr by blast
qed

section \<open>Every operation keeps the invariant\<close>

lemma sched_inv_hold: "sched_inv L k \<Longrightarrow> queues_hold L (runnables k) k"
  by (simp add: sched_inv_def)

lemma RTS_SET_inv:
  assumes inv: "sched_inv L k" and rp: "is_proc rp" and f: "f \<noteq> 0"
  defines "L' \<equiv> (if proc_is_runnable k rp then L(qof k rp := remove1 rp (L (qof k rp))) else L)"
  shows "\<exists>k'. RTS_SET rp f k = Some k' \<and> sched_inv L' k' \<and> sched_frame k k' \<and>
    (\<forall>p. p_rts_flags (procs k' p) =
       (if p = rp then p_rts_flags (procs k p) OR f else p_rts_flags (procs k p)))"
proof -
  have "rp \<in> runnables k \<longleftrightarrow> proc_is_runnable k rp" using rp by (simp add: runnables_def)
  from RTS_SET_lemma [OF sched_inv_hold [OF inv] rp this f] obtain k' where k':
    "RTS_SET rp f k = Some k'" "queues_hold L' (runnables k - {rp}) k'" "sched_frame k k'"
    "\<forall>p. p_rts_flags (procs k' p) = (if p = rp then p_rts_flags (procs k p) OR f else p_rts_flags (procs k p))"
    "total_tickets k' - ticket_sum L' k' = total_tickets k - ticket_sum L k"
    by (auto simp: L'_def)
  have "runnables k' = runnables k - {rp}"
    using k'(4) f by (auto simp: runnables_def proc_is_runnable_def)
  then show ?thesis using k' inv by (auto simp: sched_inv_def)
qed

lemma queues_hold_upd_flags:
  "queues_hold L Q k \<Longrightarrow> queues_hold L Q (upd_proc rp (\<lambda>p. p\<lparr>p_rts_flags := w p\<rparr>) k)"
  using sched_frame_wf [OF sched_frame_upd(3), of rp w k]
  by (auto simp: queues_hold_def next_of_def intro: run_queues_cong)

lemma RTS_UNSET_inv:
  fixes f :: "32 word"
  assumes inv: "sched_inv L k" and rp: "is_proc rp"
  defines "L' \<equiv> (if p_rts_flags (procs k rp) \<noteq> 0 \<and> p_rts_flags (procs k rp) AND NOT f = 0
                  then enqueue_result L k rp else L)"
  shows "\<exists>k'. RTS_UNSET rp f k = Some k' \<and> sched_inv L' k' \<and> sched_frame k k' \<and>
    p_rts_flags (procs k' rp) = p_rts_flags (procs k rp) AND NOT f \<and>
    (\<forall>p. p \<noteq> rp \<longrightarrow> p \<noteq> proc_ptr k \<longrightarrow> p_rts_flags (procs k' p) = p_rts_flags (procs k p))"
proof -
  define k1 where "k1 = upd_proc rp (\<lambda>p. p\<lparr>p_rts_flags := p_rts_flags p AND NOT f\<rparr>) k"
  have fr: "sched_frame k k1" by (simp add: k1_def)
  have hold1: "queues_hold L (runnables k) k1"
    unfolding k1_def by (rule queues_hold_upd_flags [OF sched_inv_hold [OF inv]])
  have tot: "total_tickets k1 = ticket_sum L k1"
    using inv ticket_sum_frame [OF fr] by (simp add: sched_inv_def k1_def)
  show ?thesis
  proof (cases "p_rts_flags (procs k rp) \<noteq> 0 \<and> p_rts_flags (procs k rp) AND NOT f = 0")
    case False
    then have "RTS_UNSET rp f k = Some k1" "L' = L"
      by (auto simp: RTS_UNSET_def proc_is_runnable_def k1_def L'_def Let_def)
    moreover have "runnables k1 = runnables k"
      using False by (auto simp: runnables_def proc_is_runnable_def k1_def)
    ultimately show ?thesis using hold1 tot fr by (auto simp: sched_inv_def k1_def)
  next
    case True
    have run: "proc_is_runnable k1 rp" using True by (simp add: proc_is_runnable_def k1_def)
    have "runnables k = runnables k1 - {rp}"
      using True rp by (auto simp: runnables_def proc_is_runnable_def k1_def)
    from enqueue_lemma [OF hold1 [unfolded this] rp run] obtain k' where k': "enqueue rp k1 = Some k'"
        "queues_hold (enqueue_result L k1 rp) (runnables k') k'" "sched_frame k1 k'"
        "\<forall>p. p_rts_flags (procs k' p) = (if preempts k1 rp \<and> p = proc_ptr k1
           then p_rts_flags (procs k1 p) OR RTS_PREEMPTED else p_rts_flags (procs k1 p))"
        "total_tickets k' - ticket_sum (enqueue_result L k1 rp) k' = total_tickets k1 - ticket_sum L k1"
      by blast
    have pre: "preempts k1 rp = preempts k rp" "\<not> preempts k rp \<or> rp \<noteq> proc_ptr k"
      by (auto simp: preempts_def k1_def priv_of_def)
    have "enqueue_result L k1 rp = L'"
    proof -
      have "proc_is_runnable k1 (proc_ptr k) = proc_is_runnable k (proc_ptr k)" if "preempts k rp"
        using pre(2) that by (auto simp: k1_def proc_is_runnable_def)
      then show ?thesis using True pre(1) by (auto simp: L'_def enqueue_result_def Let_def k1_def)
    qed
    moreover have "RTS_UNSET rp f k = Some k'"
      using k'(1) True run by (simp add: RTS_UNSET_def k1_def)
    ultimately show ?thesis
      using k' tot pre sched_frame_trans [OF fr k'(3)] by (auto simp: sched_inv_def k1_def)
  qed
qed

lemma enqueue_head_inv:
  assumes hold: "queues_hold L (runnables k - {rp}) k" and rp: "is_proc rp" "proc_is_runnable k rp"
    and t: "total_tickets k = ticket_sum L k" and time: "p_cpu_time_left (procs k rp) \<noteq> 0"
  shows "\<exists>k'. enqueue_head rp k = Some k' \<and> sched_inv (L(qof k rp := rp # L (qof k rp))) k' \<and>
    sched_frame k k' \<and> same_flags k k'"
proof -
  define q where "q = qof k rp"
  define k1 where "k1 = enqueue_front rp q k"
  define k2 where "k2 = note_enter_queue k1"
  define k3 where "k3 = upd_proc rp (\<lambda>p. p\<lparr>p_accounting := (p_accounting p)\<lparr>
      dequeues := dequeues (p_accounting p) - 1, preempted := preempted (p_accounting p) + 1\<rparr>\<rparr>) k2"
  define k' where "k' = k3\<lparr>total_tickets := total_tickets k3 + p_tickets (procs k3 rp)\<rparr>"
  have wf: "wf_kernel k" and rq: "run_queues L k" and Q: "queued L = runnables k - {rp}"
    using hold by (auto simp: queues_hold_def)
  have q: "q < NR_SCHED_QUEUES" "int q = p_priority (procs k rp)"
    using wf_kernelD(3,5) [OF wf rp(1)] by (simp_all add: q_def)
  have c: "chain (next_of k) (run_q_head k q) (L q)"
      "run_q_tail k q = (if L q = [] then None else Some (last (L q)))"
      "\<forall>p\<in>set (L q). p_priority (procs k p) = int q"
    using rq q(1) unfolding run_queues_def by blast+
  have out: "rp \<notin> set (L q')" if "q' < NR_SCHED_QUEUES" for q' using Q that by (auto simp: queued_def)
  have hd: "run_q_head k q = None \<longleftrightarrow> L q = []" using c(1) by (cases "L q") auto
  have fr1: "sched_frame k k1" by (auto simp: k1_def enqueue_front_def intro!: sched_frame_steps split: option.split)
  have fr: "sched_frame k k'"
    unfolding k'_def k3_def k2_def
    by (intro sched_frame_steps) (rule sched_frame_trans [OF fr1 note_enter_queue_frame(1)])
  have nx: "next_of k' = (next_of k)(rp := run_q_head k q)"
    using note_enter_queue_frame(3) [of k1]
    by (auto simp: k'_def k3_def k2_def k1_def enqueue_front_def next_of_def fun_eq_iff split: option.split)
  have hds: "run_q_head k' = (run_q_head k)(q \<mapsto> rp)"
      "run_q_tail k' = (if L q = [] then (run_q_tail k)(q \<mapsto> rp) else run_q_tail k)"
    using hd by (auto simp: k'_def k3_def k2_def k1_def enqueue_front_def note_enter_queue_frame split: option.split)
  have rq': "run_queues (L(q := rp # L q)) k'"
  proof (rule run_queues_change [OF rq fr])
    show "chain (next_of k') (run_q_head k' q) (rp # L q)"
      using c(1) out [OF q(1)] by (simp add: nx hds chain_frame)
    show "next_of k' p = next_of k p" if "q' < NR_SCHED_QUEUES" "q' \<noteq> q" "p \<in> set (L q')" for q' p
      using out [OF that(1)] that(3) by (auto simp: nx)
  qed (use c q(2) in \<open>auto simp: hds\<close>)
  have fl: "same_flags k k'"
    using note_enter_queue_frame(2) [of k1]
    by (auto simp: same_flags_def k'_def k3_def k2_def k1_def enqueue_front_def split: option.split)
  have "runnables k' = runnables k" using fl by (simp add: runnables_def proc_is_runnable_def same_flags_def)
  moreover have "queued (L(q := rp # L q)) = runnables k"
    using queued_insert [OF q(1), of "rp # L q" rp L] Q rp by (auto simp: runnables_def)
  moreover have "total_tickets k' = ticket_sum (L(q := rp # L q)) k'"
  proof -
    have "total_tickets k' = total_tickets k + p_tickets (procs k rp)"
      using sched_frame_fields(2) [OF note_enter_queue_frame(1), of k1 rp]
      by (auto simp: k'_def k3_def k2_def k1_def enqueue_front_def note_enter_queue_frame split: option.split)
    then show ?thesis using t by (simp add: ticket_sum_frame [OF fr] ticket_sum_upd [OF q(1)])
  qed
  ultimately have "sched_inv (L(q := rp # L q)) k'"
    using rq' hold sched_frame_wf [OF fr] by (auto simp: sched_inv_def queues_hold_def runnables_def)
  moreover have "enqueue_head rp k = Some k'"
    using rp(2) time wf_kernelD(1,2) [OF wf rp(1)]
    by (simp add: enqueue_head_def q_def k'_def k3_def k2_def k1_def Let_def)
  ultimately show ?thesis using fr fl by (simp add: q_def)
qed

section \<open>The lottery\<close>

text \<open>The holder of ticket number \<open>c\<close> (from 1) when the processes \<open>ps\<close> line up with their tickets.\<close>

fun ticket_holder :: "(int \<Rightarrow> int) \<Rightarrow> int \<Rightarrow> int list \<Rightarrow> int option" where
  "ticket_holder t c [] = None"
| "ticket_holder t c (p # ps) = (if c \<le> t p then Some p else ticket_holder t (c - t p) ps)"

definition all_queued :: "(nat \<Rightarrow> int list) \<Rightarrow> int list" where
  "all_queued L = concat (map L [0..<NR_SCHED_QUEUES])"

lemma ticket_holder_append:
  "ticket_holder t c (ps @ qs) =
     (case ticket_holder t c ps of None \<Rightarrow> ticket_holder t (c - sum_list (map t ps)) qs | Some p \<Rightarrow> Some p)"
  by (induction ps arbitrary: c) (auto simp: diff_diff_eq split: option.split)

lemma ticket_holder_in: "ticket_holder t c ps = Some p \<Longrightarrow> p \<in> set ps"
  by (induction ps arbitrary: c) (auto split: if_splits)

lemma ticket_holder_None:
  "ticket_holder t c ps = None \<Longrightarrow> 0 < c \<Longrightarrow> sum_list (map t ps) < c"
proof (induction ps arbitrary: c)
  case (Cons p ps)
  then have "ticket_holder t (c - t p) ps = None" "0 < c - t p" by (simp_all split: if_splits)
  then show ?case using Cons.IH [of "c - t p"] by simp
qed simp

lemma ticket_holder_iff:
  assumes "distinct (ps @ p # qs)" "\<And>x. 0 \<le> t x" "0 < c"
  shows "ticket_holder t c (ps @ p # qs) = Some p \<longleftrightarrow>
    sum_list (map t ps) < c \<and> c \<le> sum_list (map t ps) + t p"
proof -
  have nonneg: "0 \<le> sum_list (map t xs)" for xs using assms(2) by (induction xs) auto
  have "ticket_holder t c ps = None \<longleftrightarrow> sum_list (map t ps) < c"
    using assms(2,3)
  proof (induction ps arbitrary: c)
    case (Cons x ps)
    have "0 \<le> sum_list (map t ps)" by (rule nonneg)
    then show ?case using Cons.IH [of "c - t x"] Cons.prems by auto
  qed simp
  moreover have "ticket_holder t c ps \<noteq> Some p" using ticket_holder_in [of t c ps p] assms(1) by auto
  moreover have "ticket_holder t d qs \<noteq> Some p" for d using ticket_holder_in [of t d qs p] assms(1) by auto
  ultimately show ?thesis by (auto simp: ticket_holder_append split: option.splits)
qed

text \<open>Each process wins with as many of the ticket numbers as it holds tickets.\<close>

lemma ticket_holder_card:
  assumes "distinct ps" "p \<in> set ps" "\<And>x. 0 \<le> t x"
  shows "card {r \<in> {0..<sum_list (map t ps)}. ticket_holder t (r + 1) ps = Some p} = nat (t p)"
proof -
  obtain xs ys where ps: "ps = xs @ p # ys" using assms(2) by (metis split_list)
  have nonneg: "0 \<le> sum_list (map t zs)" for zs using assms(3) by (induction zs) auto
  have "{r \<in> {0..<sum_list (map t ps)}. ticket_holder t (r + 1) ps = Some p} =
      {sum_list (map t xs)..<sum_list (map t xs) + t p}"
  proof (intro set_eqI)
    fix r
    have "ticket_holder t (r + 1) ps = Some p \<longleftrightarrow>
        sum_list (map t xs) < r + 1 \<and> r + 1 \<le> sum_list (map t xs) + t p" if "0 \<le> r"
      unfolding ps using assms(1) [unfolded ps] assms(3) that by (intro ticket_holder_iff) auto
    then show "r \<in> {r \<in> {0..<sum_list (map t ps)}. ticket_holder t (r + 1) ps = Some p} \<longleftrightarrow>
        r \<in> {sum_list (map t xs)..<sum_list (map t xs) + t p}"
      using nonneg [of xs] nonneg [of ys] by (auto simp: ps)
  qed
  then show ?thesis by simp
qed

lemma lottery_queue_chain:
  assumes "chain (next_of k) rp ps"
  defines "t \<equiv> \<lambda>p. p_tickets (procs k p)"
  shows "case ticket_holder t (c - s) ps of
      None \<Rightarrow> lottery_queue k c rp s = Some (None, s + sum_list (map t ps))
    | Some p \<Rightarrow> \<exists>s'. lottery_queue k c rp s = Some (Some p, s')"
  using assms(1)
proof (induction ps arbitrary: rp s)
  case Nil
  then show ?case by (simp add: lottery_queue.simps [of k c None])
next
  case (Cons p ps)
  then have p: "rp = Some p" "chain (next_of k) (p_nextready (procs k p)) ps"
    by (simp_all flip: next_of_def)
  show ?case
  proof (cases "c - s \<le> t p")
    case True
    then show ?thesis using p(1)
      by (simp add: lottery_queue.simps [of k c "Some p"] Let_def t_def algebra_simps)
  next
    case False
    then have "lottery_queue k c rp s = lottery_queue k c (p_nextready (procs k p)) (s + t p)"
      using p(1) by (simp add: lottery_queue.simps [of k c "Some p"] Let_def t_def algebra_simps)
    then show ?thesis using Cons.IH [OF p(2), of "s + t p"] False
      by (simp add: diff_diff_eq add.assoc split: option.splits)
  qed
qed

lemma lottery_queues_chain:
  assumes "\<And>q. q \<in> set qs \<Longrightarrow> chain (next_of k) (heads q) (L q)"
  shows "lottery_queues k heads c qs s =
    Some (ticket_holder (\<lambda>p. p_tickets (procs k p)) (c - s) (concat (map L qs)))"
  using assms
proof (induction qs arbitrary: s)
  case Nil
  then show ?case by simp
next
  case (Cons q qs)
  define t where "t = (\<lambda>p. p_tickets (procs k p))"
  have "chain (next_of k) (heads q) (L q)" using Cons.prems by simp
  note lq = lottery_queue_chain [OF this, of c s, folded t_def]
  have IH: "lottery_queues k heads c qs s' = Some (ticket_holder t (c - s') (concat (map L qs)))" for s'
    unfolding t_def by (rule Cons.IH) (use Cons.prems in simp)
  show ?case
    using lq unfolding t_def [symmetric]
    by (cases "ticket_holder t (c - s) (L q)") (auto simp: IH ticket_holder_append diff_diff_eq)
qed

lemma all_queued_props:
  assumes "sched_inv L k"
  shows "set (all_queued L) = runnables k" "distinct (all_queued L)"
    "(\<Sum>p \<leftarrow> all_queued L. p_tickets (procs k p)) = total_tickets k"
proof -
  have rq: "run_queues L k" and Q: "queued L = runnables k" and t: "total_tickets k = ticket_sum L k"
    using assms by (auto simp: sched_inv_def queues_hold_def)
  show "set (all_queued L) = runnables k"
    unfolding Q [symmetric] by (auto simp: all_queued_def queued_def)
  have "distinct (concat (map L [0..<n]))" if "n \<le> NR_SCHED_QUEUES" for n
    using that
  proof (induction n)
    case (Suc n)
    have "distinct (L n)" using rq Suc.prems chain_distinct unfolding run_queues_def by (metis Suc_le_lessD)
    moreover have "set (L n) \<inter> (\<Union>q \<in> {0..<n}. set (L q)) = {}"
    proof -
      have "q = n" if "q < n" "p \<in> set (L q)" "p \<in> set (L n)" for p q
        using queued_disjoint [OF rq, of q n p] Suc.prems that by simp
      then show ?thesis by auto
    qed
    ultimately show ?case using Suc by auto
  qed simp
  then show "distinct (all_queued L)" by (simp add: all_queued_def)
  have "(\<Sum>p \<leftarrow> concat (map L [0..<n]). g p) = (\<Sum>q < n. \<Sum>p \<leftarrow> L q. g p)" for n and g :: "int \<Rightarrow> int"
    by (induction n) simp_all
  then show "(\<Sum>p \<leftarrow> all_queued L. p_tickets (procs k p)) = total_tickets k"
    by (simp add: all_queued_def t ticket_sum_def)
qed

text \<open>\<open>lottery_winner L k rnd\<close>: who holds the ticket that \<open>rnd\<close> draws.\<close>

definition lottery_winner :: "(nat \<Rightarrow> int list) \<Rightarrow> kernel \<Rightarrow> int \<Rightarrow> int option" where
  "lottery_winner L k rnd =
     ticket_holder (\<lambda>p. p_tickets (procs k p)) (rnd mod total_tickets k + 1) (all_queued L)"

lemma lottery_winner_runnable:
  assumes inv: "sched_inv L k" and t: "0 < total_tickets k"
  shows "\<exists>rp \<in> runnables k. lottery_winner L k rnd = Some rp"
proof -
  have "lottery_winner L k rnd \<noteq> None"
  proof
    assume "lottery_winner L k rnd = None"
    from ticket_holder_None [OF this [unfolded lottery_winner_def]]
    have "total_tickets k < rnd mod total_tickets k + 1"
      using all_queued_props(3) [OF inv] t by simp
    then show False using pos_mod_bound [OF t, of rnd] by linarith
  qed
  then show ?thesis using ticket_holder_in all_queued_props(1) [OF inv] unfolding lottery_winner_def by blast
qed

lemma pick_proc_lottery:
  assumes inv: "sched_inv L k" and s: "style k \<noteq> 0" "0 < total_tickets k" and r: "0 \<le> rnd"
  shows "\<exists>rp k'. lottery_winner L k rnd = Some rp \<and> rp \<in> runnables k \<and>
    pick_proc (run_q_head k) rnd k = Some (Some rp, k') \<and> (k' = k \<or> k' = k\<lparr>bill_ptr := rp\<rparr>)"
proof -
  obtain rp where rp: "lottery_winner L k rnd = Some rp" "rp \<in> runnables k"
    using lottery_winner_runnable [OF inv s(2)] by blast
  have "lottery_queues k (run_q_head k) (c_rem rnd (total_tickets k) + 1) [0..<NR_SCHED_QUEUES] 0 =
      Some (lottery_winner L k rnd)"
  proof -
    have "chain (next_of k) (run_q_head k q) (L q)" if "q \<in> set [0..<NR_SCHED_QUEUES]" for q
      using inv that by (simp add: sched_inv_def queues_hold_def run_queues_def)
    from lottery_queues_chain [of "[0..<NR_SCHED_QUEUES]" k "run_q_head k" L, OF this]
    show ?thesis using c_rem_nonneg [OF r, of "total_tickets k"] s(2)
      by (simp add: lottery_winner_def all_queued_def)
  qed
  moreover obtain pr where "priv_of k rp = Some pr"
  proof -
    have "wf_kernel k" "is_proc rp" using rp(2) inv by (auto simp: runnables_def sched_inv_def queues_hold_def)
    then show ?thesis using wf_kernelD(4) that by blast
  qed
  ultimately show ?thesis
    using rp s by (auto simp: pick_proc_def picked_def runnables_def Let_def)
qed

lemma pick_standard_finds:
  "pick_standard qs k =
     (case filter (\<lambda>q. run_q_head k q \<noteq> None) qs of
        [] \<Rightarrow> Some (None, k)
      | q # _ \<Rightarrow> picked (the (run_q_head k q)) k)"
  by (induction qs) (auto split: option.splits)

lemma filter_first:
  "filter P xs = y # ys \<Longrightarrow> \<exists>us vs. xs = us @ y # vs \<and> (\<forall>u \<in> set us. \<not> P u) \<and> P y"
  by (auto simp: filter_eq_Cons_iff)

lemma head_None_iff:
  "run_queues L k \<Longrightarrow> q < NR_SCHED_QUEUES \<Longrightarrow> run_q_head k q = None \<longleftrightarrow> L q = []"
  unfolding run_queues_def by (cases "L q") force+

lemma pick_standard_best:
  assumes inv: "sched_inv L k" and ne: "runnables k \<noteq> {}"
  shows "\<exists>rp k'. pick_standard [0..<NR_SCHED_QUEUES] k = Some (Some rp, k') \<and> rp \<in> runnables k \<and>
    (\<forall>p \<in> runnables k. p_priority (procs k rp) \<le> p_priority (procs k p))"
proof -
  have rq: "run_queues L k" and Q: "queued L = runnables k" and wf: "wf_kernel k"
    using inv by (auto simp: sched_inv_def queues_hold_def)
  note hd = head_None_iff [OF rq]
  have place: "p \<in> set (L (qof k p)) \<and> qof k p < NR_SCHED_QUEUES \<and> int (qof k p) = p_priority (procs k p)"
    if "p \<in> runnables k" for p
    using queues_hold_member [OF sched_inv_hold [OF inv] that] wf_kernelD(3,5) [OF wf, of p] that
    by (simp add: runnables_def)
  obtain p where p: "p \<in> runnables k" using ne by auto
  have "filter (\<lambda>q. run_q_head k q \<noteq> None) [0..<NR_SCHED_QUEUES] \<noteq> []"
  proof -
    have "run_q_head k (qof k p) \<noteq> None" "qof k p \<in> set [0..<NR_SCHED_QUEUES]"
      using place [OF p] hd [of "qof k p"] by auto
    then show ?thesis by (meson filter_empty_conv)
  qed
  then obtain q qs where f: "filter (\<lambda>q. run_q_head k q \<noteq> None) [0..<NR_SCHED_QUEUES] = q # qs"
    by (meson neq_Nil_conv)
  obtain us vs where split: "[0..<NR_SCHED_QUEUES] = us @ q # vs" "\<forall>u \<in> set us. run_q_head k u = None"
      "run_q_head k q \<noteq> None"
    using filter_first [OF f] by auto
  have len: "length us < NR_SCHED_QUEUES" using arg_cong [OF split(1), of length] by simp
  moreover have "[0..<NR_SCHED_QUEUES] ! length us = q" by (simp add: split(1))
  ultimately have "q = length us" by simp
  moreover have "us = take (length us) [0..<NR_SCHED_QUEUES]" by (simp add: split(1))
  ultimately have us: "us = [0..<q]" and q: "q < NR_SCHED_QUEUES" using len by simp_all
  obtain rp ps where L: "L q = rp # ps" using hd [OF q] split(3) by (meson neq_Nil_conv)
  have rp: "run_q_head k q = Some rp" "rp \<in> runnables k" "p_priority (procs k rp) = int q"
    using rq q L Q unfolding run_queues_def queued_def by force+
  have "q \<le> qof k x" if "x \<in> runnables k" for x
  proof (rule ccontr)
    assume "\<not> q \<le> qof k x"
    then have "L (qof k x) = []" using split(2) us hd [of "qof k x"] place [OF that] by simp
    then show False using place [OF that] by simp
  qed
  then have "\<forall>x \<in> runnables k. p_priority (procs k rp) \<le> p_priority (procs k x)"
    using place rp(3) by (metis of_nat_mono)
  moreover obtain pr where "priv_of k rp = Some pr"
    using rp(2) wf_kernelD(4) [OF wf, of rp] by (auto simp: runnables_def)
  ultimately show ?thesis
    using rp f by (simp add: pick_standard_finds picked_def runnables_def)
qed

lemma ticket_sum_set:
  assumes inv: "sched_inv L k" and rp: "rp \<in> runnables k"
  shows "ticket_sum L (upd_proc rp (\<lambda>p. p\<lparr>p_tickets := n\<rparr>) k) = ticket_sum L k - p_tickets (procs k rp) + n"
proof -
  let ?k = "upd_proc rp (\<lambda>p. p\<lparr>p_tickets := n\<rparr>) k"
  have flat: "ticket_sum L k = (\<Sum>p \<leftarrow> all_queued L. p_tickets (procs k p))" for k
  proof -
    have "(\<Sum>p \<leftarrow> concat (map L [0..<m]). g p) = (\<Sum>q < m. \<Sum>p \<leftarrow> L q. g p)" for m and g :: "int \<Rightarrow> int"
      by (induction m) simp_all
    then show ?thesis by (simp add: all_queued_def ticket_sum_def)
  qed
  obtain xs ys where s: "all_queued L = xs @ rp # ys"
    using all_queued_props(1) [OF inv] rp by (metis split_list)
  have "rp \<notin> set xs" "rp \<notin> set ys" using all_queued_props(2) [OF inv] s by auto
  then have "(\<Sum>p \<leftarrow> xs. p_tickets (procs ?k p)) = (\<Sum>p \<leftarrow> xs. p_tickets (procs k p))"
      "(\<Sum>p \<leftarrow> ys. p_tickets (procs ?k p)) = (\<Sum>p \<leftarrow> ys. p_tickets (procs k p))"
    by (auto intro!: arg_cong [where f = sum_list])
  then show ?thesis unfolding flat s by simp
qed

lemma ProcessSetPriority_hold:
  assumes "queues_hold L Q k" "0 \<le> n"
  shows "queues_hold L Q ((upd_proc rp (\<lambda>p. p\<lparr>p_tickets := n\<rparr>) k)\<lparr>total_tickets := m\<rparr>)"
proof -
  let ?k = "(upd_proc rp (\<lambda>p. p\<lparr>p_tickets := n\<rparr>) k)\<lparr>total_tickets := m\<rparr>"
  have "wf_proc ?k p" if "wf_proc k p" for p
    using that assms(2) unfolding wf_proc_def proc_ptr_ok_def queue_index_def priv_of_def Let_def
    by (cases "p = rp") (simp_all split: if_splits)
  then have "wf_kernel ?k" using assms(1) by (simp add: queues_hold_def wf_kernel_def)
  moreover have rq: "run_queues L k" using assms(1) by (simp add: queues_hold_def)
  have "run_queues L ?k" by (rule run_queues_cong [OF rq]) (simp_all add: next_of_def)
  ultimately show ?thesis using assms(1) by (simp add: queues_hold_def)
qed

lemma standard_empty:
  assumes "sched_inv L k" "runnables k = {}"
  shows "pick_standard [0..<NR_SCHED_QUEUES] k = Some (None, k)"
proof -
  have rq: "run_queues L k" "queued L = {}" using assms by (auto simp: sched_inv_def queues_hold_def)
  then have "run_q_head k q = None" if "q < NR_SCHED_QUEUES" for q
    using head_None_iff [OF rq(1) that] that by (auto simp: queued_def)
  then show ?thesis by (simp add: pick_standard_finds filter_empty_conv)
qed

section \<open>A concrete kernel\<close>

text \<open>Processes 1 and 2 are runnable at priority 7 with 5 tickets each, 3 is blocked receiving.\<close>

definition demo_proc :: "int \<Rightarrow> proc" where
  "demo_proc p = \<lparr>p_retreg = OK, p_ipc_status = 0, p_ipc_return2 = 0, p_nr = p, p_priv = Some (if p = idle_proc then 64 else 0),
     p_rts_flags = (if p = 1 \<or> p = 2 then 0 else if p = 3 then RTS_RECEIVING
                    else if p = idle_proc then RTS_PROC_STOP else RTS_SLOT_FREE),
     p_misc_flags = 0, p_priority = (if p = 1 \<or> p = 2 \<or> p = 3 then 7 else 0), p_cpu_time_left = 100,
     p_quantum_size_ms = 200, p_scheduler = None, p_tickets = 5, p_accounting = no_accounting,
     p_user_time = 0, p_sys_time = 0, p_virt_left = 0, p_prof_left = 0, p_cycles = 0,
     p_kcall_cycles = 0, p_kipc_cycles = 0, p_nextready = (if p = 1 then Some 2 else None),
     p_caller_q = None, p_q_link = None, p_getfrom_e = ANY, p_sendto_e = NONE, p_pending = {},
     p_name = [], p_endpoint = (if p = idle_proc then IDLE else p), p_sendmsg = no_message,
     p_delivermsg = no_message, p_delivermsg_vir = 0, p_magic = PMAGIC, p_defer = (0, 0, 0),
     p_signal_received = 0, p_vm_kernelcall = False, p_reqmsg = no_message\<rparr>"

definition demo_priv :: "nat \<Rightarrow> priv" where
  "demo_priv i = \<lparr>s_proc_nr = (if i < 16 then 0 else NONE), s_id = int i, s_flags = PREEMPTIBLE OR BILLABLE,
     s_asyntab = - 1, s_asynsize = 0, s_trap_mask = - 1, s_ipc_to = (\<lambda>_. True),
     s_sig_mgr = 0, s_bak_sig_mgr = NONE, s_notify_pending = (\<lambda>_. False),
     s_asyn_pending = (\<lambda>_. False), s_int_pending = {}, s_sig_pending = {},
     s_stack_guard = STACK_GUARD, s_diag_sig = False, s_k_call_mask = (\<lambda>_. True),
     s_nr_irq = 0, s_irq_tab = (\<lambda>_. 0), s_nr_io_range = 0, s_io_tab = (\<lambda>_. \<lparr>ior_base = 0, ior_limit = 0\<rparr>),
     s_nr_mem_range = 0, s_mem_tab = (\<lambda>_. \<lparr>mr_base = 0, mr_limit = 0\<rparr>), s_grant_table = 0, s_grant_entries = 0\<rparr>"

definition demo_clock :: clock where
  "demo_clock = \<lparr>clock_timers = \<lparr>tmrs = None,
       tmr = (\<lambda>_. \<lparr>tmr_next = None, tmr_exp_time = TMR_NEVER, tmr_func = Cause_Alarm, tmr_arg = 0\<rparr>)\<rparr>,
     next_timeout = TMR_NEVER, realtime = 0, adjtime_delta = 0, boottime = 0, system_hz = 60,
     proc_load_history = (\<lambda>_. 0), proc_last_slot = 0, last_clock = 0\<rparr>"

definition demo_irqs :: irq_state where
  "demo_irqs = \<lparr>hooks = (\<lambda>_. \<lparr>hook_next = None, hook_handler = Timer_Int_Handler, hook_irq = 0, hook_id = 1,
       hook_proc_nr_e = NONE, hook_notify_id = 0, hook_policy = 0\<rparr>),
     irq_handlers = [0 \<mapsto> 16], irq_actids = (\<lambda>_. 0), irq_masked = (\<lambda>i. i \<noteq> 0)\<rparr>"

definition demo_kernel :: kernel where
  "demo_kernel = \<lparr>procs = demo_proc, privs = demo_priv, run_q_head = [7 \<mapsto> 1], run_q_tail = [7 \<mapsto> 2],
     proc_ptr = idle_proc, bill_ptr = idle_proc, total_tickets = 10, style = 2, tsc = (\<lambda>n. of_nat n),
     tsc_reads = 0, monotonic = 0, tsc_per_ms = 1000, kbill_ipc = idle_proc, kbill_kcall = idle_proc,
     minix_kerninfo_user = 0, user_msg = (\<lambda>_ _. Some no_message),
     asyn_tab = (\<lambda>_ _ _. None), asyn_ro = (\<lambda>_ _ _. False),
     clk = demo_clock, irqs = demo_irqs\<rparr>"

definition demo_queues :: "nat \<Rightarrow> int list" where
  "demo_queues q = (if q = 7 then [1, 2] else [])"

lemma demo_kernel_sel [simp]:
  "procs demo_kernel = demo_proc" "privs demo_kernel = demo_priv" "total_tickets demo_kernel = 10"
  "style demo_kernel = 2" "proc_ptr demo_kernel = idle_proc" "run_q_head demo_kernel = [7 \<mapsto> 1]"
  "run_q_tail demo_kernel = [7 \<mapsto> 2]"
  by (simp_all add: demo_kernel_def)

lemma demo_runnables: "runnables demo_kernel = {1, 2}"
  by (auto simp: runnables_def proc_is_runnable_def demo_proc_def is_proc_def isokprocn_def
      NR_TASKS_def NR_PROCS_def)

lemma demo_inv: "sched_inv demo_queues demo_kernel"
proof -
  have "wf_kernel demo_kernel"
    by (auto simp: wf_kernel_def wf_proc_def proc_ptr_ok_def queue_index_def priv_of_def
        demo_proc_def demo_priv_def NR_SCHED_QUEUES_def is_proc_def)
  moreover have "run_queues demo_queues demo_kernel"
    by (auto simp: run_queues_def next_of_def demo_queues_def demo_proc_def)
  moreover have "queued demo_queues = {1, 2}"
    by (auto simp: queued_def demo_queues_def NR_SCHED_QUEUES_def split: if_splits)
  moreover have "ticket_sum demo_queues demo_kernel = 10"
    by (simp add: ticket_sum_def demo_queues_def NR_SCHED_QUEUES_def demo_proc_def if_distrib [of "map _"]
        if_distrib [of sum_list] cong: if_cong)
  moreover have "{1, 2} \<subseteq> Collect is_proc" by (simp add: is_proc_def isokprocn_def NR_TASKS_def NR_PROCS_def)
  ultimately show ?thesis by (simp add: sched_inv_def queues_hold_def demo_runnables)
qed

section \<open>Properties\<close>

text \<open>C5. \<open>RTS_SET\<close> never fails an assertion or loses its way in a linked list: it sets the flags
  of the process and nothing else of it changes but its accounting; if the process was
  runnable it is unlinked from its run queue and its tickets leave \<open>total_tickets\<close>. The invariant
  (queues = runnable processes, total = their tickets) holds again.\<close>

theorem rts_set_dequeues:
  assumes "sched_inv L k" and "is_proc rp" and "f \<noteq> 0"
  shows "\<exists>k'. RTS_SET rp f k = Some k' \<and>
    sched_inv (if proc_is_runnable k rp then L(qof k rp := remove1 rp (L (qof k rp))) else L) k' \<and>
    sched_frame k k' \<and>
    (\<forall>p. p_rts_flags (procs k' p) =
       (if p = rp then p_rts_flags (procs k p) OR f else p_rts_flags (procs k p)))"
  by (rule RTS_SET_inv [OF assms])

theorem rts_set_dequeues_witness:
  "\<exists>k'. RTS_SET 1 RTS_RECEIVING demo_kernel = Some k' \<and> sched_inv (demo_queues(7 := [2])) k'"
proof -
  have "is_proc 1" "RTS_RECEIVING \<noteq> 0" "proc_is_runnable demo_kernel 1" "qof demo_kernel 1 = 7"
    by (simp_all add: is_proc_def isokprocn_def NR_TASKS_def NR_PROCS_def proc_is_runnable_def demo_proc_def)
  with rts_set_dequeues [OF demo_inv this(1,2)] show ?thesis by (auto simp: demo_queues_def)
qed

text \<open>C6. \<open>RTS_UNSET\<close> clears the flags; when the last one goes, the process is appended to the
  queue of its priority, its tickets enter \<open>total_tickets\<close>, and a preemptible current process of
  worse priority is marked preempted and leaves its queue. The invariant is kept.\<close>

theorem rts_unset_enqueues:
  assumes "sched_inv L k" and "is_proc rp"
  shows "\<exists>k'. RTS_UNSET rp f k = Some k' \<and>
    sched_inv (if p_rts_flags (procs k rp) \<noteq> 0 \<and> p_rts_flags (procs k rp) AND NOT f = 0
               then enqueue_result L k rp else L) k' \<and>
    sched_frame k k' \<and>
    p_rts_flags (procs k' rp) = p_rts_flags (procs k rp) AND NOT f \<and>
    (\<forall>p. p \<noteq> rp \<longrightarrow> p \<noteq> proc_ptr k \<longrightarrow> p_rts_flags (procs k' p) = p_rts_flags (procs k p))"
  by (rule RTS_UNSET_inv [OF assms])

theorem rts_unset_enqueues_witness:
  "\<exists>k'. RTS_UNSET 3 RTS_RECEIVING demo_kernel = Some k' \<and> sched_inv (demo_queues(7 := [1, 2, 3])) k'"
proof -
  have e: "is_proc 3" "qof demo_kernel 3 = 7" "\<not> preempts demo_kernel 3"
      "p_rts_flags (procs demo_kernel 3) \<noteq> 0" "p_rts_flags (procs demo_kernel 3) AND NOT RTS_RECEIVING = 0"
    by (simp_all add: is_proc_def isokprocn_def NR_TASKS_def NR_PROCS_def demo_proc_def preempts_def idle_proc_def)
  from rts_unset_enqueues [OF demo_inv e(1), of RTS_RECEIVING] show ?thesis
    using e by (auto simp: enqueue_result_def demo_queues_def)
qed





text \<open>C29. The lottery branch reads the local \<open>rdy_head\<close> without assigning it. If it happens to
  point at empty queues, \<open>pick_proc\<close> returns \<open>NULL\<close> although processes are runnable.\<close>

theorem lottery_reads_unassigned_heads:
  assumes "style k \<noteq> 0" and "0 < total_tickets k"
  shows "pick_proc (\<lambda>_. None) rnd k = Some (None, k)"
proof -
  have "lottery_queues k (\<lambda>_. None) c qs s = Some None" for c qs s
    by (induction qs arbitrary: s) (simp_all add: lottery_queue.simps [of k c None])
  then show ?thesis using assms by (simp add: pick_proc_def Let_def)
qed

theorem lottery_reads_unassigned_heads_witness:
  "pick_proc (\<lambda>_. None) 3 demo_kernel = Some (None, demo_kernel) \<and> runnables demo_kernel = {1, 2}"
  using lottery_reads_unassigned_heads [of demo_kernel 3] demo_runnables by simp

text \<open>C26. The standard scheduler picks a runnable process of the best priority, and \<open>NULL\<close> only
  when no process is runnable.\<close>

theorem standard_picks_best:
  assumes "sched_inv L k" and "style k = 0"
  shows "if runnables k = {} then pick_proc h rnd k = Some (None, k)
    else \<exists>rp k'. pick_proc h rnd k = Some (Some rp, k') \<and> rp \<in> runnables k \<and>
      (\<forall>p. p \<in> runnables k \<longrightarrow> p_priority (procs k rp) \<le> p_priority (procs k p))"
proof (cases "runnables k = {}")
  case True
  then show ?thesis using standard_empty [OF assms(1)] assms(2) by (simp add: pick_proc_def)
next
  case False
  then show ?thesis using pick_standard_best [OF assms(1) False] assms(2) by (auto simp: pick_proc_def)
qed

theorem standard_picks_best_witness:
  "\<exists>rp k'. pick_proc (\<lambda>_. None) 0 (demo_kernel\<lparr>style := 0\<rparr>) = Some (Some rp, k') \<and> rp \<in> {1, 2}"
proof -
  let ?k = "demo_kernel\<lparr>style := 0\<rparr>"
  have run: "runnables ?k = {1, 2}"
    using demo_runnables by (simp add: runnables_def proc_is_runnable_def)
  have "sched_inv demo_queues ?k"
    using demo_inv run demo_runnables
    by (simp add: sched_inv_def queues_hold_def wf_kernel_def wf_proc_def proc_ptr_ok_def
        queue_index_def priv_of_def run_queues_def next_of_def [abs_def] ticket_sum_def)
  from standard_picks_best [OF this, of "\<lambda>_. None" 0] run show ?thesis by auto
qed



end
