(* ===== verification/Kernel_IPC.thy ===== *)
theory Kernel_IPC
  imports Run_Queues
begin

text \<open>
  Message passing of the kernel (\<^verbatim>\<open>kernel/proc.c\<close>) and the kernel signals it uses
  (\<^verbatim>\<open>kernel/system.c\<close>): synchronous send and receive with the caller queues, notifications with
  their pending bits, asynchronous sends from tables in the sender's memory, the deadlock
  check, and the trap entries \<open>do_sync_ipc\<close> and \<open>do_ipc\<close>. \<open>lethal\<close> stands for the macro
  \<open>SIGS_IS_LETHAL\<close> of a header outside the sources.
\<close>

section \<open>Constants and status words\<close>

definition SEND :: int where "SEND = 1"
definition RECEIVE :: int where "RECEIVE = 2"
definition SENDREC :: int where "SENDREC = 3"
definition NOTIFY :: int where "NOTIFY = 4"
definition SENDNB :: int where "SENDNB = 5"
definition MINIX_KERNINFO :: int where "MINIX_KERNINFO = 6"
definition SENDA :: int where "SENDA = 16"
definition IPCNO_HIGHEST :: int where "IPCNO_HIGHEST = SENDA"

definition NON_BLOCKING :: "32 word" where "NON_BLOCKING = 0x0080"
definition FROM_KERNEL :: "32 word" where "FROM_KERNEL = 0x0100"

definition AMF_VALID :: "32 word" where "AMF_VALID = 1"
definition AMF_DONE :: "32 word" where "AMF_DONE = 2"
definition AMF_NOTIFY :: "32 word" where "AMF_NOTIFY = 4"
definition AMF_NOREPLY :: "32 word" where "AMF_NOREPLY = 8"
definition AMF_NOTIFY_ERR :: "32 word" where "AMF_NOTIFY_ERR = 16"

text \<open>The calls that have a name in \<open>ipc_call_names\<close> (set in \<^verbatim>\<open>kernel/main.c\<close>).\<close>

definition ipc_call_named :: "int \<Rightarrow> bool" where
  "ipc_call_named n \<longleftrightarrow> n \<in> {SEND, RECEIVE, SENDREC, NOTIFY, SENDNB, SENDA}"

definition WILLRECEIVE :: "kernel \<Rightarrow> int \<Rightarrow> int \<Rightarrow> bool" where
  "WILLRECEIVE k target source_ep \<longleftrightarrow>
     RTS_ISSET k target RTS_RECEIVING \<and> \<not> RTS_ISSET k target RTS_SENDING \<and>
     (p_getfrom_e (procs k target) = ANY \<or> p_getfrom_e (procs k target) = source_ep)"

definition IPC_STATUS_ADD :: "int \<Rightarrow> 32 word \<Rightarrow> kernel \<Rightarrow> kernel" where
  "IPC_STATUS_ADD p m k =
     (if has (p_misc_flags (procs k p)) MF_REPLY_PEND then k
      else upd_proc p (\<lambda>r. r\<lparr>p_ipc_status := p_ipc_status r OR m\<rparr>) k)"

definition IPC_STATUS_ADD_CALL :: "int \<Rightarrow> int \<Rightarrow> kernel \<Rightarrow> kernel" where
  "IPC_STATUS_ADD_CALL p call = IPC_STATUS_ADD p (word_of_int call AND 0x3F)"

definition IPC_STATUS_ADD_FROM_KERNEL :: "int \<Rightarrow> kernel \<Rightarrow> kernel" where
  "IPC_STATUS_ADD_FROM_KERNEL p = IPC_STATUS_ADD p (push_bit 16 1)"

definition set_misc :: "int \<Rightarrow> 32 word \<Rightarrow> kernel \<Rightarrow> kernel" where
  "set_misc p f = upd_proc p (\<lambda>r. r\<lparr>p_misc_flags := p_misc_flags r OR f\<rparr>)"

definition clear_misc :: "int \<Rightarrow> 32 word \<Rightarrow> kernel \<Rightarrow> kernel" where
  "clear_misc p f = upd_proc p (\<lambda>r. r\<lparr>p_misc_flags := p_misc_flags r AND NOT f\<rparr>)"

abbreviation misc :: "kernel \<Rightarrow> int \<Rightarrow> 32 word" where
  "misc k p \<equiv> p_misc_flags (procs k p)"

text \<open>A message for \<open>p\<close>: stored with its sender's endpoint and announced by \<open>MF_DELIVERMSG\<close>.\<close>

definition deliver :: "int \<Rightarrow> message \<Rightarrow> int \<Rightarrow> kernel \<Rightarrow> kernel" where
  "deliver p m e k =
     set_misc p MF_DELIVERMSG (upd_proc p (\<lambda>r. r\<lparr>p_delivermsg := m\<lparr>m_source := e\<rparr>\<rparr>) k)"

section \<open>Notifications\<close>

text \<open>\<open>has_pending\<close>: chunks of 32 bits are skipped as long as they are zero.\<close>

definition has_pending :: "kernel \<Rightarrow> (int \<Rightarrow> bool) \<Rightarrow> int \<Rightarrow> int option" where
  "has_pending k pending src_p =
     (if src_p \<noteq> ANY then do {
        src_id \<leftarrow> nr_to_id k src_p;
        Some (if pending src_id then src_id else NULL_PRIV_ID)
      }
      else
        Some (case filter (\<lambda>c. list_ex pending [c..c + 31]) [0, 32] of
                [] \<Rightarrow> NULL_PRIV_ID
              | c # _ \<Rightarrow> hd (filter pending [c..c + 31])))"

definition has_pending_notify :: "kernel \<Rightarrow> int \<Rightarrow> int \<Rightarrow> int option" where
  "has_pending_notify k caller src_p =
     do { pr \<leftarrow> priv_of k caller; has_pending k (s_notify_pending pr) src_p }"

definition has_pending_asend :: "kernel \<Rightarrow> int \<Rightarrow> int \<Rightarrow> int option" where
  "has_pending_asend k caller src_p =
     do { pr \<leftarrow> priv_of k caller; has_pending k (s_asyn_pending pr) src_p }"

definition unset_notify_pending :: "int \<Rightarrow> int \<Rightarrow> kernel \<Rightarrow> kernel option" where
  "unset_notify_pending caller src_id k = do {
     i \<leftarrow> p_priv (procs k caller);
     Some (upd_priv i (\<lambda>pr. pr\<lparr>s_notify_pending := (s_notify_pending pr)(src_id := False)\<rparr>) k)
   }"

definition BuildNotifyMessage :: "int \<Rightarrow> int \<Rightarrow> kernel \<Rightarrow> (message \<times> kernel) option" where
  "BuildNotifyMessage src dst_ptr k =
     (let m = (\<lambda>ints sigs. \<lparr>m_source = 0, m_type = NOTIFY_MESSAGE,
                 m_body = Notify_Payload (monotonic k) ints sigs\<rparr>)
      in if src = HARDWARE then do {
           i \<leftarrow> p_priv (procs k dst_ptr);
           Some (m (s_int_pending (privs k i)) {}, upd_priv i (\<lambda>pr. pr\<lparr>s_int_pending := {}\<rparr>) k)
         }
         else if src = SYSTEM then do {
           i \<leftarrow> p_priv (procs k dst_ptr);
           Some (m {} (s_sig_pending (privs k i)), upd_priv i (\<lambda>pr. pr\<lparr>s_sig_pending := {}\<rparr>) k)
         }
         else Some (m {} {}, k))"

definition mini_notify :: "int \<Rightarrow> int \<Rightarrow> kernel \<Rightarrow> (code \<times> kernel) option" where
  "mini_notify caller_ptr dst_e k =
     (case isokendpt k dst_e of
        None \<Rightarrow> Some (EDEADSRCDST, k)
      | Some dst_ptr \<Rightarrow>
          if WILLRECEIVE k dst_ptr (p_endpoint (procs k caller_ptr)) \<and>
             \<not> has (misc k dst_ptr) MF_REPLY_PEND
          then
            (if has (misc k dst_ptr) MF_DELIVERMSG then None
             else do {
               (m, k1) \<leftarrow> BuildNotifyMessage (p_nr (procs k caller_ptr)) dst_ptr k;
               let k2 = deliver dst_ptr m (p_endpoint (procs k caller_ptr)) k1;
               let k3 = IPC_STATUS_ADD_CALL dst_ptr NOTIFY k2;
               k4 \<leftarrow> RTS_UNSET dst_ptr RTS_RECEIVING k3;
               Some (OK, k4)
             })
          else do {
            src \<leftarrow> priv_of k caller_ptr;
            i \<leftarrow> p_priv (procs k dst_ptr);
            Some (OK, upd_priv i
              (\<lambda>pr. pr\<lparr>s_notify_pending := (s_notify_pending pr)(s_id src := True)\<rparr>) k)
          })"

section \<open>Signals\<close>

definition send_sig :: "int \<Rightarrow> signal \<Rightarrow> kernel \<Rightarrow> (code \<times> kernel) option" where
  "send_sig ep sig_nr k =
     (case isokendpt k ep of
        None \<Rightarrow> Some (EINVAL, k)
      | Some rp \<Rightarrow>
          if isemptyn k rp then Some (EINVAL, k)
          else
            (case p_priv (procs k rp) of
               None \<Rightarrow> Some (ENOENT, k)
             | Some i \<Rightarrow> do {
                 let k1 = upd_priv i (\<lambda>pr. pr\<lparr>s_sig_pending := insert sig_nr (s_sig_pending pr)\<rparr>) k;
                 let k2 = upd_proc rp (\<lambda>r. r\<lparr>p_signal_received := p_signal_received r + 1\<rparr>) k1;
                 (_, k3) \<leftarrow> mini_notify SYSTEM (p_endpoint (procs k2 rp)) k2;
                 Some (OK, k3)
               }))"

definition cause_sig_other :: "int \<Rightarrow> int \<Rightarrow> signal \<Rightarrow> kernel \<Rightarrow> kernel option" where
  "cause_sig_other rp sig_mgr sig_nr k =
     (if sig_nr \<in> p_pending (procs k rp) then Some k
      else do {
        let k1 = upd_proc rp (\<lambda>r. r\<lparr>p_pending := insert sig_nr (p_pending r),
                   p_signal_received := p_signal_received r + 1\<rparr>) k;
        if RTS_ISSET k1 rp RTS_SIGNALED then Some k1
        else do {
          k2 \<leftarrow> RTS_SET rp (RTS_SIGNALED OR RTS_SIG_PENDING) k1;
          (c, k3) \<leftarrow> send_sig sig_mgr SIGKSIG k2;
          if c \<noteq> OK then None else Some k3
        }
      })"

partial_function (option) cause_sig ::
  "(signal \<Rightarrow> bool) \<Rightarrow> int \<Rightarrow> signal \<Rightarrow> kernel \<Rightarrow> kernel option" where
  "cause_sig lethal rp sig_nr k =
     (case p_priv (procs k rp) of
        None \<Rightarrow> None
      | Some i \<Rightarrow>
          (let e = p_endpoint (procs k rp);
               sig_mgr = (if s_sig_mgr (privs k i) = SELF then e else s_sig_mgr (privs k i))
           in if e = sig_mgr then
                if lethal sig_nr then
                  (let bak = s_bak_sig_mgr (privs k i)
                   in if bak = NONE then None
                      else
                        (case isokendpt k bak of
                           None \<Rightarrow> None
                         | Some sig_mgr_rp \<Rightarrow>
                             (case RTS_UNSET sig_mgr_rp RTS_NO_PRIV
                                (upd_priv i (\<lambda>pr. pr\<lparr>s_sig_mgr := bak, s_bak_sig_mgr := NONE\<rparr>) k) of
                                None \<Rightarrow> None
                              | Some k1 \<Rightarrow> cause_sig lethal rp sig_nr k1)))
                else
                  (case send_sig e SIGKSIGSM
                     (upd_priv i (\<lambda>pr. pr\<lparr>s_sig_pending := insert sig_nr (s_sig_pending pr)\<rparr>) k) of
                     None \<Rightarrow> None
                   | Some (c, k1) \<Rightarrow> if c \<noteq> OK then None else Some k1)
              else cause_sig_other rp sig_mgr sig_nr k))"

definition sig_delay_done :: "(signal \<Rightarrow> bool) \<Rightarrow> int \<Rightarrow> kernel \<Rightarrow> kernel option" where
  "sig_delay_done lethal rp k = cause_sig lethal rp SIGSNDELAY (clear_misc rp MF_SIG_DELAY k)"

section \<open>Deadlock check\<close>

partial_function (option) deadlock_from ::
  "kernel \<Rightarrow> int \<Rightarrow> int \<Rightarrow> int \<Rightarrow> nat \<Rightarrow> nat option" where
  "deadlock_from k func cp src_dst_e group_size =
     (if src_dst_e = ANY then Some 0
      else
        (case isokendpt k src_dst_e of
           None \<Rightarrow> None
         | Some xp \<Rightarrow>
             if \<not> proc_ptr_ok k xp \<or> RTS_ISSET k xp RTS_SLOT_FREE then None
             else
               (let group_size' = Suc group_size; next_e = P_BLOCKEDON k xp
                in if next_e = NONE then Some 0
                   else if next_e = p_endpoint (procs k cp) then
                     (if group_size' = 2 \<and>
                         has (p_rts_flags (procs k xp) XOR push_bit 2 (word_of_int func)) RTS_SENDING
                      then Some 0 else Some group_size')
                   else deadlock_from k func cp next_e group_size')))"

definition deadlock :: "kernel \<Rightarrow> int \<Rightarrow> int \<Rightarrow> int \<Rightarrow> nat option" where
  "deadlock k func cp src_dst_e = deadlock_from k func cp src_dst_e 1"

section \<open>Synchronous send\<close>

text \<open>The message argument: an address in the caller's memory, or a message of the kernel.\<close>

datatype msg_ptr = User_Ptr nat | Kernel_Msg message

text \<open>\<open>xpp\<close> of the caller queues: the head \<open>p_caller_q\<close> of \<open>dst\<close>, or the link of a queued process.\<close>

definition caller_xpp :: "kernel \<Rightarrow> int \<Rightarrow> int option \<Rightarrow> int option" where
  "caller_xpp k dst prev =
     (case prev of None \<Rightarrow> p_caller_q (procs k dst) | Some x \<Rightarrow> p_q_link (procs k x))"

definition set_caller_xpp :: "int \<Rightarrow> int option \<Rightarrow> int option \<Rightarrow> kernel \<Rightarrow> kernel" where
  "set_caller_xpp dst prev v =
     (case prev of
        None \<Rightarrow> upd_proc dst (\<lambda>r. r\<lparr>p_caller_q := v\<rparr>)
      | Some x \<Rightarrow> upd_proc x (\<lambda>r. r\<lparr>p_q_link := v\<rparr>))"

partial_function (option) caller_q_append ::
  "kernel \<Rightarrow> int \<Rightarrow> int \<Rightarrow> int option \<Rightarrow> kernel option" where
  "caller_q_append k dst caller prev =
     (case caller_xpp k dst prev of
        None \<Rightarrow> Some (set_caller_xpp dst prev (Some caller) k)
      | Some x \<Rightarrow> caller_q_append k dst caller (Some x))"

definition send_direct ::
  "int \<Rightarrow> int \<Rightarrow> message \<Rightarrow> 32 word \<Rightarrow> kernel \<Rightarrow> (code \<times> kernel) option" where
  "send_direct caller_ptr dst_ptr m flgs k = do {
     let k1 = (if has flgs FROM_KERNEL then IPC_STATUS_ADD_FROM_KERNEL dst_ptr k else k);
     let k2 = deliver dst_ptr m (p_endpoint (procs k1 caller_ptr)) k1;
     let call = (if has (misc k2 caller_ptr) MF_REPLY_PEND then SENDREC
                 else if has flgs NON_BLOCKING then SENDNB else SEND);
     let k3 = IPC_STATUS_ADD_CALL dst_ptr call k2;
     let k4 = (if has (misc k3 dst_ptr) MF_REPLY_PEND then clear_misc dst_ptr MF_REPLY_PEND k3 else k3);
     k5 \<leftarrow> RTS_UNSET dst_ptr RTS_RECEIVING k4;
     Some (OK, k5)
   }"

definition send_block ::
  "int \<Rightarrow> int \<Rightarrow> int \<Rightarrow> message \<Rightarrow> 32 word \<Rightarrow> kernel \<Rightarrow> (code \<times> kernel) option" where
  "send_block caller_ptr dst_ptr dst_e m flgs k = do {
     let k1 = upd_proc caller_ptr (\<lambda>r. r\<lparr>p_sendmsg := m\<rparr>) k;
     let k2 = (if has flgs FROM_KERNEL then set_misc caller_ptr MF_SENDING_FROM_KERNEL k1 else k1);
     k3 \<leftarrow> RTS_SET caller_ptr RTS_SENDING k2;
     let k4 = upd_proc caller_ptr (\<lambda>r. r\<lparr>p_sendto_e := dst_e\<rparr>) k3;
     if p_q_link (procs k4 caller_ptr) \<noteq> None then None
     else do {
       k5 \<leftarrow> caller_q_append k4 dst_ptr caller_ptr None;
       Some (OK, k5)
     }
   }"

text \<open>Fetching the message: \<open>Some None\<close> is a fault in the user's buffer.\<close>

definition fetch_msg :: "int \<Rightarrow> msg_ptr \<Rightarrow> 32 word \<Rightarrow> kernel \<Rightarrow> message option option" where
  "fetch_msg caller_ptr m_ptr flgs k =
     (case m_ptr of
        User_Ptr a \<Rightarrow> if has flgs FROM_KERNEL then None else Some (user_msg k caller_ptr a)
      | Kernel_Msg m \<Rightarrow> if has flgs FROM_KERNEL then Some (Some m) else None)"

definition mini_send ::
  "int \<Rightarrow> int \<Rightarrow> msg_ptr \<Rightarrow> 32 word \<Rightarrow> kernel \<Rightarrow> (code \<times> kernel) option" where
  "mini_send caller_ptr dst_e m_ptr flgs k =
     (let dst_ptr = ENDPOINT_P dst_e
      in if RTS_ISSET k dst_ptr RTS_NO_ENDPOINT then Some (EDEADSRCDST, k)
         else if WILLRECEIVE k dst_ptr (p_endpoint (procs k caller_ptr)) then
           (if has (misc k dst_ptr) MF_DELIVERMSG then None
            else do {
              r \<leftarrow> fetch_msg caller_ptr m_ptr flgs k;
              case r of
                None \<Rightarrow> Some (EFAULT, k)
              | Some m \<Rightarrow> send_direct caller_ptr dst_ptr m flgs k
            })
         else if has flgs NON_BLOCKING then Some (ENOTREADY, k)
         else do {
           d \<leftarrow> deadlock k SEND caller_ptr dst_e;
           if d \<noteq> 0 then Some (ELOCKED, k)
           else do {
             r \<leftarrow> fetch_msg caller_ptr m_ptr flgs k;
             case r of
               None \<Rightarrow> Some (EFAULT, k)
             | Some m \<Rightarrow> send_block caller_ptr dst_ptr dst_e m flgs k
           }
         })"

section \<open>Asynchronous sends\<close>

text \<open>The macros \<open>A_RETR\<close> and \<open>A_INSRT\<close>: copying one entry from and to the sender's table.\<close>

definition A_RETR :: "kernel \<Rightarrow> int \<Rightarrow> int \<Rightarrow> nat \<Rightarrow> asynmsg option" where
  "A_RETR k caller_ptr table_v i = asyn_tab k (p_endpoint (procs k caller_ptr)) table_v i"

definition A_INSRT :: "int \<Rightarrow> int \<Rightarrow> nat \<Rightarrow> asynmsg \<Rightarrow> kernel \<Rightarrow> kernel option" where
  "A_INSRT caller_ptr table_v i tabent k =
     (let e = p_endpoint (procs k caller_ptr)
      in if asyn_ro k e table_v i \<or> asyn_tab k e table_v i = None then None
         else Some (k\<lparr>asyn_tab := (asyn_tab k)(e := (asyn_tab k e)
                (table_v := (asyn_tab k e table_v)(i \<mapsto> tabent)))\<rparr>))"

definition asyn_flags_ok :: "32 word \<Rightarrow> bool" where
  "asyn_flags_ok f \<longleftrightarrow>
     \<not> has f (NOT (AMF_VALID OR AMF_DONE OR AMF_NOTIFY OR AMF_NOREPLY OR AMF_NOTIFY_ERR))"

definition asyn_wants_notify :: "32 word \<Rightarrow> code \<Rightarrow> bool" where
  "asyn_wants_notify f r \<longleftrightarrow> has f AMF_NOTIFY \<or> (r \<noteq> OK \<and> has f AMF_NOTIFY_ERR)"

definition set_asyn_pending :: "int \<Rightarrow> int \<Rightarrow> bool \<Rightarrow> kernel \<Rightarrow> kernel option" where
  "set_asyn_pending dst_ptr src_id b k = do {
     i \<leftarrow> p_priv (procs k dst_ptr);
     Some (upd_priv i (\<lambda>pr. pr\<lparr>s_asyn_pending := (s_asyn_pending pr)(src_id := b)\<rparr>) k)
   }"

text \<open>One round of the loop of \<open>try_deliver_senda\<close>; the state is (\<open>do_notify\<close>, \<open>done\<close>, kernel).\<close>

definition senda_dest :: "kernel \<Rightarrow> int \<Rightarrow> int \<Rightarrow> (code \<times> int) option" where
  "senda_dest k caller_ptr d =
     (case isokendpt k d of
        None \<Rightarrow> Some (EDEADSRCDST, 0)
      | Some dst_p \<Rightarrow>
          if iskerneln dst_p then Some (ECALLDENIED, dst_p)
          else do {
            ok \<leftarrow> may_send_to k caller_ptr dst_p;
            Some (if \<not> ok then ECALLDENIED
                  else if RTS_ISSET k dst_p RTS_NO_ENDPOINT then EDEADSRCDST else OK, dst_p)
          })"

definition senda_entry ::
  "int \<Rightarrow> int \<Rightarrow> nat \<Rightarrow> bool \<times> bool \<times> kernel \<Rightarrow> (bool \<times> bool \<times> kernel) option" where
  "senda_entry caller_ptr table_v i = (\<lambda>(do_notify, done, k).
     case A_RETR k caller_ptr table_v i of
       None \<Rightarrow> Some (do_notify, done, k)
     | Some tabent \<Rightarrow>
         let flgs = am_flags tabent
         in if flgs = 0 \<or> \<not> asyn_flags_ok flgs \<or> \<not> has flgs AMF_VALID \<or> has flgs AMF_DONE
            then Some (do_notify, done, k)
            else do {
              (r, dst_ptr) \<leftarrow> senda_dest k caller_ptr (am_dst tabent);
              let direct = (r = OK \<and> WILLRECEIVE k dst_ptr (p_endpoint (procs k caller_ptr)) \<and>
                    (\<not> has flgs AMF_NOREPLY \<or> \<not> has (misc k dst_ptr) MF_REPLY_PEND));
              if r = OK \<and> \<not> direct then do {
                pr \<leftarrow> priv_of k caller_ptr;
                k1 \<leftarrow> set_asyn_pending dst_ptr (s_id pr) True k;
                Some (do_notify, False, k1)
              }
              else do {
                k1 \<leftarrow> (if direct
                       then RTS_UNSET dst_ptr RTS_RECEIVING
                              (IPC_STATUS_ADD_CALL dst_ptr SENDA
                                 (deliver dst_ptr (am_msg tabent) (p_endpoint (procs k caller_ptr)) k))
                       else Some k);
                let tabent' = tabent\<lparr>am_result := r, am_flags := flgs OR AMF_DONE\<rparr>;
                let k2 = (case A_INSRT caller_ptr table_v i tabent' k1 of None \<Rightarrow> k1 | Some k2 \<Rightarrow> k2);
                Some (do_notify \<or> asyn_wants_notify flgs r, done, k2)
              }
            })"

fun senda_loop ::
  "int \<Rightarrow> int \<Rightarrow> nat list \<Rightarrow> bool \<times> bool \<times> kernel \<Rightarrow> (bool \<times> bool \<times> kernel) option" where
  "senda_loop caller_ptr table_v [] st = Some st"
| "senda_loop caller_ptr table_v (i # is) st =
     (case senda_entry caller_ptr table_v i st of
        None \<Rightarrow> None
      | Some st' \<Rightarrow> senda_loop caller_ptr table_v is st')"

definition set_asyntab :: "nat \<Rightarrow> int \<Rightarrow> nat \<Rightarrow> kernel \<Rightarrow> kernel" where
  "set_asyntab pi tab n = upd_priv pi (\<lambda>pr. pr\<lparr>s_asyntab := tab, s_asynsize := n\<rparr>)"

definition asyn_limit :: nat where
  "asyn_limit = nat (16 * (NR_TASKS + NR_PROCS))"

definition try_deliver_senda :: "int \<Rightarrow> int \<Rightarrow> nat \<Rightarrow> kernel \<Rightarrow> (code \<times> kernel) option" where
  "try_deliver_senda caller_ptr table n k = do {
     pi \<leftarrow> p_priv (procs k caller_ptr);
     let k1 = set_asyntab pi (- 1) 0 k;
     if n = 0 then Some (OK, k1)
     else if n > asyn_limit then Some (EDOM, k1)
     else do {
       (do_notify, done, k2) \<leftarrow> senda_loop caller_ptr table [0..<n] (False, True, k1);
       k3 \<leftarrow> (if do_notify
              then map_option snd (mini_notify ASYNCM (p_endpoint (procs k2 caller_ptr)) k2)
              else Some k2);
       Some (OK, if done then k3 else set_asyntab pi table n k3)
     }
   }"

definition mini_senda :: "int \<Rightarrow> int \<Rightarrow> nat \<Rightarrow> kernel \<Rightarrow> (code \<times> kernel) option" where
  "mini_senda caller_ptr table n k = do {
     pr \<leftarrow> priv_of k caller_ptr;
     if \<not> has (s_flags pr) SYS_PROC then Some (EPERM, k)
     else try_deliver_senda caller_ptr table n k
   }"

text \<open>
  The loop of \<open>try_one\<close>: \<open>r\<close> survives from round to round; a round ends with the next entry,
  leaves the loop (\<open>break\<close>) or the function (\<open>goto asyn_error\<close>).
\<close>

datatype asyn_exit = Next | Break | Error

definition try_one_entry ::
  "int \<Rightarrow> int \<Rightarrow> int \<Rightarrow> nat \<Rightarrow> code \<times> bool \<times> bool \<times> kernel \<Rightarrow>
     asyn_exit \<times> code \<times> bool \<times> bool \<times> kernel" where
  "try_one_entry src_ptr dst_ptr table_v i = (\<lambda>(r, do_notify, done, k).
     case A_RETR k src_ptr table_v i of
       None \<Rightarrow> (Error, EFAULT, do_notify, done, k)
     | Some tabent \<Rightarrow>
         let flgs = am_flags tabent;
             bad = \<not> asyn_flags_ok flgs \<or> \<not> has flgs AMF_VALID;
             r1 = (if bad then EINVAL else r);
             store = (\<lambda>r k. let notify = do_notify \<or> asyn_wants_notify flgs r
                       in case A_INSRT src_ptr table_v i
                                 (tabent\<lparr>am_result := r, am_flags := flgs OR AMF_DONE\<rparr>) k of
                            None \<Rightarrow> (Error, EFAULT, notify, False, k)
                          | Some k' \<Rightarrow> (Break, r, notify, False, k'))
         in if flgs = 0 \<or> (\<not> bad \<and> has flgs AMF_DONE) then (Next, r, do_notify, done, k)
            else if r1 = EINVAL then store r1 k
            else if am_dst tabent \<noteq> p_endpoint (procs k dst_ptr) then (Next, r1, do_notify, False, k)
            else if has flgs AMF_NOREPLY \<and> has (misc k dst_ptr) MF_REPLY_PEND
            then (Next, r1, do_notify, False, k)
            else store OK (deliver dst_ptr (am_msg tabent) (p_endpoint (procs k src_ptr)) k))"

fun try_one_loop ::
  "int \<Rightarrow> int \<Rightarrow> int \<Rightarrow> nat list \<Rightarrow> code \<times> bool \<times> bool \<times> kernel \<Rightarrow>
     asyn_exit \<times> code \<times> bool \<times> bool \<times> kernel" where
  "try_one_loop src_ptr dst_ptr table_v [] st = (Break, st)"
| "try_one_loop src_ptr dst_ptr table_v (i # is) st =
     (case try_one_entry src_ptr dst_ptr table_v i st of
        (Next, st') \<Rightarrow> try_one_loop src_ptr dst_ptr table_v is st'
      | (e, st') \<Rightarrow> (e, st'))"

definition try_one_finish ::
  "int \<Rightarrow> int \<Rightarrow> nat \<Rightarrow> asyn_exit \<times> code \<times> bool \<times> bool \<times> kernel \<Rightarrow> (code \<times> kernel) option" where
  "try_one_finish src_ptr dst_ptr pi = (\<lambda>(e, r, do_notify, done, k).
     if e = Error then Some (r, k)
     else do {
       k1 \<leftarrow> (if do_notify
              then map_option snd (mini_notify ASYNCM (p_endpoint (procs k src_ptr)) k)
              else Some k);
       k2 \<leftarrow> (if done then Some (set_asyntab pi (- 1) 0 k1)
              else set_asyn_pending dst_ptr (s_id (privs k1 pi)) True k1);
       Some (r, k2)
     })"

definition try_one :: "int \<Rightarrow> int \<Rightarrow> kernel \<Rightarrow> (code \<times> kernel) option" where
  "try_one src_ptr dst_ptr k = do {
     pi \<leftarrow> p_priv (procs k src_ptr);
     let privp = privs k pi;
     if \<not> has (s_flags privp) SYS_PROC then Some (EPERM, k)
     else do {
       let n = s_asynsize privp;
       let table_v = s_asyntab privp;
       k1 \<leftarrow> set_asyn_pending dst_ptr (s_id privp) False k;
       if n = 0 then Some (EAGAIN, k1)
       else do {
         ok \<leftarrow> may_send_to k1 src_ptr (p_nr (procs k1 dst_ptr));
         if \<not> ok then Some (ECALLDENIED, k1)
         else
           try_one_finish src_ptr dst_ptr pi
             (try_one_loop src_ptr dst_ptr table_v [0..<n] (EAGAIN, False, True, k1))
       }
     }
   }"

fun try_async_loop :: "int \<Rightarrow> nat list \<Rightarrow> kernel \<Rightarrow> (code \<times> kernel) option" where
  "try_async_loop caller_ptr [] k = Some (ESRCH, k)"
| "try_async_loop caller_ptr (i # is) k =
     (if s_proc_nr (privs k i) = NONE then try_async_loop caller_ptr is k
      else do {
        pr \<leftarrow> priv_of k caller_ptr;
        if \<not> s_asyn_pending pr (s_id (privs k i)) then try_async_loop caller_ptr is k
        else if has (misc k caller_ptr) MF_DELIVERMSG then None
        else do {
          (r, k1) \<leftarrow> try_one (s_proc_nr (privs k i)) caller_ptr k;
          if r = OK then Some (OK, k1) else try_async_loop caller_ptr is k1
        }
      })"

definition try_async :: "int \<Rightarrow> kernel \<Rightarrow> (code \<times> kernel) option" where
  "try_async caller_ptr k = try_async_loop caller_ptr [0..<nat NR_SYS_PROCS] k"

text \<open>\<open>cancel_async\<close>: the entries for a dead destination are marked done with an error.\<close>

definition cancel_entry ::
  "int \<Rightarrow> int \<Rightarrow> int \<Rightarrow> nat \<Rightarrow> bool \<times> bool \<times> kernel \<Rightarrow> (bool \<times> bool \<times> kernel) option" where
  "cancel_entry src_ptr dst_ptr table_v i = (\<lambda>(do_notify, done, k).
     case A_RETR k src_ptr table_v i of
       None \<Rightarrow> None
     | Some tabent \<Rightarrow>
         let flgs = am_flags tabent;
             bad = \<not> asyn_flags_ok flgs \<or> \<not> has flgs AMF_VALID;
             r = (if bad then EINVAL else EDEADSRCDST)
         in if flgs = 0 \<or> (\<not> bad \<and> has flgs AMF_DONE) then Some (do_notify, done, k)
            else if am_dst tabent \<noteq> p_endpoint (procs k dst_ptr) then Some (do_notify, False, k)
            else
              map_option (\<lambda>k'. (do_notify \<or> asyn_wants_notify flgs r, done, k'))
                (A_INSRT src_ptr table_v i
                   (tabent\<lparr>am_result := r, am_flags := flgs OR AMF_DONE\<rparr>) k))"

text \<open>The loop: the kernel at the point where an entry could not be copied (\<open>goto asyn_error\<close>),
  or the state at the end of the table.\<close>

fun cancel_loop ::
  "int \<Rightarrow> int \<Rightarrow> int \<Rightarrow> nat list \<Rightarrow> bool \<times> bool \<times> kernel \<Rightarrow> kernel + (bool \<times> bool \<times> kernel)" where
  "cancel_loop src_ptr dst_ptr table_v [] st = Inr st"
| "cancel_loop src_ptr dst_ptr table_v (i # is) st =
     (case cancel_entry src_ptr dst_ptr table_v i st of
        None \<Rightarrow> Inl (snd (snd st))
      | Some st' \<Rightarrow> cancel_loop src_ptr dst_ptr table_v is st')"

definition cancel_async :: "int \<Rightarrow> int \<Rightarrow> kernel \<Rightarrow> (code \<times> kernel) option" where
  "cancel_async src_ptr dst_ptr k = do {
     pi \<leftarrow> p_priv (procs k src_ptr);
     let privp = privs k pi;
     if \<not> has (s_flags privp) SYS_PROC then Some (EPERM, k)
     else do {
       let n = s_asynsize privp;
       let table_v = s_asyntab privp;
       k1 \<leftarrow> set_asyn_pending dst_ptr (s_id privp) False (set_asyntab pi (- 1) 0 k);
       if n = 0 then Some (EAGAIN, k1)
       else do {
         ok \<leftarrow> may_send_to k1 src_ptr (p_nr (procs k1 dst_ptr));
         if \<not> ok then Some (ECALLDENIED, k1)
         else
           (case cancel_loop src_ptr dst_ptr table_v [0..<n] (False, True, k1) of
              Inl k2 \<Rightarrow> Some (OK, k2)
            | Inr (do_notify, done, k2) \<Rightarrow> do {
                k3 \<leftarrow> (if do_notify
                       then map_option snd (mini_notify ASYNCM (p_endpoint (procs k2 src_ptr)) k2)
                       else Some k2);
                Some (OK, if done then k3 else set_asyntab pi table_v n k3)
              })
       }
     }
   }"

section \<open>Receive\<close>

text \<open>The three sources of a waiting message; the flag says whether one was delivered.\<close>

definition receive_notify :: "int \<Rightarrow> int \<Rightarrow> int \<Rightarrow> kernel \<Rightarrow> (bool \<times> kernel) option" where
  "receive_notify caller_ptr src_e src_p k =
     (if has (misc k caller_ptr) MF_REPLY_PEND then Some (False, k)
      else do {
        src_id \<leftarrow> has_pending_notify k caller_ptr src_p;
        if src_id = NULL_PRIV_ID then Some (False, k)
        else do {
          let src_proc_nr = id_to_nr k src_id;
          if src_proc_nr = NONE then None
          else do {
            k1 \<leftarrow> unset_notify_pending caller_ptr src_id k;
            let hisep = p_endpoint (procs k1 src_proc_nr);
            if has (misc k1 caller_ptr) MF_DELIVERMSG \<or> \<not> (src_e = ANY \<or> hisep = src_e) then None
            else do {
              (m, k2) \<leftarrow> BuildNotifyMessage src_proc_nr caller_ptr k1;
              Some (True, IPC_STATUS_ADD_CALL caller_ptr NOTIFY (deliver caller_ptr m hisep k2))
            }
          }
        }
      })"

definition receive_async :: "int \<Rightarrow> int \<Rightarrow> kernel \<Rightarrow> (bool \<times> kernel) option" where
  "receive_async caller_ptr src_p k = do {
     src_id \<leftarrow> has_pending_asend k caller_ptr src_p;
     if src_id = NULL_PRIV_ID then Some (False, k)
     else do {
       (r, k1) \<leftarrow> (if src_p \<noteq> ANY then try_one src_p caller_ptr k else try_async caller_ptr k);
       Some (if r = OK then (True, IPC_STATUS_ADD_CALL caller_ptr SENDA k1) else (False, k1))
     }
   }"

definition receive_from ::
  "(signal \<Rightarrow> bool) \<Rightarrow> int \<Rightarrow> int \<Rightarrow> int option \<Rightarrow> kernel \<Rightarrow> kernel option" where
  "receive_from lethal caller_ptr sender prev k =
     (if RTS_ISSET k sender RTS_SLOT_FREE \<or> RTS_ISSET k sender RTS_NO_ENDPOINT \<or>
         has (misc k caller_ptr) MF_DELIVERMSG then None
      else do {
        let k1 = deliver caller_ptr (p_sendmsg (procs k sender)) (p_endpoint (procs k sender)) k;
        k2 \<leftarrow> RTS_UNSET sender RTS_SENDING k1;
        let call = (if has (misc k2 sender) MF_REPLY_PEND then SENDREC else SEND);
        let k3 = IPC_STATUS_ADD_CALL caller_ptr call k2;
        let k4 = (if has (misc k3 sender) MF_SENDING_FROM_KERNEL
                  then clear_misc sender MF_SENDING_FROM_KERNEL (IPC_STATUS_ADD_FROM_KERNEL caller_ptr k3)
                  else k3);
        k5 \<leftarrow> (if has (misc k4 sender) MF_SIG_DELAY then sig_delay_done lethal sender k4 else Some k4);
        let k6 = set_caller_xpp caller_ptr prev (p_q_link (procs k5 sender)) k5;
        Some (upd_proc sender (\<lambda>r. r\<lparr>p_q_link := None\<rparr>) k6)
      })"

partial_function (option) receive_queue ::
  "(signal \<Rightarrow> bool) \<Rightarrow> int \<Rightarrow> int \<Rightarrow> int \<Rightarrow> int option \<Rightarrow> kernel \<Rightarrow> (bool \<times> kernel) option" where
  "receive_queue lethal caller_ptr src_e src_p prev k =
     (case caller_xpp k caller_ptr prev of
        None \<Rightarrow> Some (False, k)
      | Some sender \<Rightarrow>
          if src_e = ANY \<or> src_p = p_nr (procs k sender)
          then map_option (\<lambda>k'. (True, k')) (receive_from lethal caller_ptr sender prev k)
          else receive_queue lethal caller_ptr src_e src_p (Some sender) k)"

definition receive_block :: "int \<Rightarrow> int \<Rightarrow> 32 word \<Rightarrow> kernel \<Rightarrow> (code \<times> kernel) option" where
  "receive_block caller_ptr src_e flgs k =
     (if has flgs NON_BLOCKING then Some (ENOTREADY, k)
      else do {
        d \<leftarrow> deadlock k RECEIVE caller_ptr src_e;
        if d \<noteq> 0 then Some (ELOCKED, k)
        else do {
          k1 \<leftarrow> RTS_SET caller_ptr RTS_RECEIVING (upd_proc caller_ptr (\<lambda>r. r\<lparr>p_getfrom_e := src_e\<rparr>) k);
          Some (OK, k1)
        }
      })"

definition receive_done :: "int \<Rightarrow> kernel \<Rightarrow> (code \<times> kernel) option" where
  "receive_done caller_ptr k =
     Some (OK, if has (misc k caller_ptr) MF_REPLY_PEND then clear_misc caller_ptr MF_REPLY_PEND k else k)"

definition mini_receive ::
  "(signal \<Rightarrow> bool) \<Rightarrow> int \<Rightarrow> int \<Rightarrow> nat \<Rightarrow> 32 word \<Rightarrow> kernel \<Rightarrow> (code \<times> kernel) option" where
  "mini_receive lethal caller_ptr src_e m_buff_usr flgs k =
     (if has (misc k caller_ptr) MF_DELIVERMSG then None
      else do {
        let k0 = upd_proc caller_ptr (\<lambda>r. r\<lparr>p_delivermsg_vir := m_buff_usr\<rparr>) k;
        src_p \<leftarrow> (if src_e = ANY then Some ANY else isokendpt k0 src_e);
        if src_e \<noteq> ANY \<and> RTS_ISSET k0 src_p RTS_NO_ENDPOINT then Some (EDEADSRCDST, k0)
        else if RTS_ISSET k0 caller_ptr RTS_SENDING then receive_block caller_ptr src_e flgs k0
        else do {
          (f1, k1) \<leftarrow> receive_notify caller_ptr src_e src_p k0;
          if f1 then receive_done caller_ptr k1
          else do {
            (f2, k2) \<leftarrow> receive_async caller_ptr src_p k1;
            if f2 then receive_done caller_ptr k2
            else do {
              (f3, k3) \<leftarrow> receive_queue lethal caller_ptr src_e src_p None k2;
              if f3 then receive_done caller_ptr k3
              else receive_block caller_ptr src_e flgs k3
            }
          }
        }
      })"

section \<open>Trap entries\<close>

definition do_sync_ipc ::
  "(signal \<Rightarrow> bool) \<Rightarrow> int \<Rightarrow> int \<Rightarrow> int \<Rightarrow> nat \<Rightarrow> kernel \<Rightarrow> (code \<times> kernel) option" where
  "do_sync_ipc lethal caller_ptr call_nr src_dst_e m_ptr k =
     (if call_nr = SENDA then None
      else if call_nr < 0 \<or> call_nr > IPCNO_HIGHEST \<or> call_nr \<ge> 32 \<or> \<not> ipc_call_named call_nr
      then Some (ETRAPDENIED, k)
      else if src_dst_e = ANY \<and> call_nr \<noteq> RECEIVE then Some (EINVAL, k)
      else
        (case (if src_dst_e = ANY then Some ANY else isokendpt k src_dst_e) of
           None \<Rightarrow> Some (EDEADSRCDST, k)
         | Some src_dst_p \<Rightarrow> do {
             allowed \<leftarrow> (if src_dst_e \<noteq> ANY \<and> call_nr \<noteq> RECEIVE
                        then may_send_to k caller_ptr src_dst_p else Some True);
             if \<not> allowed then Some (ECALLDENIED, k)
             else do {
               pr \<leftarrow> priv_of k caller_ptr;
               if \<not> bit (s_trap_mask pr) (nat call_nr) then Some (ETRAPDENIED, k)
               else if call_nr \<noteq> SENDREC \<and> call_nr \<noteq> RECEIVE \<and> iskerneln src_dst_p
               then Some (ETRAPDENIED, k)
               else if call_nr = SENDREC then do {
                 (r, k1) \<leftarrow> mini_send caller_ptr src_dst_e (User_Ptr m_ptr) 0
                              (set_misc caller_ptr MF_REPLY_PEND k);
                 if r \<noteq> OK then Some (r, k1)
                 else mini_receive lethal caller_ptr src_dst_e m_ptr 0 k1
               }
               else if call_nr = SEND then mini_send caller_ptr src_dst_e (User_Ptr m_ptr) 0 k
               else if call_nr = RECEIVE then
                 mini_receive lethal caller_ptr src_dst_e m_ptr 0
                   (upd_proc caller_ptr (\<lambda>r. r\<lparr>p_ipc_status := 0\<rparr>) (clear_misc caller_ptr MF_REPLY_PEND k))
               else if call_nr = NOTIFY then mini_notify caller_ptr src_dst_e k
               else if call_nr = SENDNB then mini_send caller_ptr src_dst_e (User_Ptr m_ptr) NON_BLOCKING k
               else Some (EBADCALL, k)
             }
           }))"

text \<open>Tracing: the first entry of a traced call is put off (\<open>Inl\<close>: its result), a resumed one
  goes on (\<open>Inr\<close>).\<close>

definition do_ipc_trace ::
  "(signal \<Rightarrow> bool) \<Rightarrow> int \<Rightarrow> int \<times> int \<times> int \<Rightarrow> kernel \<Rightarrow> ((code \<times> kernel) + kernel) option" where
  "do_ipc_trace lethal caller_ptr regs k =
     (let trace = misc k caller_ptr AND (MF_SC_TRACE OR MF_SC_DEFER)
      in if trace = 0 then Some (Inr k)
         else if trace = MF_SC_TRACE then do {
           let k1 = set_misc caller_ptr MF_SC_DEFER (clear_misc caller_ptr MF_SC_TRACE k);
           let k2 = upd_proc caller_ptr (\<lambda>r. r\<lparr>p_defer := regs\<rparr>) k1;
           k3 \<leftarrow> cause_sig lethal (p_nr (procs k2 caller_ptr)) SIGTRAP k2;
           Some (Inl (p_retreg (procs k3 caller_ptr), k3))
         }
         else do {
           let k1 = clear_misc caller_ptr MF_SC_DEFER k;
           if has (misc k1 caller_ptr) MF_SC_ACTIVE then None
           else Some (Inr (set_misc caller_ptr MF_SC_ACTIVE k1))
         })"

definition do_ipc ::
  "(signal \<Rightarrow> bool) \<Rightarrow> int \<Rightarrow> int \<Rightarrow> int \<Rightarrow> kernel \<Rightarrow> (code \<times> kernel) option" where
  "do_ipc lethal r1 r2 r3 k =
     (let caller_ptr = proc_ptr k
      in if RTS_ISSET k caller_ptr RTS_SLOT_FREE then None
         else do {
           t \<leftarrow> do_ipc_trace lethal caller_ptr (r1, r2, r3) (k\<lparr>kbill_ipc := caller_ptr\<rparr>);
           case t of
             Inl res \<Rightarrow> Some res
           | Inr k1 \<Rightarrow>
               if has (misc k1 caller_ptr) MF_DELIVERMSG then None
               else if r1 \<in> {SENDREC, SEND, RECEIVE, NOTIFY, SENDNB} then
                 do_sync_ipc lethal caller_ptr r1 r2 (nat (r3 mod 4294967296))
                   (upd_proc caller_ptr (\<lambda>r. r\<lparr>p_accounting := (p_accounting r)
                      \<lparr>ipc_sync := ipc_sync (p_accounting r) + 1\<rparr>\<rparr>) k1)
               else if r1 = SENDA then
                 (let k2 = upd_proc caller_ptr (\<lambda>r. r\<lparr>p_accounting := (p_accounting r)
                             \<lparr>ipc_async := ipc_async (p_accounting r) + 1\<rparr>\<rparr>) k1
                  in if nat (r2 mod 4294967296) > asyn_limit then Some (EDOM, k2)
                     else mini_senda caller_ptr r3 (nat (r2 mod 4294967296)) k2)
               else if r1 = MINIX_KERNINFO then
                 (if minix_kerninfo_user k1 = 0 then Some (EBADCALL, k1)
                  else Some (OK, upd_proc caller_ptr
                         (\<lambda>r. r\<lparr>p_ipc_return2 := minix_kerninfo_user k1\<rparr>) k1))
               else Some (EBADCALL, k1)
         })"

text \<open>\<open>delivermsg\<close> (\<^verbatim>\<open>arch/i386/memory.c\<close>): copy the message out before the process runs again.\<close>

definition delivermsg :: "(signal \<Rightarrow> bool) \<Rightarrow> int \<Rightarrow> kernel \<Rightarrow> kernel option" where
  "delivermsg lethal rp k =
     (if \<not> has (misc k rp) MF_DELIVERMSG \<or> m_source (p_delivermsg (procs k rp)) = NONE then None
      else do {
        let a = p_delivermsg_vir (procs k rp);
        (r, k1) \<leftarrow>
          (if user_msg k rp a = None
           then map_option (\<lambda>k'. (EFAULT, k')) (cause_sig lethal (p_nr (procs k rp)) SIGSEGV k)
           else Some (OK, k\<lparr>user_msg := (user_msg k)(rp := (user_msg k rp)
                        (a \<mapsto> p_delivermsg (procs k rp)))\<rparr>));
        let k2 = clear_misc rp MF_DELIVERMSG
                   (upd_proc rp (\<lambda>p. p\<lparr>p_delivermsg := (p_delivermsg p)\<lparr>m_source := NONE\<rparr>\<rparr>) k1);
        Some (if has (misc k2 rp) MF_CONTEXT_SET then k2
              else upd_proc rp (\<lambda>p. p\<lparr>p_retreg := r\<rparr>) k2)
      })"

section \<open>Out of quantum\<close>

definition SCHEDULING_NO_QUANTUM :: int where "SCHEDULING_NO_QUANTUM = 0xF01"

text \<open>\<open>load\<close> is the value of \<open>cpu_load()\<close>.\<close>

definition notify_scheduler :: "nat \<Rightarrow> int \<Rightarrow> kernel \<Rightarrow> kernel option" where
  "notify_scheduler load p k =
     (if proc_kernel_scheduler k p then None
      else do {
        k1 \<leftarrow> RTS_SET p RTS_NO_QUANTUM k;
        let acc = p_accounting (procs k1 p);
        let m = \<lparr>m_source = p_endpoint (procs k1 p), m_type = SCHEDULING_NO_QUANTUM,
                 m_body = No_Quantum_Payload (unat (time_in_queue acc) div tsc_per_ms k1)
                   (unat (dequeues acc)) (unat (ipc_sync acc)) (unat (ipc_async acc))
                   (unat (preempted acc)) load\<rparr>;
        let k2 = reset_proc_accounting p k1;
        s \<leftarrow> p_scheduler (procs k2 p);
        (err, k3) \<leftarrow> mini_send p (p_endpoint (procs k2 s)) (Kernel_Msg m) FROM_KERNEL k2;
        if err \<noteq> OK then None else Some k3
      })"

definition proc_no_time :: "nat \<Rightarrow> int \<Rightarrow> kernel \<Rightarrow> kernel option" where
  "proc_no_time load p k = do {
     preemptible \<leftarrow> (if proc_kernel_scheduler k p then Some False
                     else map_option (\<lambda>pr. has (s_flags pr) PREEMPTIBLE) (priv_of k p));
     if preemptible then notify_scheduler load p k
     else Some (upd_proc p (\<lambda>r. r\<lparr>p_cpu_time_left := tsc_per_ms k * p_quantum_size_ms r\<rparr>) k)
   }"

section \<open>The invariant of the kernel\<close>

text \<open>
  Besides the scheduling invariant: the links of the caller queues, the scheduler, the process
  number and the slot of the endpoint of each process stay within the process table.
\<close>

definition well_linked :: "proc \<Rightarrow> bool" where
  "well_linked r \<longleftrightarrow>
     is_proc (p_nr r) \<and> (\<forall>x. p_caller_q r = Some x \<longrightarrow> is_proc x) \<and> (\<forall>x. p_q_link r = Some x \<longrightarrow> is_proc x) \<and>
     is_proc (ENDPOINT_P (p_endpoint r)) \<and> (\<forall>x. p_scheduler r = Some x \<longrightarrow> is_proc x)"

lemma well_linked_upd [simp]:
  "well_linked (r\<lparr>p_priority := x\<rparr>) = well_linked r" "well_linked (r\<lparr>p_priv := y\<rparr>) = well_linked r"
  by (simp_all add: well_linked_def)

definition links_ok :: "kernel \<Rightarrow> bool" where
  "links_ok k \<longleftrightarrow> (\<forall>p. is_proc p \<longrightarrow> well_linked (procs k p))"

definition kernel_ok :: "kernel \<Rightarrow> bool" where
  "kernel_ok k \<longleftrightarrow> (\<exists>L. sched_inv L k) \<and> links_ok k"

text \<open>Updates of a process that concern neither its scheduling nor its links.\<close>

definition mild :: "(proc \<Rightarrow> proc) \<Rightarrow> bool" where
  "mild f \<longleftrightarrow> (\<forall>r. p_nextready (f r) = p_nextready r \<and> p_rts_flags (f r) = p_rts_flags r \<and>
     p_priority (f r) = p_priority r \<and> p_tickets (f r) = p_tickets r \<and> p_priv (f r) = p_priv r \<and>
     p_magic (f r) = p_magic r \<and> p_nr (f r) = p_nr r \<and> p_caller_q (f r) = p_caller_q r \<and>
     p_q_link (f r) = p_q_link r \<and> p_endpoint (f r) = p_endpoint r \<and> p_scheduler (f r) = p_scheduler r)"

named_theorems keeps \<open>operations that keep the invariant of the kernel\<close>

lemma sched_inv_cong:
  assumes "sched_inv L k"
    and "\<And>p. p_nextready (procs k' p) = p_nextready (procs k p) \<and> p_rts_flags (procs k' p) = p_rts_flags (procs k p) \<and>
      p_priority (procs k' p) = p_priority (procs k p) \<and> p_tickets (procs k' p) = p_tickets (procs k p) \<and>
      p_priv (procs k' p) = p_priv (procs k p) \<and> p_magic (procs k' p) = p_magic (procs k p)"
    and "run_q_head k' = run_q_head k" "run_q_tail k' = run_q_tail k" "total_tickets k' = total_tickets k"
    and "proc_ptr k' = proc_ptr k" "\<And>i. s_stack_guard (privs k' i) = s_stack_guard (privs k i)"
  shows "sched_inv L k'"
proof -
  have wfp: "wf_proc k' p = wf_proc k p" for p
    using assms(2) [of p] assms(7)
    by (cases "p_priv (procs k p)") (simp_all add: wf_proc_def proc_ptr_ok_def queue_index_def priv_of_def Let_def)
  have run: "runnables k' = runnables k" using assms(2) by (simp add: runnables_def proc_is_runnable_def)
  have hold: "wf_kernel k" "run_queues L k" "queued L = runnables k" "runnables k \<subseteq> Collect is_proc"
      "total_tickets k = ticket_sum L k"
    using assms(1) by (auto simp: sched_inv_def queues_hold_def)
  have "run_queues L k'" by (rule run_queues_cong [OF hold(2) assms(3,4)]) (simp add: next_of_def assms(2))
  moreover have "wf_kernel k'" using hold(1) wfp assms(6) by (simp add: wf_kernel_def)
  moreover have "ticket_sum L k' = ticket_sum L k" using assms(2) by (simp add: ticket_sum_def)
  ultimately show ?thesis
    using hold(3,4,5) assms(5) by (simp add: sched_inv_def queues_hold_def run)
qed

lemma kernel_ok_cong:
  assumes "kernel_ok k"
    and "\<And>p. p_nextready (procs k' p) = p_nextready (procs k p) \<and> p_rts_flags (procs k' p) = p_rts_flags (procs k p) \<and>
      p_priority (procs k' p) = p_priority (procs k p) \<and> p_tickets (procs k' p) = p_tickets (procs k p) \<and>
      p_priv (procs k' p) = p_priv (procs k p) \<and> p_magic (procs k' p) = p_magic (procs k p) \<and>
      p_nr (procs k' p) = p_nr (procs k p) \<and> p_caller_q (procs k' p) = p_caller_q (procs k p) \<and>
      p_q_link (procs k' p) = p_q_link (procs k p) \<and> p_endpoint (procs k' p) = p_endpoint (procs k p) \<and>
      p_scheduler (procs k' p) = p_scheduler (procs k p)"
    and "run_q_head k' = run_q_head k" "run_q_tail k' = run_q_tail k" "total_tickets k' = total_tickets k"
    and "proc_ptr k' = proc_ptr k" "\<And>i. s_stack_guard (privs k' i) = s_stack_guard (privs k i)"
  shows "kernel_ok k'"
proof -
  obtain L where "sched_inv L k" using assms(1) by (auto simp: kernel_ok_def)
  then have "sched_inv L k'"
    by (rule sched_inv_cong [OF _ _ assms(3-7)]) (use assms(2) in blast)
  moreover have "links_ok k'"
  proof -
    have "links_ok k' = links_ok k"
      unfolding links_ok_def well_linked_def using assms(2) by simp
    then show ?thesis using assms(1) by (simp add: kernel_ok_def)
  qed
  ultimately show ?thesis by (auto simp: kernel_ok_def)
qed

lemma kernel_ok_upd_proc [keeps]: "mild f \<Longrightarrow> kernel_ok k \<Longrightarrow> kernel_ok (upd_proc p f k)"
  by (rule kernel_ok_cong) (simp_all add: mild_def)

lemma kernel_ok_upd_priv [keeps]:
  "(\<And>pr. s_stack_guard (g pr) = s_stack_guard pr) \<Longrightarrow> kernel_ok k \<Longrightarrow> kernel_ok (upd_priv i g k)"
  by (rule kernel_ok_cong [of k]) (simp_all add: fun_upd_def)

lemma kernel_ok_fields [keeps]:
  "kernel_ok k \<Longrightarrow> kernel_ok (k\<lparr>user_msg := u\<rparr>)" "kernel_ok k \<Longrightarrow> kernel_ok (k\<lparr>asyn_tab := a\<rparr>)"
  "kernel_ok k \<Longrightarrow> kernel_ok (k\<lparr>kbill_ipc := b\<rparr>)" "kernel_ok k \<Longrightarrow> kernel_ok (k\<lparr>bill_ptr := c\<rparr>)"
  by (erule kernel_ok_cong; simp)+

lemma mild_intros [simp]:
  "mild (\<lambda>r. r\<lparr>p_misc_flags := m r\<rparr>)" "mild (\<lambda>r. r\<lparr>p_ipc_status := w r\<rparr>)"
  "mild (\<lambda>r. r\<lparr>p_delivermsg := d r\<rparr>)" "mild (\<lambda>r. r\<lparr>p_sendmsg := s r\<rparr>)"
  "mild (\<lambda>r. r\<lparr>p_signal_received := n r\<rparr>)" "mild (\<lambda>r. r\<lparr>p_sendto_e := e r\<rparr>)"
  "mild (\<lambda>r. r\<lparr>p_getfrom_e := g r\<rparr>)" "mild (\<lambda>r. r\<lparr>p_delivermsg_vir := v r\<rparr>)"
  "mild (\<lambda>r. r\<lparr>p_pending := P r, p_signal_received := n r\<rparr>)" "mild (\<lambda>r. r\<lparr>p_accounting := a r\<rparr>)"
  "mild (\<lambda>r. r\<lparr>p_defer := x r\<rparr>)" "mild (\<lambda>r. r\<lparr>p_retreg := c r\<rparr>)"
  "mild (\<lambda>r. r\<lparr>p_ipc_return2 := n r\<rparr>)" "mild (\<lambda>r. r\<lparr>p_cpu_time_left := n r\<rparr>)"
  by (simp_all add: mild_def)

lemma links_ok_frame: "sched_frame k k' \<Longrightarrow> links_ok k' = links_ok k"
proof -
  assume fr: "sched_frame k k'"
  have "p_nr (procs k' p) = p_nr (procs k p)" for p using sched_frame_proc [OF fr, of p] by auto
  then show ?thesis by (simp add: links_ok_def well_linked_def sched_frame_fields [OF fr])
qed

lemma kernel_ok_RTS_SET:
  assumes "kernel_ok k" "is_proc p" "f \<noteq> 0"
  shows "\<exists>k'. RTS_SET p f k = Some k' \<and> kernel_ok k' \<and> sched_frame k k' \<and>
    (\<forall>x. p_rts_flags (procs k' x) = (if x = p then p_rts_flags (procs k x) OR f else p_rts_flags (procs k x)))"
proof -
  obtain L where L: "sched_inv L k" "links_ok k" using assms(1) by (auto simp: kernel_ok_def)
  from RTS_SET_inv [OF L(1) assms(2,3)] show ?thesis using L(2) links_ok_frame
    by (auto simp: kernel_ok_def)
qed

lemma kernel_ok_RTS_UNSET:
  assumes "kernel_ok k" "is_proc p"
  shows "\<exists>k'. RTS_UNSET p f k = Some k' \<and> kernel_ok k' \<and> sched_frame k k' \<and>
    p_rts_flags (procs k' p) = p_rts_flags (procs k p) AND NOT f \<and>
    (\<forall>x. x \<noteq> p \<longrightarrow> x \<noteq> proc_ptr k \<longrightarrow> p_rts_flags (procs k' x) = p_rts_flags (procs k x))"
proof -
  obtain L where L: "sched_inv L k" "links_ok k" using assms(1) by (auto simp: kernel_ok_def)
  from RTS_UNSET_inv [OF L(1) assms(2), of f] show ?thesis using L(2) links_ok_frame
    unfolding kernel_ok_def by blast
qed

lemma RTS_SET_keeps [keeps]: "RTS_SET p f k = Some k' \<Longrightarrow> kernel_ok k \<Longrightarrow> is_proc p \<Longrightarrow> f \<noteq> 0 \<Longrightarrow> kernel_ok k'"
  using kernel_ok_RTS_SET [of k p f] by auto

lemma RTS_UNSET_keeps [keeps]: "RTS_UNSET p f k = Some k' \<Longrightarrow> kernel_ok k \<Longrightarrow> is_proc p \<Longrightarrow> kernel_ok k'"
  using kernel_ok_RTS_UNSET [of k p f] by auto

lemma isokendpt_is_proc: "isokendpt k e = Some p \<Longrightarrow> is_proc p"
  by (auto simp: isokendpt_def is_proc_def Let_def split: if_splits)

lemma kernel_ok_links:
  assumes "kernel_ok k" "is_proc p"
  shows "is_proc (p_nr (procs k p))" "p_caller_q (procs k p) = Some x \<Longrightarrow> is_proc x"
    "p_q_link (procs k p) = Some x \<Longrightarrow> is_proc x" "is_proc (ENDPOINT_P (p_endpoint (procs k p)))"
    "p_scheduler (procs k p) = Some x \<Longrightarrow> is_proc x" "well_linked (procs k p)"
  using assms unfolding kernel_ok_def links_ok_def well_linked_def by blast+

lemma kernel_ok_upd_links:
  assumes ok: "kernel_ok k"
    and f: "\<And>r. p_nextready (f r) = p_nextready r \<and> p_rts_flags (f r) = p_rts_flags r \<and> p_priority (f r) = p_priority r \<and>
      p_tickets (f r) = p_tickets r \<and> p_priv (f r) = p_priv r \<and> p_magic (f r) = p_magic r"
    and links: "\<And>r. well_linked r \<Longrightarrow> well_linked (f r)"
  shows "kernel_ok (upd_proc p f k)"
proof -
  obtain L where L: "sched_inv L k" "links_ok k" using ok by (auto simp: kernel_ok_def)
  have "sched_inv L (upd_proc p f k)" by (rule sched_inv_cong [OF L(1)]) (simp_all add: f)
  moreover have "links_ok (upd_proc p f k)" using L(2) links by (simp add: links_ok_def)
  ultimately show ?thesis by (auto simp: kernel_ok_def)
qed

lemma kernel_ok_caller_links [keeps]:
  assumes "kernel_ok k" "\<And>x. v = Some x \<Longrightarrow> is_proc x"
  shows "kernel_ok (upd_proc p (\<lambda>r. r\<lparr>p_caller_q := v\<rparr>) k)" "kernel_ok (upd_proc p (\<lambda>r. r\<lparr>p_q_link := v\<rparr>) k)"
    "kernel_ok (upd_proc p (\<lambda>r. r\<lparr>p_scheduler := v\<rparr>) k)"
  by (rule kernel_ok_upd_links [OF assms(1)]; use assms(2) in \<open>simp add: well_linked_def\<close>)+

lemma status_keeps [keeps]:
  assumes "kernel_ok k"
  shows "kernel_ok (IPC_STATUS_ADD p m k)" "kernel_ok (IPC_STATUS_ADD_CALL p c k)"
    "kernel_ok (IPC_STATUS_ADD_FROM_KERNEL p k)" "kernel_ok (set_misc p f k)"
    "kernel_ok (clear_misc p f k)" "kernel_ok (deliver p msg e k)"
  using assms unfolding IPC_STATUS_ADD_CALL_def IPC_STATUS_ADD_FROM_KERNEL_def IPC_STATUS_ADD_def
    deliver_def set_misc_def clear_misc_def
  by (auto intro!: kernel_ok_upd_proc)

lemma unset_notify_pending_keeps [keeps]:
  "unset_notify_pending p i k = Some k' \<Longrightarrow> kernel_ok k \<Longrightarrow> kernel_ok k'"
  by (auto simp: unset_notify_pending_def bind_eq_Some_conv intro!: kernel_ok_upd_priv)

lemma set_asyn_pending_keeps [keeps]:
  "set_asyn_pending p i b k = Some k' \<Longrightarrow> kernel_ok k \<Longrightarrow> kernel_ok k'"
  by (auto simp: set_asyn_pending_def bind_eq_Some_conv intro!: kernel_ok_upd_priv)

lemma set_asyntab_keeps [keeps]: "kernel_ok k \<Longrightarrow> kernel_ok (set_asyntab i t n k)"
  by (auto simp: set_asyntab_def intro!: kernel_ok_upd_priv)

lemma A_INSRT_keeps [keeps]: "A_INSRT c t i e k = Some k' \<Longrightarrow> kernel_ok k \<Longrightarrow> kernel_ok k'"
  by (auto simp: A_INSRT_def Let_def intro!: kernel_ok_fields split: if_splits)

lemma BuildNotifyMessage_keeps [keeps]:
  "BuildNotifyMessage s p k = Some (m, k') \<Longrightarrow> kernel_ok k \<Longrightarrow> kernel_ok k'"
  by (auto simp: BuildNotifyMessage_def Let_def bind_eq_Some_conv intro!: kernel_ok_upd_priv split: if_splits)

lemma mini_notify_keeps [keeps]:
  assumes "mini_notify c e k = Some (r, k')" "kernel_ok k"
  shows "kernel_ok k'"
  using assms
  by (auto simp: mini_notify_def Let_def bind_eq_Some_conv split: option.splits if_splits
      intro!: kernel_ok_upd_priv status_keeps isokendpt_is_proc
      elim!: RTS_UNSET_keeps BuildNotifyMessage_keeps)

lemma send_sig_keeps [keeps]:
  assumes "send_sig e s k = Some (r, k')" "kernel_ok k"
  shows "kernel_ok k'"
  using assms
  by (auto simp: send_sig_def Let_def bind_eq_Some_conv split: option.splits if_splits
      intro!: kernel_ok_upd_priv kernel_ok_upd_proc elim!: mini_notify_keeps)

lemma cause_sig_other_keeps:
  assumes "cause_sig_other p m s k = Some k'" "kernel_ok k" "is_proc p"
  shows "kernel_ok k'"
proof (cases "s \<in> p_pending (procs k p)")
  case True
  then show ?thesis using assms by (simp add: cause_sig_other_def)
next
  case False
  define k1 where "k1 = upd_proc p (\<lambda>r. r\<lparr>p_pending := insert s (p_pending r),
      p_signal_received := p_signal_received r + 1\<rparr>) k"
  have ok1: "kernel_ok k1" unfolding k1_def by (rule kernel_ok_upd_proc [OF _ assms(2)]) simp
  have nz: "RTS_SIGNALED OR RTS_SIG_PENDING \<noteq> 0" by simp
  show ?thesis
  proof (cases "RTS_ISSET k1 p RTS_SIGNALED")
    case True
    then show ?thesis using assms(1) False ok1 by (simp add: cause_sig_other_def Let_def k1_def)
  next
    case notset: False
    from assms(1) False have "(if RTS_ISSET k1 p RTS_SIGNALED then Some k1
        else do { k2 \<leftarrow> RTS_SET p (RTS_SIGNALED OR RTS_SIG_PENDING) k1;
                  (c, k3) \<leftarrow> send_sig m SIGKSIG k2;
                  if c \<noteq> OK then None else Some k3 }) = Some k'"
      unfolding cause_sig_other_def Let_def k1_def [symmetric] by simp
    with notset obtain k2 c where "RTS_SET p (RTS_SIGNALED OR RTS_SIG_PENDING) k1 = Some k2"
        "send_sig m SIGKSIG k2 = Some (c, k')"
      by (auto simp: bind_eq_Some_conv split: if_splits)
    then show ?thesis using RTS_SET_keeps [OF _ ok1 assms(3) nz] send_sig_keeps by blast
  qed
qed

lemma cause_sig_keeps:
  assumes "cause_sig lethal p s k = Some k'" "kernel_ok k" "is_proc p"
  shows "kernel_ok k'"
proof -
  have "kernel_ok k \<longrightarrow> is_proc p \<longrightarrow> kernel_ok k'"
  proof (rule cause_sig.raw_induct [where P = "\<lambda>lethal p s k k'. kernel_ok k \<longrightarrow> is_proc p \<longrightarrow> kernel_ok k'",
        OF _ assms(1)], intro impI)
    fix cs :: "(signal \<Rightarrow> bool) \<Rightarrow> int \<Rightarrow> signal \<Rightarrow> kernel \<Rightarrow> kernel option"
      and lethal p s k k'
    assume IH: "\<And>lethal p s k k'. cs lethal p s k = Some k' \<Longrightarrow> kernel_ok k \<longrightarrow> is_proc p \<longrightarrow> kernel_ok k'"
      and body: "(case p_priv (procs k p) of
        None \<Rightarrow> None
      | Some i \<Rightarrow>
          (let e = p_endpoint (procs k p);
               sig_mgr = (if s_sig_mgr (privs k i) = SELF then e else s_sig_mgr (privs k i))
           in if e = sig_mgr then
                if lethal s then
                  (let bak = s_bak_sig_mgr (privs k i)
                   in if bak = NONE then None
                      else
                        (case isokendpt k bak of
                           None \<Rightarrow> None
                         | Some sig_mgr_rp \<Rightarrow>
                             (case RTS_UNSET sig_mgr_rp RTS_NO_PRIV
                                (upd_priv i (\<lambda>pr. pr\<lparr>s_sig_mgr := bak, s_bak_sig_mgr := NONE\<rparr>) k) of
                                None \<Rightarrow> None
                              | Some k1 \<Rightarrow> cs lethal p s k1)))
                else
                  (case send_sig e SIGKSIGSM
                     (upd_priv i (\<lambda>pr. pr\<lparr>s_sig_pending := insert s (s_sig_pending pr)\<rparr>) k) of
                     None \<Rightarrow> None
                   | Some (c, k1) \<Rightarrow> if c \<noteq> OK then None else Some k1)
              else cause_sig_other p sig_mgr s k)) = Some k'"
      and ok: "kernel_ok k" and ip: "is_proc p"
    have up: "kernel_ok (upd_priv i (\<lambda>pr. pr\<lparr>s_sig_mgr := b, s_bak_sig_mgr := NONE\<rparr>) k)"
      "kernel_ok (upd_priv i (\<lambda>pr. pr\<lparr>s_sig_pending := insert s (s_sig_pending pr)\<rparr>) k)" for b i
      by (rule kernel_ok_upd_priv [OF _ ok], simp)+
    have again: "kernel_ok k''"
      if "cs lethal p s k1 = Some k''" "RTS_UNSET q f k0 = Some k1" "kernel_ok k0" "isokendpt k b = Some q"
      for k'' k1 q f k0 b
      using IH [OF that(1)] RTS_UNSET_keeps [OF that(2,3) isokendpt_is_proc [OF that(4)]] ip by blast
    have direct: "kernel_ok k''"
      if "send_sig e SIGKSIGSM (upd_priv i (\<lambda>pr. pr\<lparr>s_sig_pending := insert s (s_sig_pending pr)\<rparr>) k) =
        Some (c, k'')" for e i c k''
      by (rule send_sig_keeps [OF that up(2)])
    show "kernel_ok k'"
      using body up(1) ok ip
      by (auto simp: Let_def split: option.splits if_splits
          elim: cause_sig_other_keeps direct again)
  qed
  then show ?thesis using assms by blast
qed

lemma sig_delay_done_keeps:
  "sig_delay_done lethal p k = Some k' \<Longrightarrow> kernel_ok k \<Longrightarrow> is_proc p \<Longrightarrow> kernel_ok k'"
  unfolding sig_delay_done_def by (blast intro: cause_sig_keeps status_keeps)

lemma set_caller_xpp_keeps:
  assumes "kernel_ok k" "\<And>x. v = Some x \<Longrightarrow> is_proc x"
  shows "kernel_ok (set_caller_xpp d prev v k)"
  using kernel_ok_caller_links [OF assms] by (cases prev) (simp_all add: set_caller_xpp_def)

lemma caller_q_append_keeps:
  assumes "caller_q_append k d c prev = Some k'" "kernel_ok k" "is_proc c"
  shows "kernel_ok k'"
proof -
  have "kernel_ok k \<longrightarrow> is_proc c \<longrightarrow> kernel_ok k'"
    by (rule caller_q_append.raw_induct [where P = "\<lambda>k d c prev k'. kernel_ok k \<longrightarrow> is_proc c \<longrightarrow> kernel_ok k'",
          OF _ assms(1)])
      (auto split: option.splits intro: set_caller_xpp_keeps)
  then show ?thesis using assms by blast
qed

lemma send_direct_keeps:
  assumes "send_direct c d m f k = Some (r, k')" "kernel_ok k" "is_proc d"
  shows "kernel_ok k'"
  using assms
  by (auto simp: send_direct_def Let_def bind_eq_Some_conv intro!: status_keeps
      elim!: RTS_UNSET_keeps split: if_splits)

lemma send_block_keeps:
  assumes "send_block c d e m f k = Some (r, k')" "kernel_ok k" "is_proc c"
  shows "kernel_ok k'"
proof -
  define k1 where "k1 = upd_proc c (\<lambda>r. r\<lparr>p_sendmsg := m\<rparr>) k"
  define k2 where "k2 = (if has f FROM_KERNEL then set_misc c MF_SENDING_FROM_KERNEL k1 else k1)"
  have ok2: "kernel_ok k2" using assms(2) by (auto simp: k2_def k1_def intro!: status_keeps kernel_ok_upd_proc)
  from assms(1) obtain k3 where k3: "RTS_SET c RTS_SENDING k2 = Some k3"
      "caller_q_append (upd_proc c (\<lambda>r. r\<lparr>p_sendto_e := e\<rparr>) k3) d c None = Some k'"
    unfolding send_block_def Let_def k1_def [symmetric] k2_def [symmetric]
    by (auto simp: bind_eq_Some_conv split: if_splits)
  have "kernel_ok k3" by (rule RTS_SET_keeps [OF k3(1) ok2 assms(3)]) simp
  then have "kernel_ok (upd_proc c (\<lambda>r. r\<lparr>p_sendto_e := e\<rparr>) k3)" by (intro kernel_ok_upd_proc) simp_all
  then show ?thesis by (rule caller_q_append_keeps [OF k3(2) _ assms(3)])
qed

lemma mini_send_keeps:
  assumes "mini_send c e m f k = Some (r, k')" "kernel_ok k" "is_proc c" "is_proc (ENDPOINT_P e)"
  shows "kernel_ok k'"
  using assms
  by (auto simp: mini_send_def Let_def bind_eq_Some_conv split: if_splits option.splits
      elim: send_direct_keeps send_block_keeps)

lemma senda_entry_keeps:
  assumes "senda_entry c t i (n, d, k) = Some (n', d', k')" "kernel_ok k"
  shows "kernel_ok k'"
proof (cases "A_RETR k c t i")
  case None
  then show ?thesis using assms by (simp add: senda_entry_def)
next
  case (Some e)
  have dest: "is_proc p" if "senda_dest k c a = Some (OK, p)" for a p
    using that by (auto simp: senda_dest_def bind_eq_Some_conv split: option.splits if_splits
        intro: isokendpt_is_proc)
  have fin: "kernel_ok (case A_INSRT c t i x k1 of None \<Rightarrow> k1 | Some k2 \<Rightarrow> k2)" if "kernel_ok k1" for x k1
    using that by (auto split: option.splits intro: A_INSRT_keeps)
  show ?thesis
    using assms Some
    by (auto simp: senda_entry_def Let_def bind_eq_Some_conv split: if_splits
        intro!: fin status_keeps elim!: set_asyn_pending_keeps RTS_UNSET_keeps dest: dest)
qed

lemma senda_loop_keeps:
  "senda_loop c t is (n, d, k) = Some (n', d', k') \<Longrightarrow> kernel_ok k \<Longrightarrow> kernel_ok k'"
proof (induction "is" arbitrary: n d k)
  case (Cons i "is")
  then obtain n1 d1 k1 where "senda_entry c t i (n, d, k) = Some (n1, d1, k1)"
      "senda_loop c t is (n1, d1, k1) = Some (n', d', k')"
    by (auto split: option.splits)
  then show ?case using Cons.IH senda_entry_keeps [OF _ Cons.prems(2)] by blast
qed simp

lemma notify_asyncm_keeps:
  "(if b then map_option snd (mini_notify ASYNCM e k) else Some k) = Some k' \<Longrightarrow> kernel_ok k \<Longrightarrow> kernel_ok k'"
  by (auto split: if_splits elim!: mini_notify_keeps)

lemma mini_senda_keeps:
  assumes "mini_senda c t n k = Some (r, k')" "kernel_ok k"
  shows "kernel_ok k'"
  using assms
  by (auto simp: mini_senda_def try_deliver_senda_def Let_def bind_eq_Some_conv
      split: if_splits option.splits intro!: set_asyntab_keeps
      elim!: senda_loop_keeps mini_notify_keeps)

lemma try_one_entry_keeps:
  assumes "try_one_entry s d t i (r, n, dn, k) = (e, r', n', dn', k')" "kernel_ok k"
  shows "kernel_ok k'"
  using assms
  by (auto simp: try_one_entry_def Let_def split: if_splits option.splits
      elim!: A_INSRT_keeps intro!: status_keeps)

lemma try_one_loop_keeps:
  "try_one_loop s d t is (r, n, dn, k) = (e, r', n', dn', k') \<Longrightarrow> kernel_ok k \<Longrightarrow> kernel_ok k'"
proof (induction "is" arbitrary: r n dn k)
  case (Cons i "is")
  obtain e1 r1 n1 dn1 k1 where e: "try_one_entry s d t i (r, n, dn, k) = (e1, r1, n1, dn1, k1)"
    by (metis prod_cases5)
  have "kernel_ok k1" by (rule try_one_entry_keeps [OF e Cons.prems(2)])
  then show ?case using Cons.prems(1) Cons.IH [of r1 n1 dn1 k1] e by (cases e1) auto
qed simp

lemma try_one_keeps:
  assumes "try_one s d k = Some (r, k')" "kernel_ok k"
  shows "kernel_ok k'"
proof -
  have fin: "kernel_ok k2" if "try_one_finish s d i st = Some (r, k2)" "kernel_ok (snd (snd (snd (snd st))))"
    for i st k2
    using that
    by (auto simp: try_one_finish_def bind_eq_Some_conv split: if_splits prod.splits
        intro!: set_asyntab_keeps elim!: set_asyn_pending_keeps mini_notify_keeps)
  have loop: "kernel_ok (snd (snd (snd (snd (try_one_loop s d t is (EAGAIN, False, True, k1))))))"
    if "kernel_ok k1" for t "is" k1
    using that try_one_loop_keeps [of s d t "is" EAGAIN False True k1]
    by (cases "try_one_loop s d t is (EAGAIN, False, True, k1)") auto
  show ?thesis
    using assms
    by (auto simp: try_one_def Let_def bind_eq_Some_conv split: if_splits
        elim!: set_asyn_pending_keeps fin intro!: loop)
qed

lemma try_async_keeps:
  assumes "try_async c k = Some (r, k')" "kernel_ok k"
  shows "kernel_ok k'"
proof -
  have "kernel_ok k'" if "try_async_loop c is k = Some (r, k')" "kernel_ok k" for "is"
    using that
  proof (induction "is" arbitrary: k)
    case (Cons i "is")
    then show ?case
      by (auto simp: bind_eq_Some_conv split: if_splits dest: try_one_keeps)
  qed simp
  then show ?thesis using assms by (auto simp: try_async_def)
qed

lemma receive_notify_keeps:
  assumes "receive_notify c e p k = Some (b, k')" "kernel_ok k"
  shows "kernel_ok k'"
  using assms
  by (auto simp: receive_notify_def Let_def bind_eq_Some_conv split: if_splits
      intro!: status_keeps elim!: BuildNotifyMessage_keeps unset_notify_pending_keeps)

lemma receive_async_keeps:
  assumes "receive_async c p k = Some (b, k')" "kernel_ok k"
  shows "kernel_ok k'"
  using assms
  by (auto simp: receive_async_def bind_eq_Some_conv split: if_splits
      intro!: status_keeps elim!: try_one_keeps try_async_keeps)

lemma receive_from_keeps:
  assumes "receive_from lethal c s prev k = Some k'" "kernel_ok k" "is_proc s"
  shows "kernel_ok k'"
proof -
  define k1 where "k1 = deliver c (p_sendmsg (procs k s)) (p_endpoint (procs k s)) k"
  have "kernel_ok k1" using assms(2) by (simp add: k1_def status_keeps)
  then obtain k2 where k2: "RTS_UNSET s RTS_SENDING k1 = Some k2" "kernel_ok k2"
    using kernel_ok_RTS_UNSET [OF _ assms(3)] by blast
  define k3 where "k3 = IPC_STATUS_ADD_CALL c (if has (misc k2 s) MF_REPLY_PEND then SENDREC else SEND) k2"
  define k4 where "k4 = (if has (misc k3 s) MF_SENDING_FROM_KERNEL
      then clear_misc s MF_SENDING_FROM_KERNEL (IPC_STATUS_ADD_FROM_KERNEL c k3) else k3)"
  have "kernel_ok k4" using k2(2) by (simp add: k4_def k3_def status_keeps)
  moreover obtain k5 where k5: "(if has (misc k4 s) MF_SIG_DELAY then sig_delay_done lethal s k4 else Some k4) = Some k5"
      "k' = upd_proc s (\<lambda>r. r\<lparr>p_q_link := None\<rparr>) (set_caller_xpp c prev (p_q_link (procs k5 s)) k5)"
    using assms(1) k2(1) unfolding receive_from_def Let_def k1_def [symmetric]
    by (auto simp: bind_eq_Some_conv k4_def k3_def split: if_splits)
  ultimately have ok5: "kernel_ok k5" by (auto split: if_splits elim: sig_delay_done_keeps [OF _ _ assms(3)])
  then have "kernel_ok (set_caller_xpp c prev (p_q_link (procs k5 s)) k5)"
    by (rule set_caller_xpp_keeps) (rule kernel_ok_links(3) [OF ok5 assms(3)])
  then show ?thesis unfolding k5(2) by (rule kernel_ok_caller_links) simp
qed

lemma caller_xpp_is_proc:
  assumes "kernel_ok k" "is_proc d" "\<And>x. prev = Some x \<Longrightarrow> is_proc x" "caller_xpp k d prev = Some y"
  shows "is_proc y"
proof (cases prev)
  case None
  then show ?thesis using kernel_ok_links(2) [OF assms(1,2)] assms(4) by (simp add: caller_xpp_def)
next
  case (Some x)
  have "is_proc x" by (rule assms(3) [OF Some])
  from kernel_ok_links(3) [OF assms(1) this] show ?thesis using assms(4) Some by (simp add: caller_xpp_def)
qed

lemma receive_queue_keeps:
  assumes "receive_queue lethal c e p prev k = Some (b, k')" "kernel_ok k" "is_proc c"
    "\<And>x. prev = Some x \<Longrightarrow> is_proc x"
  shows "kernel_ok k'"
proof -
  have "kernel_ok k \<longrightarrow> is_proc c \<longrightarrow> (\<forall>x. prev = Some x \<longrightarrow> is_proc x) \<longrightarrow> kernel_ok (snd (b, k'))"
  proof (rule receive_queue.raw_induct [where P = "\<lambda>lethal c e p prev k y. kernel_ok k \<longrightarrow> is_proc c \<longrightarrow>
        (\<forall>x. prev = Some x \<longrightarrow> is_proc x) \<longrightarrow> kernel_ok (snd y)", OF _ assms(1)], intro impI)
    fix rq :: "(signal \<Rightarrow> bool) \<Rightarrow> int \<Rightarrow> int \<Rightarrow> int \<Rightarrow> int option \<Rightarrow> kernel \<Rightarrow> (bool \<times> kernel) option"
      and lethal c e p prev k y
    assume IH: "\<And>lethal c e p prev k y. rq lethal c e p prev k = Some y \<Longrightarrow> kernel_ok k \<longrightarrow> is_proc c \<longrightarrow>
          (\<forall>x. prev = Some x \<longrightarrow> is_proc x) \<longrightarrow> kernel_ok (snd y)"
      and body: "(case caller_xpp k c prev of
          None \<Rightarrow> Some (False, k)
        | Some sender \<Rightarrow>
            if e = ANY \<or> p = p_nr (procs k sender)
            then map_option (\<lambda>k'. (True, k')) (receive_from lethal c sender prev k)
            else rq lethal c e p (Some sender) k) = Some y"
      and ok: "kernel_ok k" and c: "is_proc c" and prev: "\<forall>x. prev = Some x \<longrightarrow> is_proc x"
    show "kernel_ok (snd y)"
    proof (cases "caller_xpp k c prev")
      case None
      then show ?thesis using body ok by auto
    next
      case (Some s)
      have s: "is_proc s" by (rule caller_xpp_is_proc [OF ok c _ Some]) (use prev in blast)
      show ?thesis using body Some IH [of lethal c e p "Some s" k y] ok c s
        by (auto split: if_splits elim: receive_from_keeps)
    qed
  qed
  then show ?thesis using assms by auto
qed

lemma receive_block_keeps:
  assumes "receive_block c e f k = Some (r, k')" "kernel_ok k" "is_proc c"
  shows "kernel_ok k'"
  using assms
  by (auto simp: receive_block_def bind_eq_Some_conv split: if_splits
      elim!: RTS_SET_keeps intro!: kernel_ok_upd_proc)

lemma receive_done_keeps: "receive_done c k = Some (r, k') \<Longrightarrow> kernel_ok k \<Longrightarrow> kernel_ok k'"
  by (auto simp: receive_done_def status_keeps split: if_splits)

lemma mini_receive_keeps:
  assumes "mini_receive lethal c e a f k = Some (r, k')" "kernel_ok k" "is_proc c"
  shows "kernel_ok k'"
proof -
  define k0 where "k0 = upd_proc c (\<lambda>r. r\<lparr>p_delivermsg_vir := a\<rparr>) k"
  have ok0: "kernel_ok k0" unfolding k0_def by (rule kernel_ok_upd_proc [OF _ assms(2)]) simp
  show ?thesis
    using assms(1,3) ok0 unfolding mini_receive_def Let_def k0_def [symmetric]
    by (auto simp: bind_eq_Some_conv split: if_splits
        elim!: receive_block_keeps receive_done_keeps
        dest!: receive_notify_keeps receive_async_keeps receive_queue_keeps)
qed

lemma ipc_calls_distinct [simp]:
  "SENDREC \<noteq> RECEIVE" "RECEIVE \<noteq> SENDREC" "SEND \<noteq> RECEIVE" "RECEIVE \<noteq> SEND" "SENDREC \<noteq> SEND" "SEND \<noteq> SENDREC"
  "NOTIFY \<noteq> RECEIVE" "NOTIFY \<noteq> SEND" "NOTIFY \<noteq> SENDREC" "SENDNB \<noteq> RECEIVE" "SENDNB \<noteq> SEND"
  "SENDNB \<noteq> SENDREC" "SENDNB \<noteq> NOTIFY" "RECEIVE \<noteq> SENDA" "SEND \<noteq> SENDA" "SENDREC \<noteq> SENDA"
  "NOTIFY \<noteq> SENDA" "SENDNB \<noteq> SENDA" "SEND \<noteq> NOTIFY" "SENDREC \<noteq> NOTIFY" "SEND \<noteq> SENDNB"
  "SENDREC \<noteq> SENDNB" "NOTIFY \<noteq> SENDNB"
  by (simp_all add: SENDREC_def RECEIVE_def SEND_def NOTIFY_def SENDNB_def SENDA_def)

lemma do_sync_ipc_keeps:
  assumes "do_sync_ipc lethal c n e a k = Some (r, k')" "kernel_ok k" "is_proc c"
  shows "kernel_ok k'"
proof (cases "e = ANY")
  case True
  then show ?thesis
    using assms
    by (auto simp: do_sync_ipc_def bind_eq_Some_conv split: if_splits
        elim!: mini_receive_keeps intro!: status_keeps kernel_ok_upd_proc)
next
  case False
  have dst: "is_proc (ENDPOINT_P e)" if "isokendpt k e = Some p" for p
    using that isokendpt_is_proc [OF that] by (auto simp: isokendpt_def Let_def split: if_splits)
  show ?thesis
  proof (cases "isokendpt k e")
    case None
    then show ?thesis using assms False by (auto simp: do_sync_ipc_def split: if_splits)
  next
    case (Some p)
    note d = dst [OF Some]
    have sendrec: "kernel_ok k2"
      if "mini_send c e x f (set_misc c m k) = Some (r1, k1)" "mini_receive lethal c e a f' k1 = Some (r2, k2)"
      for x f f' m r1 k1 r2 k2
      using mini_send_keeps [OF that(1) _ assms(3) d] mini_receive_keeps [OF that(2) _ assms(3)] assms(2)
      by (simp add: status_keeps)
    show ?thesis
      using assms False Some d
      by (auto simp: do_sync_ipc_def bind_eq_Some_conv split: if_splits
          elim: sendrec
          elim!: mini_receive_keeps mini_send_keeps mini_notify_keeps
          intro!: status_keeps kernel_ok_upd_proc)
  qed
qed

lemma do_ipc_trace_keeps:
  assumes "do_ipc_trace lethal c regs k = Some res" "kernel_ok k" "is_proc c"
  shows "case res of Inl (r, k') \<Rightarrow> kernel_ok k' | Inr k' \<Rightarrow> kernel_ok k'"
proof -
  define k2 where "k2 = upd_proc c (\<lambda>r. r\<lparr>p_defer := regs\<rparr>)
      (set_misc c MF_SC_DEFER (clear_misc c MF_SC_TRACE k))"
  have ok2: "kernel_ok k2" using assms(2) by (auto simp: k2_def intro!: status_keeps kernel_ok_upd_proc)
  have nr: "is_proc (p_nr (procs k2 c))" by (rule kernel_ok_links(1) [OF ok2 assms(3)])
  show ?thesis
    using assms(1,2) cause_sig_keeps [OF _ ok2 nr] unfolding do_ipc_trace_def Let_def k2_def [symmetric]
    by (auto simp: bind_eq_Some_conv status_keeps split: if_splits)
qed

lemma proc_ptr_is_proc: "kernel_ok k \<Longrightarrow> is_proc (proc_ptr k)"
  by (auto simp: kernel_ok_def sched_inv_def queues_hold_def wf_kernel_def)

lemma do_ipc_keeps:
  assumes "do_ipc lethal r1 r2 r3 k = Some (r, k')" "kernel_ok k"
  shows "kernel_ok k'"
proof -
  define c where "c = proc_ptr k"
  have c: "is_proc c" using proc_ptr_is_proc [OF assms(2)] by (simp add: c_def)
  obtain t where t: "do_ipc_trace lethal c (r1, r2, r3) (k\<lparr>kbill_ipc := c\<rparr>) = Some t"
    using assms(1) by (auto simp: do_ipc_def c_def Let_def bind_eq_Some_conv split: if_splits)
  have ok: "kernel_ok (k\<lparr>kbill_ipc := c\<rparr>)" by (rule kernel_ok_fields(3) [OF assms(2)])
  note T = do_ipc_trace_keeps [OF t ok c]
  show ?thesis
  proof (cases t)
    case (Inl res)
    then show ?thesis using assms(1) t T
      by (auto simp: do_ipc_def Let_def c_def split: if_splits)
  next
    case (Inr k1)
    then have ok1: "kernel_ok k1" using T by simp
    have acc: "kernel_ok (upd_proc c (\<lambda>r. r\<lparr>p_accounting := f r\<rparr>) k1)" for f
      by (rule kernel_ok_upd_proc [OF _ ok1]) simp
    show ?thesis
      using assms(1) t Inr ok1
      by (auto simp: do_ipc_def Let_def c_def [symmetric] acc split: if_splits
          elim!: do_sync_ipc_keeps [OF _ acc c] mini_senda_keeps [OF _ acc] intro!: kernel_ok_upd_proc)
  qed
qed

section \<open>Caller queues\<close>

definition caller_chain :: "kernel \<Rightarrow> int \<Rightarrow> int list \<Rightarrow> bool" where
  "caller_chain k d qs \<longleftrightarrow> chain (\<lambda>p. p_q_link (procs k p)) (p_caller_q (procs k d)) qs"

lemma caller_chain_frame:
  "sched_frame k k' \<Longrightarrow> caller_chain k' d qs = caller_chain k d qs"
  by (simp add: caller_chain_def sched_frame_fields)

lemma caller_chain_upd:
  "(\<And>r. p_q_link (f r) = p_q_link r) \<Longrightarrow> (\<And>r. p_caller_q (f r) = p_caller_q r) \<Longrightarrow>
     caller_chain (upd_proc p f k) d qs = caller_chain k d qs"
proof -
  assume a: "\<And>r. p_q_link (f r) = p_q_link r" "\<And>r. p_caller_q (f r) = p_caller_q r"
  have "(\<lambda>x. p_q_link (procs (upd_proc p f k) x)) = (\<lambda>x. p_q_link (procs k x))" using a by auto
  moreover have "p_caller_q (procs (upd_proc p f k) d) = p_caller_q (procs k d)" using a by simp
  ultimately show ?thesis by (simp only: caller_chain_def)
qed

lemma caller_chain_misc [simp]:
  "caller_chain (set_misc p f k) d qs = caller_chain k d qs"
  "caller_chain (clear_misc p f k) d qs = caller_chain k d qs"
  "caller_chain (deliver p m e k) d qs = caller_chain k d qs"
  "caller_chain (IPC_STATUS_ADD p w k) d qs = caller_chain k d qs"
  "caller_chain (IPC_STATUS_ADD_CALL p c k) d qs = caller_chain k d qs"
  "caller_chain (IPC_STATUS_ADD_FROM_KERNEL p k) d qs = caller_chain k d qs"
  by (simp_all add: set_misc_def clear_misc_def deliver_def IPC_STATUS_ADD_CALL_def
      IPC_STATUS_ADD_FROM_KERNEL_def IPC_STATUS_ADD_def caller_chain_upd)

lemma caller_q_append_chain:
  "chain (\<lambda>p. p_q_link (procs k p)) (caller_xpp k d prev) qs \<Longrightarrow>
     caller_q_append k d c prev =
       Some (set_caller_xpp d (if qs = [] then prev else Some (last qs)) (Some c) k)"
proof (induction qs arbitrary: prev)
  case Nil
  then show ?case by (simp add: caller_q_append.simps [of k d c prev])
next
  case (Cons q qs)
  then have q: "caller_xpp k d prev = Some q"
      "chain (\<lambda>p. p_q_link (procs k p)) (caller_xpp k d (Some q)) qs"
    by (simp_all add: caller_xpp_def)
  show ?case using q(1) Cons.IH [OF q(2)] by (simp add: caller_q_append.simps [of k d c prev])
qed

lemma caller_q_append_appends:
  assumes "caller_chain k d qs" "c \<notin> set qs" "p_q_link (procs k c) = None"
  defines "k' \<equiv> the (caller_q_append k d c None)"
  shows "caller_q_append k d c None = Some k'" "caller_chain k' d (qs @ [c])"
    "\<And>x. \<exists>u v. procs k' x = procs k x\<lparr>p_caller_q := u, p_q_link := v\<rparr>"
proof -
  define nx where "nx = (\<lambda>p. p_q_link (procs k p))"
  have ch: "chain nx (p_caller_q (procs k d)) qs" using assms(1) by (simp add: caller_chain_def nx_def)
  have run: "caller_q_append k d c None =
      Some (set_caller_xpp d (if qs = [] then None else Some (last qs)) (Some c) k)"
    by (rule caller_q_append_chain) (use assms(1) in \<open>simp add: caller_chain_def caller_xpp_def\<close>)
  then show "caller_q_append k d c None = Some k'" by (simp add: k'_def)
  have k': "k' = set_caller_xpp d (if qs = [] then None else Some (last qs)) (Some c) k"
    using run by (simp add: k'_def)
  have nxc: "nx(c := None) = nx" using assms(3) by (auto simp: nx_def)
  show "caller_chain k' d (qs @ [c])"
  proof (cases "qs = []")
    case True
    then have "(\<lambda>p. p_q_link (procs k' p)) = nx" "p_caller_q (procs k' d) = Some c"
      by (auto simp: k' set_caller_xpp_def nx_def)
    then show ?thesis using True assms(3) by (simp add: caller_chain_def nx_def)
  next
    case False
    have cl: "c \<noteq> last qs" using assms(2) False by auto
    have "(\<lambda>p. p_q_link (procs k' p)) = nx(last qs := Some c)"
      using False by (auto simp: k' set_caller_xpp_def nx_def)
    moreover have "nx(last qs := Some c) = nx(last qs := Some c, c := None)"
      using nxc cl by (metis fun_upd_twist)
    moreover have "p_caller_q (procs k' d) = p_caller_q (procs k d)"
      using False by (simp add: k' set_caller_xpp_def)
    ultimately show ?thesis using chain_snoc(2) [OF ch assms(2) False] by (simp add: caller_chain_def)
  qed
  fix x
  have same: "\<exists>u v. r = r\<lparr>p_caller_q := u, p_q_link := v\<rparr>" for r :: proc
    by (rule exI [of _ "p_caller_q r"], rule exI [of _ "p_q_link r"]) simp
  have cq: "\<exists>u v. r\<lparr>p_caller_q := z\<rparr> = r\<lparr>p_caller_q := u, p_q_link := v\<rparr>" for r :: proc and z
    by (rule exI [of _ z], rule exI [of _ "p_q_link r"]) simp
  have ql: "\<exists>u v. r\<lparr>p_q_link := z\<rparr> = r\<lparr>p_caller_q := u, p_q_link := v\<rparr>" for r :: proc and z
    by (rule exI [of _ "p_caller_q r"], rule exI [of _ z]) simp
  show "\<exists>u v. procs k' x = procs k x\<lparr>p_caller_q := u, p_q_link := v\<rparr>"
    using same cq ql by (auto simp: k' set_caller_xpp_def)
qed

lemma set_caller_xpp_sel [simp]:
  "privs (set_caller_xpp d prev v k) = privs k" "user_msg (set_caller_xpp d prev v k) = user_msg k"
  by (simp_all add: set_caller_xpp_def split: option.split)

lemma caller_q_append_sel:
  "caller_q_append k d c prev = Some k' \<Longrightarrow> privs k' = privs k"
  by (rule caller_q_append.raw_induct [where P = "\<lambda>k d c prev k'. privs k' = privs k"])
    (auto split: option.splits)

text \<open>A send that has to wait: the sender is blocked, its message kept, its place the last.\<close>

lemma send_block_appends:
  assumes ok: "kernel_ok k" and c: "is_proc c" and ch: "caller_chain k d qs" "c \<notin> set qs"
    and ql: "p_q_link (procs k c) = None"
  shows "\<exists>k'. send_block c d e m f k = Some (OK, k') \<and> kernel_ok k' \<and> caller_chain k' d (qs @ [c]) \<and>
    p_sendmsg (procs k' c) = m \<and> p_sendto_e (procs k' c) = e \<and>
    p_rts_flags (procs k' c) = p_rts_flags (procs k c) OR RTS_SENDING \<and>
    privs k' = privs k \<and> p_endpoint (procs k' c) = p_endpoint (procs k c) \<and>
    misc k' c = (if has f FROM_KERNEL then misc k c OR MF_SENDING_FROM_KERNEL else misc k c) \<and>
    (\<forall>x. x \<noteq> c \<longrightarrow> misc k' x = misc k x \<and> p_rts_flags (procs k' x) = p_rts_flags (procs k x) \<and>
       p_priv (procs k' x) = p_priv (procs k x) \<and> p_endpoint (procs k' x) = p_endpoint (procs k x))"
proof -
  define k1 where "k1 = upd_proc c (\<lambda>r. r\<lparr>p_sendmsg := m\<rparr>) k"
  define k2 where "k2 = (if has f FROM_KERNEL then set_misc c MF_SENDING_FROM_KERNEL k1 else k1)"
  have ok2: "kernel_ok k2" using ok by (auto simp: k2_def k1_def intro!: status_keeps kernel_ok_upd_proc)
  obtain k3 where k3: "RTS_SET c RTS_SENDING k2 = Some k3" "kernel_ok k3" "sched_frame k2 k3"
      "\<forall>x. p_rts_flags (procs k3 x) = (if x = c then p_rts_flags (procs k2 x) OR RTS_SENDING
         else p_rts_flags (procs k2 x))"
    using kernel_ok_RTS_SET [OF ok2 c, of RTS_SENDING] by auto
  define k4 where "k4 = upd_proc c (\<lambda>r. r\<lparr>p_sendto_e := e\<rparr>) k3"
  have "caller_chain k2 d qs" using ch(1) by (simp add: k2_def k1_def caller_chain_upd)
  then have ch4: "caller_chain k4 d qs" by (simp add: k4_def caller_chain_upd caller_chain_frame [OF k3(3)])
  have ql4: "p_q_link (procs k4 c) = None"
    using ql by (simp add: k4_def sched_frame_fields [OF k3(3)] k2_def k1_def set_misc_def)
  define k' where "k' = the (caller_q_append k4 d c None)"
  note A = caller_q_append_appends [OF ch4 ch(2) ql4, folded k'_def]
  have run: "send_block c d e m f k = Some (OK, k')"
    using k3(1) ql4 A(1) unfolding send_block_def Let_def k1_def [symmetric] k2_def [symmetric]
    by (simp add: k4_def)
  have fields: "p_sendmsg (procs k' x) = p_sendmsg (procs k4 x)" "p_sendto_e (procs k' x) = p_sendto_e (procs k4 x)"
      "p_rts_flags (procs k' x) = p_rts_flags (procs k4 x)" "misc k' x = misc k4 x"
      "p_priv (procs k' x) = p_priv (procs k4 x)" "p_endpoint (procs k' x) = p_endpoint (procs k4 x)" for x
    using A(3) [of x] by auto
  have "kernel_ok k'" by (rule send_block_keeps [OF run ok c])
  moreover have "privs k' = privs k"
    using caller_q_append_sel [OF A(1)] sched_frame_sel(1) [OF k3(3)]
    by (simp add: k4_def k2_def k1_def set_misc_def)
  ultimately show ?thesis
    using run A(2) k3(4)
    by (simp add: fields k4_def sched_frame_fields [OF k3(3)] k2_def k1_def set_misc_def)
qed

text \<open>Receiving from the head of the caller queue.\<close>

lemma misc_upds [simp]:
  "procs (set_misc p f k) = (procs k)(p := (procs k p)\<lparr>p_misc_flags := misc k p OR f\<rparr>)"
  "procs (clear_misc p f k) = (procs k)(p := (procs k p)\<lparr>p_misc_flags := misc k p AND NOT f\<rparr>)"
  "privs (set_misc p f k) = privs k" "privs (clear_misc p f k) = privs k"
  "privs (deliver p m e k) = privs k" "privs (IPC_STATUS_ADD p w k) = privs k"
  "privs (IPC_STATUS_ADD_CALL p c k) = privs k" "privs (IPC_STATUS_ADD_FROM_KERNEL p k) = privs k"
  by (simp_all add: set_misc_def clear_misc_def deliver_def IPC_STATUS_ADD_def IPC_STATUS_ADD_CALL_def
      IPC_STATUS_ADD_FROM_KERNEL_def)

lemma deliver_procs [simp]:
  "procs (deliver p m e k) = (procs k)(p := (procs k p)
     \<lparr>p_delivermsg := m\<lparr>m_source := e\<rparr>, p_misc_flags := misc k p OR MF_DELIVERMSG\<rparr>)"
  by (simp add: deliver_def)

lemma status_procs:
  "\<exists>w. procs (IPC_STATUS_ADD p m k) x = procs k x\<lparr>p_ipc_status := w\<rparr>"
  "\<exists>w. procs (IPC_STATUS_ADD_CALL p c k) x = procs k x\<lparr>p_ipc_status := w\<rparr>"
  "\<exists>w. procs (IPC_STATUS_ADD_FROM_KERNEL p k) x = procs k x\<lparr>p_ipc_status := w\<rparr>"
proof -
  have same: "\<exists>w. r = r\<lparr>p_ipc_status := w\<rparr>" for r :: proc
    by (rule exI [of _ "p_ipc_status r"]) simp
  show a: "\<exists>w. procs (IPC_STATUS_ADD p m k) x = procs k x\<lparr>p_ipc_status := w\<rparr>" for m
    using same by (auto simp: IPC_STATUS_ADD_def)
  show "\<exists>w. procs (IPC_STATUS_ADD_CALL p c k) x = procs k x\<lparr>p_ipc_status := w\<rparr>"
    unfolding IPC_STATUS_ADD_CALL_def by (rule a)
  show "\<exists>w. procs (IPC_STATUS_ADD_FROM_KERNEL p k) x = procs k x\<lparr>p_ipc_status := w\<rparr>"
    unfolding IPC_STATUS_ADD_FROM_KERNEL_def by (rule a)
qed

lemma status_fields [simp]:
  "p_q_link (procs (IPC_STATUS_ADD_CALL p c k) x) = p_q_link (procs k x)"
  "p_caller_q (procs (IPC_STATUS_ADD_CALL p c k) x) = p_caller_q (procs k x)"
  "misc (IPC_STATUS_ADD_CALL p c k) x = misc k x"
  "p_delivermsg (procs (IPC_STATUS_ADD_CALL p c k) x) = p_delivermsg (procs k x)"
  "p_rts_flags (procs (IPC_STATUS_ADD_CALL p c k) x) = p_rts_flags (procs k x)"
  "p_endpoint (procs (IPC_STATUS_ADD_CALL p c k) x) = p_endpoint (procs k x)"
  "p_priv (procs (IPC_STATUS_ADD_CALL p c k) x) = p_priv (procs k x)"
  "p_q_link (procs (IPC_STATUS_ADD_FROM_KERNEL p k) x) = p_q_link (procs k x)"
  "p_caller_q (procs (IPC_STATUS_ADD_FROM_KERNEL p k) x) = p_caller_q (procs k x)"
  "misc (IPC_STATUS_ADD_FROM_KERNEL p k) x = misc k x"
  "p_delivermsg (procs (IPC_STATUS_ADD_FROM_KERNEL p k) x) = p_delivermsg (procs k x)"
  "p_rts_flags (procs (IPC_STATUS_ADD_FROM_KERNEL p k) x) = p_rts_flags (procs k x)"
  using status_procs(2) [of p c k x] status_procs(3) [of p k x] by auto

lemma receive_from_first:
  assumes ok: "kernel_ok k" and s: "is_proc s" "s \<noteq> d" and ch: "caller_chain k d (s # qs)"
    and live: "\<not> RTS_ISSET k s RTS_SLOT_FREE" "\<not> RTS_ISSET k s RTS_NO_ENDPOINT"
    and idle: "\<not> has (misc k d) MF_DELIVERMSG" and nodelay: "\<not> has (misc k s) MF_SIG_DELAY"
  shows "\<exists>k'. receive_from lethal d s None k = Some k' \<and> kernel_ok k' \<and> caller_chain k' d qs \<and>
    p_q_link (procs k' s) = None \<and>
    p_delivermsg (procs k' d) = (p_sendmsg (procs k s))\<lparr>m_source := p_endpoint (procs k s)\<rparr> \<and>
    misc k' d = misc k d OR MF_DELIVERMSG \<and>
    p_rts_flags (procs k' s) = p_rts_flags (procs k s) AND NOT RTS_SENDING"
proof -
  define k1 where "k1 = deliver d (p_sendmsg (procs k s)) (p_endpoint (procs k s)) k"
  have ok1: "kernel_ok k1" using ok by (simp add: k1_def status_keeps)
  obtain k2 where k2: "RTS_UNSET s RTS_SENDING k1 = Some k2" "kernel_ok k2" "sched_frame k1 k2"
      "p_rts_flags (procs k2 s) = p_rts_flags (procs k1 s) AND NOT RTS_SENDING"
    using kernel_ok_RTS_UNSET [OF ok1 s(1), of RTS_SENDING] by auto
  define k3 where "k3 = IPC_STATUS_ADD_CALL d (if has (misc k2 s) MF_REPLY_PEND then SENDREC else SEND) k2"
  define k4 where "k4 = (if has (misc k3 s) MF_SENDING_FROM_KERNEL
      then clear_misc s MF_SENDING_FROM_KERNEL (IPC_STATUS_ADD_FROM_KERNEL d k3) else k3)"
  define k' where "k' = upd_proc s (\<lambda>r. r\<lparr>p_q_link := None\<rparr>) (set_caller_xpp d None (p_q_link (procs k4 s)) k4)"
  have "misc k2 s = misc k s"
    using s(2) by (simp add: sched_frame_fields [OF k2(3)] k1_def)
  then have delay: "\<not> has (misc k2 s) MF_SIG_DELAY" using nodelay by simp
  have run: "receive_from lethal d s None k = Some k'"
    using live idle k2(1) delay unfolding receive_from_def Let_def k1_def [symmetric]
    by (simp add: k'_def k4_def k3_def)
  have links: "p_q_link (procs k4 x) = p_q_link (procs k x)" "p_caller_q (procs k4 x) = p_caller_q (procs k x)" for x
    by (auto simp: k4_def k3_def k1_def sched_frame_fields [OF k2(3)])
  have chs: "p_caller_q (procs k d) = Some s" "chain (\<lambda>p. p_q_link (procs k p)) (p_q_link (procs k s)) qs"
      "s \<notin> set qs"
    using ch chain_distinct [OF ch [unfolded caller_chain_def]] by (simp_all add: caller_chain_def)
  have "(\<lambda>p. p_q_link (procs k' p)) = (\<lambda>p. p_q_link (procs k p))(s := None)"
    by (auto simp: k'_def set_caller_xpp_def links)
  moreover have "p_caller_q (procs k' d) = p_q_link (procs k s)"
    using s(2) by (simp add: k'_def set_caller_xpp_def links)
  ultimately have "caller_chain k' d qs"
    using chs by (simp add: caller_chain_def chain_frame)
  moreover have "p_delivermsg (procs k' d) = (p_sendmsg (procs k s))\<lparr>m_source := p_endpoint (procs k s)\<rparr>"
      "misc k' d = misc k d OR MF_DELIVERMSG"
      "p_rts_flags (procs k' s) = p_rts_flags (procs k s) AND NOT RTS_SENDING"
    using s(2) k2(4) by (auto simp: k'_def set_caller_xpp_def k4_def k3_def sched_frame_fields [OF k2(3)] k1_def)
  moreover have "p_q_link (procs k' s) = None" by (simp add: k'_def)
  moreover have "kernel_ok k'" by (rule receive_from_keeps [OF run ok s(1)])
  ultimately show ?thesis using run by blast
qed

lemma mini_receive_any_first:
  assumes ok: "kernel_ok k" and d: "is_proc d" and s: "s \<noteq> d" and ch: "caller_chain k d (s # qs)"
    and live: "\<not> RTS_ISSET k s RTS_SLOT_FREE" "\<not> RTS_ISSET k s RTS_NO_ENDPOINT"
    and idle: "\<not> has (misc k d) MF_DELIVERMSG" "\<not> RTS_ISSET k d RTS_SENDING"
    and nodelay: "\<not> has (misc k s) MF_SIG_DELAY"
    and none: "has (misc k d) MF_REPLY_PEND \<or> has_pending_notify k d ANY = Some NULL_PRIV_ID"
      "has_pending_asend k d ANY = Some NULL_PRIV_ID"
  shows "\<exists>k'. mini_receive lethal d ANY buf f k = Some (OK, k') \<and> kernel_ok k' \<and> caller_chain k' d qs \<and>
    p_q_link (procs k' s) = None \<and>
    p_delivermsg (procs k' d) = (p_sendmsg (procs k s))\<lparr>m_source := p_endpoint (procs k s)\<rparr> \<and>
    has (misc k' d) MF_DELIVERMSG \<and>
    p_rts_flags (procs k' s) = p_rts_flags (procs k s) AND NOT RTS_SENDING"
proof -
  define k0 where "k0 = upd_proc d (\<lambda>r. r\<lparr>p_delivermsg_vir := buf\<rparr>) k"
  have ok0: "kernel_ok k0" unfolding k0_def by (rule kernel_ok_upd_proc [OF _ ok]) simp
  have ch0: "caller_chain k0 d (s # qs)" using ch by (simp add: k0_def caller_chain_upd)
  have q: "caller_xpp k0 d None = Some s" using ch0 by (simp add: caller_xpp_def caller_chain_def)
  have ips: "is_proc s" by (rule caller_xpp_is_proc [OF ok0 d _ q]) simp
  have pend: "has_pending_notify k0 d ANY = has_pending_notify k d ANY"
      "has_pending_asend k0 d ANY = has_pending_asend k d ANY"
    by (simp_all add: has_pending_notify_def has_pending_asend_def has_pending_def priv_of_def k0_def)
  have flags0: "misc k0 x = misc k x" "RTS_ISSET k0 x g = RTS_ISSET k x g" for x g
    by (simp_all add: k0_def RTS_ISSET_def)
  obtain k1 where k1: "receive_from lethal d s None k0 = Some k1" "kernel_ok k1" "caller_chain k1 d qs"
      "p_q_link (procs k1 s) = None"
      "p_delivermsg (procs k1 d) = (p_sendmsg (procs k0 s))\<lparr>m_source := p_endpoint (procs k0 s)\<rparr>"
      "misc k1 d = misc k0 d OR MF_DELIVERMSG"
      "p_rts_flags (procs k1 s) = p_rts_flags (procs k0 s) AND NOT RTS_SENDING"
    using receive_from_first [OF ok0 ips s ch0, of lethal] live idle nodelay by (auto simp: flags0)
  define k' where "k' = (if has (misc k1 d) MF_REPLY_PEND then clear_misc d MF_REPLY_PEND k1 else k1)"
  have n0: "receive_notify d ANY ANY k0 = Some (False, k0)" "receive_async d ANY k0 = Some (False, k0)"
    using none pend flags0 by (auto simp: receive_notify_def receive_async_def)
  have q0: "receive_queue lethal d ANY ANY None k0 = Some (True, k1)"
    using q k1(1) by (simp add: receive_queue.simps [of lethal d ANY ANY None k0])
  have "mini_receive lethal d ANY buf f k = Some (OK, k')"
    using idle flags0 n0 q0 unfolding mini_receive_def Let_def k0_def [symmetric]
    by (simp add: receive_done_def k'_def)
  moreover have "has (misc k' d) MF_DELIVERMSG"
    using k1(6) by (simp add: k'_def)
  moreover have "p_delivermsg (procs k' d) = (p_sendmsg (procs k s))\<lparr>m_source := p_endpoint (procs k s)\<rparr>"
      "p_rts_flags (procs k' s) = p_rts_flags (procs k s) AND NOT RTS_SENDING" "p_q_link (procs k' s) = None"
    using k1(4,5,7) by (auto simp: k'_def k0_def)
  ultimately show ?thesis using k1(2,3) by (auto simp: k'_def status_keeps)
qed

section \<open>Deadlock\<close>

text \<open>
  \<open>blocked_path k cp e ps\<close>: the process with endpoint \<open>e\<close> waits for the next of \<open>ps\<close>, and so
  on, and the last one waits for \<open>cp\<close>.
\<close>

fun blocked_path :: "kernel \<Rightarrow> int \<Rightarrow> int \<Rightarrow> int list \<Rightarrow> bool" where
  "blocked_path k cp e [] \<longleftrightarrow> False"
| "blocked_path k cp e (p # ps) \<longleftrightarrow>
     isokendpt k e = Some p \<and> proc_ptr_ok k p \<and> \<not> RTS_ISSET k p RTS_SLOT_FREE \<and>
     P_BLOCKEDON k p \<noteq> NONE \<and>
     (if P_BLOCKEDON k p = p_endpoint (procs k cp) then ps = []
      else blocked_path k cp (P_BLOCKEDON k p) ps)"

definition rendezvous :: "kernel \<Rightarrow> int \<Rightarrow> int \<Rightarrow> bool" where
  "rendezvous k func p \<longleftrightarrow>
     has (p_rts_flags (procs k p) XOR push_bit 2 (word_of_int func)) RTS_SENDING"

lemma isokendpt_ANY: "isokendpt k ANY = None"
  by (simp add: isokendpt_def Let_def isokprocn_def endpoint_defs NR_TASKS_def NR_PROCS_def)

lemma deadlock_from_path:
  "blocked_path k cp e ps \<Longrightarrow>
     deadlock_from k func cp e g =
       Some (if g + length ps = 2 \<and> rendezvous k func (last ps) then 0 else g + length ps)"
proof (induction ps arbitrary: e g)
  case Nil
  then show ?case by simp
next
  case (Cons p ps)
  then have p: "isokendpt k e = Some p" "proc_ptr_ok k p" "\<not> RTS_ISSET k p RTS_SLOT_FREE"
      "P_BLOCKEDON k p \<noteq> NONE" "e \<noteq> ANY"
    using isokendpt_ANY [of k] by auto
  show ?case
  proof (cases "P_BLOCKEDON k p = p_endpoint (procs k cp)")
    case True
    then show ?thesis using Cons.prems p
      by (simp add: deadlock_from.simps [of k func cp e g] rendezvous_def Let_def)
  next
    case False
    then have path: "blocked_path k cp (P_BLOCKEDON k p) ps" using Cons.prems by simp
    then have "ps \<noteq> []" by auto
    then show ?thesis using False p Cons.IH [OF path, of "Suc g"]
      by (simp add: deadlock_from.simps [of k func cp e g] Let_def)
  qed
qed

lemma deadlock_from_sound:
  assumes "deadlock_from k func cp e g = Some n" "n \<noteq> 0"
  shows "\<exists>ps. blocked_path k cp e ps \<and> n = g + length ps"
proof -
  have "n \<noteq> 0 \<longrightarrow> (\<exists>ps. blocked_path k cp e ps \<and> n = g + length ps)"
  proof (rule deadlock_from.raw_induct [where P = "\<lambda>k func cp e g n. n \<noteq> 0 \<longrightarrow>
        (\<exists>ps. blocked_path k cp e ps \<and> n = g + length ps)", OF _ assms(1)], intro impI)
    fix df :: "kernel \<Rightarrow> int \<Rightarrow> int \<Rightarrow> int \<Rightarrow> nat \<Rightarrow> nat option" and k func cp e g n
    assume IH: "\<And>k func cp e g n. df k func cp e g = Some n \<Longrightarrow> n \<noteq> 0 \<longrightarrow>
          (\<exists>ps. blocked_path k cp e ps \<and> n = g + length ps)"
      and body: "(if e = ANY then Some 0
      else
        (case isokendpt k e of
           None \<Rightarrow> None
         | Some xp \<Rightarrow>
             if \<not> proc_ptr_ok k xp \<or> RTS_ISSET k xp RTS_SLOT_FREE then None
             else
               (let group_size' = Suc g; next_e = P_BLOCKEDON k xp
                in if next_e = NONE then Some 0
                   else if next_e = p_endpoint (procs k cp) then
                     (if group_size' = 2 \<and>
                         has (p_rts_flags (procs k xp) XOR push_bit 2 (word_of_int func)) RTS_SENDING
                      then Some 0 else Some group_size')
                   else df k func cp next_e group_size'))) = Some n" and nz: "n \<noteq> 0"
    obtain p where p: "isokendpt k e = Some p" "proc_ptr_ok k p" "\<not> RTS_ISSET k p RTS_SLOT_FREE"
        "P_BLOCKEDON k p \<noteq> NONE"
      using body nz by (auto simp: Let_def split: if_splits option.splits)
    show "\<exists>ps. blocked_path k cp e ps \<and> n = g + length ps"
    proof (cases "P_BLOCKEDON k p = p_endpoint (procs k cp)")
      case True
      then have "n = Suc g" using body nz p by (auto simp: Let_def split: if_splits)
      then show ?thesis using p True by (intro exI [of _ "[p]"]) simp
    next
      case False
      then have "df k func cp (P_BLOCKEDON k p) (Suc g) = Some n"
        using body nz p by (auto simp: Let_def split: if_splits)
      then obtain ps where "blocked_path k cp (P_BLOCKEDON k p) ps" "n = Suc g + length ps"
        using IH nz by blast
      then show ?thesis using p False by (intro exI [of _ "p # ps"]) simp
    qed
  qed
  then show ?thesis using assms(2) by blast
qed

section \<open>Rendezvous\<close>

lemma send_direct_delivers:
  assumes ok: "kernel_ok k" and d: "is_proc d"
  shows "\<exists>k'. send_direct c d m f k = Some (OK, k') \<and> kernel_ok k' \<and>
    p_delivermsg (procs k' d) = m\<lparr>m_source := p_endpoint (procs k c)\<rparr> \<and>
    has (misc k' d) MF_DELIVERMSG \<and> \<not> has (misc k' d) MF_REPLY_PEND \<and>
    p_rts_flags (procs k' d) = p_rts_flags (procs k d) AND NOT RTS_RECEIVING"
proof -
  define k1 where "k1 = (if has f FROM_KERNEL then IPC_STATUS_ADD_FROM_KERNEL d k else k)"
  define k2 where "k2 = deliver d m (p_endpoint (procs k1 c)) k1"
  define k3 where "k3 = IPC_STATUS_ADD_CALL d (if has (misc k2 c) MF_REPLY_PEND then SENDREC
      else if has f NON_BLOCKING then SENDNB else SEND) k2"
  define k4 where "k4 = (if has (misc k3 d) MF_REPLY_PEND then clear_misc d MF_REPLY_PEND k3 else k3)"
  have "kernel_ok k4" using ok by (simp add: k4_def k3_def k2_def k1_def status_keeps)
  then obtain k5 where k5: "RTS_UNSET d RTS_RECEIVING k4 = Some k5" "kernel_ok k5" "sched_frame k4 k5"
      "p_rts_flags (procs k5 d) = p_rts_flags (procs k4 d) AND NOT RTS_RECEIVING"
    using kernel_ok_RTS_UNSET [OF _ d, of k4 RTS_RECEIVING] by blast
  have e: "p_endpoint (procs k1 c) = p_endpoint (procs k c)" "p_rts_flags (procs k1 x) = p_rts_flags (procs k x)" for x
    using status_procs(3) [of d k c] by (auto simp: k1_def)
  have "send_direct c d m f k = Some (OK, k5)"
    using k5(1) unfolding send_direct_def Let_def k1_def [symmetric] k2_def [symmetric] k3_def [symmetric]
    by (simp add: k4_def)
  moreover have "p_delivermsg (procs k5 d) = m\<lparr>m_source := p_endpoint (procs k c)\<rparr>"
    using e by (simp add: sched_frame_fields [OF k5(3)] k4_def k3_def k2_def)
  moreover have "misc k4 d = (if has (misc k3 d) MF_REPLY_PEND then misc k3 d AND NOT MF_REPLY_PEND else misc k3 d)"
      "misc k3 d = misc k1 d OR MF_DELIVERMSG"
    by (simp_all add: k4_def k3_def k2_def)
  then have "has (misc k5 d) MF_DELIVERMSG" "\<not> has (misc k5 d) MF_REPLY_PEND"
    by (auto simp: sched_frame_fields [OF k5(3)])
  moreover have "p_rts_flags (procs k5 d) = p_rts_flags (procs k d) AND NOT RTS_RECEIVING"
    using k5(4) e(2) by (simp add: k4_def k3_def k2_def)
  ultimately show ?thesis using k5(2) by blast
qed

section \<open>Properties\<close>

text \<open>A kernel in which process 1 runs: 2 is runnable too, 3 waits for a message from anyone.\<close>

definition ipc_kernel :: kernel where
  "ipc_kernel = demo_kernel\<lparr>proc_ptr := 1\<rparr>"

lemma ipc_kernel_sel [simp]:
  "procs ipc_kernel = demo_proc" "privs ipc_kernel = demo_priv" "proc_ptr ipc_kernel = 1"
  "user_msg ipc_kernel = (\<lambda>_ _. Some no_message)"
  by (simp_all add: ipc_kernel_def) (simp add: demo_kernel_def)

lemma demo_is_proc [simp]: "is_proc 1" "is_proc 2" "is_proc 3"
  by (simp_all add: is_proc_def isokprocn_def NR_TASKS_def NR_PROCS_def)

lemma ipc_kernel_ok: "kernel_ok ipc_kernel"
proof -
  have "runnables ipc_kernel = runnables demo_kernel" by (simp add: runnables_def proc_is_runnable_def)
  then have "sched_inv demo_queues ipc_kernel"
    using demo_inv
    by (simp add: sched_inv_def queues_hold_def wf_kernel_def wf_proc_def proc_ptr_ok_def
        queue_index_def priv_of_def run_queues_def next_of_def [abs_def] ticket_sum_def ipc_kernel_def)
  moreover have "well_linked (demo_proc p)" if "is_proc p" for p
    using that by (auto simp: well_linked_def demo_proc_def is_proc_def isokprocn_def NR_TASKS_def NR_PROCS_def
        ENDPOINT_P_def MAX_NR_TASKS_def ENDPOINT_GENERATION_SIZE_def IDLE_def idle_proc_def)
  then have "links_ok ipc_kernel" by (simp add: links_ok_def)
  ultimately show ?thesis by (auto simp: kernel_ok_def)
qed

lemma demo_isokendpt:
  "isokendpt ipc_kernel 1 = Some 1" "isokendpt ipc_kernel 2 = Some 2" "isokendpt ipc_kernel 3 = Some 3"
  by (simp_all add: isokendpt_def ENDPOINT_P_def MAX_NR_TASKS_def ENDPOINT_GENERATION_SIZE_def
      isokprocn_def NR_TASKS_def NR_PROCS_def isemptyn_def demo_proc_def RTS_defs idle_proc_def)

text \<open>C10. Whatever the trap, its arguments and the contents of user memory: when \<open>do_ipc\<close> comes back,
  the run queues hold exactly the runnable processes, \<open>total_tickets\<close> counts their tickets, and
  all pointers of the process table still point into it.
\<close>

theorem ipc_keeps_kernel_ok:
  assumes "kernel_ok k" and "do_ipc lethal r1 r2 r3 k = Some (r, k')"
  shows "kernel_ok k'"
  by (rule do_ipc_keeps [OF assms(2,1)])

theorem ipc_keeps_kernel_ok_witness:
  "kernel_ok (upd_proc 1 (\<lambda>r. r\<lparr>p_accounting := (p_accounting r)\<lparr>ipc_sync := ipc_sync (p_accounting r) + 1\<rparr>\<rparr>)
     (ipc_kernel\<lparr>kbill_ipc := 1\<rparr>))" (is "kernel_ok ?k'")
proof -
  have P2: "ENDPOINT_P 2 = 2" by (simp add: endpoint_defs)
  have e: "isokendpt ?k' 2 = Some 2"
    by (simp add: isokendpt_def P2 Let_def isemptyn_def isokprocn_def NR_TASKS_def NR_PROCS_def
        demo_proc_def RTS_SLOT_FREE_def idle_proc_def)
  have p: "p_rts_flags (demo_proc 1) = 0" "p_misc_flags (demo_proc 1) = 0" "p_rts_flags (demo_proc 2) = 0"
      "p_priv (demo_proc x) = Some (if x = idle_proc then 64 else 0)" for x
    by (simp_all add: demo_proc_def)
  from P2 have "do_ipc (\<lambda>_. False) SENDNB 2 0 ipc_kernel = Some (ENOTREADY, ?k')"
    using e p
    by (simp add: do_ipc_def do_ipc_trace_def do_sync_ipc_def Let_def RTS_ISSET_def RTS_defs has_def
        may_send_to_def nr_to_id_def priv_of_def demo_priv_def idle_proc_def ipc_call_named_def
        mini_send_def WILLRECEIVE_def NON_BLOCKING_def iskerneln_def)
      (simp add: SENDNB_def IPCNO_HIGHEST_def SENDA_def ANY_def ENDPOINT_SLOT_TOP_def
        ENDPOINT_GENERATION_SIZE_def MAX_NR_TASKS_def)
  from ipc_keeps_kernel_ok [OF ipc_kernel_ok this] show ?thesis .
qed

text \<open>C13. Rendezvous: sending to a process that waits for the sender (or for anyone) stores the
  message in the receiver, stamped with the sender's endpoint, announces it with
  \<open>MF_DELIVERMSG\<close> and ends the receiver's wait; the call returns \<open>OK\<close> without blocking.
\<close>

theorem send_rendezvous:
  assumes "kernel_ok k" and "is_proc (ENDPOINT_P e)" and "\<not> RTS_ISSET k (ENDPOINT_P e) RTS_NO_ENDPOINT"
    and "WILLRECEIVE k (ENDPOINT_P e) (p_endpoint (procs k c))"
    and "\<not> has (misc k (ENDPOINT_P e)) MF_DELIVERMSG" and "user_msg k c a = Some m"
    and "\<not> has f FROM_KERNEL"
  shows "\<exists>k'. mini_send c e (User_Ptr a) f k = Some (OK, k') \<and> kernel_ok k' \<and>
    p_delivermsg (procs k' (ENDPOINT_P e)) = m\<lparr>m_source := p_endpoint (procs k c)\<rparr> \<and>
    has (misc k' (ENDPOINT_P e)) MF_DELIVERMSG \<and> \<not> has (misc k' (ENDPOINT_P e)) MF_REPLY_PEND \<and>
    p_rts_flags (procs k' (ENDPOINT_P e)) = p_rts_flags (procs k (ENDPOINT_P e)) AND NOT RTS_RECEIVING"
  using send_direct_delivers [OF assms(1,2), of c m f] assms(3-)
  by (simp add: mini_send_def Let_def fetch_msg_def)

theorem send_rendezvous_witness:
  "\<exists>k'. mini_send 1 3 (User_Ptr 0) 0 ipc_kernel = Some (OK, k') \<and>
     m_source (p_delivermsg (procs k' 3)) = 1 \<and> p_rts_flags (procs k' 3) = 0"
proof -
  have e: "ENDPOINT_P 3 = 3" by (simp add: endpoint_defs)
  have "is_proc (ENDPOINT_P 3)" "\<not> RTS_ISSET ipc_kernel (ENDPOINT_P 3) RTS_NO_ENDPOINT"
      "WILLRECEIVE ipc_kernel (ENDPOINT_P 3) (p_endpoint (procs ipc_kernel 1))"
      "\<not> has (misc ipc_kernel (ENDPOINT_P 3)) MF_DELIVERMSG" "user_msg ipc_kernel 1 0 = Some no_message"
      "\<not> has (0 :: 32 word) FROM_KERNEL"
    by (simp_all add: e RTS_ISSET_def RTS_defs demo_proc_def WILLRECEIVE_def has_def idle_proc_def)
  from send_rendezvous [OF ipc_kernel_ok this] show ?thesis
    by (auto simp: e demo_proc_def idle_proc_def RTS_defs)
qed

text \<open>A send that has to wait: unless it would close a deadlock, the sender blocks
  (\<open>RTS_SENDING\<close>), its message is kept, and it becomes the last of the destination's caller
  queue, behind all who waited before.
\<close>

theorem send_waits_in_line:
  assumes "kernel_ok k" and "is_proc c" and "\<not> RTS_ISSET k (ENDPOINT_P e) RTS_NO_ENDPOINT"
    and "\<not> WILLRECEIVE k (ENDPOINT_P e) (p_endpoint (procs k c))"
    and "deadlock k SEND c e = Some 0" and "user_msg k c a = Some m"
    and "caller_chain k (ENDPOINT_P e) qs" and "c \<notin> set qs" and "p_q_link (procs k c) = None"
  shows "\<exists>k'. mini_send c e (User_Ptr a) 0 k = Some (OK, k') \<and> kernel_ok k' \<and>
    caller_chain k' (ENDPOINT_P e) (qs @ [c]) \<and> p_sendmsg (procs k' c) = m \<and>
    p_sendto_e (procs k' c) = e \<and>
    p_rts_flags (procs k' c) = p_rts_flags (procs k c) OR RTS_SENDING"
  using send_block_appends [OF assms(1,2,7,8,9), of e m 0] assms(3-6)
  by (auto simp: mini_send_def Let_def fetch_msg_def has_def)

theorem send_waits_in_line_witness:
  "\<exists>k'. mini_send 1 2 (User_Ptr 0) 0 ipc_kernel = Some (OK, k') \<and> kernel_ok k' \<and> caller_chain k' 2 [1]"
proof -
  have e: "ENDPOINT_P 2 = 2" by (simp add: endpoint_defs)
  have b: "P_BLOCKEDON ipc_kernel 2 = NONE" by (simp add: P_BLOCKEDON_def has_def demo_proc_def)
  have "deadlock ipc_kernel SEND 1 2 = Some 0"
    using b demo_isokendpt(2)
    by (simp add: deadlock_def deadlock_from.simps [of ipc_kernel SEND 1 2 "Suc 0"] proc_ptr_ok_def
        RTS_ISSET_def RTS_defs demo_proc_def endpoint_defs)
  moreover have "\<not> RTS_ISSET ipc_kernel (ENDPOINT_P 2) RTS_NO_ENDPOINT"
      "\<not> WILLRECEIVE ipc_kernel (ENDPOINT_P 2) (p_endpoint (procs ipc_kernel 1))"
      "user_msg ipc_kernel 1 0 = Some no_message" "caller_chain ipc_kernel (ENDPOINT_P 2) []"
      "1 \<notin> set []" "p_q_link (procs ipc_kernel 1) = None"
    by (simp_all add: e RTS_ISSET_def RTS_defs demo_proc_def WILLRECEIVE_def caller_chain_def)
  ultimately show ?thesis
    using send_waits_in_line [OF ipc_kernel_ok demo_is_proc(1)] e by (metis append_Nil)
qed







end
