(* ===== verification/Kernel_Calls.thy ===== *)
theory Kernel_Calls
  imports Kernel_IPC
begin

text \<open>
  Kernel calls (\<^verbatim>\<open>kernel/system.c\<close> and \<^verbatim>\<open>kernel/system/\<close>): allocation of privilege structures and
  send masks, clearing the message queues of a dying process, scheduling on behalf of a
  user-space scheduler, forking with the lottery tickets, process control and the signal calls.

  A kernel call takes the fields of its request message as arguments and returns its result
  code with the fields of the reply it writes, if any. \<open>None\<close> is a panic, a failed assertion, a
  null dereference, an access outside a table or a loop that does not end.
\<close>

section \<open>Constants\<close>

definition NR_BOOT_PROCS :: int where "NR_BOOT_PROCS = NR_TASKS + 10 + 1"
definition NR_STATIC_PRIV_IDS :: int where "NR_STATIC_PRIV_IDS = NR_BOOT_PROCS"
definition static_priv_id :: "int \<Rightarrow> int" where "static_priv_id n = NR_TASKS + n"
definition ROOT_USR_PROC_NR :: int where "ROOT_USR_PROC_NR = 10"
definition USER_PRIV_ID :: int where "USER_PRIV_ID = static_priv_id ROOT_USR_PROC_NR"
definition TASK_Q :: int where "TASK_Q = 0"
definition PROC_NAME_LEN :: nat where "PROC_NAME_LEN = 16"
definition PFF_VMINHIBIT :: "32 word" where "PFF_VMINHIBIT = 1"
definition RC_STOP :: int where "RC_STOP = 0"
definition RC_RESUME :: int where "RC_RESUME = 1"
definition RC_DELAY :: "32 word" where "RC_DELAY = 1"
definition SCHEDCTL_FLAG_KERNEL :: "32 word" where "SCHEDCTL_FLAG_KERNEL = 1"
definition SYS_STATE_CLEAR_IPC_REFS :: int where "SYS_STATE_CLEAR_IPC_REFS = 1"
definition VT_VIRTUAL :: int where "VT_VIRTUAL = 1"
definition VT_PROF :: int where "VT_PROF = 2"

definition is_static_priv_id :: "int \<Rightarrow> bool" where
  "is_static_priv_id n \<longleftrightarrow> 0 \<le> n \<and> n < NR_STATIC_PRIV_IDS"

section \<open>Privilege structures and send masks\<close>

definition take_priv :: "int \<Rightarrow> nat \<Rightarrow> kernel \<Rightarrow> kernel" where
  "take_priv rc sp k =
     upd_priv sp (\<lambda>pr. pr\<lparr>s_proc_nr := p_nr (procs k rc)\<rparr>)
       (upd_proc rc (\<lambda>r. r\<lparr>p_priv := Some sp\<rparr>) k)"

definition get_priv :: "int \<Rightarrow> int \<Rightarrow> kernel \<Rightarrow> code \<times> kernel" where
  "get_priv rc priv_id k =
     (if priv_id = NULL_PRIV_ID then
        (case filter (\<lambda>sp. s_proc_nr (privs k sp) = NONE)
                [nat NR_STATIC_PRIV_IDS..<nat NR_SYS_PROCS] of
           [] \<Rightarrow> (ENOSPC, k)
         | sp # _ \<Rightarrow> (OK, take_priv rc sp k))
      else if \<not> is_static_priv_id priv_id then (EINVAL, k)
      else if s_proc_nr (privs k (nat priv_id)) \<noteq> NONE then (EBUSY, k)
      else (OK, take_priv rc (nat priv_id) k))"

definition set_ipc_to :: "nat \<Rightarrow> int \<Rightarrow> bool \<Rightarrow> kernel \<Rightarrow> kernel" where
  "set_ipc_to i j b = upd_priv i (\<lambda>pr. pr\<lparr>s_ipc_to := (s_ipc_to pr)(j := b)\<rparr>)"

definition set_sendto_bit :: "int \<Rightarrow> nat \<Rightarrow> kernel \<Rightarrow> kernel option" where
  "set_sendto_bit rp i k = do {
     p \<leftarrow> p_priv (procs k rp);
     let own = s_id (privs k p);
     if id_to_nr k (int i) = NONE \<or> own = int i then Some (set_ipc_to p (int i) False k)
     else do {
       let k1 = set_ipc_to p (int i) True k;
       Some (if has (s_trap_mask (privs k1 i)) (NOT (push_bit (nat RECEIVE) 1))
             then set_ipc_to i own True k1 else k1)
     }
   }"

definition unset_sendto_bit :: "int \<Rightarrow> nat \<Rightarrow> kernel \<Rightarrow> kernel option" where
  "unset_sendto_bit rp i k = do {
     p \<leftarrow> p_priv (procs k rp);
     let k1 = set_ipc_to p (int i) False k;
     Some (set_ipc_to i (s_id (privs k1 p)) False k1)
   }"

fun fill_sendto_loop :: "int \<Rightarrow> (int \<Rightarrow> bool) \<Rightarrow> nat list \<Rightarrow> kernel \<Rightarrow> kernel option" where
  "fill_sendto_loop rp m [] k = Some k"
| "fill_sendto_loop rp m (i # is) k =
     do { k1 \<leftarrow> (if m (int i) then set_sendto_bit rp i k else unset_sendto_bit rp i k);
          fill_sendto_loop rp m is k1 }"

definition fill_sendto_mask :: "int \<Rightarrow> (int \<Rightarrow> bool) \<Rightarrow> kernel \<Rightarrow> kernel option" where
  "fill_sendto_mask rp m k = fill_sendto_loop rp m [0..<nat NR_SYS_PROCS] k"

section \<open>Clearing messages of a dying process\<close>

fun send_diag_loop :: "nat list \<Rightarrow> kernel \<Rightarrow> kernel option" where
  "send_diag_loop [] k = Some k"
| "send_diag_loop (i # is) k =
     (let privp = privs k i
      in if s_proc_nr privp \<noteq> NONE \<and> s_diag_sig privp
         then do { (_, k1) \<leftarrow> send_sig (p_endpoint (procs k (s_proc_nr privp))) SIGKMESS k;
                   send_diag_loop is k1 }
         else send_diag_loop is k)"

definition send_diag_sig :: "kernel \<Rightarrow> kernel option" where
  "send_diag_sig k = send_diag_loop [0..<nat NR_SYS_PROCS] k"

partial_function (option) caller_q_remove ::
  "kernel \<Rightarrow> int \<Rightarrow> int \<Rightarrow> int option \<Rightarrow> kernel option" where
  "caller_q_remove k dst rc prev =
     (case caller_xpp k dst prev of
        None \<Rightarrow> Some k
      | Some x \<Rightarrow>
          if x = rc then Some (set_caller_xpp dst prev (p_q_link (procs k x)) k)
          else caller_q_remove k dst rc (Some x))"

definition clear_ipc :: "int \<Rightarrow> kernel \<Rightarrow> kernel option" where
  "clear_ipc rc k = do {
     k1 \<leftarrow> (if RTS_ISSET k rc RTS_SENDING then do {
              target_proc \<leftarrow> isokendpt k (p_sendto_e (procs k rc));
              k' \<leftarrow> caller_q_remove k target_proc rc None;
              RTS_UNSET rc RTS_SENDING k'
            }
            else Some k);
     RTS_UNSET rc RTS_RECEIVING k1
   }"

text \<open>The loop over \<open>has_pending_asend\<close>.\<close>

partial_function (option) cancel_pending :: "int \<Rightarrow> kernel \<Rightarrow> kernel option" where
  "cancel_pending rc k =
     (case has_pending_asend k rc ANY of
        None \<Rightarrow> None
      | Some src_id \<Rightarrow>
          if src_id = NULL_PRIV_ID then Some k
          else
            (case cancel_async (id_to_nr k src_id) rc k of
               None \<Rightarrow> None
             | Some (_, k1) \<Rightarrow> cancel_pending rc k1))"

definition clear_ref :: "int \<Rightarrow> code \<Rightarrow> int \<Rightarrow> kernel \<Rightarrow> kernel option" where
  "clear_ref rc caller_ret rp k =
     (if isemptyn k rp then Some k
      else do {
        i \<leftarrow> p_priv (procs k rp);
        pc \<leftarrow> priv_of k rc;
        let k1 = upd_priv i (\<lambda>pr. pr\<lparr>s_notify_pending := (s_notify_pending pr)(s_id pc := False)\<rparr>) k;
        let k2 = upd_priv i (\<lambda>pr. pr\<lparr>s_asyn_pending := (s_asyn_pending pr)(s_id pc := False)\<rparr>) k1;
        if P_BLOCKEDON k2 rp = p_endpoint (procs k2 rc)
        then clear_ipc rp (upd_proc rp (\<lambda>r. r\<lparr>p_retreg := caller_ret\<rparr>) k2)
        else Some k2
      })"

fun clear_refs_loop :: "int \<Rightarrow> code \<Rightarrow> int list \<Rightarrow> kernel \<Rightarrow> kernel option" where
  "clear_refs_loop rc caller_ret [] k = Some k"
| "clear_refs_loop rc caller_ret (rp # rps) k =
     do { k1 \<leftarrow> clear_ref rc caller_ret rp k; clear_refs_loop rc caller_ret rps k1 }"

definition clear_ipc_refs :: "int \<Rightarrow> code \<Rightarrow> kernel \<Rightarrow> kernel option" where
  "clear_ipc_refs rc caller_ret k =
     do { k1 \<leftarrow> cancel_pending rc k; clear_refs_loop rc caller_ret [- NR_TASKS..NR_PROCS - 1] k1 }"

definition clear_endpoint :: "int \<Rightarrow> kernel \<Rightarrow> kernel option" where
  "clear_endpoint rc k =
     (if isemptyn k rc then None
      else do {
        k1 \<leftarrow> RTS_SET rc RTS_NO_ENDPOINT k;
        i \<leftarrow> p_priv (procs k1 rc);
        let k2 = (if has (s_flags (privs k1 i)) SYS_PROC
                  then upd_priv i (\<lambda>pr. pr\<lparr>s_asynsize := 0\<rparr>) k1 else k1);
        k3 \<leftarrow> clear_ipc rc k2;
        clear_ipc_refs rc EDEADSRCDST k3
      })"

definition do_statectl :: "int \<Rightarrow> int \<Rightarrow> kernel \<Rightarrow> (code \<times> kernel) option" where
  "do_statectl caller request k =
     (if request = SYS_STATE_CLEAR_IPC_REFS
      then map_option (\<lambda>k'. (OK, k')) (clear_ipc_refs caller EDEADSRCDST k)
      else Some (EINVAL, k))"

section \<open>Scheduling on behalf of a scheduler process\<close>

text \<open>\<open>int\<close> parameters; a value of \<open>-1\<close> leaves the setting alone.\<close>

definition sched_proc :: "int \<Rightarrow> int \<Rightarrow> int \<Rightarrow> kernel \<Rightarrow> (code \<times> kernel) option" where
  "sched_proc p priority quantum k =
     (if (priority < TASK_Q \<and> priority \<noteq> - 1) \<or> priority > int NR_SCHED_QUEUES then Some (EINVAL, k)
      else if quantum < 1 \<and> quantum \<noteq> - 1 then Some (EINVAL, k)
      else do {
        k1 \<leftarrow> (if proc_is_runnable k p then RTS_SET p RTS_NO_QUANTUM k else Some k);
        k2 \<leftarrow> (if proc_is_runnable k1 p then RTS_SET p RTS_NO_QUANTUM k1 else Some k1);
        let k3 = (if priority \<noteq> - 1 then upd_proc p (\<lambda>r. r\<lparr>p_priority := priority\<rparr>) k2 else k2);
        let k4 = (if quantum \<noteq> - 1
                  then upd_proc p (\<lambda>r. r\<lparr>p_quantum_size_ms := nat quantum,
                         p_cpu_time_left := tsc_per_ms k3 * nat quantum\<rparr>) k3
                  else k3);
        k5 \<leftarrow> RTS_UNSET p RTS_NO_QUANTUM k4;
        Some (OK, k5)
      })"

definition do_schedule :: "int \<Rightarrow> int \<Rightarrow> int \<Rightarrow> int \<Rightarrow> kernel \<Rightarrow> (code \<times> kernel) option" where
  "do_schedule caller endpoint priority quantum k =
     (case isokendpt k endpoint of
        None \<Rightarrow> Some (EINVAL, k)
      | Some p \<Rightarrow>
          if p_scheduler (procs k p) \<noteq> Some caller then Some (EPERM, k)
          else sched_proc p priority quantum k)"

text \<open>
  In \<open>if((r = sched_proc(...) != OK)) return r;\<close> the comparison binds tighter than the
  assignment: an error is reported as \<open>1\<close>.
\<close>

definition do_schedctl ::
  "int \<Rightarrow> 32 word \<Rightarrow> int \<Rightarrow> int \<Rightarrow> int \<Rightarrow> kernel \<Rightarrow> (code \<times> kernel) option" where
  "do_schedctl caller flags endpoint priority quantum k =
     (if has flags (NOT SCHEDCTL_FLAG_KERNEL) then Some (EINVAL, k)
      else
        (case isokendpt k endpoint of
           None \<Rightarrow> Some (EINVAL, k)
         | Some p \<Rightarrow>
             if flags AND SCHEDCTL_FLAG_KERNEL = SCHEDCTL_FLAG_KERNEL
             then do {
               (r, k1) \<leftarrow> sched_proc p priority quantum k;
               Some (if r \<noteq> OK then (Code 1, k1)
                     else (OK, upd_proc p (\<lambda>r. r\<lparr>p_scheduler := None\<rparr>) k1))
             }
             else Some (OK, upd_proc p (\<lambda>r. r\<lparr>p_scheduler := Some caller\<rparr>) k)))"

section \<open>Fork\<close>

definition fork_name :: "string \<Rightarrow> string" where
  "fork_name name =
     (if length name + length ''*F'' < PROC_NAME_LEN then name @ ''*F'' else name)"

definition fork_endpoint :: "int \<Rightarrow> int \<Rightarrow> int" where
  "fork_endpoint old slot =
     (let gen = ENDPOINT_G old + 1;
          gen = (if gen \<ge> ENDPOINT_MAX_GENERATION then 1 else gen)
      in ENDPOINT gen slot)"

text \<open>The new process structure, up to the first use of a scheduling macro.\<close>

definition fork_copy :: "proc \<Rightarrow> proc \<Rightarrow> int \<Rightarrow> proc" where
  "fork_copy rpp rpc slot =
     rpp\<lparr>p_tickets := p_tickets rpp, p_nr := slot, p_endpoint := fork_endpoint (p_endpoint rpc) slot,
         p_retreg := OK, p_user_time := 0, p_sys_time := 0,
         p_misc_flags := p_misc_flags rpp AND
           NOT (MF_VIRT_TIMER OR MF_PROF_TIMER OR MF_SC_TRACE OR MF_SPROF_SEEN OR MF_STEP),
         p_virt_left := 0, p_prof_left := 0, p_name := fork_name (p_name rpp)\<rparr>"

text \<open>The inherited privileges of a system process are taken away.\<close>

definition fork_privs :: "int \<Rightarrow> int \<Rightarrow> kernel \<Rightarrow> kernel option" where
  "fork_privs rpp rpc k = do {
     pr \<leftarrow> priv_of k rpp;
     Some (if has (s_flags pr) SYS_PROC
           then upd_proc rpc (\<lambda>r. r\<lparr>p_priv := Some (nat USER_PRIV_ID),
                  p_rts_flags := p_rts_flags r OR RTS_NO_PRIV\<rparr>) k
           else k)
   }"

text \<open>The reply holds the child's endpoint and the address of the parent's message buffer.\<close>

definition do_fork ::
  "int \<Rightarrow> int \<Rightarrow> 32 word \<Rightarrow> kernel \<Rightarrow> (code \<times> (int \<times> nat) option \<times> kernel) option" where
  "do_fork endpt slot flags k =
     (case isokendpt k endpt of
        None \<Rightarrow> Some (EINVAL, None, k)
      | Some rpp \<Rightarrow>
          let rpc = slot
          in if \<not> isokprocn rpc then None
             else if isemptyn k rpp \<or> \<not> isemptyn k rpc then Some (EINVAL, None, k)
             else if has (misc k rpp) MF_DELIVERMSG then None
             else if \<not> RTS_ISSET k rpp RTS_RECEIVING then Some (EINVAL, None, k)
             else do {
               let k1 = upd_proc rpc (\<lambda>r. fork_copy (procs k rpp) r slot) k;
               k2 \<leftarrow> RTS_SET rpc RTS_NO_QUANTUM k1;
               let k3 = upd_proc rpc (\<lambda>r. r\<lparr>p_cpu_time_left := 0, p_cycles := 0, p_kcall_cycles := 0,
                          p_kipc_cycles := 0, p_signal_received := 0\<rparr>) (reset_proc_accounting rpc k2);
               k4 \<leftarrow> fork_privs rpp rpc k3;
               let reply = (p_endpoint (procs k4 rpc), p_delivermsg_vir (procs k4 rpp));
               k5 \<leftarrow> (if has flags PFF_VMINHIBIT then RTS_SET rpc RTS_VMINHIBIT k4 else Some k4);
               k6 \<leftarrow> RTS_UNSET rpc (RTS_SIGNALED OR RTS_SIG_PENDING OR RTS_P_STOP) k5;
               Some (OK, Some reply, upd_proc rpc (\<lambda>r. r\<lparr>p_pending := {}\<rparr>) k6)
             })"

section \<open>Process control and signal calls\<close>

definition do_runctl :: "int \<Rightarrow> int \<Rightarrow> 32 word \<Rightarrow> kernel \<Rightarrow> (code \<times> kernel) option" where
  "do_runctl endpt action flags k =
     (case isokendpt k endpt of
        None \<Rightarrow> Some (EINVAL, k)
      | Some rp \<Rightarrow>
          if iskerneln rp then Some (EPERM, k)
          else
            (let delay = (action = RC_STOP \<and> has flags RC_DELAY);
                 k1 = (if delay \<and> (RTS_ISSET k rp RTS_SENDING \<or> has (misc k rp) MF_SC_DEFER)
                       then set_misc rp MF_SIG_DELAY k else k)
             in if delay \<and> has (misc k1 rp) MF_SIG_DELAY then Some (EBUSY, k1)
                else if action = RC_STOP
                then do { k2 \<leftarrow> RTS_SET rp RTS_PROC_STOP k1; Some (OK, k2) }
                else if action = RC_RESUME
                then (if \<not> RTS_ISSET k1 rp RTS_PROC_STOP then None
                      else do { k2 \<leftarrow> RTS_UNSET rp RTS_PROC_STOP k1; Some (OK, k2) })
                else Some (EINVAL, k1)))"

definition do_endksig :: "int \<Rightarrow> int \<Rightarrow> kernel \<Rightarrow> (code \<times> kernel) option" where
  "do_endksig caller endpt k =
     (case isokendpt k endpt of
        None \<Rightarrow> Some (EINVAL, k)
      | Some rp \<Rightarrow> do {
          pr \<leftarrow> priv_of k rp;
          if p_endpoint (procs k caller) \<noteq> s_sig_mgr pr then Some (EPERM, k)
          else if \<not> RTS_ISSET k rp RTS_SIG_PENDING then Some (EINVAL, k)
          else if \<not> RTS_ISSET k rp RTS_SIGNALED
          then do { k1 \<leftarrow> RTS_UNSET rp RTS_SIG_PENDING k; Some (OK, k1) }
          else Some (OK, k)
        })"

text \<open>The reply: the endpoint of the signaled process and its pending signals (\<open>None\<close>: the map
  of the message is left alone).\<close>

fun getksig_loop ::
  "int \<Rightarrow> int list \<Rightarrow> kernel \<Rightarrow> (code \<times> (int \<times> signal set option) \<times> kernel) option" where
  "getksig_loop caller [] k = Some (OK, (NONE, None), k)"
| "getksig_loop caller (rp # rps) k =
     (if \<not> RTS_ISSET k rp RTS_SIGNALED then getksig_loop caller rps k
      else do {
        pr \<leftarrow> priv_of k rp;
        if p_endpoint (procs k caller) \<noteq> s_sig_mgr pr then getksig_loop caller rps k
        else do {
          let reply = (p_endpoint (procs k rp), Some (p_pending (procs k rp)));
          k1 \<leftarrow> RTS_UNSET rp RTS_SIGNALED (upd_proc rp (\<lambda>r. r\<lparr>p_pending := {}\<rparr>) k);
          Some (OK, reply, k1)
        }
      })"

definition do_getksig ::
  "int \<Rightarrow> kernel \<Rightarrow> (code \<times> (int \<times> signal set option) \<times> kernel) option" where
  "do_getksig caller k = getksig_loop caller [0..NR_PROCS - 1] k"

text \<open>The number of signals \<open>nsig\<close> and the numbering \<open>signal_of\<close> come from a header outside the
  sources.\<close>

definition do_kill ::
  "(signal \<Rightarrow> bool) \<Rightarrow> int \<Rightarrow> (int \<Rightarrow> signal) \<Rightarrow> int \<Rightarrow> int \<Rightarrow> kernel \<Rightarrow> (code \<times> kernel) option" where
  "do_kill lethal nsig signal_of endpt sig_nr k =
     (case isokendpt k endpt of
        None \<Rightarrow> Some (EINVAL, k)
      | Some proc_nr \<Rightarrow>
          if sig_nr \<ge> nsig then Some (EINVAL, k)
          else if iskerneln proc_nr then Some (EPERM, k)
          else do { k1 \<leftarrow> cause_sig lethal proc_nr (signal_of sig_nr) k; Some (OK, k1) })"

definition do_exit :: "(signal \<Rightarrow> bool) \<Rightarrow> int \<Rightarrow> kernel \<Rightarrow> (code \<times> kernel) option" where
  "do_exit lethal caller k =
     do { k1 \<leftarrow> cause_sig lethal (p_nr (procs k caller)) SIGABRT k; Some (EDONTREPLY, k1) }"

section \<open>Virtual timers\<close>

definition vt_flag :: "int \<Rightarrow> 32 word" where
  "vt_flag which = (if which = VT_VIRTUAL then MF_VIRT_TIMER else MF_PROF_TIMER)"

definition vt_left :: "int \<Rightarrow> proc \<Rightarrow> clock_t" where
  "vt_left which r = (if which = VT_VIRTUAL then p_virt_left r else p_prof_left r)"

definition set_vt_left :: "int \<Rightarrow> clock_t \<Rightarrow> proc \<Rightarrow> proc" where
  "set_vt_left which v r =
     (if which = VT_VIRTUAL then r\<lparr>p_virt_left := v\<rparr> else r\<lparr>p_prof_left := v\<rparr>)"

definition do_vtimer ::
  "int \<Rightarrow> int \<Rightarrow> bool \<Rightarrow> int \<Rightarrow> int \<Rightarrow> kernel \<Rightarrow> (code \<times> clock_t option \<times> kernel) option" where
  "do_vtimer caller which sets value endpt k = do {
     pr \<leftarrow> priv_of k caller;
     if \<not> has (s_flags pr) SYS_PROC then Some (EPERM, None, k)
     else if which \<noteq> VT_VIRTUAL \<and> which \<noteq> VT_PROF then Some (EINVAL, None, k)
     else
       (case isokendpt k (if endpt = SELF then p_endpoint (procs k caller) else endpt) of
          None \<Rightarrow> Some (EINVAL, None, k)
        | Some rp \<Rightarrow>
            let old_value = (if has (misc k rp) (vt_flag which) then vt_left which (procs k rp) else 0);
                k1 = (if \<not> sets then k
                      else if value > 0
                      then set_misc rp (vt_flag which)
                             (upd_proc rp (set_vt_left which (word_of_int value)) (clear_misc rp (vt_flag which) k))
                      else upd_proc rp (set_vt_left which 0) (clear_misc rp (vt_flag which) k))
            in Some (OK, Some old_value, k1))
   }"

definition vtimer_expire ::
  "(signal \<Rightarrow> bool) \<Rightarrow> int \<Rightarrow> signal \<Rightarrow> int \<Rightarrow> kernel \<Rightarrow> kernel option" where
  "vtimer_expire lethal which sig_nr rp k =
     (if has (misc k rp) (vt_flag which) \<and> vt_left which (procs k rp) = 0
      then cause_sig lethal (p_nr (procs k rp)) sig_nr
             (upd_proc rp (set_vt_left which 0) (clear_misc rp (vt_flag which) k))
      else Some k)"

definition vtimer_check :: "(signal \<Rightarrow> bool) \<Rightarrow> int \<Rightarrow> kernel \<Rightarrow> kernel option" where
  "vtimer_check lethal rp k = do {
     k1 \<leftarrow> vtimer_expire lethal VT_VIRTUAL SIGVTALRM rp k;
     vtimer_expire lethal VT_PROF SIGPROF rp k1
   }"

section \<open>Replacing a blocked process\<close>

text \<open>A process that is on no run queue may change freely, as long as it stays blocked and well formed.\<close>

definition well_blocked :: "kernel \<Rightarrow> int \<Rightarrow> proc \<Rightarrow> bool" where
  "well_blocked k p r \<longleftrightarrow>
     p_rts_flags r \<noteq> 0 \<and> p_magic r = PMAGIC \<and> 0 \<le> p_priority r \<and> p_priority r < int NR_SCHED_QUEUES \<and>
     0 \<le> p_tickets r \<and>
     (\<exists>i. p_priv r = Some i \<and> (iskerneln p \<longrightarrow> s_stack_guard (privs k i) = STACK_GUARD)) \<and>
     well_linked r"

lemma sched_inv_queued: "sched_inv L k \<Longrightarrow> queued L = runnables k"
  by (simp add: sched_inv_def queues_hold_def)

lemma kernel_ok_wf:
  assumes "kernel_ok k" "is_proc p"
  shows "p_magic (procs k p) = PMAGIC" "0 \<le> p_priority (procs k p)" "p_priority (procs k p) < int NR_SCHED_QUEUES"
    "0 \<le> p_tickets (procs k p)"
    "\<exists>i. p_priv (procs k p) = Some i \<and> (iskerneln p \<longrightarrow> s_stack_guard (privs k i) = STACK_GUARD)"
proof -
  obtain L where "wf_kernel k" using assms(1) by (auto simp: kernel_ok_def sched_inv_def queues_hold_def)
  then have "wf_proc k p" using assms(2) by (simp add: wf_kernel_def)
  then show "p_magic (procs k p) = PMAGIC" "0 \<le> p_priority (procs k p)" "p_priority (procs k p) < int NR_SCHED_QUEUES"
    "0 \<le> p_tickets (procs k p)"
    "\<exists>i. p_priv (procs k p) = Some i \<and> (iskerneln p \<longrightarrow> s_stack_guard (privs k i) = STACK_GUARD)"
    by (auto simp: wf_proc_def proc_ptr_ok_def queue_index_def Let_def priv_of_def split: if_splits)
qed

lemma kernel_ok_well_blocked:
  assumes "kernel_ok k" "is_proc p" "\<not> proc_is_runnable k p"
  shows "well_blocked k p (procs k p)"
  using kernel_ok_wf [OF assms(1,2)] kernel_ok_links [OF assms(1,2)] assms(3)
  by (simp add: well_blocked_def proc_is_runnable_def)

lemma kernel_ok_blocked_upd:
  assumes ok: "kernel_ok k" and p: "is_proc p" "\<not> proc_is_runnable k p"
    and r: "well_blocked k p (f (procs k p))"
  shows "kernel_ok (upd_proc p f k)"
proof -
  obtain L where L: "sched_inv L k" "links_ok k" using ok by (auto simp: kernel_ok_def)
  define k' where "k' = upd_proc p f k"
  have other: "procs k' x = procs k x" if "x \<noteq> p" for x using that by (simp add: k'_def)
  have new: "procs k' p = f (procs k p)" by (simp add: k'_def)
  have run: "runnables k' = runnables k"
  proof (rule set_eqI)
    fix x
    show "x \<in> runnables k' \<longleftrightarrow> x \<in> runnables k"
      using p(2) r other [of x] new
      by (cases "x = p") (simp_all add: runnables_def proc_is_runnable_def well_blocked_def)
  qed
  have out: "p \<notin> queued L" using sched_inv_queued [OF L(1)] p(2) by (simp add: runnables_def)
  have parts: "wf_kernel k" "run_queues L k" "runnables k \<subseteq> Collect is_proc" "total_tickets k = ticket_sum L k"
    using L(1) by (auto simp: sched_inv_def queues_hold_def)
  have "run_queues L k'"
    by (rule run_queues_cong [OF parts(2)]) (use out other in \<open>auto simp: k'_def next_of_def\<close>)
  moreover have "wf_kernel k'"
  proof -
    have "wf_proc k' x" if "is_proc x" for x
    proof (cases "x = p")
      case True
      then show ?thesis using r new
        by (auto simp: well_blocked_def wf_proc_def proc_ptr_ok_def queue_index_def priv_of_def k'_def Let_def)
    next
      case False
      then have "wf_proc k' x = wf_proc k x"
        by (simp add: k'_def wf_proc_def proc_ptr_ok_def queue_index_def priv_of_def Let_def)
      then show ?thesis using parts(1) that by (simp add: wf_kernel_def)
    qed
    then show ?thesis using parts(1) by (simp add: wf_kernel_def k'_def)
  qed
  moreover have "ticket_sum L k' = ticket_sum L k"
    unfolding ticket_sum_def
  proof (rule sum.cong [OF refl])
    fix q assume q: "q \<in> {..<NR_SCHED_QUEUES}"
    then have "x \<noteq> p" if "x \<in> set (L q)" for x using out that by (auto simp: queued_def)
    then have "map (\<lambda>x. p_tickets (procs k' x)) (L q) = map (\<lambda>x. p_tickets (procs k x)) (L q)"
      using other by simp
    then show "(\<Sum>x\<leftarrow>L q. p_tickets (procs k' x)) = (\<Sum>x\<leftarrow>L q. p_tickets (procs k x))" by (simp only:)
  qed
  ultimately have "sched_inv L k'"
    using L(1) parts run by (simp add: sched_inv_def queues_hold_def) (simp add: k'_def)
  moreover have "links_ok k'"
    unfolding links_ok_def
  proof (intro allI impI)
    fix x assume x: "is_proc x"
    show "well_linked (procs k' x)"
    proof (cases "x = p")
      case True
      then show ?thesis using r new by (simp add: well_blocked_def)
    next
      case False
      then show ?thesis using kernel_ok_links [OF ok x] other by simp
    qed
  qed
  ultimately show ?thesis by (auto simp: kernel_ok_def k'_def)
qed

section \<open>Kernel calls keep the invariant\<close>

lemma set_ipc_to_keeps [keeps]: "kernel_ok k \<Longrightarrow> kernel_ok (set_ipc_to i j b k)"
  by (auto simp: set_ipc_to_def intro!: kernel_ok_upd_priv)

lemma sendto_bit_keeps [keeps]:
  "set_sendto_bit rp i k = Some k' \<Longrightarrow> kernel_ok k \<Longrightarrow> kernel_ok k'"
  "unset_sendto_bit rp i k = Some k' \<Longrightarrow> kernel_ok k \<Longrightarrow> kernel_ok k'"
  by (auto simp: set_sendto_bit_def unset_sendto_bit_def Let_def bind_eq_Some_conv
      intro!: set_ipc_to_keeps split: if_splits)

lemma fill_sendto_keeps [keeps]:
  "fill_sendto_loop rp m is k = Some k' \<Longrightarrow> kernel_ok k \<Longrightarrow> kernel_ok k'"
  by (induction "is" arbitrary: k) (auto simp: bind_eq_Some_conv split: if_splits dest: sendto_bit_keeps)

lemma send_diag_keeps [keeps]:
  "send_diag_loop is k = Some k' \<Longrightarrow> kernel_ok k \<Longrightarrow> kernel_ok k'"
  by (induction "is" arbitrary: k)
    (auto simp: Let_def bind_eq_Some_conv split: if_splits dest: send_sig_keeps)

lemma get_priv_keeps:
  assumes "get_priv rc i k = (c, k')" "kernel_ok k" "is_proc rc" "\<not> iskerneln rc" "\<not> proc_is_runnable k rc"
  shows "kernel_ok k'"
proof -
  have "well_blocked k rc (procs k rc)" by (rule kernel_ok_well_blocked [OF assms(2,3,5)])
  then have "kernel_ok (upd_proc rc (\<lambda>r. r\<lparr>p_priv := Some sp\<rparr>) k)" for sp
    by (intro kernel_ok_blocked_upd [OF assms(2,3,5)]) (simp add: well_blocked_def assms(4))
  then have "kernel_ok (take_priv rc sp k)" for sp
    unfolding take_priv_def by (intro kernel_ok_upd_priv) simp_all
  then show ?thesis using assms(1,2) by (auto simp: get_priv_def split: if_splits list.splits)
qed

lemma caller_q_remove_keeps:
  assumes "caller_q_remove k d c prev = Some k'" "kernel_ok k" "is_proc d" "\<forall>x. prev = Some x \<longrightarrow> is_proc x"
  shows "kernel_ok k'"
proof -
  have "kernel_ok k \<longrightarrow> is_proc d \<longrightarrow> (\<forall>x. prev = Some x \<longrightarrow> is_proc x) \<longrightarrow> kernel_ok k'"
  proof (rule caller_q_remove.raw_induct [where P = "\<lambda>k d c prev k'. kernel_ok k \<longrightarrow> is_proc d \<longrightarrow>
        (\<forall>x. prev = Some x \<longrightarrow> is_proc x) \<longrightarrow> kernel_ok k'", OF _ assms(1)], intro impI)
    fix cq :: "kernel \<Rightarrow> int \<Rightarrow> int \<Rightarrow> int option \<Rightarrow> kernel option" and k d c prev k'
    assume IH: "\<And>k d c prev k'. cq k d c prev = Some k' \<Longrightarrow> kernel_ok k \<longrightarrow> is_proc d \<longrightarrow>
          (\<forall>x. prev = Some x \<longrightarrow> is_proc x) \<longrightarrow> kernel_ok k'"
      and body: "(case caller_xpp k d prev of
          None \<Rightarrow> Some k
        | Some x \<Rightarrow> if x = c then Some (set_caller_xpp d prev (p_q_link (procs k x)) k)
                     else cq k d c (Some x)) = Some k'"
      and ok: "kernel_ok k" and d: "is_proc d" and prev: "\<forall>x. prev = Some x \<longrightarrow> is_proc x"
    show "kernel_ok k'"
    proof (cases "caller_xpp k d prev")
      case None
      then show ?thesis using body ok by simp
    next
      case (Some s)
      have s: "is_proc s" by (rule caller_xpp_is_proc [OF ok d _ Some]) (use prev in blast)
      have "kernel_ok (set_caller_xpp d prev (p_q_link (procs k s)) k)"
        by (rule set_caller_xpp_keeps [OF ok kernel_ok_links(3) [OF ok s]])
      then show ?thesis using body Some IH [of k d c "Some s" k'] ok d s by (simp split: if_splits)
    qed
  qed
  then show ?thesis using assms by blast
qed

lemma clear_ipc_keeps [keeps]:
  assumes "clear_ipc rc k = Some k'" "kernel_ok k" "is_proc rc"
  shows "kernel_ok k'"
proof -
  from assms(1) obtain k1 where k1: "(if RTS_ISSET k rc RTS_SENDING then do {
              target_proc \<leftarrow> isokendpt k (p_sendto_e (procs k rc));
              k' \<leftarrow> caller_q_remove k target_proc rc None;
              RTS_UNSET rc RTS_SENDING k'
            }
            else Some k) = Some k1" "RTS_UNSET rc RTS_RECEIVING k1 = Some k'"
    by (auto simp: clear_ipc_def bind_eq_Some_conv)
  have "kernel_ok k1"
    using k1(1) assms(2,3)
    by (auto simp: bind_eq_Some_conv split: if_splits
        elim!: RTS_UNSET_keeps caller_q_remove_keeps intro: isokendpt_is_proc)
  then show ?thesis using RTS_UNSET_keeps [OF k1(2) _ assms(3)] by blast
qed

lemma cancel_entry_keeps:
  "cancel_entry sp dp t i (n, d, k) = Some (n', d', k') \<Longrightarrow> kernel_ok k \<Longrightarrow> kernel_ok k'"
  by (auto simp: cancel_entry_def Let_def split: option.splits if_splits elim!: A_INSRT_keeps)

lemma cancel_loop_keeps:
  assumes "kernel_ok (snd (snd st))"
  shows "case cancel_loop sp dp t is st of Inl k \<Rightarrow> kernel_ok k | Inr (n, d, k) \<Rightarrow> kernel_ok k"
  using assms
proof (induction "is" arbitrary: st)
  case Nil
  then show ?case by (simp add: case_prod_beta)
next
  case (Cons i "is")
  show ?case
  proof (cases "cancel_entry sp dp t i st")
    case None
    then show ?thesis using Cons.prems by simp
  next
    case (Some st')
    have "kernel_ok (snd (snd st'))"
      using cancel_entry_keeps [of sp dp t i "fst st" "fst (snd st)" "snd (snd st)" "fst st'" "fst (snd st')"]
        Some Cons.prems by simp
    then show ?thesis using Cons.IH Some by simp
  qed
qed

lemma cancel_async_keeps [keeps]:
  assumes "cancel_async sp dp k = Some (c, k')" "kernel_ok k"
  shows "kernel_ok k'"
proof (cases "p_priv (procs k sp)")
  case None
  then show ?thesis using assms(1) by (simp add: cancel_async_def)
next
  case (Some pi)
  define n where "n = s_asynsize (privs k pi)"
  define tv where "tv = s_asyntab (privs k pi)"
  show ?thesis
  proof (cases "has (s_flags (privs k pi)) SYS_PROC")
    case False
    then show ?thesis using assms Some by (simp add: cancel_async_def Let_def)
  next
    case True
    then obtain k1 where k1: "set_asyn_pending dp (s_id (privs k pi)) False (set_asyntab pi (- 1) 0 k) = Some k1"
      using assms(1) Some by (auto simp: cancel_async_def Let_def bind_eq_Some_conv)
    have ok1: "kernel_ok k1" by (rule set_asyn_pending_keeps [OF k1 set_asyntab_keeps [OF assms(2)]])
    have loop: "case cancel_loop sp dp tv [0..<n] (False, True, k1) of Inl k \<Rightarrow> kernel_ok k | Inr (n, d, k) \<Rightarrow> kernel_ok k"
      by (rule cancel_loop_keeps) (simp add: ok1)
    show ?thesis
      using assms(1) Some True k1 ok1 loop
      by (auto simp: cancel_async_def Let_def bind_eq_Some_conv simp flip: n_def tv_def
          split: if_splits sum.splits prod.splits intro: set_asyntab_keeps dest: mini_notify_keeps)
  qed
qed

lemma cancel_pending_keeps:
  assumes "cancel_pending rc k = Some k'" "kernel_ok k"
  shows "kernel_ok k'"
proof -
  have "kernel_ok k \<longrightarrow> kernel_ok k'"
    by (rule cancel_pending.raw_induct [where P = "\<lambda>rc k k'. kernel_ok k \<longrightarrow> kernel_ok k'", OF _ assms(1)])
      (auto split: option.splits if_splits dest: cancel_async_keeps)
  then show ?thesis using assms(2) by blast
qed

lemma clear_ref_keeps:
  assumes "clear_ref rc c rp k = Some k'" "kernel_ok k" "is_proc rp"
  shows "kernel_ok k'"
proof -
  have up: "kernel_ok (upd_priv i (\<lambda>pr. pr\<lparr>s_asyn_pending := A pr\<rparr>)
      (upd_priv i (\<lambda>pr. pr\<lparr>s_notify_pending := N pr\<rparr>) k))" for i A N
    by (intro kernel_ok_upd_priv) (simp_all add: assms(2))
  show ?thesis
    using assms up
    by (auto simp: clear_ref_def Let_def bind_eq_Some_conv split: if_splits
        elim!: clear_ipc_keeps intro!: kernel_ok_upd_proc)
qed

lemma clear_refs_loop_keeps:
  "clear_refs_loop rc c rps k = Some k' \<Longrightarrow> kernel_ok k \<Longrightarrow> \<forall>p \<in> set rps. is_proc p \<Longrightarrow> kernel_ok k'"
  by (induction rps arbitrary: k) (auto simp: bind_eq_Some_conv dest: clear_ref_keeps)

lemma table_is_proc: "\<forall>p \<in> set [- NR_TASKS..NR_PROCS - 1]. is_proc p"
  by (simp add: is_proc_def isokprocn_def)

lemma clear_ipc_refs_keeps [keeps]:
  "clear_ipc_refs rc c k = Some k' \<Longrightarrow> kernel_ok k \<Longrightarrow> kernel_ok k'"
  using table_is_proc
  by (auto simp: clear_ipc_refs_def bind_eq_Some_conv dest: cancel_pending_keeps clear_refs_loop_keeps
      simp del: set_upto)

lemma clear_endpoint_keeps:
  assumes "clear_endpoint rc k = Some k'" "kernel_ok k" "is_proc rc"
  shows "kernel_ok k'"
proof -
  have nz: "RTS_NO_ENDPOINT \<noteq> 0" by simp
  show ?thesis
    using assms RTS_SET_keeps [OF _ assms(2,3) nz]
    by (auto simp: clear_endpoint_def Let_def bind_eq_Some_conv split: if_splits
        elim!: clear_ipc_refs_keeps clear_ipc_keeps intro!: kernel_ok_upd_priv)
qed

text \<open>The first half of \<open>sched_proc\<close>: afterwards the process is on no run queue.\<close>

lemma sched_proc_stops:
  assumes "kernel_ok k" "is_proc p"
  shows "\<exists>k1. (if proc_is_runnable k p then RTS_SET p RTS_NO_QUANTUM k else Some k) = Some k1 \<and>
    kernel_ok k1 \<and> \<not> proc_is_runnable k1 p \<and> sched_frame k k1 \<and>
    p_rts_flags (procs k1 p) AND NOT RTS_NO_QUANTUM = p_rts_flags (procs k p) AND NOT RTS_NO_QUANTUM"
proof (cases "proc_is_runnable k p")
  case True
  have nz: "RTS_NO_QUANTUM \<noteq> 0" by simp
  from kernel_ok_RTS_SET [OF assms nz] obtain k1 where k1: "RTS_SET p RTS_NO_QUANTUM k = Some k1" "kernel_ok k1"
      "sched_frame k k1" "p_rts_flags (procs k1 p) = p_rts_flags (procs k p) OR RTS_NO_QUANTUM" by auto
  have "p_rts_flags (procs k p) = 0" using True by (simp add: proc_is_runnable_def)
  then show ?thesis using k1 True by (simp add: proc_is_runnable_def)
qed (simp add: assms)

lemma sched_proc_upd:
  assumes ok: "kernel_ok k" and p: "is_proc p" and blocked: "\<not> proc_is_runnable k p"
    and prio: "0 \<le> prio" "prio < int NR_SCHED_QUEUES"
  shows "kernel_ok (upd_proc p (\<lambda>r. r\<lparr>p_priority := prio\<rparr>) k)"
  using kernel_ok_well_blocked [OF ok p blocked] prio
  by (intro kernel_ok_blocked_upd [OF ok p blocked]) (simp add: well_blocked_def)

lemma mild_quantum [simp]: "mild (\<lambda>r. r\<lparr>p_quantum_size_ms := a r, p_cpu_time_left := b r\<rparr>)"
  by (simp add: mild_def)

definition sched_change :: "int \<Rightarrow> int \<Rightarrow> nat \<Rightarrow> proc \<Rightarrow> proc \<Rightarrow> bool" where
  "sched_change priority quantum per_ms r r' \<longleftrightarrow>
     p_priority r' = (if priority = - 1 then p_priority r else priority) \<and>
     p_quantum_size_ms r' = (if quantum = - 1 then p_quantum_size_ms r else nat quantum) \<and>
     p_cpu_time_left r' = (if quantum = - 1 then p_cpu_time_left r else per_ms * nat quantum) \<and>
     p_rts_flags r' = p_rts_flags r AND NOT RTS_NO_QUANTUM \<and> p_tickets r' = p_tickets r"

lemma sched_frame_quantum:
  "sched_frame k k' \<Longrightarrow> p_quantum_size_ms (procs k' p) = p_quantum_size_ms (procs k p)"
  using sched_frame_proc [of k k' p] by auto

lemma sched_proc_lemma:
  assumes ok: "kernel_ok k" and p: "is_proc p"
    and prio: "- 1 \<le> priority" "priority < int NR_SCHED_QUEUES" and quantum: "1 \<le> quantum \<or> quantum = - 1"
  shows "\<exists>k'. sched_proc p priority quantum k = Some (OK, k') \<and> kernel_ok k' \<and>
    sched_change priority quantum (tsc_per_ms k) (procs k p) (procs k' p)"
proof -
  from sched_proc_stops [OF ok p] obtain k1 where
    k1: "(if proc_is_runnable k p then RTS_SET p RTS_NO_QUANTUM k else Some k) = Some k1"
      "kernel_ok k1" "\<not> proc_is_runnable k1 p" "sched_frame k k1"
      "p_rts_flags (procs k1 p) AND NOT RTS_NO_QUANTUM = p_rts_flags (procs k p) AND NOT RTS_NO_QUANTUM"
    by blast
  define k3 where "k3 = (if priority \<noteq> - 1 then upd_proc p (\<lambda>r. r\<lparr>p_priority := priority\<rparr>) k1 else k1)"
  have ok3: "kernel_ok k3"
    unfolding k3_def using k1(2) sched_proc_upd [OF k1(2) p k1(3), of priority] prio by auto
  define k4 where "k4 = (if quantum \<noteq> - 1
      then upd_proc p (\<lambda>r. r\<lparr>p_quantum_size_ms := nat quantum, p_cpu_time_left := tsc_per_ms k3 * nat quantum\<rparr>) k3
      else k3)"
  have ok4: "kernel_ok k4" unfolding k4_def using ok3 by (auto intro: kernel_ok_upd_proc)
  from kernel_ok_RTS_UNSET [OF ok4 p] obtain k5 where k5: "RTS_UNSET p RTS_NO_QUANTUM k4 = Some k5"
    "kernel_ok k5" "sched_frame k4 k5" "p_rts_flags (procs k5 p) = p_rts_flags (procs k4 p) AND NOT RTS_NO_QUANTUM"
    by blast
  have "sched_proc p priority quantum k = Some (OK, k5)"
    using prio quantum k1(1,3) k5(1) [unfolded k4_def] unfolding sched_proc_def
    by (auto simp: TASK_Q_def Let_def simp flip: k3_def)
  moreover have "sched_change priority quantum (tsc_per_ms k) (procs k p) (procs k5 p)"
    unfolding sched_change_def k5(4) sched_frame_fields [OF k5(3)] sched_frame_quantum [OF k5(3)]
    using sched_frame_fields [OF k1(4), of p] sched_frame_quantum [OF k1(4), of p] sched_frame_sel(7) [OF k1(4)] k1(5)
    by (simp add: k4_def k3_def)
  ultimately show ?thesis using k5(2) by blast
qed

text \<open>Priority 16 passes the range check of \<open>sched_proc\<close>.\<close>

lemma sched_proc_out_of_range:
  assumes ok: "kernel_ok k" and p: "is_proc p" and quantum: "1 \<le> quantum \<or> quantum = - 1"
    and wakes: "p_rts_flags (procs k p) AND NOT RTS_NO_QUANTUM = 0"
  shows "sched_proc p (int NR_SCHED_QUEUES) quantum k = None"
proof -
  from sched_proc_stops [OF ok p] obtain k1 where
    k1: "(if proc_is_runnable k p then RTS_SET p RTS_NO_QUANTUM k else Some k) = Some k1"
      "\<not> proc_is_runnable k1 p"
      "p_rts_flags (procs k1 p) AND NOT RTS_NO_QUANTUM = p_rts_flags (procs k p) AND NOT RTS_NO_QUANTUM"
    by blast
  have "RTS_UNSET p RTS_NO_QUANTUM k4 = None"
    if "p_rts_flags (procs k4 p) = p_rts_flags (procs k1 p)" "p_priority (procs k4 p) = int NR_SCHED_QUEUES" for k4
    using that k1(2,3) wakes
    by (simp add: RTS_UNSET_def proc_is_runnable_def Let_def enqueue_def queue_index_def)
  then show ?thesis
    using quantum k1(1,2) unfolding sched_proc_def
    by (auto simp: TASK_Q_def Let_def NR_SCHED_QUEUES_def)
qed

section \<open>The child of a fork\<close>

lemma RTS_SET_blocked:
  "p_rts_flags (procs k p) \<noteq> 0 \<Longrightarrow>
     RTS_SET p f k = Some (upd_proc p (\<lambda>r. r\<lparr>p_rts_flags := p_rts_flags r OR f\<rparr>) k)"
  by (simp add: RTS_SET_def Let_def)

lemma RTS_UNSET_blocked:
  "p_rts_flags (procs k p) AND NOT f \<noteq> 0 \<Longrightarrow>
     RTS_UNSET p f k = Some (upd_proc p (\<lambda>r. r\<lparr>p_rts_flags := p_rts_flags r AND NOT f\<rparr>) k)"
  by (auto simp: RTS_UNSET_def Let_def proc_is_runnable_def)

lemma upd_proc_twice: "upd_proc p g (upd_proc p f k) = upd_proc p (\<lambda>r. g (f r)) k"
  by (simp add: upd_proc_def)

lemma upd_proc_cong: "f (procs k p) = g (procs k p) \<Longrightarrow> upd_proc p f k = upd_proc p g k"
  by (simp add: upd_proc_def)

text \<open>What \<open>do_fork\<close> writes into the child's slot.\<close>

definition fork_child :: "kernel \<Rightarrow> int \<Rightarrow> int \<Rightarrow> 32 word \<Rightarrow> proc \<Rightarrow> proc" where
  "fork_child k rpp slot flags rpc =
     (let sys = (\<exists>pr. priv_of k rpp = Some pr \<and> has (s_flags pr) SYS_PROC);
          r = fork_copy (procs k rpp) rpc slot
      in r\<lparr>p_accounting := no_accounting, p_cpu_time_left := 0, p_cycles := 0, p_kcall_cycles := 0,
           p_kipc_cycles := 0, p_signal_received := 0, p_pending := {},
           p_priv := (if sys then Some (nat USER_PRIV_ID) else p_priv r),
           p_rts_flags := (p_rts_flags r OR RTS_NO_QUANTUM OR (if sys then RTS_NO_PRIV else 0) OR
             (if has flags PFF_VMINHIBIT then RTS_VMINHIBIT else 0)) AND
             NOT (RTS_SIGNALED OR RTS_SIG_PENDING OR RTS_P_STOP)\<rparr>)"

lemma reset_accounting: "a\<lparr>preempted := 0, ipc_sync := 0, ipc_async := 0, dequeues := 0,
    time_in_queue := 0, enter_queue := 0\<rparr> = no_accounting"
  by (cases a) (simp add: no_accounting_def)

lemma has_nonzero: "has w f \<Longrightarrow> w \<noteq> 0"
  by (auto simp: has_def)

lemma fork_flags:
  "has ((w OR RTS_NO_QUANTUM OR a OR b) AND NOT (RTS_SIGNALED OR RTS_SIG_PENDING OR RTS_P_STOP)) RTS_NO_QUANTUM"
proof -
  have "w OR RTS_NO_QUANTUM OR a OR b = (w OR a OR b) OR RTS_NO_QUANTUM" by (simp add: or.commute or.left_commute)
  then have "has (w OR RTS_NO_QUANTUM OR a OR b) RTS_NO_QUANTUM" by (simp only:) (rule has_set_same, simp)
  then show ?thesis by (subst has_clear_other) (simp_all add: RTS_defs)
qed

lemma do_fork_child:
  assumes par: "isokendpt k e = Some rpp" and wf: "p_priv (procs k rpp) \<noteq> None"
    and slot: "isokprocn slot" "isemptyn k slot"
    and sync: "RTS_ISSET k rpp RTS_RECEIVING" "\<not> has (misc k rpp) MF_DELIVERMSG"
  shows "do_fork e slot flags k =
    Some (OK, Some (fork_endpoint (p_endpoint (procs k slot)) slot, p_delivermsg_vir (procs k rpp)),
          upd_proc slot (fork_child k rpp slot flags) k)"
proof -
  have ne: "\<not> isemptyn k rpp" using par by (auto simp: isokendpt_def Let_def split: if_splits)
  then have neq: "slot \<noteq> rpp" using slot(2) by auto
  obtain i where i: "p_priv (procs k rpp) = Some i" using wf by blast
  have nz: "p_rts_flags (procs k rpp) \<noteq> 0" using sync(1) by (auto simp: RTS_ISSET_def)
  define k1 where "k1 = upd_proc slot (\<lambda>r. fork_copy (procs k rpp) r slot) k"
  have f1: "p_rts_flags (procs k1 slot) = p_rts_flags (procs k rpp)" by (simp add: k1_def fork_copy_def)
  define k3 where "k3 = upd_proc slot (\<lambda>r. r\<lparr>p_cpu_time_left := 0, p_cycles := 0, p_kcall_cycles := 0,
      p_kipc_cycles := 0, p_signal_received := 0\<rparr>) (reset_proc_accounting slot
        (upd_proc slot (\<lambda>r. r\<lparr>p_rts_flags := p_rts_flags r OR RTS_NO_QUANTUM\<rparr>) k1))"
  have k3: "procs k3 rpp = procs k rpp" "privs k3 = privs k"
      "p_endpoint (procs k3 slot) = fork_endpoint (p_endpoint (procs k slot)) slot"
      "p_rts_flags (procs k3 slot) = p_rts_flags (procs k rpp) OR RTS_NO_QUANTUM"
    using neq by (simp_all add: k3_def k1_def reset_proc_accounting_def fork_copy_def)
  define sys where "sys = has (s_flags (privs k i)) SYS_PROC"
  define k4 where "k4 = (if sys then upd_proc slot (\<lambda>r. r\<lparr>p_priv := Some (nat USER_PRIV_ID),
      p_rts_flags := p_rts_flags r OR RTS_NO_PRIV\<rparr>) k3 else k3)"
  have k4: "fork_privs rpp slot k3 = Some k4"
    using k3(1,2) i by (simp add: fork_privs_def priv_of_def k4_def sys_def)
  have f4: "p_rts_flags (procs k4 slot) = p_rts_flags (procs k rpp) OR RTS_NO_QUANTUM OR (if sys then RTS_NO_PRIV else 0)"
      "p_endpoint (procs k4 slot) = fork_endpoint (p_endpoint (procs k slot)) slot" "procs k4 rpp = procs k rpp"
    using k3 neq by (simp_all add: k4_def or.assoc)
  define k5 where "k5 = (if has flags PFF_VMINHIBIT
      then upd_proc slot (\<lambda>r. r\<lparr>p_rts_flags := p_rts_flags r OR RTS_VMINHIBIT\<rparr>) k4 else k4)"
  have k5: "(if has flags PFF_VMINHIBIT then RTS_SET slot RTS_VMINHIBIT k4 else Some k4) = Some k5"
    using RTS_SET_blocked [of k4 slot RTS_VMINHIBIT] f4(1) by (simp add: k5_def or_eq_0_iff)
  have f5: "p_rts_flags (procs k5 slot) = p_rts_flags (procs k rpp) OR RTS_NO_QUANTUM OR
      (if sys then RTS_NO_PRIV else 0) OR (if has flags PFF_VMINHIBIT then RTS_VMINHIBIT else 0)"
    by (simp add: k5_def f4(1) or.assoc)
  have "p_rts_flags (procs k5 slot) AND NOT (RTS_SIGNALED OR RTS_SIG_PENDING OR RTS_P_STOP) \<noteq> 0"
    unfolding f5 by (rule has_nonzero [OF fork_flags])
  note k6 = RTS_UNSET_blocked [OF this]
  define k7 where "k7 = upd_proc slot (\<lambda>r. r\<lparr>p_pending := {}\<rparr>) (upd_proc slot (\<lambda>r. r\<lparr>p_rts_flags := p_rts_flags r AND
      NOT (RTS_SIGNALED OR RTS_SIG_PENDING OR RTS_P_STOP)\<rparr>) k5)"
  have "procs k7 slot = fork_child k rpp slot flags (procs k slot)"
    by (rule proc.equality)
      (simp_all add: k7_def f5 k5_def k4_def k3_def k1_def reset_proc_accounting_def fork_child_def
        i priv_of_def reset_accounting Let_def sys_def fork_copy_def or.assoc)
  moreover have "k7 = upd_proc slot (\<lambda>_. procs k7 slot) k"
    by (simp add: k7_def k5_def k4_def k3_def k1_def reset_proc_accounting_def upd_proc_def)
  ultimately have "k7 = upd_proc slot (fork_child k rpp slot flags) k"
    by (simp cong: upd_proc_cong)
  then show ?thesis
    using par slot ne sync f1 nz k4 k5 k6 f4(2,3) RTS_SET_blocked [of k1 slot RTS_NO_QUANTUM]
    unfolding do_fork_def
    by (simp add: Let_def k7_def flip: k1_def k3_def)
qed

lemma fork_child_quantum: "has (p_rts_flags (fork_child k rpp slot flags r)) RTS_NO_QUANTUM"
proof -
  obtain a b where "p_rts_flags (fork_child k rpp slot flags r) =
      (p_rts_flags (fork_copy (procs k rpp) r slot) OR RTS_NO_QUANTUM OR a OR b) AND
        NOT (RTS_SIGNALED OR RTS_SIG_PENDING OR RTS_P_STOP)"
    unfolding fork_child_def Let_def by simp
  then show ?thesis by (simp only: fork_flags)
qed

lemma ENDPOINT_MAX_value: "ENDPOINT_MAX_GENERATION = 65534"
  by (simp add: ENDPOINT_MAX_GENERATION_def INT_MAX_def ENDPOINT_GENERATION_SIZE_def)

lemma fork_endpoint_fresh:
  assumes "isokprocn slot"
  shows "ENDPOINT_P (fork_endpoint old slot) = slot" "fork_endpoint old slot \<noteq> old"
proof -
  have r: "- MAX_NR_TASKS \<le> slot" "slot < ENDPOINT_SLOT_TOP"
    using assms by (simp_all add: isokprocn_def NR_TASKS_def NR_PROCS_def MAX_NR_TASKS_def
        ENDPOINT_SLOT_TOP_def ENDPOINT_GENERATION_SIZE_def)
  show "ENDPOINT_P (fork_endpoint old slot) = slot"
    by (simp add: fork_endpoint_def Let_def endpoint_roundtrip [OF r])
  have "ENDPOINT_G (fork_endpoint old slot) \<noteq> ENDPOINT_G old"
    by (simp add: fork_endpoint_def Let_def endpoint_roundtrip [OF r] ENDPOINT_MAX_value)
  then show "fork_endpoint old slot \<noteq> old" by auto
qed

lemma fork_child_keeps:
  assumes ok: "kernel_ok k" and par: "is_proc rpp" and slot: "isokprocn slot" "\<not> iskerneln slot" "isemptyn k slot"
  shows "kernel_ok (upd_proc slot (fork_child k rpp slot flags) k)"
proof (rule kernel_ok_blocked_upd [OF ok])
  show ip: "is_proc slot" using slot(1) by (simp add: is_proc_def)
  show "\<not> proc_is_runnable k slot" using slot(3) by (simp add: isemptyn_def proc_is_runnable_def)
  note wf = kernel_ok_wf [OF ok par] and ln = kernel_ok_links [OF ok par]
  have "p_rts_flags (fork_child k rpp slot flags r) \<noteq> 0" for r
    by (rule has_nonzero [OF fork_child_quantum])
  then show "well_blocked k slot (fork_child k rpp slot flags (procs k slot))"
    using wf ln ip slot(2) fork_endpoint_fresh(1) [OF slot(1)]
    by (auto simp: well_blocked_def well_linked_def fork_child_def fork_copy_def Let_def)
qed

lemma do_fork_keeps:
  assumes "do_fork e slot flags k = Some (c, reply, k')" "kernel_ok k" "\<not> iskerneln slot"
  shows "kernel_ok k'"
proof (cases "c = OK")
  case False
  then show ?thesis using assms(1,2)
    by (auto simp: do_fork_def Let_def bind_eq_Some_conv split: option.splits if_splits)
next
  case True
  then obtain rpp where rpp: "isokendpt k e = Some rpp" "isokprocn slot" "isemptyn k slot"
      "RTS_ISSET k rpp RTS_RECEIVING" "\<not> has (misc k rpp) MF_DELIVERMSG"
    using assms(1) by (auto simp: do_fork_def Let_def split: option.splits if_splits)
  have par: "is_proc rpp" by (rule isokendpt_is_proc [OF rpp(1)])
  obtain i where "p_priv (procs k rpp) = Some i" using kernel_ok_wf(5) [OF assms(2) par] by blast
  then have "p_priv (procs k rpp) \<noteq> None" by simp
  from do_fork_child [OF rpp(1) this rpp(2,3,4,5), of flags] assms(1)
  have "k' = upd_proc slot (fork_child k rpp slot flags) k" by simp
  then show ?thesis using fork_child_keeps [OF assms(2) par rpp(2) assms(3) rpp(3)] by simp
qed

section \<open>The other calls keep the invariant\<close>

lemma sched_proc_keeps:
  assumes "sched_proc p priority quantum k = Some (c, k')" "kernel_ok k" "is_proc p"
    "priority < int NR_SCHED_QUEUES"
  shows "kernel_ok k'"
proof (cases "- 1 \<le> priority \<and> (1 \<le> quantum \<or> quantum = - 1)")
  case True
  then show ?thesis
    using sched_proc_lemma [OF assms(2,3) _ assms(4), of quantum] assms(1) by auto
next
  case False
  then have "(priority < TASK_Q \<and> priority \<noteq> - 1) \<or> priority > int NR_SCHED_QUEUES \<or>
      (quantum < 1 \<and> quantum \<noteq> - 1)" by (auto simp: TASK_Q_def)
  then have "sched_proc p priority quantum k = Some (EINVAL, k)" unfolding sched_proc_def by argo
  then show ?thesis using assms(1,2) by simp
qed

lemma do_schedule_keeps:
  "do_schedule caller e priority quantum k = Some (c, k') \<Longrightarrow> kernel_ok k \<Longrightarrow>
     priority < int NR_SCHED_QUEUES \<Longrightarrow> kernel_ok k'"
  by (auto simp: do_schedule_def split: option.splits if_splits elim!: sched_proc_keeps
      intro: isokendpt_is_proc)

lemma mild_pending [simp]: "mild (\<lambda>r. r\<lparr>p_pending := P r\<rparr>)"
    "mild (set_vt_left w v)"
  by (simp_all add: mild_def set_vt_left_def)

lemma do_schedctl_keeps:
  "do_schedctl caller flags e priority quantum k = Some (c, k') \<Longrightarrow> kernel_ok k \<Longrightarrow>
     priority < int NR_SCHED_QUEUES \<Longrightarrow> is_proc caller \<Longrightarrow> kernel_ok k'"
  by (auto simp: do_schedctl_def bind_eq_Some_conv split: option.splits if_splits
      intro!: kernel_ok_caller_links(3) elim!: sched_proc_keeps intro: isokendpt_is_proc)

lemma do_runctl_keeps:
  assumes "do_runctl e action flags k = Some (c, k')" "kernel_ok k"
  shows "kernel_ok k'"
proof -
  have nz: "RTS_PROC_STOP \<noteq> 0" by simp
  show ?thesis using assms RTS_SET_keeps [OF _ _ _ nz]
    by (auto simp: do_runctl_def Let_def bind_eq_Some_conv split: option.splits if_splits
        intro!: status_keeps elim!: RTS_UNSET_keeps intro: isokendpt_is_proc)
qed

lemma do_endksig_keeps:
  "do_endksig caller e k = Some (c, k') \<Longrightarrow> kernel_ok k \<Longrightarrow> kernel_ok k'"
  by (auto simp: do_endksig_def bind_eq_Some_conv split: option.splits if_splits
      elim!: RTS_UNSET_keeps intro: isokendpt_is_proc)

lemma getksig_loop_keeps:
  "getksig_loop caller rps k = Some (c, r, k') \<Longrightarrow> kernel_ok k \<Longrightarrow> \<forall>p \<in> set rps. is_proc p \<Longrightarrow> kernel_ok k'"
proof (induction rps)
  case (Cons rp rps)
  have "kernel_ok (upd_proc rp (\<lambda>r. r\<lparr>p_pending := {}\<rparr>) k)"
    by (rule kernel_ok_upd_proc [OF _ Cons.prems(2)]) simp
  then show ?case using Cons
    by (auto simp: bind_eq_Some_conv Let_def split: if_splits elim!: RTS_UNSET_keeps)
qed simp

lemma do_getksig_keeps:
  assumes "do_getksig caller k = Some (c, r, k')" "kernel_ok k"
  shows "kernel_ok k'"
proof -
  have "\<forall>p \<in> set [0..NR_PROCS - 1]. is_proc p" by (simp add: is_proc_def isokprocn_def NR_TASKS_def)
  from getksig_loop_keeps [OF assms(1) [unfolded do_getksig_def] assms(2) this] show ?thesis .
qed

lemma do_kill_keeps:
  "do_kill lethal nsig sig_of e s k = Some (c, k') \<Longrightarrow> kernel_ok k \<Longrightarrow> kernel_ok k'"
  by (auto simp: do_kill_def bind_eq_Some_conv split: option.splits if_splits
      elim!: cause_sig_keeps intro: isokendpt_is_proc)

lemma do_exit_keeps:
  "do_exit lethal caller k = Some (c, k') \<Longrightarrow> kernel_ok k \<Longrightarrow> is_proc caller \<Longrightarrow> kernel_ok k'"
  by (auto simp: do_exit_def bind_eq_Some_conv elim!: cause_sig_keeps intro: kernel_ok_links(1))

lemma do_vtimer_keeps:
  "do_vtimer caller w b v e k = Some (c, r, k') \<Longrightarrow> kernel_ok k \<Longrightarrow> kernel_ok k'"
  by (auto simp: do_vtimer_def bind_eq_Some_conv Let_def split: option.splits if_splits
      intro!: status_keeps kernel_ok_upd_proc)

lemma vtimer_expire_keeps:
  assumes "vtimer_expire lethal w s p k = Some k'" "kernel_ok k" "is_proc p"
  shows "kernel_ok k'"
proof -
  have "kernel_ok (upd_proc p (set_vt_left w 0) (clear_misc p (vt_flag w) k))"
    by (intro kernel_ok_upd_proc status_keeps assms(2)) simp
  from cause_sig_keeps [OF _ this] show ?thesis using assms kernel_ok_links(1) [OF assms(2,3)]
    by (auto simp: vtimer_expire_def split: if_splits)
qed

lemma vtimer_check_keeps:
  "vtimer_check lethal p k = Some k' \<Longrightarrow> kernel_ok k \<Longrightarrow> is_proc p \<Longrightarrow> kernel_ok k'"
  by (auto simp: vtimer_check_def bind_eq_Some_conv dest: vtimer_expire_keeps)

lemma do_statectl_keeps: "do_statectl c r k = Some (x, k') \<Longrightarrow> kernel_ok k \<Longrightarrow> kernel_ok k'"
  by (auto simp: do_statectl_def split: if_splits dest: clear_ipc_refs_keeps)

section \<open>Waiting for a dead process\<close>

text \<open>Apart from its own flags, clearing flags of a process can only preempt the current one.\<close>

lemma RTS_UNSET_others:
  assumes ok: "kernel_ok k" and rp: "is_proc rp" and run: "RTS_UNSET rp f k = Some k'" and x: "x \<noteq> rp"
  shows "p_rts_flags (procs k' x) = p_rts_flags (procs k x) \<or>
    p_rts_flags (procs k' x) = p_rts_flags (procs k x) OR RTS_PREEMPTED"
proof (cases "p_rts_flags (procs k rp) \<noteq> 0 \<and> p_rts_flags (procs k rp) AND NOT f = 0")
  case False
  then show ?thesis using run x by (auto simp: RTS_UNSET_def Let_def proc_is_runnable_def split: if_splits)
next
  case True
  obtain L where inv: "sched_inv L k" using ok by (auto simp: kernel_ok_def)
  define k1 where "k1 = upd_proc rp (\<lambda>p. p\<lparr>p_rts_flags := p_rts_flags p AND NOT f\<rparr>) k"
  have hold1: "queues_hold L (runnables k) k1"
    unfolding k1_def by (rule queues_hold_upd_flags [OF sched_inv_hold [OF inv]])
  have r1: "proc_is_runnable k1 rp" using True by (simp add: proc_is_runnable_def k1_def)
  have "runnables k = runnables k1 - {rp}"
    using True rp by (auto simp: runnables_def proc_is_runnable_def k1_def)
  from enqueue_lemma [OF hold1 [unfolded this] rp r1] obtain k2 where k2: "enqueue rp k1 = Some k2"
      "\<forall>p. p_rts_flags (procs k2 p) = (if preempts k1 rp \<and> p = proc_ptr k1
         then p_rts_flags (procs k1 p) OR RTS_PREEMPTED else p_rts_flags (procs k1 p))" by blast
  have "RTS_UNSET rp f k = Some k2" using True k2(1) r1 by (simp add: RTS_UNSET_def k1_def)
  then show ?thesis using k2(2) run x by (auto simp: k1_def)
qed

lemma has_or: "has (w OR f) g \<longleftrightarrow> has w g \<or> has f g" for w f g :: "'a::len word"
proof -
  have "(w OR f) AND g = (w AND g) OR (f AND g)" by (intro bit_eqI) (auto simp: bit_simps)
  then show ?thesis by (simp add: has_def or_eq_0_iff)
qed

lemma blockedon_flags:
  assumes "p_sendto_e (procs k' x) = p_sendto_e (procs k x)" "p_getfrom_e (procs k' x) = p_getfrom_e (procs k x)"
    "p_rts_flags (procs k' x) = p_rts_flags (procs k x) \<or>
     p_rts_flags (procs k' x) = p_rts_flags (procs k x) OR RTS_PREEMPTED"
  shows "P_BLOCKEDON k' x = P_BLOCKEDON k x"
proof -
  have "\<not> has RTS_PREEMPTED RTS_SENDING" "\<not> has RTS_PREEMPTED RTS_RECEIVING" by (simp_all add: has_def RTS_defs)
  then show ?thesis using assms by (auto simp: P_BLOCKEDON_def has_or)
qed

lemma blockedon_after_unset:
  assumes "kernel_ok k" "is_proc rp" "RTS_UNSET rp f k = Some k'" "x \<noteq> rp"
  shows "P_BLOCKEDON k' x = P_BLOCKEDON k x"
proof -
  have "sched_frame k k'" using kernel_ok_RTS_UNSET [OF assms(1,2), of f] assms(3) by auto
  then show ?thesis
    by (intro blockedon_flags RTS_UNSET_others [OF assms]) (simp_all add: sched_frame_fields)
qed

text \<open>Removing a process from the caller queue it waits in: the walk ends, and the queue is the
  old one without the process.\<close>

lemma proc_links:
  "\<exists>u v. r = r\<lparr>p_caller_q := u, p_q_link := v\<rparr>"
  "\<exists>u v. r\<lparr>p_caller_q := w\<rparr> = r\<lparr>p_caller_q := u, p_q_link := v\<rparr>"
  "\<exists>u v. r\<lparr>p_q_link := w\<rparr> = r\<lparr>p_caller_q := u, p_q_link := v\<rparr>" for r :: proc
proof -
  show "\<exists>u v. r = r\<lparr>p_caller_q := u, p_q_link := v\<rparr>"
    by (rule exI [of _ "p_caller_q r"], rule exI [of _ "p_q_link r"]) simp
  show "\<exists>u v. r\<lparr>p_caller_q := w\<rparr> = r\<lparr>p_caller_q := u, p_q_link := v\<rparr>"
    by (rule exI [of _ w], rule exI [of _ "p_q_link r"]) simp
  show "\<exists>u v. r\<lparr>p_q_link := w\<rparr> = r\<lparr>p_caller_q := u, p_q_link := v\<rparr>"
    by (rule exI [of _ "p_caller_q r"], rule exI [of _ w]) simp
qed

lemma set_caller_xpp_procs:
  "\<exists>u v. procs (set_caller_xpp d prev w k) x = procs k x\<lparr>p_caller_q := u, p_q_link := v\<rparr>"
proof (cases prev)
  case None
  then show ?thesis using proc_links(1) [of "procs k x"] proc_links(2) [of w "procs k d"]
    by (cases "x = d") (simp_all add: set_caller_xpp_def)
next
  case (Some y)
  then show ?thesis using proc_links(1) [of "procs k x"] proc_links(3) [of w "procs k y"]
    by (cases "x = y") (simp_all add: set_caller_xpp_def)
qed

lemma caller_q_remove_absent:
  "chain (\<lambda>p. p_q_link (procs k p)) (caller_xpp k d prev) qs \<Longrightarrow> c \<notin> set qs \<Longrightarrow>
     caller_q_remove k d c prev = Some k"
proof (induction qs arbitrary: prev)
  case Nil
  then show ?case by (simp add: caller_q_remove.simps [of k d c prev])
next
  case (Cons q qs)
  then have "caller_xpp k d prev = Some q"
      "chain (\<lambda>p. p_q_link (procs k p)) (caller_xpp k d (Some q)) qs"
    by (simp_all add: caller_xpp_def)
  then show ?case using Cons by (simp add: caller_q_remove.simps [of k d c prev])
qed

lemma caller_q_remove_finds:
  "chain (\<lambda>p. p_q_link (procs k p)) (caller_xpp k d prev) (xs @ c # ys) \<Longrightarrow> c \<notin> set xs \<Longrightarrow>
     caller_q_remove k d c prev =
       Some (set_caller_xpp d (if xs = [] then prev else Some (last xs)) (p_q_link (procs k c)) k)"
proof (induction xs arbitrary: prev)
  case Nil
  then show ?case by (simp add: caller_q_remove.simps [of k d c prev])
next
  case (Cons q xs)
  then have q: "caller_xpp k d prev = Some q" "q \<noteq> c"
      "chain (\<lambda>p. p_q_link (procs k p)) (caller_xpp k d (Some q)) (xs @ c # ys)"
    by (simp_all add: caller_xpp_def)
  show ?case using q(1,2) Cons.IH [OF q(3)] Cons.prems(2)
    by (simp add: caller_q_remove.simps [of k d c prev])
qed

lemma set_caller_xpp_kernel: "set_caller_xpp d prev w k = k\<lparr>procs := procs (set_caller_xpp d prev w k)\<rparr>"
  by (cases prev) (simp_all add: set_caller_xpp_def upd_proc_def)

lemma caller_q_remove_runs:
  assumes ch: "caller_chain k d qs"
  shows "\<exists>k'. caller_q_remove k d c None = Some k' \<and> caller_chain k' d (remove1 c qs) \<and>
    (\<forall>x. \<exists>u v. procs k' x = procs k x\<lparr>p_caller_q := u, p_q_link := v\<rparr>) \<and> k' = k\<lparr>procs := procs k'\<rparr>"
proof (cases "c \<in> set qs")
  case False
  then have "caller_q_remove k d c None = Some k"
    using ch by (intro caller_q_remove_absent) (simp_all add: caller_chain_def caller_xpp_def)
  then show ?thesis using ch False proc_links(1) by (simp add: remove1_idem)
next
  case True
  then obtain xs ys where qs: "qs = xs @ c # ys" "c \<notin> set xs" by (metis split_list_first)
  define nx where "nx = (\<lambda>p. p_q_link (procs k p))"
  have c: "chain nx (p_caller_q (procs k d)) (xs @ c # ys)" using ch by (simp add: caller_chain_def nx_def qs)
  define k' where "k' = set_caller_xpp d (if xs = [] then None else Some (last xs)) (nx c) k"
  have "caller_q_remove k d c None = Some k'"
    using caller_q_remove_finds [of k d None xs c ys] c qs(2) by (simp add: caller_xpp_def nx_def k'_def)
  moreover have "caller_chain k' d (remove1 c qs)"
  proof (cases "xs = []")
    case True
    have "(\<lambda>p. p_q_link (procs k' p)) = nx" "p_caller_q (procs k' d) = nx c"
      using True by (auto simp: k'_def set_caller_xpp_def nx_def)
    then show ?thesis using chain_unlink(1) [OF c True] True by (simp add: caller_chain_def qs)
  next
    case False
    have "(\<lambda>p. p_q_link (procs k' p)) = nx(last xs := nx c)" "p_caller_q (procs k' d) = p_caller_q (procs k d)"
      using False by (auto simp: k'_def set_caller_xpp_def nx_def)
    then show ?thesis using chain_unlink(2) [OF c False] qs by (simp add: caller_chain_def remove1_append)
  qed
  moreover have "\<forall>x. \<exists>u v. procs k' x = procs k x\<lparr>p_caller_q := u, p_q_link := v\<rparr>"
    unfolding k'_def by (intro allI set_caller_xpp_procs)
  moreover have "k' = k\<lparr>procs := procs k'\<rparr>" unfolding k'_def by (rule set_caller_xpp_kernel)
  ultimately show ?thesis by blast
qed

lemma and_single_bit: "w AND push_bit n 1 = push_bit n 1 \<longleftrightarrow> w AND push_bit n 1 \<noteq> 0"
  if "n < LENGTH('a)" for w :: "'a::len word"
proof -
  have b: "bit (push_bit n 1 :: 'a word) m \<longleftrightarrow> m = n" for m using that by (auto simp: bit_simps)
  have "bit w n" if "w AND push_bit n 1 = push_bit n 1" using arg_cong [OF that, of "\<lambda>v. bit v n"] b
    by (simp add: bit_and_iff)
  moreover have "w AND push_bit n 1 = push_bit n 1" if "bit w n"
    by (rule bit_eqI) (use b that in \<open>auto simp: bit_and_iff\<close>)
  moreover have "w AND push_bit n 1 \<noteq> 0" if "bit w n"
  proof
    assume "w AND push_bit n 1 = 0"
    from arg_cong [OF this, of "\<lambda>v. bit v n"] show False using b that by (simp add: bit_and_iff)
  qed
  moreover have "bit w n" if "w AND push_bit n 1 \<noteq> 0"
  proof (rule ccontr)
    assume "\<not> bit w n"
    then have "w AND push_bit n 1 = 0" by (intro bit_eqI) (use b in \<open>auto simp: bit_and_iff\<close>)
    then show False using that by simp
  qed
  ultimately show ?thesis by blast
qed

lemma RTS_ISSET_has:
  "RTS_ISSET k p RTS_SENDING = has (p_rts_flags (procs k p)) RTS_SENDING"
  "RTS_ISSET k p RTS_RECEIVING = has (p_rts_flags (procs k p)) RTS_RECEIVING"
  using and_single_bit [of 2 "p_rts_flags (procs k p)"] and_single_bit [of 3 "p_rts_flags (procs k p)"]
  by (simp_all add: RTS_ISSET_def has_def RTS_SENDING_def RTS_RECEIVING_def)

text \<open>What clearing messages leaves alone.\<close>

definition ipc_frame :: "kernel \<Rightarrow> kernel \<Rightarrow> bool" where
  "ipc_frame k k' \<longleftrightarrow> privs k' = privs k \<and>
     (\<forall>x. p_endpoint (procs k' x) = p_endpoint (procs k x) \<and> p_sendto_e (procs k' x) = p_sendto_e (procs k x) \<and>
       p_getfrom_e (procs k' x) = p_getfrom_e (procs k x) \<and> p_retreg (procs k' x) = p_retreg (procs k x) \<and>
       p_priv (procs k' x) = p_priv (procs k x))"

lemma ipc_frame_trans: "ipc_frame k k' \<Longrightarrow> ipc_frame k' k'' \<Longrightarrow> ipc_frame k k''"
  by (simp add: ipc_frame_def)

lemma ipc_frame_sched: "sched_frame k k' \<Longrightarrow> ipc_frame k k'"
proof -
  assume fr: "sched_frame k k'"
  have "p_retreg (procs k' x) = p_retreg (procs k x)" for x using sched_frame_proc [OF fr, of x] by auto
  then show ?thesis by (simp add: ipc_frame_def sched_frame_fields [OF fr] sched_frame_sel [OF fr])
qed

lemma unset_runs:
  assumes "kernel_ok k" "is_proc rp"
  shows "\<exists>k'. RTS_UNSET rp f k = Some k' \<and> kernel_ok k' \<and> ipc_frame k k' \<and>
    (\<forall>d qs. caller_chain k' d qs = caller_chain k d qs) \<and>
    p_rts_flags (procs k' rp) = p_rts_flags (procs k rp) AND NOT f \<and>
    (\<forall>x. x \<noteq> rp \<longrightarrow> p_rts_flags (procs k' x) = p_rts_flags (procs k x) \<or>
       p_rts_flags (procs k' x) = p_rts_flags (procs k x) OR RTS_PREEMPTED)"
proof -
  obtain k' where k': "RTS_UNSET rp f k = Some k'" "kernel_ok k'" "sched_frame k k'"
      "p_rts_flags (procs k' rp) = p_rts_flags (procs k rp) AND NOT f"
    using kernel_ok_RTS_UNSET [OF assms, of f] by blast
  then show ?thesis
    using RTS_UNSET_others [OF assms k'(1)] ipc_frame_sched [OF k'(3)] caller_chain_frame [OF k'(3)] by blast
qed

lemma SENDING_RECEIVING_flags:
  "\<not> has ((w AND NOT RTS_SENDING) AND NOT RTS_RECEIVING) RTS_SENDING"
  "\<not> has w RTS_SENDING \<Longrightarrow> \<not> has (w AND NOT RTS_RECEIVING) RTS_SENDING"
  "has w RTS_NO_ENDPOINT \<Longrightarrow> has (w AND NOT RTS_SENDING) RTS_NO_ENDPOINT"
  "has w RTS_NO_ENDPOINT \<Longrightarrow> has (w AND NOT RTS_RECEIVING) RTS_NO_ENDPOINT"
proof -
  have d: "RTS_RECEIVING AND RTS_SENDING = 0" "RTS_SENDING AND RTS_NO_ENDPOINT = 0"
      "RTS_RECEIVING AND RTS_NO_ENDPOINT = 0" by (simp_all add: RTS_defs)
  show "\<not> has ((w AND NOT RTS_SENDING) AND NOT RTS_RECEIVING) RTS_SENDING"
    using has_clear_other [OF d(1), of "w AND NOT RTS_SENDING"] by simp
  show "\<not> has w RTS_SENDING \<Longrightarrow> \<not> has (w AND NOT RTS_RECEIVING) RTS_SENDING"
    using has_clear_other [OF d(1)] by simp
  show "has w RTS_NO_ENDPOINT \<Longrightarrow> has (w AND NOT RTS_SENDING) RTS_NO_ENDPOINT"
    "has w RTS_NO_ENDPOINT \<Longrightarrow> has (w AND NOT RTS_RECEIVING) RTS_NO_ENDPOINT"
    using has_clear_other d by blast+
qed

lemma clear_ipc_runs:
  assumes ok: "kernel_ok k" and rp: "is_proc rp" and ch: "caller_chain k d qs"
    and dest: "has (p_rts_flags (procs k rp)) RTS_SENDING \<Longrightarrow> isokendpt k (p_sendto_e (procs k rp)) = Some d"
  shows "\<exists>k' qs'. clear_ipc rp k = Some k' \<and> kernel_ok k' \<and> caller_chain k' d qs' \<and> ipc_frame k k' \<and>
    P_BLOCKEDON k' rp = NONE \<and> (\<forall>x. x \<noteq> rp \<longrightarrow> P_BLOCKEDON k' x = P_BLOCKEDON k x) \<and>
    (\<forall>x. has (p_rts_flags (procs k x)) RTS_NO_ENDPOINT \<longrightarrow> has (p_rts_flags (procs k' x)) RTS_NO_ENDPOINT)"
proof -
  let ?S = "has (p_rts_flags (procs k rp)) RTS_SENDING"
  have "\<exists>k1 qs1. (if RTS_ISSET k rp RTS_SENDING then do {
              target_proc \<leftarrow> isokendpt k (p_sendto_e (procs k rp));
              k' \<leftarrow> caller_q_remove k target_proc rp None;
              RTS_UNSET rp RTS_SENDING k'
            } else Some k) = Some k1 \<and> kernel_ok k1 \<and> caller_chain k1 d qs1 \<and> ipc_frame k k1 \<and>
      p_rts_flags (procs k1 rp) = p_rts_flags (procs k rp) AND NOT (if ?S then RTS_SENDING else 0) \<and>
      (\<forall>x. x \<noteq> rp \<longrightarrow> p_rts_flags (procs k1 x) = p_rts_flags (procs k x) \<or>
         p_rts_flags (procs k1 x) = p_rts_flags (procs k x) OR RTS_PREEMPTED)"
  proof (cases ?S)
    case False
    then show ?thesis using ok ch by (auto simp: RTS_ISSET_has ipc_frame_def)
  next
    case True
    note e = dest [OF True]
    obtain k0 where k0: "caller_q_remove k d rp None = Some k0" "caller_chain k0 d (remove1 rp qs)"
        "\<forall>x. \<exists>u v. procs k0 x = procs k x\<lparr>p_caller_q := u, p_q_link := v\<rparr>" "k0 = k\<lparr>procs := procs k0\<rparr>"
      using caller_q_remove_runs [OF ch] by blast
    have ok0: "kernel_ok k0"
      by (rule caller_q_remove_keeps [OF k0(1) ok isokendpt_is_proc [OF e]]) simp
    have same: "p_rts_flags (procs k0 x) = p_rts_flags (procs k x)" "p_endpoint (procs k0 x) = p_endpoint (procs k x)"
        "p_sendto_e (procs k0 x) = p_sendto_e (procs k x)" "p_getfrom_e (procs k0 x) = p_getfrom_e (procs k x)"
        "p_retreg (procs k0 x) = p_retreg (procs k x)" "p_priv (procs k0 x) = p_priv (procs k x)" for x
      using spec [OF k0(3), of x] by auto
    have "privs k0 = privs k" using arg_cong [OF k0(4), of privs] by simp
    then have fr0: "ipc_frame k k0" by (simp add: ipc_frame_def same)
    obtain k1 where k1: "RTS_UNSET rp RTS_SENDING k0 = Some k1" "kernel_ok k1" "ipc_frame k0 k1"
      "\<forall>d qs. caller_chain k1 d qs = caller_chain k0 d qs"
      "p_rts_flags (procs k1 rp) = p_rts_flags (procs k0 rp) AND NOT RTS_SENDING"
      "\<forall>x. x \<noteq> rp \<longrightarrow> p_rts_flags (procs k1 x) = p_rts_flags (procs k0 x) \<or>
         p_rts_flags (procs k1 x) = p_rts_flags (procs k0 x) OR RTS_PREEMPTED"
      using unset_runs [OF ok0 rp, of RTS_SENDING] by blast
    show ?thesis
    proof (intro exI [of _ k1] exI [of _ "remove1 rp qs"] conjI)
      show "caller_chain k1 d (remove1 rp qs)" using k1(4) k0(2) by blast
      show "ipc_frame k k1" by (rule ipc_frame_trans [OF fr0 k1(3)])
    qed (use True e k0(1) k1 same in \<open>simp_all add: RTS_ISSET_has\<close>)
  qed
  then obtain k1 qs1 where k1: "(if RTS_ISSET k rp RTS_SENDING then do {
              target_proc \<leftarrow> isokendpt k (p_sendto_e (procs k rp));
              k' \<leftarrow> caller_q_remove k target_proc rp None;
              RTS_UNSET rp RTS_SENDING k'
            } else Some k) = Some k1" "kernel_ok k1" "caller_chain k1 d qs1" "ipc_frame k k1"
      "p_rts_flags (procs k1 rp) = p_rts_flags (procs k rp) AND NOT (if ?S then RTS_SENDING else 0)"
      "\<forall>x. x \<noteq> rp \<longrightarrow> p_rts_flags (procs k1 x) = p_rts_flags (procs k x) \<or>
         p_rts_flags (procs k1 x) = p_rts_flags (procs k x) OR RTS_PREEMPTED"
    by blast
  obtain k2 where k2: "RTS_UNSET rp RTS_RECEIVING k1 = Some k2" "kernel_ok k2" "ipc_frame k1 k2"
      "\<forall>d qs. caller_chain k2 d qs = caller_chain k1 d qs"
      "p_rts_flags (procs k2 rp) = p_rts_flags (procs k1 rp) AND NOT RTS_RECEIVING"
      "\<forall>x. x \<noteq> rp \<longrightarrow> p_rts_flags (procs k2 x) = p_rts_flags (procs k1 x) \<or>
         p_rts_flags (procs k2 x) = p_rts_flags (procs k1 x) OR RTS_PREEMPTED"
    using unset_runs [OF k1(2) rp, of RTS_RECEIVING] by blast
  have fr: "ipc_frame k k2" by (rule ipc_frame_trans [OF k1(4) k2(3)])
  have "clear_ipc rp k = Some k2" using k1(1) k2(1) by (simp add: clear_ipc_def)
  moreover have "P_BLOCKEDON k2 rp = NONE"
    using k2(5) k1(5) SENDING_RECEIVING_flags(1,2) [of "p_rts_flags (procs k rp)"]
    by (cases ?S) (auto simp: P_BLOCKEDON_def)
  moreover have "P_BLOCKEDON k2 x = P_BLOCKEDON k x" if "x \<noteq> rp" for x
    using spec [OF k1(6), of x] spec [OF k2(6), of x] that fr
    by (intro blockedon_flags) (auto simp: ipc_frame_def or.assoc)
  moreover have "has (p_rts_flags (procs k2 x)) RTS_NO_ENDPOINT" if "has (p_rts_flags (procs k x)) RTS_NO_ENDPOINT" for x
  proof (cases "x = rp")
    case True
    then show ?thesis using that k2(5) k1(5) SENDING_RECEIVING_flags(3,4)
      by (cases ?S) simp_all
  next
    case False
    then show ?thesis using that k1(6) k2(6) by (metis has_set_mono)
  qed
  ultimately show ?thesis using k2(2,4) k1(3) fr by blast
qed

text \<open>A process on its way out: live slot, \<open>RTS_NO_ENDPOINT\<close> set, a finite caller queue.\<close>

definition dying :: "kernel \<Rightarrow> int \<Rightarrow> int \<Rightarrow> bool" where
  "dying k rc e \<longleftrightarrow> kernel_ok k \<and> isokprocn rc \<and> ENDPOINT_P e = rc \<and> p_endpoint (procs k rc) = e \<and> e \<noteq> NONE \<and>
     has (p_rts_flags (procs k rc)) RTS_NO_ENDPOINT \<and> (\<exists>qs. caller_chain k rc qs)"

lemma dying_isokendpt: "dying k rc e \<Longrightarrow> isokendpt k e = Some rc"
  by (auto simp: dying_def isokendpt_def isemptyn_def has_def RTS_defs Let_def)

lemma isemptyn_blockedon: "isemptyn k x \<Longrightarrow> P_BLOCKEDON k x = NONE"
  by (simp add: isemptyn_def P_BLOCKEDON_def has_def RTS_defs)

text \<open>The effect of clearing on the process \<open>y\<close>: when it waits for \<open>e\<close> it is woken with the code \<open>c\<close>.\<close>

definition released :: "kernel \<Rightarrow> kernel \<Rightarrow> int \<Rightarrow> code \<Rightarrow> int \<Rightarrow> bool" where
  "released k k' e c y \<longleftrightarrow>
     (if P_BLOCKEDON k y = e then P_BLOCKEDON k' y = NONE \<and> p_retreg (procs k' y) = c
      else P_BLOCKEDON k' y = P_BLOCKEDON k y \<and> p_retreg (procs k' y) = p_retreg (procs k y))"

definition untouched :: "kernel \<Rightarrow> kernel \<Rightarrow> int \<Rightarrow> bool" where
  "untouched k k' y \<longleftrightarrow> P_BLOCKEDON k' y = P_BLOCKEDON k y \<and> p_retreg (procs k' y) = p_retreg (procs k y)"

lemma clear_ref_runs:
  assumes dy: "dying k rc e" and x: "is_proc x"
  shows "\<exists>k'. clear_ref rc c x k = Some k' \<and> dying k' rc e \<and> released k k' e c x \<and>
    (\<forall>y. y \<noteq> x \<longrightarrow> untouched k k' y)"
proof (cases "isemptyn k x")
  case True
  then show ?thesis using dy isemptyn_blockedon [OF True]
    by (auto simp: clear_ref_def released_def untouched_def dying_def)
next
  case False
  have ok: "kernel_ok k" and rc: "is_proc rc" using dy by (simp_all add: dying_def is_proc_def)
  obtain i j where i: "p_priv (procs k x) = Some i" "p_priv (procs k rc) = Some j"
    using kernel_ok_wf(5) [OF ok x] kernel_ok_wf(5) [OF ok rc] by blast
  define k2 where "k2 = upd_priv i (\<lambda>pr. pr\<lparr>s_asyn_pending := (s_asyn_pending pr)(s_id (privs k j) := False)\<rparr>)
    (upd_priv i (\<lambda>pr. pr\<lparr>s_notify_pending := (s_notify_pending pr)(s_id (privs k j) := False)\<rparr>) k)"
  have ok2: "kernel_ok k2" unfolding k2_def by (intro kernel_ok_upd_priv) (simp_all add: ok)
  have p2: "procs k2 = procs k" by (simp add: k2_def)
  then have b2: "P_BLOCKEDON k2 y = P_BLOCKEDON k y" "caller_chain k2 d qs = caller_chain k d qs" for y d qs
    by (simp_all add: P_BLOCKEDON_def caller_chain_def)
  have dy2: "dying k2 rc e" using dy ok2 b2 by (simp add: dying_def p2)
  have run: "clear_ref rc c x k = (if P_BLOCKEDON k x = e
      then clear_ipc x (upd_proc x (\<lambda>r. r\<lparr>p_retreg := c\<rparr>) k2) else Some k2)"
    using False i dy by (simp add: clear_ref_def priv_of_def Let_def b2 p2 dying_def flip: k2_def)
  show ?thesis
  proof (cases "P_BLOCKEDON k x = e")
    case False
    then show ?thesis using run dy2 b2 p2 by (simp add: released_def untouched_def)
  next
    case True
    define k3 where "k3 = upd_proc x (\<lambda>r. r\<lparr>p_retreg := c\<rparr>) k2"
    have ok3: "kernel_ok k3" unfolding k3_def by (rule kernel_ok_upd_proc [OF _ ok2]) simp
    have ch3: "caller_chain k3 d qs = caller_chain k2 d qs" for d qs
      unfolding k3_def by (rule caller_chain_upd) simp_all
    have f3: "p_endpoint (procs k3 y) = p_endpoint (procs k y)" "p_rts_flags (procs k3 y) = p_rts_flags (procs k y)"
        "p_retreg (procs k3 y) = (if y = x then c else p_retreg (procs k y))"
        "p_sendto_e (procs k3 y) = p_sendto_e (procs k y)" "p_getfrom_e (procs k3 y) = p_getfrom_e (procs k y)" for y
      by (simp_all add: k3_def p2)
    have b3: "P_BLOCKEDON k3 y = P_BLOCKEDON k y" for y by (simp add: P_BLOCKEDON_def f3)
    have dy3: "dying k3 rc e" using dy ok3 ch3 b2 by (simp add: dying_def f3)
    then obtain qs where qs: "caller_chain k3 rc qs" by (auto simp: dying_def)
    have dest: "isokendpt k3 (p_sendto_e (procs k3 x)) = Some rc" if "has (p_rts_flags (procs k3 x)) RTS_SENDING"
      using that True dying_isokendpt [OF dy3] by (simp add: P_BLOCKEDON_def f3 k3_def p2)
    obtain k' qs' where k': "clear_ipc x k3 = Some k'" "kernel_ok k'" "caller_chain k' rc qs'" "ipc_frame k3 k'"
        "P_BLOCKEDON k' x = NONE" "\<forall>y. y \<noteq> x \<longrightarrow> P_BLOCKEDON k' y = P_BLOCKEDON k3 y"
        "\<forall>y. has (p_rts_flags (procs k3 y)) RTS_NO_ENDPOINT \<longrightarrow> has (p_rts_flags (procs k' y)) RTS_NO_ENDPOINT"
      using clear_ipc_runs [OF ok3 x qs dest] by blast
    have "dying k' rc e" using dy3 k' by (auto simp: dying_def ipc_frame_def)
    moreover have "p_retreg (procs k' y) = p_retreg (procs k3 y)" for y using k'(4) by (simp add: ipc_frame_def)
    ultimately show ?thesis using run True k'(1,5,6) b3 f3
      by (intro exI [of _ k']) (simp add: released_def untouched_def flip: k3_def)
  qed
qed

lemma clear_refs_loop_runs:
  assumes "dying k rc e" "\<forall>x \<in> set rps. is_proc x" "distinct rps"
  shows "\<exists>k'. clear_refs_loop rc c rps k = Some k' \<and> dying k' rc e \<and>
    (\<forall>x. if x \<in> set rps then released k k' e c x else untouched k k' x)"
  using assms
proof (induction rps arbitrary: k)
  case Nil
  then show ?case by (simp add: untouched_def)
next
  case (Cons x rps)
  have x: "is_proc x" using Cons.prems(2) by simp
  obtain k1 where k1: "clear_ref rc c x k = Some k1" "dying k1 rc e" "released k k1 e c x"
      "\<forall>y. y \<noteq> x \<longrightarrow> untouched k k1 y"
    using clear_ref_runs [OF Cons.prems(1) x] by blast
  have "\<forall>y\<in>set rps. is_proc y" "distinct rps" using Cons.prems by simp_all
  then obtain k' where k': "clear_refs_loop rc c rps k1 = Some k'" "dying k' rc e"
      "\<forall>x. if x \<in> set rps then released k1 k' e c x else untouched k1 k' x"
    using Cons.IH [OF k1(2)] by blast
  have "if y \<in> set (x # rps) then released k k' e c y else untouched k k' y" for y
  proof (cases "y = x")
    case True
    then have "untouched k1 k' y" using spec [OF k'(3), of y] Cons.prems(3) by simp
    then show ?thesis using k1(3) True by (simp add: released_def untouched_def)
  next
    case False
    then show ?thesis using spec [OF k1(4), of y] spec [OF k'(3), of y]
      by (auto simp: released_def untouched_def split: if_splits)
  qed
  then show ?case using k1(1) k'(1,2) by simp
qed

lemma has_pending_ANY: "has_pending k pending ANY = has_pending k' pending ANY"
  unfolding has_pending_def by (simp only: simp_thms if_False)

lemma clear_endpoint_runs:
  assumes ok: "kernel_ok k" and rc: "isokendpt k e = Some rc" and e: "e \<noteq> NONE"
    and quiet: "\<not> has (p_rts_flags (procs k rc)) RTS_SENDING" "has_pending_asend k rc ANY = Some NULL_PRIV_ID"
    and ch: "caller_chain k rc qs"
  shows "\<exists>k'. clear_endpoint rc k = Some k' \<and> dying k' rc e \<and>
    (\<forall>p. isokprocn p \<longrightarrow> p \<noteq> rc \<longrightarrow> released k k' e EDEADSRCDST p) \<and> P_BLOCKEDON k' rc = NONE"
proof -
  have live: "isokprocn rc" "\<not> isemptyn k rc" "p_endpoint (procs k rc) = e" "ENDPOINT_P e = rc"
    using rc by (auto simp: isokendpt_def Let_def split: if_splits)
  have ip: "is_proc rc" using live(1) by (simp add: is_proc_def)
  have nz: "RTS_NO_ENDPOINT \<noteq> 0" by simp
  from kernel_ok_RTS_SET [OF ok ip nz] obtain k1 where k1: "RTS_SET rc RTS_NO_ENDPOINT k = Some k1" "kernel_ok k1"
      "sched_frame k k1" "\<forall>x. p_rts_flags (procs k1 x) =
         (if x = rc then p_rts_flags (procs k x) OR RTS_NO_ENDPOINT else p_rts_flags (procs k x))" by blast
  obtain i where i: "p_priv (procs k1 rc) = Some i" using kernel_ok_wf(5) [OF k1(2) ip] by blast
  define k2 where "k2 = (if has (s_flags (privs k1 i)) SYS_PROC then upd_priv i (\<lambda>pr. pr\<lparr>s_asynsize := 0\<rparr>) k1 else k1)"
  have ok2: "kernel_ok k2" using k1(2) by (auto simp: k2_def intro: kernel_ok_upd_priv)
  have p2: "procs k2 = procs k1" by (simp add: k2_def)
  have f1: "ipc_frame k k1" by (rule ipc_frame_sched [OF k1(3)])
  have no: "\<not> has RTS_NO_ENDPOINT RTS_SENDING" "\<not> has RTS_NO_ENDPOINT RTS_RECEIVING"
    by (simp_all add: has_def RTS_defs)
  have b2: "P_BLOCKEDON k2 x = P_BLOCKEDON k x" for x
    using f1 spec [OF k1(4), of x] no by (auto simp: P_BLOCKEDON_def p2 ipc_frame_def has_or)
  have ch2: "caller_chain k2 rc qs"
    using ch caller_chain_frame [OF k1(3), of rc qs] by (simp add: caller_chain_def p2)
  have "has (p_rts_flags (procs k2 rc)) RTS_NO_ENDPOINT" using k1(4) by (simp add: p2)
  moreover have "\<not> has (p_rts_flags (procs k2 rc)) RTS_SENDING" using quiet(1) k1(4) no by (simp add: p2 has_or)
  ultimately obtain k3 qs3 where k3: "clear_ipc rc k2 = Some k3" "kernel_ok k3" "caller_chain k3 rc qs3" "ipc_frame k2 k3"
      "P_BLOCKEDON k3 rc = NONE" "\<forall>x. x \<noteq> rc \<longrightarrow> P_BLOCKEDON k3 x = P_BLOCKEDON k2 x"
      "has (p_rts_flags (procs k3 rc)) RTS_NO_ENDPOINT"
    using clear_ipc_runs [OF ok2 ip ch2] by blast
  have f3: "p_endpoint (procs k3 x) = p_endpoint (procs k x)" "p_retreg (procs k3 x) = p_retreg (procs k x)"
      "p_priv (procs k3 x) = p_priv (procs k x)" for x
    using f1 k3(4) by (simp_all add: ipc_frame_def p2)
  have dy: "dying k3 rc e" using k3(2,3,7) live e f3 by (auto simp: dying_def)
  have pend: "has_pending_asend k3 rc ANY = Some NULL_PRIV_ID"
  proof -
    have "privs k3 = privs k2" using k3(4) by (simp add: ipc_frame_def)
    moreover have "s_asyn_pending (privs k2 j) = s_asyn_pending (privs k j)" for j
      using f1 by (simp add: k2_def ipc_frame_def)
    ultimately have "s_asyn_pending (privs k3 j) = s_asyn_pending (privs k j)" for j by simp
    then show ?thesis using quiet(2) f3(3) [of rc] has_pending_ANY [of k3 _ k]
      by (cases "p_priv (procs k rc)") (simp_all add: has_pending_asend_def priv_of_def)
  qed
  have d: "distinct [- NR_TASKS..NR_PROCS - 1]" by simp
  obtain k' where k': "clear_refs_loop rc EDEADSRCDST [- NR_TASKS..NR_PROCS - 1] k3 = Some k'" "dying k' rc e"
      "\<forall>x. if x \<in> set [- NR_TASKS..NR_PROCS - 1] then released k3 k' e EDEADSRCDST x else untouched k3 k' x"
    using clear_refs_loop_runs [OF dy table_is_proc d, of EDEADSRCDST] by blast
  have rel: "released k3 k' e EDEADSRCDST x" if "isokprocn x" for x
    using spec [OF k'(3), of x] that by (simp add: isokprocn_def)
  have "cancel_pending rc k3 = Some k3" by (subst cancel_pending.simps) (simp add: pend)
  then have refs: "clear_ipc_refs rc EDEADSRCDST k3 = Some k'"
    unfolding clear_ipc_refs_def using k'(1) by (simp only: bind.bind_lunit)
  have "clear_endpoint rc k = Some k'"
    unfolding clear_endpoint_def Let_def
    by (simp only: live(2) k1(1) i k3(1) refs bind.bind_lunit if_False k2_def [symmetric])
  moreover have "released k k' e EDEADSRCDST p" if "isokprocn p" "p \<noteq> rc" for p
    using rel [OF that(1)] k3(6) b2 that(2) f3(2) by (simp add: released_def)
  moreover have "P_BLOCKEDON k' rc = NONE" using rel [OF live(1)] k3(5) by (auto simp: released_def split: if_splits)
  ultimately show ?thesis using k'(2) by blast
qed

section \<open>Properties\<close>



text \<open>C12. Forking: the child gets the parent's tickets and priority under a fresh endpoint of its
  slot and sees 0 as the result; it is held back by \<open>RTS_NO_QUANTUM\<close>, so its tickets are not
  drawn from until a scheduler starts it: \<open>total_tickets\<close> does not change. No other process
  changes, and the kernel invariant holds.
\<close>

theorem fork_inherits_tickets:
  assumes "kernel_ok k" and "isokendpt k e = Some rpp" and "isokprocn slot" and "\<not> iskerneln slot"
    and "isemptyn k slot" and "RTS_ISSET k rpp RTS_RECEIVING" and "\<not> has (misc k rpp) MF_DELIVERMSG"
  shows "\<exists>c. do_fork e slot flags k =
      Some (OK, Some (p_endpoint c, p_delivermsg_vir (procs k rpp)), k\<lparr>procs := (procs k)(slot := c)\<rparr>) \<and>
    kernel_ok (k\<lparr>procs := (procs k)(slot := c)\<rparr>) \<and>
    p_tickets c = p_tickets (procs k rpp) \<and> p_priority c = p_priority (procs k rpp) \<and> p_retreg c = OK \<and>
    p_nr c = slot \<and> ENDPOINT_P (p_endpoint c) = slot \<and> p_endpoint c \<noteq> p_endpoint (procs k slot) \<and>
    has (p_rts_flags c) RTS_NO_QUANTUM"
proof -
  have par: "is_proc rpp" by (rule isokendpt_is_proc [OF assms(2)])
  obtain i where "p_priv (procs k rpp) = Some i" using kernel_ok_wf(5) [OF assms(1) par] by blast
  then have "p_priv (procs k rpp) \<noteq> None" by simp
  note run = do_fork_child [OF assms(2) this assms(3,5,6,7), of flags]
  define c where "c = fork_child k rpp slot flags (procs k slot)"
  have up: "upd_proc slot (fork_child k rpp slot flags) k = k\<lparr>procs := (procs k)(slot := c)\<rparr>"
    by (simp add: upd_proc_def c_def)
  have "p_endpoint c = fork_endpoint (p_endpoint (procs k slot)) slot" "p_nr c = slot"
      "p_tickets c = p_tickets (procs k rpp)" "p_priority c = p_priority (procs k rpp)" "p_retreg c = OK"
    by (simp_all add: c_def fork_child_def fork_copy_def Let_def)
  then show ?thesis
    using run [unfolded up] fork_child_keeps [OF assms(1) par assms(3,4,5), of flags, unfolded up]
      fork_endpoint_fresh [OF assms(3)] fork_child_quantum [of k rpp slot flags "procs k slot"]
    by (intro exI [of _ c]) (simp flip: c_def)
qed

theorem fork_inherits_tickets_witness:
  "\<exists>c. do_fork 3 4 0 ipc_kernel =
       Some (OK, Some (p_endpoint c, 0), ipc_kernel\<lparr>procs := demo_proc(4 := c)\<rparr>) \<and>
     p_tickets c = 5 \<and> p_nr c = 4"
proof -
  have "isokprocn 4" "\<not> iskerneln 4" "isemptyn ipc_kernel 4" "RTS_ISSET ipc_kernel 3 RTS_RECEIVING"
      "\<not> has (misc ipc_kernel 3) MF_DELIVERMSG"
    by (simp_all add: isokprocn_def NR_TASKS_def NR_PROCS_def iskerneln_def isemptyn_def demo_proc_def
        idle_proc_def RTS_ISSET_def has_def)
  from fork_inherits_tickets [OF ipc_kernel_ok demo_isokendpt(3) this, of 0] obtain c where
    "do_fork 3 4 0 ipc_kernel = Some (OK, Some (p_endpoint c, p_delivermsg_vir (procs ipc_kernel 3)),
       ipc_kernel\<lparr>procs := (procs ipc_kernel)(4 := c)\<rparr>)" "p_tickets c = p_tickets (procs ipc_kernel 3)"
    "p_nr c = 4" by blast
  then show ?thesis by (intro exI [of _ c]) (simp add: demo_proc_def)
qed

end
