(* ===== verification/Kernel_Frame.thy ===== *)
theory Kernel_Frame
  imports Kernel_Calls
begin

text \<open>
  What message passing, signalling, the run queues and the kernel calls of processes leave alone: which process is the current
  one and which is billed (\<open>proc_ptr\<close> and \<open>bill_ptr\<close>; only \<open>switch_to_user\<close>, \<open>pick_proc\<close> and \<open>idle\<close> change them), and the state of the clock and
  of the interrupt hooks, which have calls of their own. One lemma per operation, in the collection \<open>cur\<close>.
\<close>

text \<open>
  Nor do they touch the identity of a process (its number, endpoint and privilege structure, and whether its slot
  is in use) or of a privilege structure; only forks, exits and changes of privileges do.
\<close>

definition idents ::
  "kernel \<Rightarrow> (int \<Rightarrow> int \<times> int \<times> nat option \<times> bool) \<times> (nat \<Rightarrow> int \<times> int \<times> 16 word \<times> 32 word)" where
  "idents k =
     ((\<lambda>p. (p_nr (procs k p), p_endpoint (procs k p), p_priv (procs k p), has (p_rts_flags (procs k p)) RTS_SLOT_FREE)),
      (\<lambda>i. (s_id (privs k i), s_proc_nr (privs k i), s_flags (privs k i), s_stack_guard (privs k i))))"

definition outer ::
  "kernel \<Rightarrow> int \<times> int \<times> clock \<times> irq_state \<times> clock_t \<times>
     (int \<Rightarrow> int \<times> int \<times> nat option \<times> bool) \<times> (nat \<Rightarrow> int \<times> int \<times> 16 word \<times> 32 word)" where
  "outer k = (proc_ptr k, bill_ptr k, clk k, irqs k, monotonic k, idents k)"

lemma identsD:
  assumes "idents k' = idents k"
  shows "p_endpoint (procs k' p) = p_endpoint (procs k p)" "p_priv (procs k' p) = p_priv (procs k p)"
    "has (p_rts_flags (procs k' p)) RTS_SLOT_FREE = has (p_rts_flags (procs k p)) RTS_SLOT_FREE"
    "s_id (privs k' i) = s_id (privs k i)" "p_nr (procs k' p) = p_nr (procs k p)"
    "s_proc_nr (privs k' i) = s_proc_nr (privs k i)" "s_stack_guard (privs k' i) = s_stack_guard (privs k i)"
    "s_flags (privs k' i) = s_flags (privs k i)"
  using assms by (simp_all add: idents_def fun_eq_iff)

lemma outerD:
  "outer k' = outer k \<Longrightarrow> proc_ptr k' = proc_ptr k" "outer k' = outer k \<Longrightarrow> clk k' = clk k"
  "outer k' = outer k \<Longrightarrow> irqs k' = irqs k" "outer k' = outer k \<Longrightarrow> monotonic k' = monotonic k"
  "outer k' = outer k \<Longrightarrow> bill_ptr k' = bill_ptr k" "outer k' = outer k \<Longrightarrow> idents k' = idents k"
  by (simp_all add: outer_def)

lemma idents_upd [simp]:
  "(\<And>r. p_nr (f r) = p_nr r \<and> p_endpoint (f r) = p_endpoint r \<and> p_priv (f r) = p_priv r \<and>
     has (p_rts_flags (f r)) RTS_SLOT_FREE = has (p_rts_flags r) RTS_SLOT_FREE) \<Longrightarrow> idents (upd_proc p f k) = idents k"
  "(\<And>r. s_id (g r) = s_id r \<and> s_proc_nr (g r) = s_proc_nr r \<and> s_flags (g r) = s_flags r \<and> s_stack_guard (g r) = s_stack_guard r) \<Longrightarrow>
     idents (upd_priv i g k) = idents k"
  by (auto simp: idents_def fun_eq_iff)

lemma outer_upd [simp]:
  "(\<And>r. p_nr (f r) = p_nr r \<and> p_endpoint (f r) = p_endpoint r \<and> p_priv (f r) = p_priv r \<and>
     has (p_rts_flags (f r)) RTS_SLOT_FREE = has (p_rts_flags r) RTS_SLOT_FREE) \<Longrightarrow> outer (upd_proc p f k) = outer k"
  "(\<And>r. s_id (g r) = s_id r \<and> s_proc_nr (g r) = s_proc_nr r \<and> s_flags (g r) = s_flags r \<and> s_stack_guard (g r) = s_stack_guard r) \<Longrightarrow>
     outer (upd_priv i g k) = outer k"
  "outer (k\<lparr>run_q_head := h\<rparr>) = outer k" "outer (k\<lparr>run_q_tail := h\<rparr>) = outer k"
  "outer (k\<lparr>run_q_head := h, run_q_tail := t\<rparr>) = outer k"
  "outer (k\<lparr>total_tickets := n\<rparr>) = outer k" "outer (k\<lparr>tsc_reads := m\<rparr>) = outer k"
  "outer (k\<lparr>kbill_ipc := b\<rparr>) = outer k"
  "outer (k\<lparr>kbill_kcall := b\<rparr>) = outer k" "outer (k\<lparr>user_msg := u\<rparr>) = outer k"
  "outer (k\<lparr>asyn_tab := a\<rparr>) = outer k"
  by (simp_all add: outer_def) (simp_all add: idents_def)

lemma has_clear_not: "\<not> has f g \<Longrightarrow> has (w AND NOT f) g = has w g" for w f g :: "'a::len word"
  by (rule has_clear_other) (simp add: has_def)

lemma not_free [simp]:
  "\<not> has RTS_PREEMPTED RTS_SLOT_FREE" "\<not> has RTS_SENDING RTS_SLOT_FREE" "\<not> has RTS_RECEIVING RTS_SLOT_FREE"
  "\<not> has RTS_NO_QUANTUM RTS_SLOT_FREE" "\<not> has RTS_PROC_STOP RTS_SLOT_FREE" "\<not> has RTS_NO_ENDPOINT RTS_SLOT_FREE"
  "\<not> has RTS_NO_PRIV RTS_SLOT_FREE" "\<not> has (RTS_SIGNALED OR RTS_SIG_PENDING) RTS_SLOT_FREE"
  "\<not> has RTS_VMINHIBIT RTS_SLOT_FREE" "\<not> has RTS_SIG_PENDING RTS_SLOT_FREE" "\<not> has RTS_SIGNALED RTS_SLOT_FREE"
  by (simp_all add: has_def RTS_defs)

lemma vt_idents [simp]:
  "p_nr (set_vt_left w v r) = p_nr r" "p_endpoint (set_vt_left w v r) = p_endpoint r"
  "p_priv (set_vt_left w v r) = p_priv r" "p_rts_flags (set_vt_left w v r) = p_rts_flags r"
  by (simp_all add: set_vt_left_def)

named_theorems cur \<open>operations that leave the outer state alone\<close>

lemmas cur_splits = bind_eq_Some_conv Let_def

section \<open>Updates and run queues\<close>

lemma pure_cur [simp]:
  "outer (xpp_set q prev v k) = outer k"
  "outer (dequeue_found k rp q prev) = outer k"
  "outer (dequeue_accounting rp k) = outer k"
  "outer (note_enter_queue k) = outer k"
  "outer (enqueue_front rp q k) = outer k"
  "outer (reset_proc_accounting rp k) = outer k"
  by (auto simp: xpp_set_def dequeue_found_def dequeue_accounting_def note_enter_queue_def enqueue_front_def
      reset_proc_accounting_def read_tsc_def Let_def split: option.split)

lemma status_cur [simp]:
  "outer (IPC_STATUS_ADD p m k) = outer k" "outer (IPC_STATUS_ADD_CALL p c k) = outer k"
  "outer (IPC_STATUS_ADD_FROM_KERNEL p k) = outer k" "outer (set_misc p f k) = outer k"
  "outer (clear_misc p f k) = outer k" "outer (deliver p msg e k) = outer k"
  "outer (set_caller_xpp d prev v k) = outer k" "outer (set_asyntab i t n k) = outer k"
  by (simp_all add: IPC_STATUS_ADD_CALL_def IPC_STATUS_ADD_FROM_KERNEL_def IPC_STATUS_ADD_def set_misc_def
      clear_misc_def deliver_def set_caller_xpp_def set_asyntab_def split: option.split)

lemma misc_sel [simp]:
  "proc_ptr (set_misc p f k) = proc_ptr k" "proc_ptr (clear_misc p f k) = proc_ptr k"
  "bill_ptr (set_misc p f k) = bill_ptr k" "bill_ptr (clear_misc p f k) = bill_ptr k"
  by (simp_all add: set_misc_def clear_misc_def)

lemma dequeue_walk_cur [cur]:
  assumes "dequeue_walk k rp q prev = Some k'"
  shows "outer k' = outer k"
  by (rule dequeue_walk.raw_induct [where P = "\<lambda>k rp q prev k'. outer k' = outer k", OF _ assms])
    (auto split: option.splits if_splits)

lemma dequeue_cur [cur]: "dequeue rp k = Some k' \<Longrightarrow> outer k' = outer k"
  by (auto simp: dequeue_def cur_splits split: option.splits if_splits dest!: cur)

lemma RTS_SET_cur [cur]: "RTS_SET rp f k = Some k' \<Longrightarrow> \<not> has f RTS_SLOT_FREE \<Longrightarrow> outer k' = outer k"
  by (auto simp: RTS_SET_def cur_splits has_or split: option.splits if_splits dest!: cur)

lemma enqueue_tail_cur [cur]: "enqueue_tail rp q k = Some k' \<Longrightarrow> outer k' = outer k"
  by (auto simp: enqueue_tail_def cur_splits split: option.splits if_splits dest!: cur)

lemma enqueue_preempt_cur [cur]: "enqueue_preempt rp k = Some k' \<Longrightarrow> outer k' = outer k"
  by (auto simp: enqueue_preempt_def cur_splits split: option.splits if_splits dest!: cur)

lemma enqueue_cur [cur]: "enqueue rp k = Some k' \<Longrightarrow> outer k' = outer k"
  by (auto simp: enqueue_def cur_splits split: option.splits if_splits dest!: cur)

lemma enqueue_head_cur [cur]: "enqueue_head rp k = Some k' \<Longrightarrow> outer k' = outer k"
  by (auto simp: enqueue_head_def cur_splits split: option.splits if_splits dest!: cur)

lemma RTS_UNSET_cur [cur]: "RTS_UNSET rp f k = Some k' \<Longrightarrow> \<not> has f RTS_SLOT_FREE \<Longrightarrow> outer k' = outer k"
  by (auto simp: RTS_UNSET_def cur_splits has_clear_not split: option.splits if_splits dest!: cur)

section \<open>Notifications and signals\<close>

lemma unset_notify_pending_cur [cur]: "unset_notify_pending p i k = Some k' \<Longrightarrow> outer k' = outer k"
  by (auto simp: unset_notify_pending_def cur_splits split: option.splits if_splits dest!: cur)

lemma BuildNotifyMessage_cur [cur]: "BuildNotifyMessage s p k = Some (m, k') \<Longrightarrow> outer k' = outer k"
  by (auto simp: BuildNotifyMessage_def cur_splits split: option.splits if_splits dest!: cur)

lemma mini_notify_cur [cur]: "mini_notify c e k = Some (r, k') \<Longrightarrow> outer k' = outer k"
  by (auto simp: mini_notify_def cur_splits split: option.splits if_splits dest!: cur)

lemma send_sig_cur [cur]: "send_sig e s k = Some (r, k') \<Longrightarrow> outer k' = outer k"
  by (auto simp: send_sig_def cur_splits split: option.splits if_splits dest!: cur)

lemma cause_sig_other_cur [cur]: "cause_sig_other p m s k = Some k' \<Longrightarrow> outer k' = outer k"
  by (auto simp: cause_sig_other_def cur_splits split: option.splits if_splits dest!: cur)

text \<open>What the steps of \<open>cause_sig\<close> leave alone, it leaves alone.\<close>

lemma cause_sig_field:
  fixes F :: "kernel \<Rightarrow> 'a"
  assumes "cause_sig lethal p s k = Some k'"
    and "\<And>i b k. F (upd_priv i (\<lambda>pr. pr\<lparr>s_sig_mgr := b, s_bak_sig_mgr := NONE\<rparr>) k) = F k"
    and "\<And>i s k. F (upd_priv i (\<lambda>pr. pr\<lparr>s_sig_pending := insert s (s_sig_pending pr)\<rparr>) k) = F k"
    and "\<And>q k k'. RTS_UNSET q RTS_NO_PRIV k = Some k' \<Longrightarrow> F k' = F k"
    and "\<And>e c k k'. send_sig e SIGKSIGSM k = Some (c, k') \<Longrightarrow> F k' = F k"
    and "\<And>p m s k k'. cause_sig_other p m s k = Some k' \<Longrightarrow> F k' = F k"
  shows "F k' = F k"
proof (rule cause_sig.raw_induct [where P = "\<lambda>lethal p s k k'. F k' = F k", OF _ assms(1)])
  fix cs :: "(signal \<Rightarrow> bool) \<Rightarrow> int \<Rightarrow> signal \<Rightarrow> kernel \<Rightarrow> kernel option" and lethal p s k k'
  assume IH: "\<And>lethal p s k k'. cs lethal p s k = Some k' \<Longrightarrow> F k' = F k"
    and body: "(case p_priv (procs k p) of
        None \<Rightarrow> None
      | Some i \<Rightarrow>
          (let e = p_endpoint (procs k p);
               sig_mgr = (if s_sig_mgr (privs k i) = SELF then e else s_sig_mgr (privs k i))
           in if e = sig_mgr then
                if lethal s then
                  (let bak = s_bak_sig_mgr (privs k i)
                   in if bak = NONE then None
                      else
                        (case isokendpt k bak of
                           None \<Rightarrow> None
                         | Some sig_mgr_rp \<Rightarrow>
                             (case RTS_UNSET sig_mgr_rp RTS_NO_PRIV
                                (upd_priv i (\<lambda>pr. pr\<lparr>s_sig_mgr := bak, s_bak_sig_mgr := NONE\<rparr>) k) of
                                None \<Rightarrow> None
                              | Some k1 \<Rightarrow> cs lethal p s k1)))
                else
                  (case send_sig e SIGKSIGSM
                     (upd_priv i (\<lambda>pr. pr\<lparr>s_sig_pending := insert s (s_sig_pending pr)\<rparr>) k) of
                     None \<Rightarrow> None
                   | Some (c, k1) \<Rightarrow> if c \<noteq> OK then None else Some k1)
              else cause_sig_other p sig_mgr s k)) = Some k'"
  show "F k' = F k"
    using body by (auto simp: Let_def assms(2,3) split: option.splits if_splits dest!: IH assms(4-6))
qed

lemma cause_sig_cur [cur]: "cause_sig lethal p s k = Some k' \<Longrightarrow> outer k' = outer k"
  by (erule cause_sig_field) (auto dest: cur)

lemma sig_delay_done_cur [cur]: "sig_delay_done lethal p k = Some k' \<Longrightarrow> outer k' = outer k"
  by (auto simp: sig_delay_done_def cur_splits split: option.splits if_splits dest!: cur)

section \<open>Messages\<close>

lemma caller_q_append_cur [cur]:
  assumes "caller_q_append k d c prev = Some k'"
  shows "outer k' = outer k"
  by (rule caller_q_append.raw_induct [where P = "\<lambda>k d c prev k'. outer k' = outer k", OF _ assms])
    (auto split: option.splits)

lemma send_direct_cur [cur]: "send_direct c d m f k = Some (r, k') \<Longrightarrow> outer k' = outer k"
  by (auto simp: send_direct_def cur_splits split: option.splits if_splits dest!: cur)

lemma send_block_cur [cur]: "send_block c d e m f k = Some (r, k') \<Longrightarrow> outer k' = outer k"
  by (auto simp: send_block_def cur_splits split: option.splits if_splits dest!: cur)

lemma mini_send_cur [cur]: "mini_send c e m f k = Some (r, k') \<Longrightarrow> outer k' = outer k"
  by (auto simp: mini_send_def cur_splits split: option.splits if_splits dest!: cur)

lemma set_asyn_pending_cur [cur]: "set_asyn_pending p i b k = Some k' \<Longrightarrow> outer k' = outer k"
  by (auto simp: set_asyn_pending_def cur_splits split: option.splits if_splits dest!: cur)

lemma A_INSRT_cur [cur]: "A_INSRT c t i e k = Some k' \<Longrightarrow> outer k' = outer k"
  by (auto simp: A_INSRT_def cur_splits split: option.splits if_splits dest!: cur)

lemma insert_cur [simp]:
  "outer (case A_INSRT c t i e k of None \<Rightarrow> k | Some k2 \<Rightarrow> k2) = outer k"
  by (auto split: option.split dest!: A_INSRT_cur)

lemma senda_entry_cur [cur]:
  "senda_entry c t i (n, d, k) = Some (n', d', k') \<Longrightarrow> outer k' = outer k"
  by (cases "A_RETR k c t i") (auto simp: senda_entry_def cur_splits split: if_splits dest!: cur)

lemma senda_loop_cur [cur]:
  "senda_loop c t is (n, d, k) = Some (n', d', k') \<Longrightarrow> outer k' = outer k"
proof (induction "is" arbitrary: n d k)
  case (Cons i "is")
  then obtain n1 d1 k1 where e: "senda_entry c t i (n, d, k) = Some (n1, d1, k1)"
      and l: "senda_loop c t is (n1, d1, k1) = Some (n', d', k')" by (auto split: option.splits)
  show ?case using Cons.IH [OF l] senda_entry_cur [OF e] by simp
qed simp

lemma mini_senda_cur [cur]:
  assumes "mini_senda c t n k = Some (r, k')"
  shows "outer k' = outer k"
proof -
  have loop: "outer k2 = outer k" if "senda_loop c t is (False, True, set_asyntab i (- 1) 0 k) = Some (a, b, k2)"
    for "is" i a b k2
    using senda_loop_cur [OF that] by simp
  have notify: "outer k3 = outer k2" if "(if d then map_option snd (mini_notify ASYNCM e k2) else Some k2) = Some k3"
    for d e k2 k3
    using that by (auto split: if_splits dest!: mini_notify_cur)
  show ?thesis
    using assms unfolding mini_senda_def try_deliver_senda_def
    by (auto simp: bind_eq_Some_conv Let_def simp del: senda_loop.simps split: if_split_asm
        dest!: loop notify mini_notify_cur)
qed

lemma try_one_entry_cur:
  "try_one_entry s d t i (r, n, dn, k) = (e, r', n', dn', k') \<Longrightarrow> outer k' = outer k"
  by (auto simp: try_one_entry_def Let_def split: if_splits option.splits dest!: cur)

lemma try_one_loop_cur:
  "try_one_loop s d t is (r, n, dn, k) = (e, r', n', dn', k') \<Longrightarrow> outer k' = outer k"
proof (induction "is" arbitrary: r n dn k)
  case (Cons i "is")
  obtain e1 r1 n1 dn1 k1 where e: "try_one_entry s d t i (r, n, dn, k) = (e1, r1, n1, dn1, k1)"
    by (metis prod_cases5)
  have "outer k1 = outer k" by (rule try_one_entry_cur [OF e])
  then show ?case using Cons.prems Cons.IH [of r1 n1 dn1 k1] e by (cases e1) auto
qed simp

lemma try_one_finish_cur:
  "try_one_finish s d i st = Some (r, k') \<Longrightarrow> outer k' = outer (snd (snd (snd (snd st))))"
  by (auto simp: try_one_finish_def bind_eq_Some_conv split: if_splits prod.splits dest!: cur)

lemma try_one_cur [cur]:
  assumes "try_one s d k = Some (r, k')"
  shows "outer k' = outer k"
proof -
  have loop: "outer (snd (snd (snd (snd (try_one_loop s d t is (EAGAIN, False, True, k1)))))) = outer k1"
    for t "is" k1
    using try_one_loop_cur [of s d t "is" EAGAIN False True k1]
    by (cases "try_one_loop s d t is (EAGAIN, False, True, k1)") auto
  show ?thesis
    using assms by (auto simp: try_one_def cur_splits loop split: if_splits dest!: try_one_finish_cur cur)
qed

lemma try_async_loop_cur [cur]: "try_async_loop c is k = Some (r, k') \<Longrightarrow> outer k' = outer k"
proof (induction "is" arbitrary: k)
  case (Cons i "is")
  then show ?case by (auto simp: bind_eq_Some_conv split: if_splits dest!: try_one_cur)
qed simp

lemma try_async_cur [cur]: "try_async c k = Some (r, k') \<Longrightarrow> outer k' = outer k"
  by (auto simp: try_async_def cur_splits split: option.splits if_splits dest!: cur)

lemma receive_notify_cur [cur]: "receive_notify c e p k = Some (b, k') \<Longrightarrow> outer k' = outer k"
  by (auto simp: receive_notify_def cur_splits split: option.splits if_splits dest!: cur)

lemma receive_async_cur [cur]: "receive_async c p k = Some (b, k') \<Longrightarrow> outer k' = outer k"
  by (auto simp: receive_async_def cur_splits split: option.splits if_splits dest!: cur)

lemma receive_from_cur [cur]: "receive_from lethal c s prev k = Some k' \<Longrightarrow> outer k' = outer k"
  by (auto simp: receive_from_def cur_splits split: option.splits if_splits dest!: cur)

lemma receive_queue_cur [cur]:
  assumes "receive_queue lethal c e p prev k = Some (b, k')"
  shows "outer k' = outer k"
proof -
  have "outer (snd (b, k')) = outer k"
    by (rule receive_queue.raw_induct [where P = "\<lambda>lethal c e p prev k y. outer (snd y) = outer k", OF _ assms])
      (auto split: option.splits if_splits dest!: cur)
  then show ?thesis by simp
qed

lemma receive_block_cur [cur]: "receive_block c e f k = Some (r, k') \<Longrightarrow> outer k' = outer k"
  by (auto simp: receive_block_def cur_splits split: option.splits if_splits dest!: cur)

lemma receive_done_cur [cur]: "receive_done c k = Some (r, k') \<Longrightarrow> outer k' = outer k"
  by (auto simp: receive_done_def cur_splits split: option.splits if_splits dest!: cur)

lemma mini_receive_cur [cur]: "mini_receive lethal c e a f k = Some (r, k') \<Longrightarrow> outer k' = outer k"
  by (auto simp: mini_receive_def cur_splits split: option.splits if_splits dest!: cur)

lemma do_sync_ipc_cur [cur]: "do_sync_ipc lethal c n e a k = Some (r, k') \<Longrightarrow> outer k' = outer k"
  by (auto simp: do_sync_ipc_def cur_splits split: option.splits if_splits dest!: cur)

lemma do_ipc_trace_cur:
  "do_ipc_trace lethal c regs k = Some (Inl (r, k')) \<Longrightarrow> outer k' = outer k"
  "do_ipc_trace lethal c regs k = Some (Inr k') \<Longrightarrow> outer k' = outer k"
  by (auto simp: do_ipc_trace_def cur_splits split: if_splits dest!: cur)

lemma do_ipc_cur [cur]:
  assumes "do_ipc lethal r1 r2 r3 k = Some (r, k')"
  shows "outer k' = outer k"
proof -
  define c where "c = proc_ptr k"
  obtain t where t: "do_ipc_trace lethal c (r1, r2, r3) (k\<lparr>kbill_ipc := c\<rparr>) = Some t"
    using assms by (auto simp: do_ipc_def c_def cur_splits split: if_splits)
  show ?thesis
  proof (cases t)
    case (Inl res)
    then show ?thesis using assms t do_ipc_trace_cur(1) [of lethal c "(r1, r2, r3)" "k\<lparr>kbill_ipc := c\<rparr>" r k']
      by (auto simp: do_ipc_def Let_def c_def split: if_splits)
  next
    case (Inr k1)
    then have "outer k1 = outer k" using t do_ipc_trace_cur(2) by fastforce
    then show ?thesis using assms t Inr
      by (auto simp: do_ipc_def Let_def c_def [symmetric] split: if_splits dest!: cur)
  qed
qed

lemma delivermsg_cur [cur]: "delivermsg lethal p k = Some k' \<Longrightarrow> outer k' = outer k"
  by (auto simp: delivermsg_def cur_splits split: option.splits if_splits dest!: cur)

lemma notify_scheduler_cur [cur]: "notify_scheduler load p k = Some k' \<Longrightarrow> outer k' = outer k"
  by (auto simp: notify_scheduler_def cur_splits split: option.splits if_splits dest!: cur)

lemma proc_no_time_cur [cur]: "proc_no_time load p k = Some k' \<Longrightarrow> outer k' = outer k"
  by (auto simp: proc_no_time_def cur_splits split: option.splits if_splits dest!: cur)

section \<open>Kernel calls\<close>

lemma sched_proc_cur [cur]: "sched_proc p prio q k = Some (r, k') \<Longrightarrow> outer k' = outer k"
  by (auto simp: sched_proc_def cur_splits split: option.splits if_splits dest!: cur)

lemma do_schedule_cur [cur]: "do_schedule c e prio q k = Some (r, k') \<Longrightarrow> outer k' = outer k"
  by (auto simp: do_schedule_def cur_splits split: option.splits if_splits dest!: cur)

lemma do_schedctl_cur [cur]: "do_schedctl c f e prio q k = Some (r, k') \<Longrightarrow> outer k' = outer k"
  by (auto simp: do_schedctl_def cur_splits split: option.splits if_splits dest!: cur)

lemma do_runctl_cur [cur]: "do_runctl e a f k = Some (r, k') \<Longrightarrow> outer k' = outer k"
  by (auto simp: do_runctl_def cur_splits split: option.splits if_splits dest!: cur)

lemma do_endksig_cur [cur]: "do_endksig c e k = Some (r, k') \<Longrightarrow> outer k' = outer k"
  by (auto simp: do_endksig_def cur_splits split: option.splits if_splits dest!: cur)

lemma do_kill_cur [cur]: "do_kill lethal n so e s k = Some (r, k') \<Longrightarrow> outer k' = outer k"
  by (auto simp: do_kill_def cur_splits split: option.splits if_splits dest!: cur)

lemma do_exit_cur [cur]: "do_exit lethal c k = Some (r, k') \<Longrightarrow> outer k' = outer k"
  by (auto simp: do_exit_def cur_splits split: option.splits if_splits dest!: cur)

lemma do_vtimer_cur [cur]: "do_vtimer c w b v e k = Some (r, v', k') \<Longrightarrow> outer k' = outer k"
  by (auto simp: do_vtimer_def cur_splits split: option.splits if_splits dest!: cur)

lemma getksig_loop_cur: "getksig_loop c rps k = Some (r, x, k') \<Longrightarrow> outer k' = outer k"
  by (induction rps) (auto simp: cur_splits split: if_splits dest!: cur)

lemma do_getksig_cur [cur]: "do_getksig c k = Some (r, x, k') \<Longrightarrow> outer k' = outer k"
  unfolding do_getksig_def by (rule getksig_loop_cur)

lemma caller_q_remove_cur [cur]:
  assumes "caller_q_remove k d c prev = Some k'"
  shows "outer k' = outer k"
  by (rule caller_q_remove.raw_induct [where P = "\<lambda>k d c prev k'. outer k' = outer k", OF _ assms])
    (auto split: option.splits if_splits)

lemma clear_ipc_cur [cur]: "clear_ipc p k = Some k' \<Longrightarrow> outer k' = outer k"
  by (auto simp: clear_ipc_def cur_splits split: if_splits dest!: cur)

lemma cancel_loop_cur:
  "(case cancel_loop sp dp t is (n, d, k) of Inl k2 \<Rightarrow> outer k2 | Inr (_, _, k2) \<Rightarrow> outer k2) = outer k"
proof (induction "is" arbitrary: n d k)
  case (Cons i "is")
  show ?case
  proof (cases "cancel_entry sp dp t i (n, d, k)")
    case None
    then show ?thesis by simp
  next
    case (Some st)
    obtain n1 d1 k1 where st: "st = (n1, d1, k1)" by (metis prod_cases3)
    have "outer k1 = outer k"
      using Some unfolding st
      by (cases "A_RETR k sp t i") (auto simp: cancel_entry_def Let_def split: if_splits dest!: cur)
    then show ?thesis using Cons.IH [of n1 d1 k1] Some st by simp
  qed
qed simp

lemma cancel_async_cur [cur]:
  assumes "cancel_async sp dp k = Some (c, k')"
  shows "outer k' = outer k"
proof (cases "p_priv (procs k sp)")
  case None
  then show ?thesis using assms by (simp add: cancel_async_def)
next
  case (Some pi)
  define n where "n = s_asynsize (privs k pi)"
  define tv where "tv = s_asyntab (privs k pi)"
  show ?thesis
  proof (cases "has (s_flags (privs k pi)) SYS_PROC")
    case False
    then show ?thesis using assms Some by (simp add: cancel_async_def Let_def)
  next
    case True
    then obtain k1 where k1: "set_asyn_pending dp (s_id (privs k pi)) False (set_asyntab pi (- 1) 0 k) = Some k1"
      using assms Some by (auto simp: cancel_async_def Let_def bind_eq_Some_conv)
    have p1: "outer k1 = outer k" using set_asyn_pending_cur [OF k1] by simp
    show ?thesis
      using assms Some True k1 p1 cancel_loop_cur [of sp dp tv "[0..<n]" False True k1]
      by (auto simp: cancel_async_def Let_def bind_eq_Some_conv simp flip: n_def tv_def
          split: if_splits sum.splits prod.splits dest!: mini_notify_cur)
  qed
qed

lemma cancel_pending_cur [cur]:
  assumes "cancel_pending c k = Some k'"
  shows "outer k' = outer k"
  by (rule cancel_pending.raw_induct [where P = "\<lambda>c k k'. outer k' = outer k", OF _ assms])
    (auto split: option.splits if_splits dest!: cur)

lemma clear_ref_cur [cur]: "clear_ref c r p k = Some k' \<Longrightarrow> outer k' = outer k"
  by (auto simp: clear_ref_def cur_splits split: if_splits dest!: cur)

lemma clear_refs_loop_cur [cur]: "clear_refs_loop c r ps k = Some k' \<Longrightarrow> outer k' = outer k"
  by (induction ps arbitrary: k) (auto simp: bind_eq_Some_conv dest!: cur)

lemma clear_ipc_refs_cur [cur]: "clear_ipc_refs c r k = Some k' \<Longrightarrow> outer k' = outer k"
  by (auto simp: clear_ipc_refs_def bind_eq_Some_conv simp del: clear_refs_loop.simps dest!: cur)

lemma do_statectl_cur [cur]: "do_statectl c q k = Some (r, k') \<Longrightarrow> outer k' = outer k"
  by (auto simp: do_statectl_def split: if_splits dest!: cur)

end
