(* ===== verification/Clock.thy ===== *)
theory Clock
  imports Kernel_Frame
begin

text \<open>
  The clock of the kernel (\<^verbatim>\<open>kernel/clock.c\<close>): the time, the kernel's queue of watchdog timers, and the
  handler of the timer interrupt, which charges the current process, runs its virtual timers, keeps the load average and
  lets the timers expire whose time has come; and the kernel calls that set alarms and the time of day
  (\<^verbatim>\<open>do_setalarm.c\<close>, \<^verbatim>\<open>do_times.c\<close>, \<^verbatim>\<open>do_settime.c\<close>, \<^verbatim>\<open>do_stime.c\<close>).

  The invariant \<open>clock_ok\<close> says that the timers are queued in the order in which they expire and that
  \<open>next_timeout\<close> is the time of the first one, so that the handler's test of \<open>next_timeout\<close> misses no timer.
\<close>

section \<open>Timers of the kernel\<close>

definition set_clk :: "(clock \<Rightarrow> clock) \<Rightarrow> kernel \<Rightarrow> kernel" where
  "set_clk f k = k\<lparr>clk := f (clk k)\<rparr>"

definition first_timeout :: "watchdog tmr_queue \<Rightarrow> clock_t" where
  "first_timeout q = (case tmrs q of None \<Rightarrow> TMR_NEVER | Some t \<Rightarrow> tmr_exp_time (tmr q t))"

definition set_kernel_timer :: "nat \<Rightarrow> clock_t \<Rightarrow> watchdog \<Rightarrow> kernel \<Rightarrow> kernel option" where
  "set_kernel_timer tp exp_time w k = do {
     (_, _, q) \<leftarrow> tmrs_settimer tp exp_time w (clock_timers (clk k));
     t \<leftarrow> tmrs q;
     Some (set_clk (\<lambda>c. c\<lparr>clock_timers := q, next_timeout := tmr_exp_time (tmr q t)\<rparr>) k)
   }"

definition reset_kernel_timer :: "nat \<Rightarrow> kernel \<Rightarrow> kernel option" where
  "reset_kernel_timer tp k = do {
     (_, _, q) \<leftarrow> tmrs_clrtimer tp (clock_timers (clk k));
     Some (set_clk (\<lambda>c. c\<lparr>clock_timers := q, next_timeout := first_timeout q\<rparr>) k)
   }"

definition cause_alarm :: "nat \<Rightarrow> kernel \<Rightarrow> kernel option" where
  "cause_alarm tp k =
     map_option snd (mini_notify CLOCK (tmr_arg (tmr (clock_timers (clk k)) tp)) k)"

text \<open>The watchdog functions of the kernel. \<open>minix_shutdown\<close> stops the machine and does not return.\<close>

definition run_watchdog :: "watchdog \<Rightarrow> nat \<Rightarrow> kernel \<Rightarrow> kernel option" where
  "run_watchdog w tp k =
     (case w of Cause_Alarm \<Rightarrow> cause_alarm tp k | Minix_Shutdown \<Rightarrow> None)"

section \<open>The timer interrupt\<close>

text \<open>The time goes on by a tick; while \<open>adjtime_delta\<close> is not used up, every other tick counts
  twice or not at all.\<close>

definition tick :: "kernel \<Rightarrow> kernel" where
  "tick k =
     (let now = monotonic k + 1; d = adjtime_delta (clk k)
      in set_clk (\<lambda>c.
           if d \<noteq> 0 \<and> has now 1
           then c\<lparr>realtime := realtime c + (if 0 < sint d then 2 else 0),
                  adjtime_delta := d + (if 0 < sint d then - 1 else 1)\<rparr>
           else c\<lparr>realtime := realtime c + 1\<rparr>) (k\<lparr>monotonic := now\<rparr>))"

definition count_down :: "int \<Rightarrow> int \<Rightarrow> kernel \<Rightarrow> kernel" where
  "count_down which p k =
     (if has (misc k p) (vt_flag which) \<and> 0 < vt_left which (procs k p)
      then upd_proc p (\<lambda>r. set_vt_left which (vt_left which r - 1) r) k else k)"

definition charge :: "kernel \<Rightarrow> kernel option" where
  "charge k = do {
     let p = proc_ptr k;
     let billp = bill_ptr k;
     pr \<leftarrow> priv_of k p;
     let k1 = upd_proc p (\<lambda>r. r\<lparr>p_user_time := p_user_time r + 1\<rparr>) k;
     let k2 = (if \<not> has (s_flags pr) BILLABLE
               then upd_proc billp (\<lambda>r. r\<lparr>p_sys_time := p_sys_time r + 1\<rparr>) k1 else k1);
     let k3 = count_down VT_PROF p (count_down VT_VIRTUAL p k2);
     Some (if \<not> has (s_flags pr) BILLABLE then count_down VT_PROF billp k3 else k3)
   }"

partial_function (option) count_ready :: "kernel \<Rightarrow> int option \<Rightarrow> nat \<Rightarrow> nat option" where
  "count_ready k p enqueued =
     (case p of None \<Rightarrow> Some enqueued
      | Some q \<Rightarrow> count_ready k (p_nextready (procs k q)) (enqueued + 1))"

fun count_queues :: "kernel \<Rightarrow> nat list \<Rightarrow> nat \<Rightarrow> nat option" where
  "count_queues k [] enqueued = Some enqueued"
| "count_queues k (q # qs) enqueued =
     do { n \<leftarrow> count_ready k (run_q_head k q) enqueued; count_queues k qs n }"

definition LOAD_UNIT_SECS :: "32 word" where "LOAD_UNIT_SECS = 6"
definition LOAD_HISTORY :: "32 word" where "LOAD_HISTORY = 150"

definition load_slot :: "kernel \<Rightarrow> 16 word" where
  "load_slot k = ucast (monotonic k div system_hz (clk k) div LOAD_UNIT_SECS mod LOAD_HISTORY)"

definition load_update :: "kernel \<Rightarrow> kernel option" where
  "load_update k =
     (if system_hz (clk k) = 0 then None
      else do {
        let slot = load_slot k;
        let k1 = (if slot \<noteq> proc_last_slot (clk k)
                  then set_clk (\<lambda>c. c\<lparr>proc_load_history := (proc_load_history c)(unat slot := 0),
                                      proc_last_slot := slot\<rparr>) k
                  else k);
        enqueued \<leftarrow> count_queues k1 [0..<NR_SCHED_QUEUES] 0;
        Some (set_clk (\<lambda>c. c\<lparr>proc_load_history := (proc_load_history c)
                  (unat slot := proc_load_history c (unat slot) + of_nat enqueued),
                last_clock := monotonic k1\<rparr>) k1)
      })"

definition get_timers :: "kernel \<Rightarrow> watchdog tmr_queue" where
  "get_timers k = clock_timers (clk k)"

definition put_timers :: "watchdog tmr_queue \<Rightarrow> kernel \<Rightarrow> kernel" where
  "put_timers q = set_clk (\<lambda>c. c\<lparr>clock_timers := q\<rparr>)"

definition expire :: "kernel \<Rightarrow> kernel option" where
  "expire k =
     (if next_timeout (clk k) \<le> monotonic k
      then do {
        (_, k1) \<leftarrow> tmrs_exptimers get_timers put_timers run_watchdog (monotonic k) k;
        Some (set_clk (\<lambda>c. c\<lparr>next_timeout := first_timeout (clock_timers c)\<rparr>) k1)
      }
      else Some k)"

definition timer_int_handler :: "(signal \<Rightarrow> bool) \<Rightarrow> kernel \<Rightarrow> kernel option" where
  "timer_int_handler lethal k = do {
     k1 \<leftarrow> charge (tick k);
     k2 \<leftarrow> vtimer_check lethal (proc_ptr k) k1;
     k3 \<leftarrow> (if proc_ptr k \<noteq> bill_ptr k then vtimer_check lethal (bill_ptr k) k2 else Some k2);
     k4 \<leftarrow> load_update k3;
     expire k4
   }"

section \<open>Kernel calls\<close>

text \<open>Besides the result code, the ticks left on the previous alarm.\<close>

definition do_setalarm ::
  "int \<Rightarrow> clock_t \<Rightarrow> bool \<Rightarrow> kernel \<Rightarrow> (code \<times> clock_t option \<times> kernel) option" where
  "do_setalarm caller exp_time use_abs_time k = do {
     tp \<leftarrow> p_priv (procs k caller);
     if \<not> has (s_flags (privs k tp)) SYS_PROC then Some (EPERM, None, k)
     else do {
       let q = upd_tmr tp (\<lambda>t. t\<lparr>tmr_arg := p_endpoint (procs k caller), tmr_func := Cause_Alarm\<rparr>) (get_timers k);
       let uptime = monotonic k;
       let old = tmr_exp_time (tmr q tp);
       let time_left = (if old \<noteq> TMR_NEVER \<and> uptime < old then old - uptime else 0);
       k1 \<leftarrow>
         (if exp_time = 0 then reset_kernel_timer tp (put_timers q k)
          else
            (let t = (if use_abs_time then exp_time else exp_time + uptime)
             in set_kernel_timer tp t Cause_Alarm
                  (put_timers (upd_tmr tp (\<lambda>r. r\<lparr>tmr_exp_time := t\<rparr>) q) k)));
       Some (OK, Some time_left, k1)
     }
   }"

text \<open>User and system time of a process, if there is one, and ticks since boot, wall-clock ticks and boot time.\<close>

definition do_times ::
  "int \<Rightarrow> int \<Rightarrow> kernel \<Rightarrow> code \<times> (clock_t \<times> clock_t) option \<times> clock_t \<times> clock_t \<times> clock_t" where
  "do_times caller endpt k =
     (let e = (if endpt = SELF then p_endpoint (procs k caller) else endpt);
          rp = (if e = NONE then None else isokendpt k e)
      in (OK, map_option (\<lambda>p. (p_user_time (procs k p), p_sys_time (procs k p))) rp,
          monotonic k, realtime (clk k), word_of_int (boottime (clk k))))"

definition LONG_MAX :: int where "LONG_MAX = 0x7FFFFFFF"
definition LONG_MIN :: int where "LONG_MIN = - 0x80000000"

text \<open>\<open>nsec\<close> in ticks, in the unsigned arithmetic of \<open>u32_t\<close>.\<close>

definition nsec_ticks :: "32 word \<Rightarrow> int \<Rightarrow> 32 word" where
  "nsec_ticks hz nsec = word_of_int nsec div (1000000000 div hz)"

definition do_settime :: "bool \<Rightarrow> bool \<Rightarrow> int \<Rightarrow> int \<Rightarrow> kernel \<Rightarrow> (code \<times> kernel) option" where
  "do_settime is_realtime now sec nsec k =
     (let hz = system_hz (clk k)
      in if \<not> is_realtime then Some (EINVAL, k)
         else if hz = 0 \<or> 1000000000 div hz = 0 then None
         else if \<not> now
         then Some (OK, set_clk (\<lambda>c. c\<lparr>adjtime_delta := word_of_int (sec * uint hz) + nsec_ticks hz nsec\<rparr>) k)
         else
           (let timediff_ticks = (sec - boottime (clk k)) * uint hz
            in if sec \<le> boottime (clk k) \<or> timediff_ticks < LONG_MIN div 2 \<or> timediff_ticks > LONG_MAX div 2
               then Some (OK, set_clk (\<lambda>c. c\<lparr>boottime := sec, realtime := 1\<rparr>) k)
               else Some (OK, set_clk (\<lambda>c. c\<lparr>realtime := word_of_int timediff_ticks + nsec_ticks hz nsec\<rparr>) k)))"

definition do_stime :: "int \<Rightarrow> kernel \<Rightarrow> code \<times> kernel" where
  "do_stime boot_time k = (OK, set_clk (\<lambda>c. c\<lparr>boottime := boot_time\<rparr>) k)"

section \<open>Identity of processes\<close>

text \<open>
  What changes of the run queues and of the run-time flags do not touch in any process: its
  number, endpoint and privilege structure, whether its slot is in use, and the message waiting for it; nor the privilege table.
\<close>

definition core :: "proc \<Rightarrow> int \<times> int \<times> nat option \<times> bool \<times> 32 word \<times> message" where
  "core r = (p_nr r, p_endpoint r, p_priv r, has (p_rts_flags r) RTS_SLOT_FREE, p_misc_flags r, p_delivermsg r)"

definition cores :: "kernel \<Rightarrow> (int \<Rightarrow> int \<times> int \<times> nat option \<times> bool \<times> 32 word \<times> message) \<times> (nat \<Rightarrow> priv)" where
  "cores k = ((\<lambda>p. core (procs k p)), privs k)"

lemma core_upd [simp]:
  "core (r\<lparr>p_nextready := x\<rparr>) = core r" "core (r\<lparr>p_accounting := a\<rparr>) = core r"
  "has f RTS_SLOT_FREE = has (p_rts_flags r) RTS_SLOT_FREE \<Longrightarrow> core (r\<lparr>p_rts_flags := f\<rparr>) = core r"
  by (simp_all add: core_def)

lemma cores_upd [simp]:
  "core (f (procs k p)) = core (procs k p) \<Longrightarrow> cores (upd_proc p f k) = cores k"
  "cores (k\<lparr>run_q_head := h\<rparr>) = cores k" "cores (k\<lparr>run_q_tail := h\<rparr>) = cores k"
  "cores (k\<lparr>run_q_head := h, run_q_tail := t\<rparr>) = cores k" "cores (k\<lparr>total_tickets := n\<rparr>) = cores k"
  "cores (k\<lparr>tsc_reads := m\<rparr>) = cores k"
  by (auto simp: cores_def)

lemma has_0 [simp]: "\<not> has 0 g" for g :: "'a::len word"
  by (simp add: has_def)

named_theorems core_frame \<open>operations that leave the cores of the processes alone\<close>

lemma queue_cores [simp]:
  "cores (xpp_set q prev v k) = cores k" "cores (dequeue_found k rp q prev) = cores k"
  "cores (dequeue_accounting rp k) = cores k" "cores (note_enter_queue k) = cores k"
  by (auto simp: xpp_set_def dequeue_found_def dequeue_accounting_def note_enter_queue_def read_tsc_def Let_def
      split: option.split)

lemma dequeue_walk_cores [core_frame]:
  assumes "dequeue_walk k rp q prev = Some k'"
  shows "cores k' = cores k"
  by (rule dequeue_walk.raw_induct [where P = "\<lambda>k rp q prev k'. cores k' = cores k", OF _ assms])
    (auto split: option.splits if_splits)

lemma dequeue_cores [core_frame]: "dequeue rp k = Some k' \<Longrightarrow> cores k' = cores k"
  by (auto simp: dequeue_def cur_splits split: option.splits if_splits dest!: core_frame)

lemma RTS_SET_cores [core_frame]:
  "RTS_SET rp f k = Some k' \<Longrightarrow> \<not> has f RTS_SLOT_FREE \<Longrightarrow> cores k' = cores k"
  by (auto simp: RTS_SET_def cur_splits has_or split: if_splits dest!: core_frame)

lemma enqueue_tail_cores [core_frame]: "enqueue_tail rp q k = Some k' \<Longrightarrow> cores k' = cores k"
  by (auto simp: enqueue_tail_def cur_splits split: option.splits)

lemma enqueue_preempt_cores [core_frame]: "enqueue_preempt rp k = Some k' \<Longrightarrow> cores k' = cores k"
  by (auto simp: enqueue_preempt_def cur_splits split: if_splits dest: RTS_SET_cores)

lemma enqueue_cores [core_frame]: "enqueue rp k = Some k' \<Longrightarrow> cores k' = cores k"
  by (auto simp: enqueue_def cur_splits split: if_splits dest!: core_frame)

lemma RTS_UNSET_cores [core_frame]:
  "RTS_UNSET rp f k = Some k' \<Longrightarrow> f AND RTS_SLOT_FREE = 0 \<Longrightarrow> cores k' = cores k"
  by (auto simp: RTS_UNSET_def cur_splits has_clear_other split: if_splits dest!: core_frame)

lemma cores_sel:
  assumes "cores k' = cores k"
  shows "p_endpoint (procs k' p) = p_endpoint (procs k p)" "p_priv (procs k' p) = p_priv (procs k p)"
    "misc k' p = misc k p" "p_delivermsg (procs k' p) = p_delivermsg (procs k p)"
    "privs k' = privs k" "idents k' = idents k"
proof -
  have c: "core (procs k' p) = core (procs k p)" for p using assms by (simp add: cores_def) meson
  show "p_endpoint (procs k' p) = p_endpoint (procs k p)" "p_priv (procs k' p) = p_priv (procs k p)"
    "misc k' p = misc k p" "p_delivermsg (procs k' p) = p_delivermsg (procs k p)"
    using c [of p] by (simp_all add: core_def)
  show "privs k' = privs k" using assms by (simp add: cores_def)
  then show "idents k' = idents k" using c by (simp add: idents_def core_def)
qed

lemma idents_status [simp]:
  "idents (IPC_STATUS_ADD_CALL p c k) = idents k" "idents (deliver p m e k) = idents k"
  "idents (set_misc p f k) = idents k" "idents (clear_misc p f k) = idents k"
  by (simp_all add: IPC_STATUS_ADD_CALL_def IPC_STATUS_ADD_def deliver_def set_misc_def clear_misc_def)

lemma receiving_not_free [simp]: "RTS_RECEIVING AND RTS_SLOT_FREE = 0"
  by (simp add: RTS_SLOT_FREE_def RTS_RECEIVING_def)

lemmas mini_notify_idents = outerD(6) [OF mini_notify_cur]

section \<open>Alarms reach their processes\<close>

text \<open>
  The process \<open>p\<close> has a notification from \<open>c\<close>: in its hands already, or waiting for its next receive.
\<close>

definition notified :: "int \<Rightarrow> kernel \<Rightarrow> int \<Rightarrow> bool" where
  "notified c k p \<longleftrightarrow>
     has (misc k p) MF_DELIVERMSG \<and> m_source (p_delivermsg (procs k p)) = p_endpoint (procs k c) \<and>
       m_type (p_delivermsg (procs k p)) = NOTIFY_MESSAGE \<or>
     (\<exists>i j. p_priv (procs k p) = Some i \<and> p_priv (procs k c) = Some j \<and> s_notify_pending (privs k i) (s_id (privs k j)))"

abbreviation alarmed :: "kernel \<Rightarrow> int \<Rightarrow> bool" where
  "alarmed \<equiv> notified CLOCK"

definition alive_as :: "kernel \<Rightarrow> int \<Rightarrow> int \<Rightarrow> bool" where
  "alive_as k e p \<longleftrightarrow> ENDPOINT_P e = p \<and> isokprocn p \<and> p_endpoint (procs k p) = e \<and>
     \<not> has (p_rts_flags (procs k p)) RTS_SLOT_FREE"

lemma alive_as_idents: "idents k' = idents k \<Longrightarrow> alive_as k' e p = alive_as k e p"
  unfolding alive_as_def by (frule identsD(1) [of _ _ p], drule identsD(3) [of _ _ p]) simp

lemma alive_as_isokendpt: "alive_as k e p \<Longrightarrow> isokendpt k e = Some p"
  by (auto simp: alive_as_def isokendpt_def isemptyn_def has_def RTS_SLOT_FREE_def)

lemma BuildNotifyMessage_from:
  assumes "BuildNotifyMessage s p k = Some (m, k')"
  shows "procs k' = procs k \<and> (\<forall>i. s_notify_pending (privs k' i) = s_notify_pending (privs k i)) \<and>
    m_type m = NOTIFY_MESSAGE \<and> idents k' = idents k"
  using assms outerD(6) [OF BuildNotifyMessage_cur [OF assms]] by (auto simp: BuildNotifyMessage_def cur_splits split: if_splits)

text \<open>A notification reaches the process, and takes no other one away.\<close>

lemma mini_notify_notifies:
  assumes "mini_notify c e k = Some (r, k')"
  shows "isokendpt k e = Some q \<Longrightarrow> notified c k' q" and "notified c k p \<Longrightarrow> notified c k' p"
proof -
  have id: "idents k' = idents k" by (rule mini_notify_idents [OF assms])
  note same = identsD [OF id]
  have both: "(\<forall>q. isokendpt k e = Some q \<longrightarrow> notified c k' q) \<and> (notified c k p \<longrightarrow> notified c k' p)"
  proof (cases "isokendpt k e")
    case None
    then show ?thesis using assms by (simp add: mini_notify_def)
  next
    case (Some q)
    show ?thesis
    proof (cases "WILLRECEIVE k q (p_endpoint (procs k c)) \<and> \<not> has (misc k q) MF_REPLY_PEND")
      case True
      then obtain m k1 where m: "\<not> has (misc k q) MF_DELIVERMSG"
          "BuildNotifyMessage (p_nr (procs k c)) q k = Some (m, k1)"
          "RTS_UNSET q RTS_RECEIVING (IPC_STATUS_ADD_CALL q NOTIFY (deliver q m (p_endpoint (procs k c)) k1)) = Some k'"
        using assms Some by (auto simp: mini_notify_def Let_def bind_eq_Some_conv split: if_splits)
      note b = BuildNotifyMessage_from [OF m(2)]
      have cr: "cores k' = cores (IPC_STATUS_ADD_CALL q NOTIFY (deliver q m (p_endpoint (procs k c)) k1))"
        by (rule RTS_UNSET_cores [OF m(3)]) simp
      have mq: "misc k' q = misc k q OR MF_DELIVERMSG" "p_delivermsg (procs k' q) = m\<lparr>m_source := p_endpoint (procs k c)\<rparr>"
        using b by (simp_all add: cores_sel [OF cr] IPC_STATUS_ADD_CALL_def IPC_STATUS_ADD_def deliver_def set_misc_def)
      have mp: "misc k' p = misc k p" "p_delivermsg (procs k' p) = p_delivermsg (procs k p)" if "p \<noteq> q" for p
        using b that by (simp_all add: cores_sel [OF cr] IPC_STATUS_ADD_CALL_def IPC_STATUS_ADD_def deliver_def set_misc_def)
      have pr: "s_notify_pending (privs k' i) = s_notify_pending (privs k i)" for i
        using b by (simp add: cores_sel [OF cr] IPC_STATUS_ADD_CALL_def IPC_STATUS_ADD_def deliver_def set_misc_def)
      have "notified c k' q" using b mq by (simp add: notified_def same)
      moreover have "notified c k p \<longrightarrow> notified c k' p"
        using mp [of p] m(1) \<open>notified c k' q\<close> by (cases "p = q") (auto simp: notified_def same pr)
      ultimately show ?thesis using Some by simp
    next
      case False
      then obtain src i where s: "priv_of k c = Some src" "p_priv (procs k q) = Some i"
          "k' = upd_priv i (\<lambda>pr. pr\<lparr>s_notify_pending := (s_notify_pending pr)(s_id src := True)\<rparr>) k"
        using assms Some by (auto simp: mini_notify_def bind_eq_Some_conv split: if_splits)
      have "notified c k' q" using s(1,2) by (auto simp: notified_def s(3) priv_of_def)
      moreover have "notified c k p \<longrightarrow> notified c k' p" by (auto simp: notified_def s(3))
      ultimately show ?thesis using Some by simp
    qed
  qed
  then show "isokendpt k e = Some q \<Longrightarrow> notified c k' q" and "notified c k p \<Longrightarrow> notified c k' p" by auto
qed

section \<open>The invariant of the clock\<close>

definition clock_list :: "kernel \<Rightarrow> nat list \<Rightarrow> bool" where
  "clock_list k ts \<longleftrightarrow> timer_list (get_timers k) ts \<and> timers_sorted (get_timers k) ts \<and>
     next_timeout (clk k) = first_timeout (get_timers k)"

definition clock_ok :: "kernel \<Rightarrow> bool" where
  "clock_ok k \<longleftrightarrow> (\<exists>ts. clock_list k ts)"

text \<open>No timer is queued in \<open>k'\<close> that was not queued in \<open>k\<close>.\<close>

definition clock_sub :: "kernel \<Rightarrow> kernel \<Rightarrow> bool" where
  "clock_sub k k' \<longleftrightarrow> (\<forall>ts. clock_list k ts \<longrightarrow> (\<exists>ts'. clock_list k' ts' \<and> set ts' \<subseteq> set ts))"

lemma clock_sub_trans: "clock_sub a b \<Longrightarrow> clock_sub b c \<Longrightarrow> clock_sub a c"
  unfolding clock_sub_def by (meson order_trans)

lemma clock_sub_same: "clk k' = clk k \<Longrightarrow> clock_sub k k'"
  unfolding clock_sub_def clock_list_def get_timers_def by auto

lemma clock_sub_ok: "clock_sub k k' \<Longrightarrow> clock_ok k \<Longrightarrow> clock_ok k'"
  unfolding clock_sub_def clock_ok_def by blast

lemma set_clk_sel [simp]:
  "procs (set_clk f k) = procs k" "privs (set_clk f k) = privs k" "clk (set_clk f k) = f (clk k)"
  "monotonic (set_clk f k) = monotonic k" "proc_ptr (set_clk f k) = proc_ptr k" "bill_ptr (set_clk f k) = bill_ptr k"
  "irqs (set_clk f k) = irqs k" "run_q_head (set_clk f k) = run_q_head k" "total_tickets (set_clk f k) = total_tickets k"
  "idents (set_clk f k) = idents k" "notified c (set_clk f k) = notified c k"
  by (auto simp: set_clk_def idents_def notified_def fun_eq_iff)

lemma timers_sel [simp]:
  "get_timers (put_timers q k) = q" "procs (put_timers q k) = procs k" "privs (put_timers q k) = privs k"
  "idents (put_timers q k) = idents k" "notified c (put_timers q k) = notified c k"
  "monotonic (put_timers q k) = monotonic k" "proc_ptr (put_timers q k) = proc_ptr k"
  "bill_ptr (put_timers q k) = bill_ptr k" "irqs (put_timers q k) = irqs k"
  by (simp_all add: get_timers_def put_timers_def)

lemma set_clk_set_clk [simp]: "set_clk f (set_clk g k) = set_clk (\<lambda>c. f (g c)) k"
  by (simp add: set_clk_def)

lemma clock_list_outer:
  assumes "outer k' = outer k"
  shows "clock_list k' ts = clock_list k ts" "clock_ok k' = clock_ok k"
  using outerD(2) [OF assms] by (simp_all add: clock_list_def clock_ok_def get_timers_def)

lemma kernel_ok_clk [keeps]:
  "kernel_ok k \<Longrightarrow> kernel_ok (set_clk f k)" "kernel_ok k \<Longrightarrow> kernel_ok (put_timers q k)"
  "kernel_ok k \<Longrightarrow> kernel_ok (k\<lparr>monotonic := m\<rparr>)"
  unfolding set_clk_def put_timers_def by (erule kernel_ok_cong; simp)+

lemma run_watchdog_Some:
  assumes "run_watchdog w t k = Some k'"
  shows "w = Cause_Alarm \<and> (\<exists>r. mini_notify CLOCK (tmr_arg (tmr (get_timers k) t)) k = Some (r, k'))"
  using assms by (cases w) (auto simp: run_watchdog_def cause_alarm_def get_timers_def)

lemma run_watchdog_outer: "run_watchdog w t k = Some k' \<Longrightarrow> outer k' = outer k"
  using run_watchdog_Some mini_notify_cur by blast

interpretation kernel_timers: timer_host get_timers put_timers run_watchdog
proof unfold_locales
  show "get_timers k' = get_timers k" if "run_watchdog f t k = Some k'" for f t k k'
    using outerD(2) [OF run_watchdog_outer [OF that]] by (simp add: get_timers_def)
qed simp

lemma run_timers_frame:
  assumes "kernel_timers.run_timers ts k = Some k'"
  shows "idents k' = idents k \<and> (alarmed k p \<longrightarrow> alarmed k' p) \<and> (kernel_ok k \<longrightarrow> kernel_ok k') \<and>
    monotonic k' = monotonic k \<and> proc_ptr k' = proc_ptr k \<and> bill_ptr k' = bill_ptr k \<and> irqs k' = irqs k"
  using assms
proof (induction ts arbitrary: k)
  case Nil
  then show ?case by simp
next
  case (Cons t ts)
  define k0 where "k0 = put_timers (pop_timer t (get_timers k)) k"
  obtain k1 where k1: "run_watchdog (tmr_func (tmr (get_timers k) t)) t k0 = Some k1"
      "kernel_timers.run_timers ts k1 = Some k'"
    using Cons.prems by (auto simp: k0_def bind_eq_Some_conv)
  then obtain r e where n: "mini_notify CLOCK e k0 = Some (r, k1)" using run_watchdog_Some by blast
  have "idents k1 = idents k" "alarmed k p \<longrightarrow> alarmed k1 p" "kernel_ok k \<longrightarrow> kernel_ok k1"
    using mini_notify_idents [OF n] mini_notify_notifies(2) [OF n, of p] mini_notify_keeps [OF n] kernel_ok_clk(2)
    by (simp_all add: k0_def)
  moreover have "monotonic k1 = monotonic k" "proc_ptr k1 = proc_ptr k" "bill_ptr k1 = bill_ptr k" "irqs k1 = irqs k"
    using outerD [OF mini_notify_cur [OF n]] by (simp_all add: k0_def)
  ultimately show ?case using Cons.IH [OF k1(2)] by simp
qed

lemma run_timers_alarms:
  assumes "kernel_timers.run_timers ts k = Some k'" "t \<in> set ts"
  shows "tmr_func (tmr (get_timers k) t) = Cause_Alarm"
    and "alive_as k (tmr_arg (tmr (get_timers k) t)) p \<Longrightarrow> alarmed k' p"
proof -
  have "tmr_func (tmr (get_timers k) t) = Cause_Alarm \<and>
      (alive_as k (tmr_arg (tmr (get_timers k) t)) p \<longrightarrow> alarmed k' p)"
    using assms
  proof (induction ts arbitrary: k)
    case Nil
    then show ?case by simp
  next
    case (Cons u ts)
    define k0 where "k0 = put_timers (pop_timer u (get_timers k)) k"
    have d: "tmr_func (tmr (get_timers k0) v) = tmr_func (tmr (get_timers k) v)"
      "tmr_arg (tmr (get_timers k0) v) = tmr_arg (tmr (get_timers k) v)" for v
      by (simp_all add: k0_def pop_timer_def upd_tmr_def)
    have a0: "alive_as k0 e p = alive_as k e p" for e by (rule alive_as_idents) (simp add: k0_def)
    obtain k1 where k1: "run_watchdog (tmr_func (tmr (get_timers k) u)) u k0 = Some k1"
        "kernel_timers.run_timers ts k1 = Some k'"
      using Cons.prems(1) by (auto simp: k0_def bind_eq_Some_conv)
    obtain r where n: "tmr_func (tmr (get_timers k) u) = Cause_Alarm"
        "mini_notify CLOCK (tmr_arg (tmr (get_timers k) u)) k0 = Some (r, k1)"
      using run_watchdog_Some [OF k1(1)] d by auto
    have g: "get_timers k1 = get_timers k0"
      using outerD(2) [OF mini_notify_cur [OF n(2)]] by (simp add: get_timers_def)
    have a1: "alive_as k1 e p = alive_as k0 e p" for e by (rule alive_as_idents [OF mini_notify_idents [OF n(2)]])
    show ?case
    proof (cases "t = u")
      case True
      have "alarmed k' p" if "alive_as k (tmr_arg (tmr (get_timers k) u)) p"
      proof -
        have "alarmed k1 p" using mini_notify_notifies(1) [OF n(2) alive_as_isokendpt] that a0 by blast
        then show ?thesis using run_timers_frame [OF k1(2), of p] by blast
      qed
      then show ?thesis using True n(1) by simp
    next
      case False
      then have "t \<in> set ts" using Cons.prems(2) by simp
      from Cons.IH [OF k1(2) this] show ?thesis by (simp add: g d a1 a0)
    qed
  qed
  then show "tmr_func (tmr (get_timers k) t) = Cause_Alarm"
    and "alive_as k (tmr_arg (tmr (get_timers k) t)) p \<Longrightarrow> alarmed k' p" by blast+
qed

lemma first_timeout_list:
  assumes "timer_list q ts"
  shows "first_timeout q = (case ts of [] \<Rightarrow> TMR_NEVER | t # _ \<Rightarrow> expiry q t)"
  using assms by (cases ts) (simp_all add: timer_list_def first_timeout_def expiry_def)

lemma set_clk_same: "f (clk k) = clk k \<Longrightarrow> set_clk f k = k"
  by (simp add: set_clk_def)

lemma expire_result:
  assumes "expire k = Some k'" "clock_list k ts"
  shows "\<exists>k2. kernel_timers.run_timers (filter (\<lambda>t. expiry (get_timers k) t \<le> monotonic k) ts) k = Some k2 \<and>
    k' = set_clk (\<lambda>c. c\<lparr>next_timeout := first_timeout (clock_timers c)\<rparr>) k2 \<and>
    clock_list k' (filter (\<lambda>t. monotonic k < expiry (get_timers k) t) ts)"
proof -
  have l: "timer_list (get_timers k) ts" "timers_sorted (get_timers k) ts" "next_timeout (clk k) = first_timeout (get_timers k)"
    using assms(2) by (simp_all add: clock_list_def)
  show ?thesis
  proof (cases "next_timeout (clk k) \<le> monotonic k")
    case True
    then obtain h k2 where e: "tmrs_exptimers get_timers put_timers run_watchdog (monotonic k) k = Some (h, k2)"
        "k' = set_clk (\<lambda>c. c\<lparr>next_timeout := first_timeout (clock_timers c)\<rparr>) k2"
      using assms(1) by (auto simp: expire_def bind_eq_Some_conv)
    note x = kernel_timers.exptimers_exact [OF l(1,2) e(1)]
    have "get_timers k' = get_timers k2" "next_timeout (clk k') = first_timeout (get_timers k2)"
      by (simp_all add: e(2) get_timers_def)
    then show ?thesis using x e(2) by (auto simp: clock_list_def)
  next
    case False
    then have k': "k' = k" using assms(1) by (simp add: expire_def)
    have "monotonic k < expiry (get_timers k) t" if "t \<in> set ts" for t
    proof (cases ts)
      case (Cons u us)
      then have "expiry (get_timers k) u \<le> expiry (get_timers k) t" using l(2) that by (auto simp: timers_sorted_def)
      moreover have "monotonic k < expiry (get_timers k) u" using False l(3) first_timeout_list [OF l(1)] Cons by simp
      ultimately show ?thesis by simp
    qed (use that in simp)
    then have f: "filter (\<lambda>t. expiry (get_timers k) t \<le> monotonic k) ts = []"
      "filter (\<lambda>t. monotonic k < expiry (get_timers k) t) ts = ts"
      by (auto simp: filter_empty_conv not_le)
    have "set_clk (\<lambda>c. c\<lparr>next_timeout := first_timeout (clock_timers c)\<rparr>) k = k"
      using l(3) by (intro set_clk_same) (simp add: get_timers_def)
    then show ?thesis using f k' assms(2) by simp
  qed
qed

lemma count_down_frame [simp]:
  "outer (count_down w p k) = outer k" "idents (count_down w p k) = idents k"
  by (simp_all add: count_down_def)

lemma mild_times [simp]:
  "mild (\<lambda>r. r\<lparr>p_user_time := u r\<rparr>)" "mild (\<lambda>r. r\<lparr>p_sys_time := s r\<rparr>)" "mild (\<lambda>r. set_vt_left w (v r) r)"
  by (simp_all add: mild_def set_vt_left_def)

lemma charge_frame:
  assumes "charge k = Some k'"
  shows "outer k' = outer k" "idents k' = idents k" "kernel_ok k \<Longrightarrow> kernel_ok k'"
proof -
  have c: "kernel_ok (count_down w p k)" if "kernel_ok k" for w p k
    using that by (simp add: count_down_def kernel_ok_upd_proc)
  show "outer k' = outer k" "idents k' = idents k" using assms by (auto simp: charge_def cur_splits)
  show "kernel_ok k'" if "kernel_ok k"
    using assms that by (auto simp: charge_def cur_splits intro!: c kernel_ok_upd_proc)
qed

lemma load_update_frame:
  assumes "load_update k = Some k'"
  shows "procs k' = procs k" "get_timers k' = get_timers k" "next_timeout (clk k') = next_timeout (clk k)"
    "idents k' = idents k" "monotonic k' = monotonic k" "proc_ptr k' = proc_ptr k" "bill_ptr k' = bill_ptr k"
    "irqs k' = irqs k" "kernel_ok k \<Longrightarrow> kernel_ok k'"
  using assms by (auto simp: load_update_def Let_def bind_eq_Some_conv get_timers_def intro!: kernel_ok_clk split: if_splits)

lemma tick_frame [simp]:
  "procs (tick k) = procs k" "get_timers (tick k) = get_timers k" "next_timeout (clk (tick k)) = next_timeout (clk k)"
  "idents (tick k) = idents k" "monotonic (tick k) = monotonic k + 1" "proc_ptr (tick k) = proc_ptr k"
  "bill_ptr (tick k) = bill_ptr k" "irqs (tick k) = irqs k"
  by (simp_all add: tick_def Let_def get_timers_def idents_def)

lemma tick_keeps [keeps]: "kernel_ok k \<Longrightarrow> kernel_ok (tick k)"
  by (auto simp: tick_def Let_def intro!: kernel_ok_clk)

lemma vtimer_expire_cur [cur]:
  assumes "vtimer_expire lethal w s p k = Some k'"
  shows "outer k' = outer k"
proof (cases "has (misc k p) (vt_flag w) \<and> vt_left w (procs k p) = 0")
  case True
  then have "cause_sig lethal (p_nr (procs k p)) s (upd_proc p (set_vt_left w 0) (clear_misc p (vt_flag w) k)) = Some k'"
    using assms by (simp add: vtimer_expire_def)
  from cause_sig_cur [OF this] show ?thesis by simp
next
  case False
  then show ?thesis using assms by (simp only: vtimer_expire_def if_False option.inject)
qed

lemma vtimer_check_cur [cur]: "vtimer_check lethal p k = Some k' \<Longrightarrow> outer k' = outer k"
  unfolding vtimer_check_def bind_eq_Some_conv using vtimer_expire_cur by metis

lemma expire_frame:
  assumes "expire k = Some k'"
  shows "irqs k' = irqs k" "idents k' = idents k" "proc_ptr k' = proc_ptr k" "bill_ptr k' = bill_ptr k"
proof -
  have loop: "irqs b = irqs a \<and> idents b = idents a \<and> proc_ptr b = proc_ptr a \<and> bill_ptr b = bill_ptr a"
    if "exp_loop get_timers put_timers run_watchdog t a = Some b" for t a b
  proof -
    have "(irqs b, idents b, proc_ptr b, bill_ptr b) = (irqs a, idents a, proc_ptr a, bill_ptr a)"
    proof (rule exp_loop_field [OF that])
      fix w t c d assume "run_watchdog w t c = Some d"
      then obtain r e where n: "mini_notify CLOCK e c = Some (r, d)" using run_watchdog_Some by blast
      show "(irqs d, idents d, proc_ptr d, bill_ptr d) = (irqs c, idents c, proc_ptr c, bill_ptr c)"
        using outerD [OF mini_notify_cur [OF n]] mini_notify_idents [OF n] by simp
    qed simp
    then show ?thesis by simp
  qed
  show "irqs k' = irqs k" "idents k' = idents k" "proc_ptr k' = proc_ptr k" "bill_ptr k' = bill_ptr k"
    using assms by (auto simp: expire_def tmrs_exptimers_def bind_eq_Some_conv split: if_splits dest!: loop)
qed

text \<open>What the handler has done when it comes to the timers.\<close>

lemma timer_int_handler_split:
  assumes "timer_int_handler lethal k = Some k'"
  obtains k4 where "expire k4 = Some k'" "get_timers k4 = get_timers k" "next_timeout (clk k4) = next_timeout (clk k)"
    "idents k4 = idents k" "monotonic k4 = monotonic k + 1" "proc_ptr k4 = proc_ptr k" "bill_ptr k4 = bill_ptr k"
    "irqs k4 = irqs k" "kernel_ok k \<Longrightarrow> is_proc (bill_ptr k) \<Longrightarrow> kernel_ok k4"
proof -
  obtain k1 k2 k3 k4 where s: "charge (tick k) = Some k1" "vtimer_check lethal (proc_ptr k) k1 = Some k2"
      "(if proc_ptr k \<noteq> bill_ptr k then vtimer_check lethal (bill_ptr k) k2 else Some k2) = Some k3"
      "load_update k3 = Some k4" "expire k4 = Some k'"
    using assms by (auto simp: timer_int_handler_def bind_eq_Some_conv)
  have third: "outer k3 = outer k2 \<and> idents k3 = idents k2"
  proof (cases "proc_ptr k = bill_ptr k")
    case False
    then have "vtimer_check lethal (bill_ptr k) k2 = Some k3" using s(3) by simp
    then show ?thesis using vtimer_check_cur outerD(6) [OF vtimer_check_cur] by blast
  qed (use s(3) in simp)
  have o: "outer k1 = outer (tick k)" "outer k2 = outer k1" "outer k3 = outer k2"
    using charge_frame(1) [OF s(1)] vtimer_check_cur [OF s(2)] third by simp_all
  have i: "idents k4 = idents k"
    using charge_frame(2) [OF s(1)] outerD(6) [OF vtimer_check_cur [OF s(2)]] third load_update_frame(4) [OF s(4)] by simp
  note d = outerD [OF o(1)] outerD [OF o(2)] outerD [OF o(3)] load_update_frame(2,3,5-8) [OF s(4)]
  have "kernel_ok k4" if ok: "kernel_ok k" "is_proc (bill_ptr k)"
  proof -
    have p: "is_proc (proc_ptr k)" by (rule proc_ptr_is_proc [OF ok(1)])
    have "kernel_ok k1" by (rule charge_frame(3) [OF s(1) tick_keeps [OF ok(1)]])
    then have "kernel_ok k2" by (rule vtimer_check_keeps [OF s(2) _ p])
    then have "kernel_ok k3" using s(3) vtimer_check_keeps ok(2) by (auto split: if_splits)
    then show ?thesis by (rule load_update_frame(9) [OF s(4)])
  qed
  moreover have "get_timers k4 = get_timers k" "next_timeout (clk k4) = next_timeout (clk k)"
    using d tick_frame(2,3) by (simp_all add: get_timers_def)
  ultimately show thesis using s(5) i d by (intro that) simp_all
qed

lemma timer_int_handler_irqs: "timer_int_handler lethal k = Some k' \<Longrightarrow> irqs k' = irqs k"
  by (erule timer_int_handler_split) (simp add: expire_frame(1))

lemma timer_int_handler_result:
  assumes "timer_int_handler lethal k = Some k'" "clock_list k ts"
  defines "due \<equiv> filter (\<lambda>t. expiry (get_timers k) t \<le> monotonic k + 1) ts"
  shows "clock_list k' (filter (\<lambda>t. monotonic k + 1 < expiry (get_timers k) t) ts)"
    and "t \<in> set due \<Longrightarrow> tmr_func (tmr (get_timers k) t) = Cause_Alarm"
    and "t \<in> set due \<Longrightarrow> alive_as k (tmr_arg (tmr (get_timers k) t)) p \<Longrightarrow> alarmed k' p"
    and "monotonic k' = monotonic k + 1" "proc_ptr k' = proc_ptr k" "bill_ptr k' = bill_ptr k"
    and "irqs k' = irqs k" "idents k' = idents k"
    and "kernel_ok k \<Longrightarrow> is_proc (bill_ptr k) \<Longrightarrow> kernel_ok k'"
proof -
  obtain k4 where k4: "expire k4 = Some k'" "get_timers k4 = get_timers k" "next_timeout (clk k4) = next_timeout (clk k)"
    "idents k4 = idents k" "monotonic k4 = monotonic k + 1" "proc_ptr k4 = proc_ptr k" "bill_ptr k4 = bill_ptr k"
    "irqs k4 = irqs k" "kernel_ok k \<Longrightarrow> is_proc (bill_ptr k) \<Longrightarrow> kernel_ok k4"
    by (rule timer_int_handler_split [OF assms(1)]) blast
  have l: "clock_list k4 ts" using assms(2) k4(2,3) by (simp add: clock_list_def)
  obtain k2 where k2: "kernel_timers.run_timers due k4 = Some k2"
      "k' = set_clk (\<lambda>c. c\<lparr>next_timeout := first_timeout (clock_timers c)\<rparr>) k2"
      "clock_list k' (filter (\<lambda>t. monotonic k + 1 < expiry (get_timers k) t) ts)"
    using expire_result [OF k4(1) l] by (auto simp: k4(2,5) due_def)
  show "clock_list k' (filter (\<lambda>t. monotonic k + 1 < expiry (get_timers k) t) ts)" by (rule k2(3))
  note fr = run_timers_frame [OF k2(1)]
  show "monotonic k' = monotonic k + 1" "proc_ptr k' = proc_ptr k" "bill_ptr k' = bill_ptr k" "irqs k' = irqs k"
    "idents k' = idents k"
    using fr k4 by (simp_all add: k2(2))
  show "tmr_func (tmr (get_timers k) t) = Cause_Alarm" if "t \<in> set due"
    using run_timers_alarms(1) [OF k2(1) that] k4(2) by simp
  show "alarmed k' p" if "t \<in> set due" "alive_as k (tmr_arg (tmr (get_timers k) t)) p"
    using run_timers_alarms(2) [OF k2(1) that(1), of p] that(2) alive_as_idents [OF k4(4)] k4(2) by (simp add: k2(2))
  show "kernel_ok k'" if "kernel_ok k" "is_proc (bill_ptr k)"
    using fr k4(9) [OF that] by (auto simp: k2(2) intro: kernel_ok_clk)
qed

section \<open>Setting alarms\<close>

lemma set_kernel_timer_result:
  assumes "timer_list (get_timers k) ts" "sorted (map (expiry (get_timers k)) (remove1 tp ts))"
  shows "\<exists>k'. set_kernel_timer tp e w k = Some k' \<and>
    clock_list k' (insert_timer (expiry (get_timers k)) e tp (remove1 tp ts)) \<and>
    timer_data (get_timers k') = (timer_data (get_timers k))(tp := (e, w, tmr_arg (tmr (get_timers k) tp))) \<and>
    (\<exists>f. k' = set_clk f k)"
proof -
  let ?q = "get_timers k" and ?r = "remove1 tp ts"
  obtain q where q: "tmrs_settimer tp e w ?q = Some (head_time ?q, head_time q, q)"
      "timer_list q (insert_timer (expiry ?q) e tp ?r)"
      "timer_data q = (timer_data ?q)(tp := (e, w, tmr_arg (tmr ?q tp)))"
    using tmrs_settimer_result [OF assms(1)] by blast
  have nin: "tp \<notin> set ?r" using timer_list_distinct [OF assms(1)] by simp
  have ex: "expiry q = (expiry ?q)(tp := e)"
    using q(3) by (auto simp: fun_eq_iff timer_data_def expiry_def split: if_splits)
  have ins: "insert_timer (expiry ?q) e tp ?r = insert_timer (expiry q) e tp ?r"
    using nin unfolding insert_timer_def
    by (intro arg_cong2 [where f = append] arg_cong2 [where f = Cons] takeWhile_cong dropWhile_cong refl) (auto simp: ex)
  have "map (expiry q) ?r = map (expiry ?q) ?r" using nin by (simp add: ex)
  with assms(2) have "sorted (map (expiry q) ?r)" by (simp only:)
  then have "sorted (map (expiry q) (insert_timer (expiry q) e tp ?r))"
    by (rule insert_timer_sorted) (simp add: ex)
  moreover obtain t where t: "tmrs q = Some t"
    using q(2) by (cases "takeWhile (\<lambda>t. expiry ?q t \<le> e) ?r") (auto simp: timer_list_def insert_timer_def)
  ultimately show ?thesis
    using q ins
    by (intro exI [of _ "set_clk (\<lambda>c. c\<lparr>clock_timers := q, next_timeout := tmr_exp_time (tmr q t)\<rparr>) k"])
      (auto simp: set_kernel_timer_def get_timers_def clock_list_def timers_sorted_def first_timeout_def)
qed

lemma reset_kernel_timer_result:
  assumes "clock_list k ts"
  shows "\<exists>k'. reset_kernel_timer tp k = Some k' \<and> clock_list k' (remove1 tp ts) \<and>
    timer_data (get_timers k') = (timer_data (get_timers k))(tp := (TMR_NEVER, tmr_func (tmr (get_timers k) tp),
      tmr_arg (tmr (get_timers k) tp))) \<and> (\<exists>f. k' = set_clk f k)"
proof -
  let ?q = "get_timers k"
  have l: "timer_list ?q ts" "sorted (map (expiry ?q) ts)" using assms by (simp_all add: clock_list_def timers_sorted_def)
  obtain q where q: "tmrs_clrtimer tp ?q = Some (head_time ?q, head_time q, q)" "timer_list q (remove1 tp ts)"
      "timer_data q = (timer_data ?q)(tp := (TMR_NEVER, tmr_func (tmr ?q tp), tmr_arg (tmr ?q tp)))"
    using tmrs_clrtimer_result [OF l(1)] by blast
  have "tp \<notin> set (remove1 tp ts)" using timer_list_distinct [OF l(1)] by simp
  then have m: "map (expiry q) (remove1 tp ts) = map (expiry ?q) (remove1 tp ts)"
    using q(3) by (intro map_cong refl) (auto simp: fun_eq_iff timer_data_def expiry_def split: if_splits)
  have "sorted (map (expiry ?q) (remove1 tp ts))"
    using l(2) timer_list_distinct [OF l(1)] by (simp add: distinct_remove1_removeAll removeAll_filter_not_eq sorted_filter)
  then have "sorted (map (expiry q) (remove1 tp ts))" by (simp only: m)
  then show ?thesis
    using q by (intro exI [of _ "set_clk (\<lambda>c. c\<lparr>clock_timers := q, next_timeout := first_timeout q\<rparr>) k"])
      (auto simp: reset_kernel_timer_def get_timers_def clock_list_def timers_sorted_def)
qed

text \<open>When an alarm is due, with the ticks since boot at \<open>now\<close>.\<close>

definition alarm_time :: "clock_t \<Rightarrow> bool \<Rightarrow> clock_t \<Rightarrow> clock_t" where
  "alarm_time e use_abs now = (if use_abs then e else e + now)"

lemma do_setalarm_result:
  assumes "clock_list k ts" "p_priv (procs k c) = Some tp" "has (s_flags (privs k tp)) SYS_PROC"
  defines "q \<equiv> get_timers k" and "now \<equiv> monotonic k"
  shows "\<exists>k'. do_setalarm c e a k =
      Some (OK, Some (if expiry q tp \<noteq> TMR_NEVER \<and> now < expiry q tp then expiry q tp - now else 0), k') \<and>
    clock_list k' (if e = 0 then remove1 tp ts else insert_timer (expiry q) (alarm_time e a now) tp (remove1 tp ts)) \<and>
    timer_data (get_timers k') = (timer_data q)(tp := (if e = 0 then TMR_NEVER else alarm_time e a now,
      Cause_Alarm, p_endpoint (procs k c))) \<and> (\<exists>f. k' = set_clk f k)"
proof -
  define q1 where "q1 = upd_tmr tp (\<lambda>t. t\<lparr>tmr_arg := p_endpoint (procs k c), tmr_func := Cause_Alarm\<rparr>) q"
  have l: "timer_list q ts" "sorted (map (expiry q) ts)" "next_timeout (clk k) = first_timeout q"
    using assms(1) by (simp_all add: clock_list_def timers_sorted_def q_def)
  have old: "tmr_exp_time (tmr q1 tp) = expiry q tp" by (simp add: q1_def upd_tmr_def expiry_def)
  have d1: "timer_data q1 = (timer_data q)(tp := (expiry q tp, Cause_Alarm, p_endpoint (procs k c)))"
    by (rule ext) (simp add: q1_def expiry_def)
  have ex1: "expiry q1 = expiry q" by (rule ext) (auto simp: q1_def expiry_def upd_tmr_def)
  have l1: "timer_list q1 ts" using l(1) by (simp add: q1_def timer_list_def fun_upd_idem timer_next_def)
  have "first_timeout q1 = first_timeout q"
    unfolding first_timeout_list [OF l1] first_timeout_list [OF l(1)] ex1 by (rule refl)
  then have c1: "clock_list (put_timers q1 k) ts"
    using l l1 ex1 by (simp add: clock_list_def timers_sorted_def put_timers_def get_timers_def)
  have clk: "set_clk f (put_timers x k) = set_clk (\<lambda>y. f (y\<lparr>clock_timers := x\<rparr>)) k" for f x
    by (simp add: put_timers_def set_clk_def)
  have dis: "sorted (map (expiry q) (remove1 tp ts))" "tp \<notin> set (remove1 tp ts)"
    using l(2) timer_list_distinct [OF l(1)]
    by (simp_all add: distinct_remove1_removeAll removeAll_filter_not_eq sorted_filter)
  note eval = do_setalarm_def assms(2,3) q1_def [symmetric] q_def [symmetric] now_def [symmetric] old
  show ?thesis
  proof (cases "e = 0")
    case True
    obtain k' f where k': "reset_kernel_timer tp (put_timers q1 k) = Some k'" "clock_list k' (remove1 tp ts)"
        "timer_data (get_timers k') = (timer_data q1)(tp := (TMR_NEVER, tmr_func (tmr q1 tp), tmr_arg (tmr q1 tp)))"
        "k' = set_clk f (put_timers q1 k)"
      using reset_kernel_timer_result [OF c1, of tp] by auto
    have "timer_data (get_timers k') = (timer_data q)(tp := (TMR_NEVER, Cause_Alarm, p_endpoint (procs k c)))"
      unfolding k'(3) d1 by (simp add: q1_def upd_tmr_def)
    then show ?thesis using True k' by (auto simp: eval Let_def clk)
  next
    case False
    define t where "t = alarm_time e a now"
    define q2 where "q2 = upd_tmr tp (\<lambda>r. r\<lparr>tmr_exp_time := t\<rparr>) q1"
    have l2: "timer_list q2 ts" using l1 by (simp add: q2_def timer_list_def fun_upd_idem timer_next_def)
    have ex2: "expiry q2 u = expiry q u" if "u \<noteq> tp" for u using that by (simp add: q2_def ex1)
    have nn: "expiry q2 u = expiry q u" if "u \<in> set (remove1 tp ts)" for u using that dis(2) ex2 by metis
    have m: "map (expiry q2) (remove1 tp ts) = map (expiry q) (remove1 tp ts)"
      by (intro map_cong refl nn)
    have ins: "insert_timer (expiry q2) t tp (remove1 tp ts) = insert_timer (expiry q) t tp (remove1 tp ts)"
      using dis(2) unfolding insert_timer_def
      by (intro arg_cong2 [where f = append] arg_cong2 [where f = Cons] takeWhile_cong dropWhile_cong refl)
        (auto simp: nn)
    have g2: "get_timers (put_timers q2 k) = q2" by simp
    obtain k' f where k': "set_kernel_timer tp t Cause_Alarm (put_timers q2 k) = Some k'"
        "clock_list k' (insert_timer (expiry q) t tp (remove1 tp ts))"
        "timer_data (get_timers k') = (timer_data q2)(tp := (t, Cause_Alarm, tmr_arg (tmr q2 tp)))"
        "k' = set_clk f (put_timers q2 k)"
      using set_kernel_timer_result [of "put_timers q2 k" ts tp t Cause_Alarm, unfolded g2, OF l2] dis(1)
      unfolding m ins by blast
    have "timer_data q2 = (timer_data q)(tp := (t, Cause_Alarm, p_endpoint (procs k c)))"
      by (rule ext) (simp add: q2_def d1, simp add: q1_def upd_tmr_def)
    then have "timer_data (get_timers k') = (timer_data q)(tp := (t, Cause_Alarm, p_endpoint (procs k c)))"
      unfolding k'(3) by (simp add: q2_def q1_def upd_tmr_def)
    then show ?thesis using False k'
      by (auto simp: eval Let_def clk t_def [symmetric] q2_def alarm_time_def [symmetric] fun_eq_iff)
  qed
qed

lemma do_setalarm_keeps:
  assumes "do_setalarm c e a k = Some (r, l, k')"
  shows "kernel_ok k \<Longrightarrow> kernel_ok k'" "clock_ok k \<Longrightarrow> clock_ok k'" "proc_ptr k' = proc_ptr k"
    "bill_ptr k' = bill_ptr k" "irqs k' = irqs k" "idents k' = idents k"
proof -
  have reset: "\<exists>f. k' = set_clk f k" if "reset_kernel_timer tp (put_timers q k) = Some k'" for tp q
    using that by (auto simp: reset_kernel_timer_def bind_eq_Some_conv put_timers_def)
  have set: "\<exists>f. k' = set_clk f k" if "set_kernel_timer tp t w (put_timers q k) = Some k'" for tp t w q
    using that by (auto simp: set_kernel_timer_def bind_eq_Some_conv put_timers_def)
  obtain tp where tp: "p_priv (procs k c) = Some tp" using assms by (auto simp: do_setalarm_def bind_eq_Some_conv)
  have "\<exists>f. k' = set_clk f k"
  proof (cases "has (s_flags (privs k tp)) SYS_PROC")
    case False
    then have "k' = set_clk (\<lambda>c. c) k" using assms tp by (simp add: do_setalarm_def set_clk_same)
    then show ?thesis by blast
  next
    case True
    show ?thesis
    proof (cases "e = 0")
      case True
      then have "\<exists>q. reset_kernel_timer tp (put_timers q k) = Some k'"
        using assms tp \<open>has (s_flags (privs k tp)) SYS_PROC\<close> by (auto simp: do_setalarm_def bind_eq_Some_conv Let_def)
      then show ?thesis using reset by blast
    next
      case False
      then have "\<exists>t q. set_kernel_timer tp t Cause_Alarm (put_timers q k) = Some k'"
        using assms tp \<open>has (s_flags (privs k tp)) SYS_PROC\<close>
        by (cases a) (auto simp: do_setalarm_def bind_eq_Some_conv Let_def)
      then show ?thesis using set by blast
    qed
  qed
  then obtain f where f: "k' = set_clk f k" by blast
  then show "proc_ptr k' = proc_ptr k" "bill_ptr k' = bill_ptr k" "irqs k' = irqs k" "idents k' = idents k" by simp_all
  show "kernel_ok k'" if "kernel_ok k" unfolding f by (rule kernel_ok_clk(1) [OF that])
  show "clock_ok k'" if ok: "clock_ok k"
  proof -
    obtain ts where ts: "clock_list k ts" using ok by (auto simp: clock_ok_def)
    show ?thesis
    proof (cases "has (s_flags (privs k tp)) SYS_PROC")
      case True
      from do_setalarm_result [OF ts tp this, of e a] assms show ?thesis by (auto simp: clock_ok_def)
    next
      case False
      then show ?thesis using assms tp ok by (simp add: do_setalarm_def)
    qed
  qed
qed

lemma do_settime_keeps:
  assumes "do_settime b now s n k = Some (r, k')"
  shows "kernel_ok k \<Longrightarrow> kernel_ok k'" "clock_ok k' = clock_ok k" "proc_ptr k' = proc_ptr k"
    "bill_ptr k' = bill_ptr k" "irqs k' = irqs k" "idents k' = idents k"
proof -
  have c: "clock_ok (set_clk f k) = clock_ok k"
    if "\<And>c. clock_timers (f c) = clock_timers c \<and> next_timeout (f c) = next_timeout c" for f
    using that by (simp add: clock_ok_def clock_list_def get_timers_def)
  show "kernel_ok k \<Longrightarrow> kernel_ok k'" "clock_ok k' = clock_ok k" "proc_ptr k' = proc_ptr k"
    "bill_ptr k' = bill_ptr k" "irqs k' = irqs k" "idents k' = idents k"
    using assms by (auto simp: do_settime_def Let_def c kernel_ok_clk split: if_splits)
qed

lemma do_stime_keeps:
  assumes "do_stime t k = (r, k')"
  shows "kernel_ok k \<Longrightarrow> kernel_ok k'" "clock_ok k' = clock_ok k" "proc_ptr k' = proc_ptr k"
    "bill_ptr k' = bill_ptr k" "irqs k' = irqs k" "idents k' = idents k"
  using assms by (auto simp: do_stime_def kernel_ok_clk clock_ok_def clock_list_def get_timers_def)

section \<open>The timer interrupt returns\<close>

text \<open>A process that waits for a message has none waiting to be delivered.\<close>

definition hands_free :: "kernel \<Rightarrow> bool" where
  "hands_free k \<longleftrightarrow> (\<forall>p. is_proc p \<longrightarrow> has (p_rts_flags (procs k p)) RTS_RECEIVING \<longrightarrow> \<not> has (misc k p) MF_DELIVERMSG)"

definition waits :: "kernel \<Rightarrow> int \<Rightarrow> bool" where
  "waits k p \<longleftrightarrow> has (p_rts_flags (procs k p)) RTS_RECEIVING"

lemma waits_upd [simp]:
  "(\<And>r. has (p_rts_flags (f r)) RTS_RECEIVING = has (p_rts_flags r) RTS_RECEIVING) \<Longrightarrow> waits (upd_proc p f k) = waits k"
  "waits (upd_priv i g k) = waits k" "waits (k\<lparr>run_q_head := h\<rparr>) = waits k" "waits (k\<lparr>run_q_tail := h\<rparr>) = waits k"
  "waits (k\<lparr>run_q_head := h, run_q_tail := t\<rparr>) = waits k" "waits (k\<lparr>total_tickets := n\<rparr>) = waits k"
  "waits (k\<lparr>tsc_reads := m\<rparr>) = waits k" "waits (set_clk c k) = waits k" "waits (put_timers q k) = waits k"
  by (auto simp: waits_def fun_eq_iff)

lemma queue_waits [simp]:
  "waits (xpp_set q prev v k) = waits k" "waits (dequeue_found k rp q prev) = waits k"
  "waits (dequeue_accounting rp k) = waits k" "waits (note_enter_queue k) = waits k"
  by (auto simp: xpp_set_def dequeue_found_def dequeue_accounting_def note_enter_queue_def read_tsc_def Let_def
      split: option.split)

named_theorems wait_frame \<open>operations that do not change who waits for a message\<close>

lemma dequeue_walk_waits [wait_frame]:
  assumes "dequeue_walk k rp q prev = Some k'"
  shows "waits k' = waits k"
  by (rule dequeue_walk.raw_induct [where P = "\<lambda>k rp q prev k'. waits k' = waits k", OF _ assms])
    (auto split: option.splits if_splits)

lemma dequeue_waits [wait_frame]: "dequeue rp k = Some k' \<Longrightarrow> waits k' = waits k"
  by (auto simp: dequeue_def cur_splits split: option.splits if_splits dest!: wait_frame)

lemma preempted_not_receiving [simp]: "\<not> has RTS_PREEMPTED RTS_RECEIVING"
  by (simp add: has_def RTS_PREEMPTED_def RTS_RECEIVING_def)

lemma RTS_SET_waits [wait_frame]: "RTS_SET rp RTS_PREEMPTED k = Some k' \<Longrightarrow> waits k' = waits k"
  by (auto simp: RTS_SET_def cur_splits has_or split: if_splits dest!: wait_frame)

lemma enqueue_tail_waits [wait_frame]: "enqueue_tail rp q k = Some k' \<Longrightarrow> waits k' = waits k"
  by (auto simp: enqueue_tail_def cur_splits split: option.splits)

lemma enqueue_preempt_waits [wait_frame]: "enqueue_preempt rp k = Some k' \<Longrightarrow> waits k' = waits k"
  by (auto simp: enqueue_preempt_def cur_splits split: if_splits dest: RTS_SET_waits)

lemma enqueue_waits [wait_frame]: "enqueue rp k = Some k' \<Longrightarrow> waits k' = waits k"
  by (auto simp: enqueue_def cur_splits split: if_splits dest!: wait_frame)

lemma RTS_UNSET_waits:
  assumes "RTS_UNSET rp RTS_RECEIVING k = Some k'"
  shows "waits k' = (waits k)(rp := False)"
proof -
  define k1 where "k1 = upd_proc rp (\<lambda>p. p\<lparr>p_rts_flags := p_rts_flags p AND NOT RTS_RECEIVING\<rparr>) k"
  have "waits k1 = (waits k)(rp := False)" by (auto simp: k1_def waits_def fun_eq_iff)
  moreover have "waits k' = waits k1"
    using assms by (auto simp: RTS_UNSET_def Let_def k1_def [symmetric] split: if_splits dest: enqueue_waits)
  ultimately show ?thesis by simp
qed

lemma hands_free_iff: "hands_free k \<longleftrightarrow> (\<forall>p. is_proc p \<longrightarrow> waits k p \<longrightarrow> \<not> has (misc k p) MF_DELIVERMSG)"
  by (simp add: hands_free_def waits_def)

lemma clock_is_proc [simp]: "is_proc CLOCK"
  by (simp add: is_proc_def isokprocn_def CLOCK_def NR_TASKS_def NR_PROCS_def)

lemma proc_has_priv: "kernel_ok k \<Longrightarrow> is_proc p \<Longrightarrow> \<exists>i. p_priv (procs k p) = Some i"
  by (auto simp: kernel_ok_def sched_inv_def queues_hold_def wf_kernel_def wf_proc_def priv_of_def)

lemma mini_notify_returns:
  assumes "kernel_ok k" "hands_free k" "is_proc c0"
  shows "\<exists>r k'. mini_notify c0 e k = Some (r, k') \<and> kernel_ok k' \<and> hands_free k'"
proof (cases "isokendpt k e")
  case None
  then show ?thesis using assms by (simp add: mini_notify_def)
next
  case (Some q)
  have q: "is_proc q" by (rule isokendpt_is_proc [OF Some])
  obtain i c where pv: "p_priv (procs k q) = Some i" "p_priv (procs k c0) = Some c"
    using proc_has_priv [OF assms(1) q] proc_has_priv [OF assms(1,3)] by blast
  show ?thesis
  proof (cases "WILLRECEIVE k q (p_endpoint (procs k c0)) \<and> \<not> has (misc k q) MF_REPLY_PEND")
    case False
    let ?k = "upd_priv i (\<lambda>pr. pr\<lparr>s_notify_pending := (s_notify_pending pr)(s_id (privs k c) := True)\<rparr>) k"
    have "mini_notify c0 e k = Some (OK, ?k)"
      using Some pv False by (auto simp: mini_notify_def priv_of_def)
    moreover have "kernel_ok ?k" by (rule kernel_ok_upd_priv [OF _ assms(1)]) simp
    moreover have "hands_free ?k" using assms(2) by (simp add: hands_free_def)
    ultimately show ?thesis by blast
  next
    case True
    have rec: "waits k q"
      using True by (auto simp: WILLRECEIVE_def RTS_ISSET_def waits_def has_def)
    then have nd: "\<not> has (misc k q) MF_DELIVERMSG" using assms(2) q by (simp add: hands_free_iff)
    have "\<exists>m k1. BuildNotifyMessage (p_nr (procs k c0)) q k = Some (m, k1)"
      using pv by (auto simp: BuildNotifyMessage_def Let_def)
    then obtain m k1 where b: "BuildNotifyMessage (p_nr (procs k c0)) q k = Some (m, k1)" by blast
    define k2 where "k2 = IPC_STATUS_ADD_CALL q NOTIFY (deliver q m (p_endpoint (procs k c0)) k1)"
    have ok2: "kernel_ok k2"
      unfolding k2_def by (intro status_keeps BuildNotifyMessage_keeps [OF b] assms(1))
    obtain k' where k': "RTS_UNSET q RTS_RECEIVING k2 = Some k'" "kernel_ok k'"
      using kernel_ok_RTS_UNSET [OF ok2 q] by blast
    have "mini_notify c0 e k = Some (OK, k')"
      using Some True nd b k'(1) by (simp add: mini_notify_def Let_def k2_def)
    moreover have "hands_free k'"
    proof -
      have w2: "waits k2 = waits k" "p \<noteq> q \<Longrightarrow> misc k2 p = misc k p" for p
        using BuildNotifyMessage_from [OF b]
        by (auto simp: k2_def IPC_STATUS_ADD_CALL_def IPC_STATUS_ADD_def deliver_def set_misc_def waits_def fun_eq_iff)
      have "misc k' p = misc k2 p" for p by (rule cores_sel(3) [OF RTS_UNSET_cores [OF k'(1)]]) simp
      then show ?thesis
        using assms(2) w2 by (simp add: hands_free_iff RTS_UNSET_waits [OF k'(1)])
    qed
    ultimately show ?thesis using k'(2) by blast
  qed
qed

lemma run_timers_returns:
  assumes "kernel_ok k" "hands_free k" "\<forall>t \<in> set ts. tmr_func (tmr (get_timers k) t) = Cause_Alarm"
  shows "\<exists>k'. kernel_timers.run_timers ts k = Some k'"
  using assms
proof (induction ts arbitrary: k)
  case Nil
  then show ?case by simp
next
  case (Cons t ts)
  define k0 where "k0 = put_timers (pop_timer t (get_timers k)) k"
  have d: "tmr_func (tmr (get_timers k0) v) = tmr_func (tmr (get_timers k) v)" for v
    by (simp add: k0_def pop_timer_def upd_tmr_def)
  have k0: "kernel_ok k0" "hands_free k0"
    using Cons.prems(1,2) by (simp_all add: k0_def kernel_ok_clk hands_free_def)
  obtain r k1 where n: "mini_notify CLOCK (tmr_arg (tmr (get_timers k0) t)) k0 = Some (r, k1)" "kernel_ok k1" "hands_free k1"
    using mini_notify_returns [OF k0 clock_is_proc] by blast
  have w: "run_watchdog (tmr_func (tmr (get_timers k) t)) t k0 = Some k1"
    using Cons.prems(3) n(1) by (simp add: run_watchdog_def cause_alarm_def get_timers_def)
  have "get_timers k1 = get_timers k0" using outerD(2) [OF mini_notify_cur [OF n(1)]] by (simp add: get_timers_def)
  then have "\<forall>t \<in> set ts. tmr_func (tmr (get_timers k1) t) = Cause_Alarm" using Cons.prems(3) d by simp
  from Cons.IH [OF n(2,3) this] show ?case using w by (simp add: k0_def)
qed

text \<open>The load average counts the runnable processes.\<close>

lemma count_ready_chain:
  "chain (next_of k) p ps \<Longrightarrow> count_ready k p n = Some (n + length ps)"
  by (induction ps arbitrary: p n) (simp_all add: count_ready.simps next_of_def)

lemma count_queues_sum:
  assumes "run_queues L k" "\<forall>q \<in> set qs. q < NR_SCHED_QUEUES"
  shows "count_queues k qs n = Some (n + (\<Sum>q \<leftarrow> qs. length (L q)))"
  using assms(2)
proof (induction qs arbitrary: n)
  case (Cons q qs)
  then have "chain (next_of k) (run_q_head k q) (L q)" using assms(1) by (simp add: run_queues_def)
  from count_ready_chain [OF this] Cons show ?case by (simp add: add.assoc)
qed simp

lemma load_update_counts:
  assumes "kernel_ok k" "system_hz (clk k) \<noteq> 0"
  shows "\<exists>k'. load_update k = Some k' \<and>
    proc_load_history (clk k') (unat (load_slot k)) =
      (if load_slot k = proc_last_slot (clk k) then proc_load_history (clk k) (unat (load_slot k)) else 0) +
      of_nat (card (runnables k)) \<and> (\<exists>f. k' = set_clk f k)"
proof -
  obtain L where L: "sched_inv L k" using assms(1) by (auto simp: kernel_ok_def)
  have rq: "run_queues L k" using L by (simp add: sched_inv_def queues_hold_def)
  define n where "n = (\<Sum>q \<leftarrow> [0..<NR_SCHED_QUEUES]. length (L q))"
  have "n = length (all_queued L)" by (simp add: n_def all_queued_def length_concat comp_def)
  also have "\<dots> = card (runnables k)" using all_queued_props [OF L] distinct_card by metis
  finally have n: "n = card (runnables k)" .
  have c: "count_queues (set_clk f k) [0..<NR_SCHED_QUEUES] 0 = Some n" for f
  proof -
    have "run_queues L (set_clk f k)" by (rule run_queues_cong [OF rq]) (simp_all add: next_of_def set_clk_def)
    from count_queues_sum [OF this, of "[0..<NR_SCHED_QUEUES]" 0] show ?thesis by (simp add: n_def)
  qed
  have c': "count_queues k [0..<NR_SCHED_QUEUES] 0 = Some n"
    using count_queues_sum [OF rq, of "[0..<NR_SCHED_QUEUES]" 0] by (simp add: n_def)
  show ?thesis
    using assms(2) c c' by (cases "load_slot k = proc_last_slot (clk k)") (auto simp: load_update_def Let_def n)
qed

lemma no_vtimer:
  assumes "\<not> has (misc k p) MF_VIRT_TIMER" "\<not> has (misc k p) MF_PROF_TIMER"
  shows "vtimer_check lethal p k = Some k" "count_down VT_VIRTUAL p k = k" "count_down VT_PROF p k = k"
  using assms by (simp_all add: vtimer_check_def vtimer_expire_def count_down_def vt_flag_def VT_VIRTUAL_def VT_PROF_def)

lemma charge_misc:
  assumes "charge k = Some k'"
  shows "misc k' p = misc k p" "waits k' = waits k"
proof -
  have c: "misc (count_down w q a) p = misc a p" "waits (count_down w q a) = waits a" for w q a
    by (simp_all add: count_down_def set_vt_left_def)
  obtain pr where pr: "priv_of k (proc_ptr k) = Some pr" using assms by (auto simp: charge_def Let_def bind_eq_Some_conv)
  let ?k1 = "upd_proc (proc_ptr k) (\<lambda>r. r\<lparr>p_user_time := p_user_time r + 1\<rparr>) k"
  let ?k2 = "if \<not> has (s_flags pr) BILLABLE then upd_proc (bill_ptr k) (\<lambda>r. r\<lparr>p_sys_time := p_sys_time r + 1\<rparr>) ?k1 else ?k1"
  let ?k3 = "count_down VT_PROF (proc_ptr k) (count_down VT_VIRTUAL (proc_ptr k) ?k2)"
  have k': "k' = (if \<not> has (s_flags pr) BILLABLE then count_down VT_PROF (bill_ptr k) ?k3 else ?k3)"
    using assms pr unfolding charge_def Let_def by simp
  show "misc k' p = misc k p" "waits k' = waits k" unfolding k' by (simp_all add: c)
qed

lemma timer_int_handler_returns:
  assumes ok: "kernel_ok k" "is_proc (bill_ptr k)" and cl: "clock_list k ts" and hf: "hands_free k"
    and hz: "system_hz (clk k) \<noteq> 0"
    and vt: "\<forall>p \<in> {proc_ptr k, bill_ptr k}. \<not> has (misc k p) MF_VIRT_TIMER \<and> \<not> has (misc k p) MF_PROF_TIMER"
    and al: "\<forall>t \<in> set ts. tmr_func (tmr (get_timers k) t) = Cause_Alarm"
  shows "\<exists>k'. timer_int_handler lethal k = Some k'"
proof -
  have p: "is_proc (proc_ptr k)" by (rule proc_ptr_is_proc [OF ok(1)])
  obtain i where i: "p_priv (procs k (proc_ptr k)) = Some i" using proc_has_priv [OF ok(1) p] by blast
  obtain k1 where k1: "charge (tick k) = Some k1"
    using i by (auto simp: charge_def priv_of_def Let_def)
  have m1: "misc k1 q = misc k q" "waits k1 q = waits k q" for q
    using charge_misc [OF k1] by (simp_all add: waits_def)
  have o1: "outer k1 = outer (tick k)" by (rule charge_frame(1) [OF k1])
  have v: "vtimer_check lethal (proc_ptr k) k1 = Some k1" "vtimer_check lethal (bill_ptr k) k1 = Some k1"
    using vt by (simp_all add: no_vtimer(1) m1)
  have ok1: "kernel_ok k1" by (rule charge_frame(3) [OF k1 tick_keeps [OF ok(1)]])
  have "system_hz (clk (tick k)) = system_hz (clk k)" by (simp add: tick_def Let_def)
  then have hz1: "system_hz (clk k1) \<noteq> 0" using hz outerD(2) [OF o1] by simp
  obtain k4 f where k4: "load_update k1 = Some k4" "k4 = set_clk f k1" using load_update_counts [OF ok1 hz1] by blast
  have ok4: "kernel_ok k4" unfolding k4(2) by (rule kernel_ok_clk(1) [OF ok1])
  have "hands_free k4" using hf by (simp add: k4(2) hands_free_iff m1)
  have g: "get_timers k4 = get_timers k" "next_timeout (clk k4) = next_timeout (clk k)"
    using load_update_frame(2,3) [OF k4(1)] outerD(2) [OF o1] tick_frame(2,3) [of k] by (simp_all add: get_timers_def)
  have l4: "timer_list (get_timers k4) ts" using cl g by (simp add: clock_list_def)
  have "\<forall>t \<in> set (takeWhile (\<lambda>t. expiry (get_timers k4) t \<le> monotonic k4) ts). tmr_func (tmr (get_timers k4) t) = Cause_Alarm"
    using al g(1) by (auto dest: set_takeWhileD)
  from run_timers_returns [OF ok4 \<open>hands_free k4\<close> this] obtain k5 where
    "exp_loop get_timers put_timers run_watchdog (monotonic k4) k4 = Some k5"
    using kernel_timers.exp_loop_runs [OF l4, of "monotonic k4"] by auto
  then have "\<exists>k'. expire k4 = Some k'" by (simp add: expire_def tmrs_exptimers_def)
  then show ?thesis using k1 v k4(1) by (auto simp: timer_int_handler_def)
qed

section \<open>Properties\<close>

text \<open>Process 3, which waits for a message from anyone, has an alarm at time 1.\<close>

definition alarm_kernel :: kernel where
  "alarm_kernel = set_clk (\<lambda>c. c\<lparr>clock_timers := \<lparr>tmrs = Some 0,
       tmr = (\<lambda>_. \<lparr>tmr_next = None, tmr_exp_time = 1, tmr_func = Cause_Alarm, tmr_arg = 3\<rparr>)\<rparr>, next_timeout := 1\<rparr>)
     (upd_priv 0 (\<lambda>pr. pr\<lparr>s_flags := SYS_PROC OR BILLABLE\<rparr>) ipc_kernel)"

lemma alarm_kernel_facts:
  "kernel_ok alarm_kernel" "is_proc (bill_ptr alarm_kernel)" "clock_list alarm_kernel [0]" "hands_free alarm_kernel"
  "system_hz (clk alarm_kernel) \<noteq> 0" "monotonic alarm_kernel = 0" "alive_as alarm_kernel 3 3"
  "p_priv (procs alarm_kernel 3) = Some 0" "has (s_flags (privs alarm_kernel 0)) SYS_PROC"
  "\<forall>p \<in> {proc_ptr alarm_kernel, bill_ptr alarm_kernel}.
     \<not> has (misc alarm_kernel p) MF_VIRT_TIMER \<and> \<not> has (misc alarm_kernel p) MF_PROF_TIMER"
  "tmr (get_timers alarm_kernel) 0 = \<lparr>tmr_next = None, tmr_exp_time = 1, tmr_func = Cause_Alarm, tmr_arg = 3\<rparr>"
proof -
  show "kernel_ok alarm_kernel"
    unfolding alarm_kernel_def by (intro kernel_ok_clk kernel_ok_upd_priv ipc_kernel_ok) simp
  have b: "bill_ptr alarm_kernel = idle_proc" "monotonic alarm_kernel = 0" "proc_ptr alarm_kernel = 1"
    "procs alarm_kernel = demo_proc" "system_hz (clk alarm_kernel) = 60"
    by (simp_all add: alarm_kernel_def) (simp_all add: ipc_kernel_def demo_kernel_def demo_clock_def)
  then show "is_proc (bill_ptr alarm_kernel)" "monotonic alarm_kernel = 0" "system_hz (clk alarm_kernel) \<noteq> 0"
    by (simp_all add: is_proc_def)
  show "clock_list alarm_kernel [0]" "tmr (get_timers alarm_kernel) 0 =
      \<lparr>tmr_next = None, tmr_exp_time = 1, tmr_func = Cause_Alarm, tmr_arg = 3\<rparr>"
    by (simp_all add: alarm_kernel_def clock_list_def timer_list_def timers_sorted_def timer_next_def get_timers_def
        first_timeout_def)
  show "hands_free alarm_kernel" "\<forall>p \<in> {proc_ptr alarm_kernel, bill_ptr alarm_kernel}.
      \<not> has (misc alarm_kernel p) MF_VIRT_TIMER \<and> \<not> has (misc alarm_kernel p) MF_PROF_TIMER"
    "p_priv (procs alarm_kernel 3) = Some 0"
    by (simp_all add: hands_free_def b demo_proc_def idle_proc_def)
  show "alive_as alarm_kernel 3 3"
    by (simp add: alive_as_def b demo_proc_def ENDPOINT_P_def endpoint_defs isokprocn_def NR_TASKS_def NR_PROCS_def
        has_def RTS_SLOT_FREE_def RTS_RECEIVING_def idle_proc_def)
  show "has (s_flags (privs alarm_kernel 0)) SYS_PROC"
    by (simp add: alarm_kernel_def has_def SYS_PROC_def BILLABLE_def)
qed



text \<open>Setting an alarm: the call answers with the ticks that were left on the caller's previous
  alarm, and replaces it by one that is queued behind exactly those that expire no later; a time of zero cancels the
  alarm. The alarms of all other processes stay as they are.
\<close>

theorem setalarm_queues_in_order:
  assumes "clock_list k ts" "p_priv (procs k c) = Some tp" "has (s_flags (privs k tp)) SYS_PROC"
  shows "\<exists>k'. do_setalarm c e a k = Some (OK, Some
        (if expiry (get_timers k) tp \<noteq> TMR_NEVER \<and> monotonic k < expiry (get_timers k) tp
         then expiry (get_timers k) tp - monotonic k else 0), k') \<and>
    clock_list k' (if e = 0 then remove1 tp ts
      else insert_timer (expiry (get_timers k)) (if a then e else e + monotonic k) tp (remove1 tp ts)) \<and>
    timer_data (get_timers k') = (timer_data (get_timers k))
      (tp := (if e = 0 then TMR_NEVER else if a then e else e + monotonic k, Cause_Alarm, p_endpoint (procs k c)))"
  using do_setalarm_result [OF assms, of e a] unfolding alarm_time_def by blast

theorem setalarm_queues_in_order_witness:
  "\<exists>k'. do_setalarm 3 5 False alarm_kernel = Some (OK, Some 1, k') \<and> clock_list k' [0] \<and>
     timer_data (get_timers k') 0 = (5, Cause_Alarm, 3)"
proof -
  note f = alarm_kernel_facts
  have "p_endpoint (procs alarm_kernel 3) = 3" using f(7) by (simp add: alive_as_def)
  with setalarm_queues_in_order [OF f(3,8,9), of 5 False] show ?thesis
    using f(6,11) by (auto simp: expiry_def insert_timer_def TMR_NEVER_def)
qed

end
