(* ===== verification/Interrupts.thy ===== *)
theory Interrupts
  imports Clock
begin

text \<open>
  Hardware interrupts (\<^verbatim>\<open>kernel/interrupt.c\<close> and \<^verbatim>\<open>kernel/system/do_irqctl.c\<close>), for the legacy
  interrupt controller with its 16 lines. Drivers attach hooks to the lines. Each hook of a line has an identifier, a
  single bit; the bits of the hooks whose interrupt the driver has not dealt with yet are the active ones, and the
  controller masks the line as long as there are any.

  The invariant \<open>irq_ok\<close> says that the chain of each line holds exactly the hooks attached to it, that their
  identifiers are different bits, that only identifiers in use are active, and that a line is masked if and only if it has no
  hook or an active one.
\<close>

section \<open>Lines\<close>

definition NR_IRQ_VECTORS :: int where "NR_IRQ_VECTORS = 16"
definition NR_IRQ_HOOKS :: nat where "NR_IRQ_HOOKS = 16"
definition IRQ_SETPOLICY :: int where "IRQ_SETPOLICY = 1"
definition IRQ_RMPOLICY :: int where "IRQ_RMPOLICY = 2"
definition IRQ_ENABLE :: int where "IRQ_ENABLE = 3"
definition IRQ_DISABLE :: int where "IRQ_DISABLE = 4"
definition IRQ_REENABLE :: "32 word" where "IRQ_REENABLE = 1"
definition CHECK_IRQ :: "16 word" where "CHECK_IRQ = 0x040"

lemmas IRQ_defs = IRQ_SETPOLICY_def IRQ_RMPOLICY_def IRQ_ENABLE_def IRQ_DISABLE_def

definition irq_line :: "int \<Rightarrow> bool" where
  "irq_line irq \<longleftrightarrow> 0 \<le> irq \<and> irq < NR_IRQ_VECTORS"

definition hw_intr_mask :: "int \<Rightarrow> irq_state \<Rightarrow> irq_state" where
  "hw_intr_mask irq s = s\<lparr>irq_masked := (irq_masked s)(irq := True)\<rparr>"

definition hw_intr_unmask :: "int \<Rightarrow> irq_state \<Rightarrow> irq_state" where
  "hw_intr_unmask irq s = s\<lparr>irq_masked := (irq_masked s)(irq := False)\<rparr>"

definition set_actids :: "int \<Rightarrow> 32 word \<Rightarrow> irq_state \<Rightarrow> irq_state" where
  "set_actids irq w s = s\<lparr>irq_actids := (irq_actids s)(irq := w)\<rparr>"

definition upd_hook :: "nat \<Rightarrow> (irq_hook \<Rightarrow> irq_hook) \<Rightarrow> irq_state \<Rightarrow> irq_state" where
  "upd_hook h f s = s\<lparr>hooks := (hooks s)(h := f (hooks s h))\<rparr>"

text \<open>The pointer \<open>line\<close> points at \<open>irq_handlers[irq]\<close> (\<open>None\<close>) or at the link of a hook.\<close>

definition line_get :: "int \<Rightarrow> nat option \<Rightarrow> irq_state \<Rightarrow> nat option" where
  "line_get irq line s = (case line of None \<Rightarrow> irq_handlers s irq | Some h \<Rightarrow> hook_next (hooks s h))"

definition line_set :: "int \<Rightarrow> nat option \<Rightarrow> nat option \<Rightarrow> irq_state \<Rightarrow> irq_state" where
  "line_set irq line v s =
     (case line of None \<Rightarrow> s\<lparr>irq_handlers := (irq_handlers s)(irq := v)\<rparr>
      | Some h \<Rightarrow> upd_hook h (\<lambda>r. r\<lparr>hook_next := v\<rparr>) s)"

section \<open>Attaching and detaching hooks\<close>

text \<open>The walk to the end of the chain: whether it met the hook itself, where it stopped, and the identifiers in use.\<close>

partial_function (option) put_walk ::
  "irq_state \<Rightarrow> nat \<Rightarrow> int \<Rightarrow> nat option \<Rightarrow> 32 word \<Rightarrow> (bool \<times> nat option \<times> 32 word) option" where
  "put_walk s hook irq line bitmap =
     (case line_get irq line s of
        None \<Rightarrow> Some (False, line, bitmap)
      | Some h \<Rightarrow>
          if h = hook then Some (True, line, bitmap)
          else put_walk s hook irq (Some h) (bitmap OR hook_id (hooks s h)))"

text \<open>The lowest bit not in the map, zero if there is none.\<close>

function free_id :: "32 word \<Rightarrow> 32 word \<Rightarrow> 32 word" where
  "free_id bitmap i = (if i = 0 \<or> \<not> has bitmap i then i else free_id bitmap (push_bit 1 i))"
  by pat_completeness auto
termination
proof (relation "measure (\<lambda>(b, i). card {n. n < 32 \<and> (\<exists>m \<le> n. bit i m)})")
  fix b i :: "32 word"
  assume "\<not> (i = 0 \<or> \<not> has b i)"
  then have "\<exists>n. bit i n" by (metis bit_eqI bit_0_eq bot_apply bot_bool_def)
  define l where "l = (LEAST n. bit i n)"
  have l: "bit i l" "\<And>n. bit i n \<Longrightarrow> l \<le> n"
    unfolding l_def using \<open>\<exists>n. bit i n\<close> by (auto intro: LeastI_ex Least_le)
  have l32: "l < 32" using l(1) bit_imp_le_length by fastforce
  let ?A = "{n. n < 32 \<and> (\<exists>m \<le> n. bit (push_bit 1 i) m)}" and ?B = "{n. n < 32 \<and> (\<exists>m \<le> n. bit i m)}"
  have sh: "l + 1 \<le> m \<and> bit i (m - 1)" if "bit (push_bit 1 i) m" for m
    using that l(2) [of "m - 1"] unfolding bit_push_bit_iff by auto
  have "?A \<subseteq> ?B"
  proof
    fix n assume "n \<in> ?A"
    then obtain m where "n < 32" "m \<le> n" "bit (push_bit 1 i) m" by blast
    then show "n \<in> ?B" using sh [of m] by (intro CollectI conjI exI [of _ "m - 1"]) auto
  qed
  moreover have "l \<notin> ?A" using sh by fastforce
  moreover have "l \<in> ?B" using l(1) l32 by blast
  ultimately have "?A \<subset> ?B" by blast
  then show "((b, push_bit 1 i), (b, i)) \<in> measure (\<lambda>(b, i). card {n. n < 32 \<and> (\<exists>m \<le> n. bit i m)})"
    by (simp add: psubset_card_mono)
qed simp

declare free_id.simps [simp del]

definition put_irq_handler :: "nat \<Rightarrow> int \<Rightarrow> irq_handler \<Rightarrow> irq_state \<Rightarrow> irq_state option" where
  "put_irq_handler hook irq handler s =
     (if irq < 0 \<or> irq \<ge> NR_IRQ_VECTORS then None
      else do {
        (found, line, bitmap) \<leftarrow> put_walk s hook irq None 0;
        if found then Some s
        else
          (let i = free_id bitmap 1
           in if i = 0 then None
              else
                (let s1 = upd_hook hook (\<lambda>h. h\<lparr>hook_next := None, hook_handler := handler, hook_irq := irq, hook_id := i\<rparr>) s;
                     s2 = line_set irq line (Some hook) s1;
                     s3 = set_actids irq (irq_actids s2 irq AND NOT i) s2
                 in Some (if irq_actids s3 irq = 0 then hw_intr_unmask irq s3 else s3)))
      })"

partial_function (option) rm_walk :: "int \<Rightarrow> 32 word \<Rightarrow> nat option \<Rightarrow> irq_state \<Rightarrow> irq_state option" where
  "rm_walk irq i line s =
     (case line_get irq line s of
        None \<Rightarrow> Some s
      | Some h \<Rightarrow>
          if hook_id (hooks s h) = i
          then rm_walk irq i line (set_actids irq (irq_actids s irq AND NOT i) (line_set irq line (hook_next (hooks s h)) s))
          else rm_walk irq i (Some h) s)"

definition rm_irq_handler :: "nat \<Rightarrow> irq_state \<Rightarrow> irq_state option" where
  "rm_irq_handler hook s =
     (let irq = hook_irq (hooks s hook); i = hook_id (hooks s hook)
      in if irq < 0 \<or> irq \<ge> NR_IRQ_VECTORS then None
         else do {
           s1 \<leftarrow> rm_walk irq i None s;
           Some (if irq_handlers s1 irq = None then hw_intr_mask irq s1
                 else if irq_actids s1 irq = 0 then hw_intr_unmask irq s1 else s1)
         })"

definition enable_irq :: "nat \<Rightarrow> irq_state \<Rightarrow> irq_state" where
  "enable_irq hook s =
     (let irq = hook_irq (hooks s hook);
          s1 = set_actids irq (irq_actids s irq AND NOT (hook_id (hooks s hook))) s
      in if irq_actids s1 irq = 0 then hw_intr_unmask irq s1 else s1)"

definition disable_irq :: "nat \<Rightarrow> irq_state \<Rightarrow> bool \<times> irq_state" where
  "disable_irq hook s =
     (let irq = hook_irq (hooks s hook); i = hook_id (hooks s hook)
      in if has (irq_actids s irq) i then (False, s)
         else (True, hw_intr_mask irq (set_actids irq (irq_actids s irq OR i) s)))"

section \<open>Handling an interrupt\<close>

definition set_irqs :: "(irq_state \<Rightarrow> irq_state) \<Rightarrow> kernel \<Rightarrow> kernel" where
  "set_irqs f k = k\<lparr>irqs := f (irqs k)\<rparr>"

text \<open>The result: whether the line may be used again at once.\<close>

definition generic_handler :: "nat \<Rightarrow> kernel \<Rightarrow> (bool \<times> kernel) option" where
  "generic_handler hook k =
     (let h = hooks (irqs k) hook
      in do {
        proc_nr \<leftarrow> isokendpt k (hook_proc_nr_e h);
        i \<leftarrow> p_priv (procs k proc_nr);
        let k1 = upd_priv i (\<lambda>pr. pr\<lparr>s_int_pending := insert (uint (hook_notify_id h)) (s_int_pending pr)\<rparr>) k;
        (_, k2) \<leftarrow> mini_notify HARDWARE (hook_proc_nr_e h) k1;
        Some (has (hook_policy h) IRQ_REENABLE, k2)
      })"

definition run_handler :: "(signal \<Rightarrow> bool) \<Rightarrow> nat \<Rightarrow> kernel \<Rightarrow> (bool \<times> kernel) option" where
  "run_handler lethal hook k =
     (case hook_handler (hooks (irqs k) hook) of
        Generic_Handler \<Rightarrow> generic_handler hook k
      | Timer_Int_Handler \<Rightarrow> map_option (Pair True) (timer_int_handler lethal k))"

partial_function (option) handle_loop ::
  "(nat \<Rightarrow> kernel \<Rightarrow> (bool \<times> kernel) option) \<Rightarrow> int \<Rightarrow> nat option \<Rightarrow> kernel \<Rightarrow> kernel option" where
  "handle_loop run irq hook k =
     (case hook of
        None \<Rightarrow> Some k
      | Some h \<Rightarrow> do {
          let k1 = set_irqs (\<lambda>s. set_actids irq (irq_actids s irq OR hook_id (hooks s h)) s) k;
          (r, k2) \<leftarrow> run h k1;
          let k3 = (if r then set_irqs (\<lambda>s. set_actids (hook_irq (hooks s h))
                      (irq_actids s (hook_irq (hooks s h)) AND NOT (hook_id (hooks s h))) s) k2 else k2);
          handle_loop run irq (hook_next (hooks (irqs k3) h)) k3
        })"

definition irq_handle :: "(signal \<Rightarrow> bool) \<Rightarrow> int \<Rightarrow> kernel \<Rightarrow> kernel option" where
  "irq_handle lethal irq k =
     (if \<not> irq_line irq then None
      else
        (let k1 = set_irqs (hw_intr_mask irq) k
         in case irq_handlers (irqs k1) irq of
              None \<Rightarrow> Some k1
            | Some h \<Rightarrow> do {
                k2 \<leftarrow> handle_loop (run_handler lethal) irq (Some h) k1;
                Some (if irq_actids (irqs k2) irq = 0 then set_irqs (hw_intr_unmask irq) k2 else k2)
              }))"

section \<open>The kernel call of drivers\<close>

definition may_use_irq :: "priv \<Rightarrow> int \<Rightarrow> bool" where
  "may_use_irq pr irq_vec \<longleftrightarrow>
     has (s_flags pr) CHECK_IRQ \<longrightarrow> irq_vec \<in> set (map (s_irq_tab pr) [0..<nat (s_nr_irq pr)])"

text \<open>The existing hook of the process with the same identifier is detached first; otherwise a free hook is taken.\<close>

definition find_hook :: "int \<Rightarrow> 32 word \<Rightarrow> irq_state \<Rightarrow> (nat \<times> irq_state) option option" where
  "find_hook e notify_id s =
     (case List.find (\<lambda>i. hook_proc_nr_e (hooks s i) = e \<and> hook_notify_id (hooks s i) = notify_id) [0..<NR_IRQ_HOOKS] of
        Some i \<Rightarrow> map_option (\<lambda>s1. Some (i, s1)) (rm_irq_handler i s)
      | None \<Rightarrow> Some (map_option (\<lambda>i. (i, s)) (List.find (\<lambda>i. hook_proc_nr_e (hooks s i) = NONE) [0..<NR_IRQ_HOOKS])))"

definition irq_setpolicy ::
  "int \<Rightarrow> int \<Rightarrow> int \<Rightarrow> 32 word \<Rightarrow> kernel \<Rightarrow> (code \<times> int option \<times> kernel) option" where
  "irq_setpolicy caller irq_vec notify_id policy k =
     (let e = p_endpoint (procs k caller); nid = (word_of_int notify_id :: 32 word)
      in if irq_vec < 0 \<or> irq_vec \<ge> NR_IRQ_VECTORS then Some (EINVAL, None, k)
         else
           (case priv_of k caller of
              None \<Rightarrow> Some (EPERM, None, k)
            | Some privp \<Rightarrow>
                if \<not> may_use_irq privp irq_vec then Some (EPERM, None, k)
                else if nid > 31 then Some (EINVAL, None, k)
                else do {
                  found \<leftarrow> find_hook e nid (irqs k);
                  case found of
                    None \<Rightarrow> Some (ENOSPC, None, k)
                  | Some (i, s1) \<Rightarrow> do {
                      s2 \<leftarrow> put_irq_handler i irq_vec Generic_Handler
                             (upd_hook i (\<lambda>h. h\<lparr>hook_proc_nr_e := e, hook_notify_id := nid, hook_policy := policy\<rparr>) s1);
                      Some (OK, Some (int i + 1), k\<lparr>irqs := s2\<rparr>)
                    }
                }))"

text \<open>A request that names a hook: the hook has to exist and to belong to the caller.\<close>

definition own_hook :: "int \<Rightarrow> int \<Rightarrow> kernel \<Rightarrow> code + nat" where
  "own_hook caller irq_hook_id k =
     (if irq_hook_id \<ge> int NR_IRQ_HOOKS \<or> irq_hook_id < 0 \<or> hook_proc_nr_e (hooks (irqs k) (nat irq_hook_id)) = NONE
      then Inl EINVAL
      else if hook_proc_nr_e (hooks (irqs k) (nat irq_hook_id)) \<noteq> p_endpoint (procs k caller) then Inl EPERM
      else Inr (nat irq_hook_id))"

definition do_irqctl ::
  "int \<Rightarrow> int \<Rightarrow> int \<Rightarrow> 32 word \<Rightarrow> int \<Rightarrow> kernel \<Rightarrow> (code \<times> int option \<times> kernel) option" where
  "do_irqctl caller request irq_vec policy hook_id_arg k =
     (if request = IRQ_ENABLE \<or> request = IRQ_DISABLE then
        (case own_hook caller (hook_id_arg - 1) k of
           Inl e \<Rightarrow> Some (e, None, k)
         | Inr h \<Rightarrow>
             Some (OK, None, set_irqs (if request = IRQ_ENABLE then enable_irq h else snd \<circ> disable_irq h) k))
      else if request = IRQ_SETPOLICY then irq_setpolicy caller irq_vec hook_id_arg policy k
      else if request = IRQ_RMPOLICY then
        (case own_hook caller (hook_id_arg - 1) k of
           Inl e \<Rightarrow> Some (e, None, k)
         | Inr h \<Rightarrow> do {
             s1 \<leftarrow> rm_irq_handler h (irqs k);
             Some (OK, None, k\<lparr>irqs := upd_hook h (\<lambda>r. r\<lparr>hook_proc_nr_e := NONE\<rparr>) s1\<rparr>)
           })
      else Some (EINVAL, None, k))"

section \<open>Identifiers\<close>

lemma has_exp: "has w (2 ^ n) \<longleftrightarrow> bit w n" for w :: "'a::len word"
  by (simp add: has_def and_exp_eq_0_iff_not_bit)

lemma exp_nonzero: "n < 32 \<Longrightarrow> (2 ^ n :: 32 word) \<noteq> 0"
  by (simp add: word_of_nat_eq_0_iff flip: bit_0_eq)

lemma bit_exp: "bit (2 ^ n :: 32 word) m \<longleftrightarrow> m = n \<and> n < 32"
  by (auto simp: bit_exp_iff)

lemma free_id_result:
  assumes "n \<le> m" "m < 32" "\<not> bit b m"
  shows "\<exists>j < 32. free_id b (2 ^ n) = 2 ^ j \<and> \<not> bit b j"
  using assms(1)
proof (induction rule: inc_induct)
  case base
  then show ?case using assms(2,3) by (auto simp: free_id.simps [of b "2 ^ m"] has_exp)
next
  case (step n)
  show ?case
  proof (cases "bit b n")
    case True
    have "free_id b (2 ^ n) = free_id b (2 ^ Suc n)"
      using True step.hyps assms(2) exp_nonzero [of n] by (simp add: free_id.simps [of b "2 ^ n"] has_exp mult.commute)
    then show ?thesis using step.IH by simp
  next
    case False
    then show ?thesis using step.hyps assms(2) by (auto simp: free_id.simps [of b "2 ^ n"] has_exp intro!: exI [of _ n])
  qed
qed

definition one_bit :: "32 word \<Rightarrow> bool" where
  "one_bit w \<longleftrightarrow> (\<exists>n < 32. w = 2 ^ n)"

lemma one_bit_eq: "one_bit v \<Longrightarrow> one_bit w \<Longrightarrow> bit v n \<Longrightarrow> bit w n \<Longrightarrow> v = w"
  by (auto simp: one_bit_def bit_exp)

lemma one_bit_nonzero: "one_bit w \<Longrightarrow> w \<noteq> 0"
  by (auto simp: one_bit_def exp_nonzero)

lemma word_0_iff: "w = 0 \<longleftrightarrow> (\<forall>n. \<not> bit w n)" for w :: "'a::len word"
  by (auto intro: bit_eqI)

section \<open>The chain of a line\<close>

definition next_hook :: "irq_state \<Rightarrow> nat \<Rightarrow> nat option" where
  "next_hook s h = hook_next (hooks s h)"

abbreviation ident :: "irq_state \<Rightarrow> nat \<Rightarrow> 32 word" where
  "ident s h \<equiv> hook_id (hooks s h)"

definition irq_list :: "irq_state \<Rightarrow> int \<Rightarrow> nat list \<Rightarrow> bool" where
  "irq_list s irq hs \<longleftrightarrow>
     chain (next_hook s) (irq_handlers s irq) hs \<and>
     (\<forall>h \<in> set hs. hook_irq (hooks s h) = irq \<and> one_bit (ident s h)) \<and>
     inj_on (ident s) (set hs) \<and>
     (\<forall>n. bit (irq_actids s irq) n \<longrightarrow> (\<exists>h \<in> set hs. bit (ident s h) n)) \<and>
     (irq_masked s irq \<longleftrightarrow> hs = [] \<or> irq_actids s irq \<noteq> 0)"

text \<open>What a change of one line leaves alone: the other lines, and the hooks outside \<open>H\<close>.\<close>

definition line_frame :: "int \<Rightarrow> nat set \<Rightarrow> irq_state \<Rightarrow> irq_state \<Rightarrow> bool" where
  "line_frame irq H s s' \<longleftrightarrow>
     (\<forall>i. i \<noteq> irq \<longrightarrow> irq_handlers s' i = irq_handlers s i \<and> irq_actids s' i = irq_actids s i \<and>
        irq_masked s' i = irq_masked s i) \<and>
     (\<forall>h. h \<notin> H \<longrightarrow> hooks s' h = hooks s h)"

text \<open>A hook but for its link.\<close>

definition unlinked :: "irq_hook \<Rightarrow> irq_hook" where
  "unlinked h = h\<lparr>hook_next := None\<rparr>"

lemma unlinkedD:
  assumes "unlinked g = unlinked h"
  shows "hook_irq g = hook_irq h" "hook_id g = hook_id h" "hook_handler g = hook_handler h"
    "hook_proc_nr_e g = hook_proc_nr_e h" "hook_notify_id g = hook_notify_id h" "hook_policy g = hook_policy h"
  using assms by (cases g; cases h; simp add: unlinked_def)+

lemma irq_list_frame:
  assumes "irq_list s i hs" "line_frame irq H s s'" "i \<noteq> irq" "set hs \<inter> H = {}"
  shows "irq_list s' i hs"
proof -
  have h: "hooks s' h = hooks s h" if "h \<in> set hs" for h using assms(2,4) that unfolding line_frame_def by blast
  have "chain (next_hook s') p hs = chain (next_hook s) p hs" for p
    by (rule chain_cong) (simp add: next_hook_def h)
  moreover have "inj_on (ident s') (set hs) = inj_on (ident s) (set hs)" by (rule inj_on_cong) (simp add: h)
  ultimately show ?thesis using assms(1-3) h unfolding irq_list_def line_frame_def by auto
qed

lemma irq_list_disjoint: "irq_list s i hs \<Longrightarrow> irq_list s j gs \<Longrightarrow> i \<noteq> j \<Longrightarrow> set hs \<inter> set gs = {}"
  unfolding irq_list_def disjoint_iff by metis

lemma line_simps [simp]:
  "irq_handlers (set_actids irq w s) = irq_handlers s" "hooks (set_actids irq w s) = hooks s"
  "irq_masked (set_actids irq w s) = irq_masked s" "irq_actids (set_actids irq w s) = (irq_actids s)(irq := w)"
  "irq_handlers (hw_intr_mask irq s) = irq_handlers s" "hooks (hw_intr_mask irq s) = hooks s"
  "irq_actids (hw_intr_mask irq s) = irq_actids s" "irq_masked (hw_intr_mask irq s) = (irq_masked s)(irq := True)"
  "irq_handlers (hw_intr_unmask irq s) = irq_handlers s" "hooks (hw_intr_unmask irq s) = hooks s"
  "irq_actids (hw_intr_unmask irq s) = irq_actids s" "irq_masked (hw_intr_unmask irq s) = (irq_masked s)(irq := False)"
  "irq_handlers (upd_hook h f s) = irq_handlers s" "hooks (upd_hook h f s) = (hooks s)(h := f (hooks s h))"
  "irq_actids (upd_hook h f s) = irq_actids s" "irq_masked (upd_hook h f s) = irq_masked s"
  "irq_actids (line_set irq p v s) = irq_actids s" "irq_masked (line_set irq p v s) = irq_masked s"
  by (simp_all add: set_actids_def hw_intr_mask_def hw_intr_unmask_def upd_hook_def line_set_def split: option.split)

lemma next_simps [simp]:
  "next_hook (set_actids irq w s) = next_hook s" "next_hook (hw_intr_mask irq s) = next_hook s"
  "next_hook (hw_intr_unmask irq s) = next_hook s"
  "next_hook (upd_hook h f s) = (next_hook s)(h := hook_next (f (hooks s h)))"
  "next_hook (line_set irq None v s) = next_hook s" "next_hook (line_set irq (Some g) v s) = (next_hook s)(g := v)"
  "irq_handlers (line_set irq None v s) = (irq_handlers s)(irq := v)"
  "irq_handlers (line_set irq (Some g) v s) = irq_handlers s"
  "line_get irq None s = irq_handlers s irq" "line_get irq (Some g) s = next_hook s g"
  by (auto simp: next_hook_def line_set_def line_get_def)

lemma unlinked_line_set [simp]: "unlinked (hooks (line_set irq p v s) h) = unlinked (hooks s h)"
  by (simp add: line_set_def unlinked_def split: option.split)

text \<open>The pointer after the hooks \<open>hs\<close>.\<close>

definition tail_ptr :: "nat option \<Rightarrow> nat list \<Rightarrow> nat option" where
  "tail_ptr p hs = (if hs = [] then p else Some (last hs))"

lemma tail_ptr_simps [simp]: "tail_ptr p [] = p" "tail_ptr p (h # hs) = tail_ptr (Some h) hs"
  by (simp_all add: tail_ptr_def)

lemma chain_rest:
  "chain (next_hook s) (line_get irq p s) (xs @ ys) \<Longrightarrow> chain (next_hook s) (line_get irq (tail_ptr p xs) s) ys"
  by (induction xs arbitrary: p) auto

lemma put_walk_result:
  assumes "chain (next_hook s) (line_get irq p s) hs" "hook \<notin> set hs"
  shows "\<exists>b'. put_walk s hook irq p b = Some (False, tail_ptr p hs, b') \<and>
    (\<forall>n. bit b' n \<longleftrightarrow> bit b n \<or> (\<exists>h \<in> set hs. bit (ident s h) n))"
  using assms
proof (induction hs arbitrary: p b)
  case Nil
  then show ?case by (simp add: put_walk.simps [of s hook irq p])
next
  case (Cons h hs)
  have "put_walk s hook irq p b = put_walk s hook irq (Some h) (b OR ident s h)"
    using Cons.prems by (simp add: put_walk.simps [of s hook irq p])
  with Cons.IH [of "Some h" "b OR ident s h"] Cons.prems show ?case by (auto simp: bit_or_iff)
qed

lemma rm_walk_skip:
  assumes "chain (next_hook s) (line_get irq p s) (hs @ gs)" "\<forall>h \<in> set hs. ident s h \<noteq> i"
  shows "rm_walk irq i p s = rm_walk irq i (tail_ptr p hs) s"
  using assms
proof (induction hs arbitrary: p)
  case (Cons h hs)
  then have "rm_walk irq i p s = rm_walk irq i (Some h) s" by (simp add: rm_walk.simps [of irq i p])
  with Cons show ?case by simp
qed simp

lemma rm_walk_absent:
  assumes "chain (next_hook s) (line_get irq p s) hs" "\<forall>h \<in> set hs. ident s h \<noteq> i"
  shows "rm_walk irq i p s = Some s"
proof -
  have "line_get irq (tail_ptr p hs) s = None"
    using assms(1) chain_last [OF assms(1)] by (cases hs) (auto simp: tail_ptr_def)
  then show ?thesis using rm_walk_skip [of s irq p hs "[]" i] assms by (simp add: rm_walk.simps [of irq i "tail_ptr p hs"])
qed

text \<open>A chain of fewer than 32 hooks leaves an identifier free.\<close>

lemma free_bit:
  assumes "irq_list s irq hs" "length hs < 32"
  shows "\<exists>m < 32. \<forall>h \<in> set hs. \<not> bit (ident s h) m"
proof (rule ccontr)
  assume no: "\<not> (\<exists>m < 32. \<forall>h \<in> set hs. \<not> bit (ident s h) m)"
  have "\<forall>m \<in> {..<32}. \<exists>h \<in> set hs. ident s h = 2 ^ m"
    using no assms(1) by (fastforce simp: irq_list_def one_bit_def bit_exp)
  then have "(\<lambda>m. 2 ^ m :: 32 word) ` {..<32} \<subseteq> ident s ` set hs" by force
  then have "card ((\<lambda>m. 2 ^ m :: 32 word) ` {..<32}) \<le> card (ident s ` set hs)" by (intro card_mono) auto
  also have "\<dots> \<le> length hs" by (meson card_image_le card_length finite_set le_trans)
  also have "card ((\<lambda>m. 2 ^ m :: 32 word) ` {..<32}) = 32"
  proof -
    have "inj_on (\<lambda>m. 2 ^ m :: 32 word) {..<32}" by (rule inj_onI) (metis bit_exp lessThan_iff)
    then show ?thesis by (simp add: card_image)
  qed
  finally show False using assms(2) by simp
qed

lemma put_irq_handler_result:
  assumes l: "irq_list s irq hs" and irq: "irq_line irq" and h: "h \<notin> set hs" and len: "length hs < 32"
  shows "\<exists>s'. put_irq_handler h irq fn s = Some s' \<and> irq_list s' irq (hs @ [h]) \<and>
    line_frame irq (insert h (set hs)) s s' \<and> (\<forall>g. g \<noteq> h \<longrightarrow> unlinked (hooks s' g) = unlinked (hooks s g)) \<and>
    (\<exists>i. unlinked (hooks s' h) = unlinked ((hooks s h)\<lparr>hook_handler := fn, hook_irq := irq, hook_id := i\<rparr>))"
proof -
  have c: "chain (next_hook s) (irq_handlers s irq) hs" using l by (simp add: irq_list_def)
  obtain b where w: "put_walk s h irq None 0 = Some (False, tail_ptr None hs, b)"
      and b: "\<And>n. bit b n \<longleftrightarrow> (\<exists>g \<in> set hs. bit (ident s g) n)"
    using put_walk_result [of s irq None hs h 0] c h by auto
  obtain m where "m < 32" "\<not> bit b m" using free_bit [OF l len] b by blast
  then obtain j where j: "j < 32" "free_id b 1 = 2 ^ j" "\<not> bit b j" using free_id_result [of 0 m b] by auto
  define s1 where "s1 = upd_hook h (\<lambda>r. r\<lparr>hook_next := None, hook_handler := fn, hook_irq := irq, hook_id := 2 ^ j\<rparr>) s"
  define s2 where "s2 = line_set irq (tail_ptr None hs) (Some h) s1"
  define s3 where "s3 = set_actids irq (irq_actids s2 irq AND NOT (2 ^ j)) s2"
  define s' where "s' = (if irq_actids s3 irq = 0 then hw_intr_unmask irq s3 else s3)"
  have put: "put_irq_handler h irq fn s = Some s'"
    using w j irq exp_nonzero [OF j(1)]
    by (simp add: put_irq_handler_def irq_line_def Let_def flip: s1_def) (simp add: s'_def s3_def s2_def)
  have u1: "unlinked (hooks s1 g) = unlinked (if g = h then (hooks s h)\<lparr>hook_handler := fn, hook_irq := irq, hook_id := 2 ^ j\<rparr>
      else hooks s g)" for g
    by (simp add: s1_def unlinked_def)
  have u: "unlinked (hooks s' g) = unlinked (if g = h then (hooks s h)\<lparr>hook_handler := fn, hook_irq := irq, hook_id := 2 ^ j\<rparr>
      else hooks s g)" for g
    using u1 by (simp add: s'_def s3_def s2_def)
  have old: "hook_irq (hooks s' g) = irq" "ident s' g = ident s g" if "g \<in> set hs" for g
    using unlinkedD(1,2) [OF u [of g]] that h l by (auto simp: irq_list_def)
  have new: "hook_irq (hooks s' h) = irq" "ident s' h = 2 ^ j" using unlinkedD(1,2) [OF u [of h]] by simp_all
  have a: "irq_actids s' irq = irq_actids s irq AND NOT (2 ^ j)" by (simp add: s'_def s3_def s2_def s1_def)
  have m: "irq_masked s' irq = (irq_actids s' irq \<noteq> 0)"
  proof (cases "irq_actids s' irq = 0")
    case True
    then show ?thesis by (simp add: s'_def split: if_splits)
  next
    case False
    then have "irq_masked s' irq = irq_masked s irq" by (simp add: s'_def s3_def s2_def s1_def split: if_splits)
    moreover have "irq_actids s irq \<noteq> 0" using False a by auto
    ultimately show ?thesis using False l by (simp add: irq_list_def)
  qed
  have "chain (next_hook s') (irq_handlers s' irq) (hs @ [h])"
  proof (cases "hs = []")
    case True
    then show ?thesis by (simp add: s'_def s3_def s2_def s1_def)
  next
    case False
    then have "last hs \<noteq> h" using h last_in_set by metis
    then show ?thesis using chain_snoc(2) [OF c h False] False
      by (simp add: s'_def s3_def s2_def s1_def tail_ptr_def fun_upd_twist)
  qed
  moreover have "inj_on (ident s') (set (hs @ [h]))"
  proof -
    have "inj_on (ident s') (set hs)" using l old(2) by (simp add: irq_list_def inj_on_def)
    moreover have "ident s' h \<notin> ident s' ` set hs"
    proof
      assume "ident s' h \<in> ident s' ` set hs"
      then obtain x where x: "x \<in> set hs" "ident s x = 2 ^ j" using old(2) new(2) by auto
      then have "bit b j" using b j(1) by (auto simp: bit_exp intro!: bexI [of _ x])
      then show False using j(3) by simp
    qed
    ultimately show ?thesis using h by (auto simp: inj_on_insert)
  qed
  moreover have "\<exists>g \<in> set (hs @ [h]). bit (ident s' g) n" if "bit (irq_actids s' irq) n" for n
  proof -
    have "bit (irq_actids s irq) n" using that by (simp add: a bit_and_iff)
    then obtain g where "g \<in> set hs" "bit (ident s g) n" using l unfolding irq_list_def by blast
    then show ?thesis using old(2) by auto
  qed
  ultimately have "irq_list s' irq (hs @ [h])"
    using old new j(1) m l by (auto simp: irq_list_def one_bit_def)
  moreover have "line_frame irq (insert h (set hs)) s s'"
  proof (cases "hs = []")
    case True
    then show ?thesis by (auto simp: line_frame_def s'_def s3_def s2_def s1_def line_set_def)
  next
    case False
    then have "last hs \<in> set hs" by simp
    then show ?thesis using False
      by (auto simp: line_frame_def s'_def s3_def s2_def s1_def tail_ptr_def line_set_def)
  qed
  ultimately show ?thesis using put u by auto
qed

lemma rm_irq_handler_result:
  assumes l: "irq_list s irq hs" and irq: "irq_line irq" and h: "h \<in> set hs"
  shows "\<exists>s'. rm_irq_handler h s = Some s' \<and> irq_list s' irq (remove1 h hs) \<and> line_frame irq (set hs) s s' \<and>
    (\<forall>g. unlinked (hooks s' g) = unlinked (hooks s g))"
proof -
  have c: "chain (next_hook s) (irq_handlers s irq) hs" using l by (simp add: irq_list_def)
  have d: "distinct hs" by (rule chain_distinct [OF c])
  obtain xs ys where hs: "hs = xs @ h # ys" using split_list [OF h] by blast
  have notin: "h \<notin> set xs" "h \<notin> set ys" using d hs by simp_all
  have rm: "remove1 h hs = xs @ ys" using notin by (simp add: hs remove1_append)
  define i where "i = ident s h"
  have hi: "hook_irq (hooks s h) = irq" "one_bit i" using l h by (simp_all add: irq_list_def i_def)
  have inj: "inj_on (ident s) (set hs)" using l by (simp add: irq_list_def)
  then have ne: "\<forall>g \<in> set (xs @ ys). ident s g \<noteq> i"
    using notin unfolding i_def hs inj_on_def by auto
  define p where "p = tail_ptr None xs"
  have gp: "line_get irq p s = Some h"
    using chain_rest [of s irq None xs "h # ys"] c by (simp add: hs p_def)
  define s1 where "s1 = set_actids irq (irq_actids s irq AND NOT i) (line_set irq p (next_hook s h) s)"
  have u1: "unlinked (hooks s1 g) = unlinked (hooks s g)" for g by (simp add: s1_def)
  have id1: "ident s1 g = ident s g" for g using unlinkedD(2) [OF u1] .
  have c1: "chain (next_hook s1) (irq_handlers s1 irq) (xs @ ys)" "line_get irq p s1 = next_hook s h"
  proof -
    show "chain (next_hook s1) (irq_handlers s1 irq) (xs @ ys)"
    proof (cases "xs = []")
      case True
      then show ?thesis using chain_unlink(1) [of "next_hook s" "irq_handlers s irq" xs h ys] c
        by (simp add: s1_def p_def hs)
    next
      case False
      then show ?thesis using chain_unlink(2) [of "next_hook s" "irq_handlers s irq" xs h ys] c
        by (simp add: s1_def p_def hs tail_ptr_def)
    qed
    show "line_get irq p s1 = next_hook s h" by (cases p) (simp_all add: s1_def)
  qed
  have rest: "chain (next_hook s1) (line_get irq p s1) ys"
    using chain_rest [of s1 irq None xs ys] c1(1) by (simp add: p_def)
  have "rm_walk irq i None s = rm_walk irq i p s"
    using rm_walk_skip [of s irq None xs "h # ys" i] c ne by (simp add: hs p_def)
  also have "\<dots> = rm_walk irq i p s1"
    by (subst rm_walk.simps) (simp add: gp i_def s1_def next_hook_def)
  also have "\<dots> = Some s1"
    by (rule rm_walk_absent [OF rest]) (use ne id1 in simp)
  finally have walk: "rm_walk irq i None s = Some s1" .
  define s' where "s' = (if irq_handlers s1 irq = None then hw_intr_mask irq s1
    else if irq_actids s1 irq = 0 then hw_intr_unmask irq s1 else s1)"
  have "rm_irq_handler h s = Some s'"
    using walk irq by (simp add: rm_irq_handler_def hi(1) i_def [symmetric] irq_line_def s'_def)
  moreover have a: "irq_actids s' irq = irq_actids s irq AND NOT i" by (simp add: s'_def s1_def)
  moreover have "irq_masked s' irq = (xs @ ys = [] \<or> irq_actids s' irq \<noteq> 0)"
  proof -
    have "irq_handlers s1 irq = None \<longleftrightarrow> xs @ ys = []" using c1(1) by (cases "xs @ ys") auto
    moreover have "irq_actids s irq \<noteq> 0" if "irq_actids s1 irq \<noteq> 0" using that by (auto simp: s1_def)
    ultimately show ?thesis using l by (auto simp: s'_def a s1_def irq_list_def)
  qed
  moreover have u: "unlinked (hooks s' g) = unlinked (hooks s g)" for g using u1 by (simp add: s'_def)
  moreover have "\<exists>g \<in> set (xs @ ys). bit (ident s' g) n" if "bit (irq_actids s' irq) n" for n
  proof -
    have "bit (irq_actids s irq) n" "\<not> bit i n" using that by (auto simp: a bit_simps)
    then obtain g where "g \<in> set hs" "bit (ident s g) n" "g \<noteq> h" using l unfolding irq_list_def i_def by metis
    then show ?thesis using unlinkedD(2) [OF u, of g] by (intro bexI [of _ g]) (auto simp: hs)
  qed
  moreover have "chain (next_hook s') (irq_handlers s' irq) (xs @ ys)"
  proof -
    have "next_hook s' = next_hook s1" "irq_handlers s' = irq_handlers s1" by (simp_all add: s'_def)
    with c1(1) show ?thesis by (simp only:)
  qed
  moreover have "hook_irq (hooks s' g) = irq \<and> one_bit (ident s' g)" if "g \<in> set (xs @ ys)" for g
    using that l unlinkedD(1,2) [OF u, of g] by (auto simp: irq_list_def hs)
  moreover have "inj_on (ident s') (set (xs @ ys))"
    using inj unlinkedD(2) [OF u] by (auto simp: hs inj_on_def)
  moreover have "line_frame irq (set hs) s s'"
    by (cases p) (use gp in \<open>auto simp: line_frame_def s'_def s1_def line_set_def p_def tail_ptr_def hs split: if_splits\<close>)
  ultimately show ?thesis unfolding rm by (auto simp: irq_list_def)
qed

section \<open>The invariant of the interrupt hooks\<close>

definition TIMER_HOOK :: nat where "TIMER_HOOK = 16"
definition CLOCK_IRQ :: int where "CLOCK_IRQ = 0"

text \<open>\<open>IL i\<close> lists the hooks of line \<open>i\<close>; together they are the set \<open>A\<close>.\<close>

definition irq_lists :: "nat set \<Rightarrow> irq_state \<Rightarrow> (int \<Rightarrow> nat list) \<Rightarrow> bool" where
  "irq_lists A s IL \<longleftrightarrow>
     (\<forall>i. irq_line i \<longrightarrow> irq_list s i (IL i) \<and> set (IL i) = {h \<in> A. hook_irq (hooks s h) = i}) \<and>
     (\<forall>h \<in> A. h \<le> TIMER_HOOK \<and> irq_line (hook_irq (hooks s h)))"

definition attached :: "irq_state \<Rightarrow> nat set" where
  "attached s = insert TIMER_HOOK {h. h < NR_IRQ_HOOKS \<and> hook_proc_nr_e (hooks s h) \<noteq> NONE}"

definition hook_fits :: "nat \<Rightarrow> irq_hook \<Rightarrow> bool" where
  "hook_fits h r \<longleftrightarrow>
     (if h = TIMER_HOOK then hook_handler r = Timer_Int_Handler \<and> hook_irq r = CLOCK_IRQ
      else hook_handler r = Generic_Handler)"

text \<open>What a driver knows a hook by: its own endpoint and the identifier it chose.\<close>

definition hook_key :: "irq_hook \<Rightarrow> int \<times> 32 word" where
  "hook_key r = (hook_proc_nr_e r, hook_notify_id r)"

definition irqs_fine :: "irq_state \<Rightarrow> bool" where
  "irqs_fine s \<longleftrightarrow> (\<exists>IL. irq_lists (attached s) s IL) \<and> (\<forall>h \<in> attached s. hook_fits h (hooks s h)) \<and>
     inj_on (\<lambda>h. hook_key (hooks s h)) (attached s - {TIMER_HOOK})"

definition irq_ok :: "kernel \<Rightarrow> bool" where
  "irq_ok k \<longleftrightarrow> irqs_fine (irqs k)"

lemma irq_list_eqI:
  assumes "irq_list s i hs" "hooks s' = hooks s" "irq_handlers s' i = irq_handlers s i"
    "irq_actids s' i = irq_actids s i" "irq_masked s' i = irq_masked s i"
  shows "irq_list s' i hs"
proof -
  have "next_hook s' = next_hook s" using assms(2) by (auto simp: next_hook_def)
  then show ?thesis using assms by (simp add: irq_list_def)
qed

lemma irq_lists_length:
  assumes "irq_lists A s IL" "irq_line i"
  shows "length (IL i) < 32"
proof -
  have "distinct (IL i)" using assms by (auto simp: irq_lists_def irq_list_def intro: chain_distinct)
  then have "length (IL i) = card (set (IL i))" by (simp add: distinct_card)
  also have "\<dots> \<le> card {..TIMER_HOOK}" using assms by (intro card_mono) (auto simp: irq_lists_def)
  finally show ?thesis by (simp add: TIMER_HOOK_def)
qed

text \<open>A change of line \<open>irq\<close> that leaves it with the hooks \<open>hs'\<close>, and the hooks of other lines alone.\<close>

lemma irq_lists_change:
  assumes L: "irq_lists A s IL" and l: "irq_list s' irq hs'" and f: "line_frame irq (B \<union> set hs') s s'"
    and B: "\<forall>h \<in> B. h \<in> A \<longrightarrow> hook_irq (hooks s h) = irq" and A': "A' = {h \<in> A. hook_irq (hooks s h) \<noteq> irq} \<union> set hs'"
    and n: "\<forall>h \<in> set hs'. h \<le> TIMER_HOOK \<and> (h \<in> A \<longrightarrow> hook_irq (hooks s h) = irq)" and irq: "irq_line irq"
  shows "irq_lists A' s' (IL(irq := hs'))"
proof -
  have same: "hooks s' h = hooks s h" if "h \<in> A" "hook_irq (hooks s h) \<noteq> irq" for h
    using f B n that unfolding line_frame_def by blast
  have new: "hook_irq (hooks s' h) = irq" if "h \<in> set hs'" for h using l that by (simp add: irq_list_def)
  have other: "irq_list s' i (IL i) \<and> set (IL i) = {h \<in> A'. hook_irq (hooks s' h) = i}" if i: "irq_line i" "i \<noteq> irq" for i
  proof
    have Li: "irq_list s i (IL i)" "set (IL i) = {h \<in> A. hook_irq (hooks s h) = i}" using L i(1) by (simp_all add: irq_lists_def)
    have "set (IL i) \<inter> (B \<union> set hs') = {}" using Li(2) B n i(2) by auto
    then show "irq_list s' i (IL i)" by (rule irq_list_frame [OF Li(1) f i(2)])
    show "set (IL i) = {h \<in> A'. hook_irq (hooks s' h) = i}" unfolding Li(2) A' using same new i(2) by auto
  qed
  have "hook_irq (hooks s' h) \<noteq> irq" if "h \<in> A" "hook_irq (hooks s h) \<noteq> irq" for h by (simp only: same [OF that] that not_False_eq_True)
  then have "set hs' = {h \<in> A'. hook_irq (hooks s' h) = irq}" unfolding A' using new by blast
  moreover have "h \<le> TIMER_HOOK \<and> irq_line (hook_irq (hooks s' h))" if "h \<in> A'" for h
    using that same new n irq L unfolding A' irq_lists_def by auto
  ultimately show ?thesis using other l irq by (auto simp: irq_lists_def)
qed

lemma attach_hook:
  assumes L: "irq_lists A s IL" and irq: "irq_line irq" and h: "h \<notin> A" "h \<le> TIMER_HOOK"
  shows "\<exists>s'. put_irq_handler h irq fn s = Some s' \<and> irq_lists (insert h A) s' (IL(irq := IL irq @ [h])) \<and>
    (\<forall>g. g \<noteq> h \<longrightarrow> unlinked (hooks s' g) = unlinked (hooks s g)) \<and>
    (\<exists>i. unlinked (hooks s' h) = unlinked ((hooks s h)\<lparr>hook_handler := fn, hook_irq := irq, hook_id := i\<rparr>))"
proof -
  have l: "irq_list s irq (IL irq)" "set (IL irq) = {h \<in> A. hook_irq (hooks s h) = irq}"
    using L irq by (simp_all add: irq_lists_def)
  then have "h \<notin> set (IL irq)" using h by simp
  from put_irq_handler_result [OF l(1) irq this irq_lists_length [OF L irq], of fn] obtain s' where
    s': "put_irq_handler h irq fn s = Some s'" "irq_list s' irq (IL irq @ [h])"
      "line_frame irq (insert h (set (IL irq))) s s'" "\<forall>g. g \<noteq> h \<longrightarrow> unlinked (hooks s' g) = unlinked (hooks s g)"
      "\<exists>i. unlinked (hooks s' h) = unlinked ((hooks s h)\<lparr>hook_handler := fn, hook_irq := irq, hook_id := i\<rparr>)"
    by blast
  have "irq_lists (insert h A) s' (IL(irq := IL irq @ [h]))"
    by (rule irq_lists_change [OF L s'(2), where B = "{}"]) (use s'(3) l(2) h irq L in \<open>auto simp: irq_lists_def\<close>)
  then show ?thesis using s' by blast
qed

lemma detach_hook:
  assumes L: "irq_lists A s IL" and h: "h \<in> A"
  defines "irq \<equiv> hook_irq (hooks s h)"
  shows "\<exists>s'. rm_irq_handler h s = Some s' \<and> irq_lists (A - {h}) s' (IL(irq := remove1 h (IL irq))) \<and>
    (\<forall>g. unlinked (hooks s' g) = unlinked (hooks s g))"
proof -
  have irq: "irq_line irq" using L h by (simp add: irq_lists_def irq_def)
  have l: "irq_list s irq (IL irq)" "set (IL irq) = {h \<in> A. hook_irq (hooks s h) = irq}"
    using L irq by (simp_all add: irq_lists_def)
  then have hin: "h \<in> set (IL irq)" using h by (simp add: irq_def)
  have d: "distinct (IL irq)" using l(1) by (auto simp: irq_list_def intro: chain_distinct)
  from rm_irq_handler_result [OF l(1) irq hin] obtain s' where
    s': "rm_irq_handler h s = Some s'" "irq_list s' irq (remove1 h (IL irq))" "line_frame irq (set (IL irq)) s s'"
      "\<forall>g. unlinked (hooks s' g) = unlinked (hooks s g)" by blast
  have r: "set (remove1 h (IL irq)) = set (IL irq) - {h}" using d by simp
  have "line_frame irq (set (IL irq) \<union> set (remove1 h (IL irq))) s s'" using s'(3) by (auto simp: line_frame_def)
  then have "irq_lists (A - {h}) s' (IL(irq := remove1 h (IL irq)))"
    by (rule irq_lists_change [OF L s'(2)]) (use r l(2) irq L in \<open>auto simp: irq_lists_def irq_def\<close>)
  then show ?thesis using s' by blast
qed

text \<open>A change of the active identifiers and of the mask of a line alone.\<close>

lemma irq_lists_acts:
  assumes L: "irq_lists A s IL" and irq: "irq_line irq" and ne: "IL irq \<noteq> []"
    and s': "hooks s' = hooks s" "irq_handlers s' = irq_handlers s"
    and o: "\<And>i. i \<noteq> irq \<Longrightarrow> irq_actids s' i = irq_actids s i \<and> irq_masked s' i = irq_masked s i"
    and a: "\<And>n. bit (irq_actids s' irq) n \<Longrightarrow> \<exists>h \<in> set (IL irq). bit (ident s h) n"
    and m: "irq_masked s' irq = (irq_actids s' irq \<noteq> 0)"
  shows "irq_lists A s' IL"
proof -
  have nx: "next_hook s' = next_hook s" using s'(1) by (auto simp: next_hook_def)
  have "irq_list s' i (IL i)" if i: "irq_line i" for i
  proof (cases "i = irq")
    case True
    have "irq_list s irq (IL irq)" using L irq by (simp add: irq_lists_def)
    then show ?thesis using True ne a m by (simp add: irq_list_def s' nx)
  next
    case False
    have "irq_list s i (IL i)" using L i by (simp add: irq_lists_def)
    then show ?thesis using o [OF False] by (simp add: irq_list_def s' nx)
  qed
  then show ?thesis using L by (simp add: irq_lists_def s')
qed

section \<open>The registry of interrupts\<close>

text \<open>
  What the hooks amount to for the drivers: for each driver and identifier the line and the policy of the hook.
\<close>

definition registry :: "irq_state \<Rightarrow> int \<times> 32 word \<Rightarrow> (int \<times> 32 word) option" where
  "registry s key =
     (if fst key = NONE then None
      else map_option (\<lambda>h. (hook_irq (hooks s h), hook_policy (hooks s h)))
             (List.find (\<lambda>h. hook_key (hooks s h) = key) [0..<NR_IRQ_HOOKS]))"

lemma attached_below: "h < NR_IRQ_HOOKS \<Longrightarrow> h \<in> attached s \<longleftrightarrow> hook_proc_nr_e (hooks s h) \<noteq> NONE"
  by (auto simp: attached_def TIMER_HOOK_def NR_IRQ_HOOKS_def)

lemma below_not_timer [simp]: "h < NR_IRQ_HOOKS \<Longrightarrow> h \<noteq> TIMER_HOOK" "h < NR_IRQ_HOOKS \<Longrightarrow> h \<le> TIMER_HOOK"
  by (auto simp: TIMER_HOOK_def NR_IRQ_HOOKS_def)

lemma timer_attached [simp]: "TIMER_HOOK \<in> attached s"
  by (simp add: attached_def)

lemma attached_cases: "h \<in> attached s \<Longrightarrow> h = TIMER_HOOK \<or> h < NR_IRQ_HOOKS"
  by (auto simp: attached_def)

lemma hook_key_unique:
  assumes "irqs_fine s" "g < NR_IRQ_HOOKS" "h < NR_IRQ_HOOKS" "hook_proc_nr_e (hooks s g) \<noteq> NONE"
    "hook_key (hooks s g) = hook_key (hooks s h)"
  shows "g = h"
proof -
  have "g \<in> attached s - {TIMER_HOOK}" "h \<in> attached s - {TIMER_HOOK}"
    using assms(2-5) by (auto simp: attached_below hook_key_def)
  with assms(1,5) show ?thesis by (auto simp: irqs_fine_def dest: inj_onD)
qed

lemma find_Some_upt: "List.find P [0..<n] = Some i \<Longrightarrow> i < n \<and> P i"
  by (auto simp: find_Some_iff)

lemma find_None_upt: "List.find P [0..<n] = None \<longleftrightarrow> (\<forall>i < n. \<not> P i)"
  by (auto simp: find_None_iff)

lemma registry_Some:
  assumes "irqs_fine s"
  shows "registry s key = Some v \<longleftrightarrow> fst key \<noteq> NONE \<and>
    (\<exists>h < NR_IRQ_HOOKS. hook_key (hooks s h) = key \<and> v = (hook_irq (hooks s h), hook_policy (hooks s h)))"
proof (cases "List.find (\<lambda>h. hook_key (hooks s h) = key) [0..<NR_IRQ_HOOKS]")
  case None
  then have "registry s key = None" "\<forall>h < NR_IRQ_HOOKS. hook_key (hooks s h) \<noteq> key"
    by (simp_all add: registry_def) (simp add: find_None_upt)
  then show ?thesis by auto
next
  case (Some i)
  have i: "i < NR_IRQ_HOOKS" "hook_key (hooks s i) = key" using find_Some_upt [OF Some] by simp_all
  have "h = i" if "h < NR_IRQ_HOOKS" "hook_key (hooks s h) = key" "fst key \<noteq> NONE" for h
    by (rule hook_key_unique [OF assms that(1) i(1)]) (use that i in \<open>auto simp: hook_key_def\<close>)
  then have only: "fst key \<noteq> NONE \<Longrightarrow> h < NR_IRQ_HOOKS \<and> hook_key (hooks s h) = key \<longleftrightarrow> h = i" for h using i by blast
  have "registry s key = (if fst key = NONE then None else Some (hook_irq (hooks s i), hook_policy (hooks s i)))"
    by (simp add: registry_def Some)
  then have "registry s key = Some v \<longleftrightarrow> fst key \<noteq> NONE \<and> v = (hook_irq (hooks s i), hook_policy (hooks s i))"
    by (auto split: if_split)
  then show ?thesis using only by metis
qed

lemma registry_None:
  assumes "irqs_fine s"
  shows "registry s key = None \<longleftrightarrow> fst key = NONE \<or> (\<forall>h < NR_IRQ_HOOKS. hook_key (hooks s h) \<noteq> key)"
  using registry_Some [OF assms, of key] by (metis not_Some_eq surj_pair)

text \<open>The hooks of two states agree but for their links, identifiers and one hook.\<close>

definition hooks_agree :: "nat \<Rightarrow> irq_state \<Rightarrow> irq_state \<Rightarrow> bool" where
  "hooks_agree i s s' \<longleftrightarrow> (\<forall>g. g \<noteq> i \<longrightarrow> unlinked (hooks s' g) = unlinked (hooks s g))"

lemma hooks_agreeD:
  assumes "hooks_agree i s s'" "g \<noteq> i"
  shows "hook_key (hooks s' g) = hook_key (hooks s g)" "hook_irq (hooks s' g) = hook_irq (hooks s g)"
    "hook_policy (hooks s' g) = hook_policy (hooks s g)" "hook_fits g (hooks s' g) = hook_fits g (hooks s g)"
    "hook_proc_nr_e (hooks s' g) = hook_proc_nr_e (hooks s g)"
proof -
  have u: "unlinked (hooks s' g) = unlinked (hooks s g)" using assms by (simp add: hooks_agree_def)
  note d = unlinkedD [OF u]
  show "hook_key (hooks s' g) = hook_key (hooks s g)" "hook_irq (hooks s' g) = hook_irq (hooks s g)"
    "hook_policy (hooks s' g) = hook_policy (hooks s g)" "hook_fits g (hooks s' g) = hook_fits g (hooks s g)"
    "hook_proc_nr_e (hooks s' g) = hook_proc_nr_e (hooks s g)"
    using d by (auto simp: hook_key_def hook_fits_def)
qed

lemma registry_other:
  assumes fine: "irqs_fine s" "irqs_fine s'" and a: "hooks_agree i s s'"
    and "fst key = NONE \<or> hook_key (hooks s i) \<noteq> key" "fst key = NONE \<or> hook_key (hooks s' i) \<noteq> key"
  shows "registry s' key = registry s key"
proof -
  let ?at = "\<lambda>s h. (hook_key (hooks s h), hook_irq (hooks s h), hook_policy (hooks s h))"
  have at: "?at s' h = ?at s h" if "h \<noteq> i" for h using hooks_agreeD(1-3) [OF a that] by simp
  have "registry s' key = Some v \<longleftrightarrow> registry s key = Some v" for v
    unfolding registry_Some [OF fine(1)] registry_Some [OF fine(2)] using assms(4,5) at by (metis prod.inject)
  then show ?thesis by (metis not_Some_eq)
qed

lemma registry_attach:
  assumes fine: "irqs_fine s" "irqs_fine s'" and a: "hooks_agree i s s'" and i: "i < NR_IRQ_HOOKS"
    and e: "hook_proc_nr_e (hooks s' i) \<noteq> NONE"
    and old: "hook_key (hooks s i) = hook_key (hooks s' i) \<or> hook_proc_nr_e (hooks s i) = NONE"
  shows "registry s' = (registry s)(hook_key (hooks s' i) \<mapsto> (hook_irq (hooks s' i), hook_policy (hooks s' i)))"
proof (rule ext)
  fix key
  let ?r = "\<lambda>s h. (hook_irq (hooks s h), hook_policy (hooks s h))"
  show "registry s' key = ((registry s)(hook_key (hooks s' i) \<mapsto> ?r s' i)) key"
  proof (cases "key = hook_key (hooks s' i)")
    case True
    then have "registry s' key = Some (?r s' i)" using registry_Some [OF fine(2)] i e by (auto simp: hook_key_def)
    then show ?thesis using True by simp
  next
    case False
    have "registry s' key = registry s key" by (rule registry_other [OF fine a]) (use False old in \<open>auto simp: hook_key_def\<close>)
    then show ?thesis using False by simp
  qed
qed

lemma registry_detach:
  assumes fine: "irqs_fine s" "irqs_fine s'" and a: "hooks_agree i s s'" and i: "i < NR_IRQ_HOOKS"
    and e: "hook_proc_nr_e (hooks s' i) = NONE" "hook_proc_nr_e (hooks s i) \<noteq> NONE"
  shows "registry s' = (registry s)(hook_key (hooks s i) := None)"
proof (rule ext)
  fix key
  show "registry s' key = ((registry s)(hook_key (hooks s i) := None)) key"
  proof (cases "key = hook_key (hooks s i)")
    case True
    have "hook_key (hooks s' h) \<noteq> key" if h: "h < NR_IRQ_HOOKS" for h
    proof (cases "h = i")
      case False
      show ?thesis using hook_key_unique [OF fine(1) i h e(2)] False True hooks_agreeD(1) [OF a False] by auto
    qed (use e True in \<open>auto simp: hook_key_def\<close>)
    then show ?thesis using True registry_None [OF fine(2)] by simp
  next
    case False
    have "registry s' key = registry s key" by (rule registry_other [OF fine a]) (use False e in \<open>auto simp: hook_key_def\<close>)
    then show ?thesis using False by simp
  qed
qed

section \<open>Requests of drivers\<close>

lemma toggle_fine:
  assumes fine: "irqs_fine s" and h: "h \<in> attached s"
    and s': "hooks s' = hooks s" "irq_handlers s' = irq_handlers s"
    and o: "\<And>i. i \<noteq> hook_irq (hooks s h) \<Longrightarrow> irq_actids s' i = irq_actids s i \<and> irq_masked s' i = irq_masked s i"
    and a: "\<And>n. bit (irq_actids s' (hook_irq (hooks s h))) n \<Longrightarrow>
      bit (irq_actids s (hook_irq (hooks s h))) n \<or> bit (ident s h) n"
    and m: "irq_masked s' (hook_irq (hooks s h)) = (irq_actids s' (hook_irq (hooks s h)) \<noteq> 0)"
  shows "irqs_fine s'"
proof -
  obtain IL where L: "irq_lists (attached s) s IL" using fine by (auto simp: irqs_fine_def)
  define irq where "irq = hook_irq (hooks s h)"
  have irq: "irq_line irq" using L h by (simp add: irq_lists_def irq_def)
  have l: "irq_list s irq (IL irq)" "h \<in> set (IL irq)" using L irq h by (simp_all add: irq_lists_def irq_def)
  have "\<exists>g \<in> set (IL irq). bit (ident s g) n" if "bit (irq_actids s' irq) n" for n
    using a [of n] that l unfolding irq_list_def irq_def by blast
  then have "irq_lists (attached s) s' IL"
    using l(2) o m by (intro irq_lists_acts [OF L irq _ s']) (auto simp: irq_def)
  moreover have "attached s' = attached s" by (simp add: attached_def s')
  ultimately show ?thesis using fine by (auto simp: irqs_fine_def s')
qed

lemma attached_line:
  assumes "irqs_fine s" "h \<in> attached s"
  shows "irq_line (hook_irq (hooks s h))" "one_bit (ident s h)"
    "irq_masked s (hook_irq (hooks s h)) = (irq_actids s (hook_irq (hooks s h)) \<noteq> 0)"
proof -
  obtain IL where L: "irq_lists (attached s) s IL" using assms by (auto simp: irqs_fine_def)
  show i: "irq_line (hook_irq (hooks s h))" using L assms(2) by (simp add: irq_lists_def)
  then have l: "irq_list s (hook_irq (hooks s h)) (IL (hook_irq (hooks s h)))" "h \<in> set (IL (hook_irq (hooks s h)))"
    using L assms(2) by (simp_all add: irq_lists_def)
  have ne: "IL (hook_irq (hooks s h)) \<noteq> []" using l(2) by (metis empty_iff empty_set)
  show "one_bit (ident s h)" using l unfolding irq_list_def by blast
  show "irq_masked s (hook_irq (hooks s h)) = (irq_actids s (hook_irq (hooks s h)) \<noteq> 0)"
    using l(1) ne unfolding irq_list_def by blast
qed

text \<open>A line is open exactly when none of its hooks is waiting for its driver.\<close>

lemma enable_irq_result:
  assumes "irqs_fine s" "h \<in> attached s"
  shows "irqs_fine (enable_irq h s)" "hooks (enable_irq h s) = hooks s"
    "\<not> has (irq_actids (enable_irq h s) (hook_irq (hooks s h))) (ident s h)"
proof -
  note m = attached_line(3) [OF assms]
  show "irqs_fine (enable_irq h s)"
    by (rule toggle_fine [OF assms]) (use m in \<open>auto simp: enable_irq_def Let_def bit_simps split: if_splits\<close>)
  show "hooks (enable_irq h s) = hooks s" "\<not> has (irq_actids (enable_irq h s) (hook_irq (hooks s h))) (ident s h)"
    by (simp_all add: enable_irq_def Let_def)
qed

lemma disable_irq_result:
  assumes "irqs_fine s" "h \<in> attached s"
  shows "irqs_fine (snd (disable_irq h s))" "hooks (snd (disable_irq h s)) = hooks s"
    "irq_masked (snd (disable_irq h s)) (hook_irq (hooks s h))"
    "fst (disable_irq h s) = (\<not> has (irq_actids s (hook_irq (hooks s h))) (ident s h))"
proof -
  note m = attached_line(3) [OF assms] one_bit_nonzero [OF attached_line(2) [OF assms]]
  show "irqs_fine (snd (disable_irq h s))"
    by (rule toggle_fine [OF assms]) (use m in \<open>auto simp: disable_irq_def Let_def bit_simps split: if_splits\<close>)
  show "irq_masked (snd (disable_irq h s)) (hook_irq (hooks s h))"
    using m by (auto simp: disable_irq_def Let_def has_def)
qed (auto simp: disable_irq_def Let_def)

lemma upd_hook_lists:
  assumes "irq_lists A s IL" "h \<notin> A"
  shows "irq_lists A (upd_hook h f s) IL"
proof -
  have "irq_list (upd_hook h f s) i (IL i)" if "irq_line i" for i
  proof -
    have l: "irq_list s i (IL i)" "h \<notin> set (IL i)" using assms that by (simp_all add: irq_lists_def)
    have "line_frame (i + 1) {h} s (upd_hook h f s)" by (simp add: line_frame_def)
    from irq_list_frame [OF l(1) this] l(2) show ?thesis by simp
  qed
  moreover have "hooks (upd_hook h f s) g = hooks s g" if "g \<in> A" for g using assms(2) that by auto
  ultimately show ?thesis using assms by (auto simp: irq_lists_def)
qed

lemma rm_policy_result:
  assumes fine: "irqs_fine s" and h: "h < NR_IRQ_HOOKS" "hook_proc_nr_e (hooks s h) \<noteq> NONE"
  shows "\<exists>s1. rm_irq_handler h s = Some s1 \<and> irqs_fine (upd_hook h (\<lambda>r. r\<lparr>hook_proc_nr_e := NONE\<rparr>) s1) \<and>
    (\<exists>IL. irq_lists (attached s - {h}) s1 IL) \<and> (\<forall>g. unlinked (hooks s1 g) = unlinked (hooks s g))"
proof -
  obtain IL where L: "irq_lists (attached s) s IL" using fine by (auto simp: irqs_fine_def)
  have hA: "h \<in> attached s" using h by (simp add: attached_below)
  obtain s1 where s1: "rm_irq_handler h s = Some s1" "\<exists>IL. irq_lists (attached s - {h}) s1 IL"
      "\<And>g. unlinked (hooks s1 g) = unlinked (hooks s g)"
    using detach_hook [OF L hA] by blast
  define s2 where "s2 = upd_hook h (\<lambda>r. r\<lparr>hook_proc_nr_e := NONE\<rparr>) s1"
  have a: "hooks_agree h s s2" using s1(3) by (simp add: hooks_agree_def s2_def)
  have A: "attached s2 = attached s - {h}"
    using hooks_agreeD(5) [OF a] h h(1) unfolding attached_def by (auto simp: s2_def dest: below_not_timer(1))
  have "\<exists>IL. irq_lists (attached s - {h}) s2 IL"
    using s1(2) upd_hook_lists [of "attached s - {h}" s1 _ h] unfolding s2_def by blast
  then have "\<exists>IL. irq_lists (attached s2) s2 IL" unfolding A .
  moreover have "hook_fits g (hooks s2 g)" if "g \<in> attached s2" for g
    using that fine hooks_agreeD(4) [OF a, of g] unfolding A irqs_fine_def by blast
  moreover have "inj_on (\<lambda>h. hook_key (hooks s2 h)) (attached s2 - {TIMER_HOOK})"
  proof -
    have "inj_on (\<lambda>h. hook_key (hooks s h)) (attached s2 - {TIMER_HOOK})"
      by (rule inj_on_subset [of _ "attached s - {TIMER_HOOK}"]) (use fine A in \<open>auto simp: irqs_fine_def\<close>)
    moreover have "hook_key (hooks s2 g) = hook_key (hooks s g)" if "g \<in> attached s2 - {TIMER_HOOK}" for g
      using that hooks_agreeD(1) [OF a] A by blast
    ultimately show ?thesis by (simp add: inj_on_def)
  qed
  ultimately have "irqs_fine s2" by (simp add: irqs_fine_def)
  then show ?thesis using s1 by (auto simp: s2_def)
qed

text \<open>The hook that is found is detached from its line; only hooks attached before stay.\<close>

lemma find_hook_result:
  assumes fine: "irqs_fine s" and e: "e \<noteq> NONE"
  obtains (full) "find_hook e n s = Some None" "\<forall>h < NR_IRQ_HOOKS. hook_proc_nr_e (hooks s h) \<noteq> NONE \<and> hook_key (hooks s h) \<noteq> (e, n)"
  | (found) i s1 where "find_hook e n s = Some (Some (i, s1))" "i < NR_IRQ_HOOKS" "\<exists>IL. irq_lists (attached s - {i}) s1 IL"
      "\<And>g. unlinked (hooks s1 g) = unlinked (hooks s g)"
      "hook_key (hooks s i) = (e, n) \<or> hook_proc_nr_e (hooks s i) = NONE \<and> (\<forall>h < NR_IRQ_HOOKS. hook_key (hooks s h) \<noteq> (e, n))"
proof (cases "List.find (\<lambda>i. hook_proc_nr_e (hooks s i) = e \<and> hook_notify_id (hooks s i) = n) [0..<NR_IRQ_HOOKS]")
  case (Some i)
  then have i: "i < NR_IRQ_HOOKS" "hook_proc_nr_e (hooks s i) = e" "hook_notify_id (hooks s i) = n"
    using find_Some_upt [OF Some] by simp_all
  obtain s1 where s1: "rm_irq_handler i s = Some s1" "\<exists>IL. irq_lists (attached s - {i}) s1 IL"
      "\<And>g. unlinked (hooks s1 g) = unlinked (hooks s g)"
    using rm_policy_result [OF fine i(1)] i(2) e by blast
  show thesis
    by (rule found [of i s1]) (use Some i s1 in \<open>simp_all add: find_hook_def hook_key_def\<close>)
next
  case None
  then have no: "\<forall>h < NR_IRQ_HOOKS. hook_key (hooks s h) \<noteq> (e, n)" by (simp add: find_None_upt hook_key_def)
  show thesis
  proof (cases "List.find (\<lambda>i. hook_proc_nr_e (hooks s i) = NONE) [0..<NR_IRQ_HOOKS]")
    case free: None
    have "find_hook e n s = Some None" using None free by (simp add: find_hook_def)
    moreover have "\<forall>h < NR_IRQ_HOOKS. hook_proc_nr_e (hooks s h) \<noteq> NONE" using free by (simp add: find_None_upt)
    ultimately show thesis using full no by blast
  next
    case (Some i)
    have i: "i < NR_IRQ_HOOKS" "hook_proc_nr_e (hooks s i) = NONE" using find_Some_upt [OF Some] by simp_all
    then have "attached s - {i} = attached s" using attached_below [of i s] by simp
    then have "\<exists>IL. irq_lists (attached s - {i}) s IL" using fine by (simp add: irqs_fine_def)
    moreover have "find_hook e n s = Some (Some (i, s))" using None Some by (simp add: find_hook_def)
    ultimately show thesis using found [of i s] i no by blast
  qed
qed

lemma install_hook:
  fixes p :: "32 word"
  assumes fine: "irqs_fine s" and e: "e \<noteq> NONE" and irq: "irq_line irq" and i: "i < NR_IRQ_HOOKS"
    and L: "\<exists>IL. irq_lists (attached s - {i}) s1 IL" and u: "\<And>g. unlinked (hooks s1 g) = unlinked (hooks s g)"
    and old: "hook_key (hooks s i) = (e, n) \<or> hook_proc_nr_e (hooks s i) = NONE \<and> (\<forall>h < NR_IRQ_HOOKS. hook_key (hooks s h) \<noteq> (e, n))"
  defines "set_up \<equiv> (\<lambda>h. h\<lparr>hook_proc_nr_e := e, hook_notify_id := n, hook_policy := p\<rparr>)"
  shows "\<exists>s'. put_irq_handler i irq Generic_Handler (upd_hook i set_up s1) = Some s' \<and> irqs_fine s' \<and>
    registry s' = (registry s)((e, n) \<mapsto> (irq, p)) \<and> hook_key (hooks s' i) = (e, n) \<and>
    (\<forall>h \<in> attached s'. hook_proc_nr_e (hooks s' h) = e \<or> h \<in> attached s \<and> hook_key (hooks s' h) = hook_key (hooks s h))"
proof -
  define s2 where "s2 = upd_hook i set_up s1"
  obtain IL where IL: "irq_lists (attached s - {i}) s2 IL" using L upd_hook_lists unfolding s2_def by blast
  have "i \<notin> attached s - {i}" by simp
  from attach_hook [OF IL irq this below_not_timer(2) [OF i], of Generic_Handler] obtain s' j where
    s': "put_irq_handler i irq Generic_Handler s2 = Some s'" "\<exists>IL. irq_lists (insert i (attached s - {i})) s' IL"
      "\<And>g. g \<noteq> i \<Longrightarrow> unlinked (hooks s' g) = unlinked (hooks s2 g)"
      "unlinked (hooks s' i) = unlinked ((hooks s2 i)\<lparr>hook_handler := Generic_Handler, hook_irq := irq, hook_id := j\<rparr>)"
    by blast
  have a: "hooks_agree i s s'" using s'(3) u by (simp add: hooks_agree_def s2_def)
  have at: "hook_key (hooks s' i) = (e, n)" "hook_irq (hooks s' i) = irq" "hook_policy (hooks s' i) = p"
      "hook_proc_nr_e (hooks s' i) = e" "hook_handler (hooks s' i) = Generic_Handler"
    using unlinkedD [OF s'(4)] by (simp_all add: s2_def set_up_def hook_key_def)
  have pr: "hook_proc_nr_e (hooks s' g) = (if g = i then e else hook_proc_nr_e (hooks s g))" for g
    using hooks_agreeD(5) [OF a, of g] at(4) by simp
  have A: "attached s' = insert i (attached s - {i})"
    using i e unfolding attached_def pr by (auto dest: below_not_timer(1))
  have "\<exists>IL. irq_lists (attached s') s' IL" unfolding A by (rule s'(2))
  moreover have "hook_fits g (hooks s' g)" if "g \<in> attached s'" for g
  proof (cases "g = i")
    case True
    then show ?thesis using at(5) i by (simp add: hook_fits_def)
  next
    case False
    then show ?thesis using that fine hooks_agreeD(4) [OF a False] unfolding A irqs_fine_def by blast
  qed
  moreover have "inj_on (\<lambda>h. hook_key (hooks s' h)) (attached s' - {TIMER_HOOK})"
  proof (rule inj_onI)
    have other: "hook_key (hooks s' g) \<noteq> (e, n)" if "g \<in> attached s' - {TIMER_HOOK}" "g \<noteq> i" for g
    proof -
      have g: "g < NR_IRQ_HOOKS" "g \<in> attached s" using that attached_cases [of g s'] A by auto
      have "hook_key (hooks s g) \<noteq> (e, n)"
        using old hook_key_unique [OF fine g(1) i] that(2) g e by (auto simp: attached_below)
      then show ?thesis using hooks_agreeD(1) [OF a that(2)] by simp
    qed
    fix g h assume gh: "g \<in> attached s' - {TIMER_HOOK}" "h \<in> attached s' - {TIMER_HOOK}"
      "hook_key (hooks s' g) = hook_key (hooks s' h)"
    show "g = h"
    proof (cases "g = i \<or> h = i")
      case True
      then show ?thesis using gh other at(1) by metis
    next
      case False
      then have "g \<in> attached s - {TIMER_HOOK}" "h \<in> attached s - {TIMER_HOOK}"
        "hook_key (hooks s g) = hook_key (hooks s h)" using gh A hooks_agreeD(1) [OF a] by auto
      then show ?thesis using fine unfolding irqs_fine_def by (auto dest: inj_onD)
    qed
  qed
  ultimately have fine': "irqs_fine s'" by (simp add: irqs_fine_def)
  have "registry s' = (registry s)((e, n) \<mapsto> (irq, p))"
    using registry_attach [OF fine fine' a i] at e old by auto
  moreover have "\<forall>h \<in> attached s'. hook_proc_nr_e (hooks s' h) = e \<or> h \<in> attached s \<and> hook_key (hooks s' h) = hook_key (hooks s h)"
    using A at(4) hooks_agreeD(1) [OF a] by (metis Diff_iff insert_iff)
  ultimately show ?thesis using s'(1) fine' at(1) by (auto simp: s2_def)
qed

text \<open>Hooks stay where they are, change owner only to the caller, or are given up.\<close>

definition hooks_from :: "irq_state \<Rightarrow> int \<Rightarrow> irq_state \<Rightarrow> bool" where
  "hooks_from s e s' \<longleftrightarrow>
     (\<forall>h \<in> attached s'. hook_proc_nr_e (hooks s' h) = e \<or> h \<in> attached s \<and> hook_key (hooks s' h) = hook_key (hooks s h))"

lemma hooks_from_same: "hooks s' = hooks s \<Longrightarrow> hooks_from s e s'"
  by (simp add: hooks_from_def attached_def)

lemma hooks_from_refl [simp]: "hooks_from s e s"
  by (rule hooks_from_same) simp

lemma registry_hooks: "hooks s' = hooks s \<Longrightarrow> registry s' = registry s"
  by (rule ext) (simp add: registry_def)

lemma irq_setpolicy_result:
  assumes ok: "irqs_fine (irqs k)" and pr: "priv_of k c = Some pr" and e: "p_endpoint (procs k c) \<noteq> NONE"
    and v: "irq_line v" "may_use_irq pr v" "0 \<le> n" "n \<le> 31"
  defines "key \<equiv> (p_endpoint (procs k c), word_of_int n)"
  shows "(\<exists>i s. irq_setpolicy c v n p k = Some (OK, Some (int i + 1), k\<lparr>irqs := s\<rparr>) \<and> i < NR_IRQ_HOOKS \<and> irqs_fine s \<and>
      registry s = (registry (irqs k))(key \<mapsto> (v, p)) \<and> hook_key (hooks s i) = key \<and>
      hooks_from (irqs k) (p_endpoint (procs k c)) s) \<or>
    irq_setpolicy c v n p k = Some (ENOSPC, None, k) \<and> registry (irqs k) key = None \<and>
      (\<forall>h < NR_IRQ_HOOKS. hook_proc_nr_e (hooks (irqs k) h) \<noteq> NONE)"
proof -
  let ?e = "p_endpoint (procs k c)" and ?n = "word_of_int n :: 32 word"
  have n: "\<not> ?n > 31" using v(3,4) by (simp add: word_less_def uint_word_of_int)
  have v': "\<not> (v < 0 \<or> v \<ge> NR_IRQ_VECTORS)" using v(1) by (simp add: irq_line_def)
  from ok e show ?thesis
  proof (cases rule: find_hook_result [where n = ?n])
    case full
    then have "irq_setpolicy c v n p k = Some (ENOSPC, None, k)" using v' n pr v(2) by (simp add: irq_setpolicy_def Let_def)
    moreover have "registry (irqs k) key = None" using full(2) registry_None [OF ok] by (simp add: key_def)
    ultimately show ?thesis using full(2) by blast
  next
    case (found i s1)
    from install_hook [OF ok e v(1) found(2-5), of p] obtain s' where s':
      "put_irq_handler i v Generic_Handler (upd_hook i (\<lambda>h. h\<lparr>hook_proc_nr_e := ?e, hook_notify_id := ?n, hook_policy := p\<rparr>) s1)
        = Some s'" "irqs_fine s'" "registry s' = (registry (irqs k))((?e, ?n) \<mapsto> (v, p))" "hook_key (hooks s' i) = (?e, ?n)"
      "hooks_from (irqs k) ?e s'" unfolding hooks_from_def by blast
    have "irq_setpolicy c v n p k = Some (OK, Some (int i + 1), k\<lparr>irqs := s'\<rparr>)"
      using v' n pr v(2) found(1) s'(1) by (simp add: irq_setpolicy_def Let_def)
    then show ?thesis using s' found(2) unfolding key_def by blast
  qed
qed

lemma own_hook_Inr:
  assumes "own_hook c j k = Inr h"
  shows "h < NR_IRQ_HOOKS" "hook_proc_nr_e (hooks (irqs k) h) = p_endpoint (procs k c)"
    "hook_proc_nr_e (hooks (irqs k) h) \<noteq> NONE" "h \<in> attached (irqs k)"
proof -
  show *: "h < NR_IRQ_HOOKS" "hook_proc_nr_e (hooks (irqs k) h) = p_endpoint (procs k c)"
    "hook_proc_nr_e (hooks (irqs k) h) \<noteq> NONE"
    using assms by (auto simp: own_hook_def split: if_splits)
  show "h \<in> attached (irqs k)" using * by (simp add: attached_below)
qed

text \<open>Every request is answered, keeps the hooks in order, and concerns hooks of the caller only.\<close>

lemma do_irqctl_result:
  assumes ok: "irqs_fine (irqs k)" and e: "p_endpoint (procs k c) \<noteq> NONE"
  shows "\<exists>r x s. do_irqctl c q v p j k = Some (r, x, k\<lparr>irqs := s\<rparr>) \<and> irqs_fine s \<and>
    hooks_from (irqs k) (p_endpoint (procs k c)) s"
proof -
  let ?e = "p_endpoint (procs k c)"
  let ?P = "\<lambda>y. \<exists>r x s. y = Some (r, x, k\<lparr>irqs := s\<rparr>) \<and> irqs_fine s \<and> hooks_from (irqs k) ?e s"
  have same: "?P (Some (r, x, k))" for r x using ok by (intro exI [of _ r] exI [of _ x] exI [of _ "irqs k"]) simp
  consider (toggle) "q = IRQ_ENABLE \<or> q = IRQ_DISABLE" | (put) "q = IRQ_SETPOLICY" | (rm) "q = IRQ_RMPOLICY"
    | (bad) "q \<noteq> IRQ_ENABLE" "q \<noteq> IRQ_DISABLE" "q \<noteq> IRQ_SETPOLICY" "q \<noteq> IRQ_RMPOLICY" by blast
  then show ?thesis
  proof cases
    case toggle
    show ?thesis
    proof (cases "own_hook c (j - 1) k")
      case (Inl r)
      then show ?thesis using toggle same by (simp add: do_irqctl_def)
    next
      case (Inr h)
      let ?f = "if q = IRQ_ENABLE then enable_irq h else snd \<circ> disable_irq h"
      have "irqs_fine (?f (irqs k))" "hooks (?f (irqs k)) = hooks (irqs k)"
        using enable_irq_result(1,2) [OF ok own_hook_Inr(4) [OF Inr]] disable_irq_result(1,2) [OF ok own_hook_Inr(4) [OF Inr]]
        by simp_all
      moreover have "do_irqctl c q v p j k = Some (OK, None, k\<lparr>irqs := ?f (irqs k)\<rparr>)"
        using toggle Inr by (auto simp: do_irqctl_def set_irqs_def)
      ultimately show ?thesis using hooks_from_same by blast
    qed
  next
    case put
    have eq: "do_irqctl c q v p j k = irq_setpolicy c v j p k" using put by (simp add: do_irqctl_def IRQ_defs)
    show ?thesis
    proof (cases "irq_line v \<and> (\<exists>pr. priv_of k c = Some pr \<and> may_use_irq pr v) \<and> \<not> (word_of_int j :: 32 word) > 31")
      case False
      then have "\<exists>r. irq_setpolicy c v j p k = Some (r, None, k)"
        by (auto simp: irq_setpolicy_def irq_line_def Let_def split: option.split)
      then show ?thesis unfolding eq using same by auto
    next
      case True
      define n where "n = uint (word_of_int j :: 32 word)"
      have n: "0 \<le> n" "n \<le> 31" "(word_of_int n :: 32 word) = word_of_int j" using True by (simp_all add: n_def word_less_def)
      have "irq_setpolicy c v j p k = irq_setpolicy c v n p k" unfolding irq_setpolicy_def n(3) by (rule refl)
      then show ?thesis unfolding eq using irq_setpolicy_result [OF ok _ e _ _ n(1,2)] True same by fastforce
    qed
  next
    case rm
    show ?thesis
    proof (cases "own_hook c (j - 1) k")
      case (Inl r)
      then show ?thesis using rm same by (simp add: do_irqctl_def IRQ_defs)
    next
      case (Inr h)
      note h = own_hook_Inr [OF Inr]
      obtain s1 where s1: "rm_irq_handler h (irqs k) = Some s1"
          "irqs_fine (upd_hook h (\<lambda>r. r\<lparr>hook_proc_nr_e := NONE\<rparr>) s1)" "\<And>g. unlinked (hooks s1 g) = unlinked (hooks (irqs k) g)"
        using rm_policy_result [OF ok h(1,3)] by blast
      have "hooks_from (irqs k) ?e (upd_hook h (\<lambda>r. r\<lparr>hook_proc_nr_e := NONE\<rparr>) s1)"
        using unlinkedD(4,5) [OF s1(3)] h(1) by (auto simp: hooks_from_def attached_def hook_key_def dest: below_not_timer(1))
      moreover have "do_irqctl c q v p j k = Some (OK, None, k\<lparr>irqs := upd_hook h (\<lambda>r. r\<lparr>hook_proc_nr_e := NONE\<rparr>) s1\<rparr>)"
        using rm Inr s1(1) by (simp add: do_irqctl_def IRQ_defs)
      ultimately show ?thesis using s1(2) by blast
    qed
  qed (use same in \<open>simp add: do_irqctl_def\<close>)
qed

section \<open>Handlers\<close>

text \<open>
  What \<open>irq_handle\<close> relies on: a handler leaves the hooks alone, and its answer depends on its hook only. Then every
  hook of the line runs, once and in order, and those that answered no are the active ones afterwards.
\<close>

lemma set_irqs_sel [simp]:
  "irqs (set_irqs f k) = f (irqs k)" "procs (set_irqs f k) = procs k" "privs (set_irqs f k) = privs k"
  "clk (set_irqs f k) = clk k" "monotonic (set_irqs f k) = monotonic k" "proc_ptr (set_irqs f k) = proc_ptr k"
  "bill_ptr (set_irqs f k) = bill_ptr k" "idents (set_irqs f k) = idents k" "notified c (set_irqs f k) = notified c k"
  by (auto simp: set_irqs_def idents_def notified_def fun_eq_iff)

definition activate :: "int \<Rightarrow> nat \<Rightarrow> kernel \<Rightarrow> kernel" where
  "activate irq h = set_irqs (\<lambda>s. set_actids irq (irq_actids s irq OR ident s h) s)"

definition deactivate :: "int \<Rightarrow> nat \<Rightarrow> kernel \<Rightarrow> kernel" where
  "deactivate irq h = set_irqs (\<lambda>s. set_actids irq (irq_actids s irq AND NOT (ident s h)) s)"

locale irq_host =
  fixes run :: "nat \<Rightarrow> kernel \<Rightarrow> (bool \<times> kernel) option" and quick :: "irq_hook \<Rightarrow> bool"
  assumes run_irqs: "run h k = Some (b, k') \<Longrightarrow> irqs k' = irqs k"
    and run_answer: "run h k = Some (b, k') \<Longrightarrow> b = quick (hooks (irqs k) h)"
begin

fun run_hooks :: "int \<Rightarrow> nat list \<Rightarrow> kernel \<Rightarrow> kernel option" where
  "run_hooks irq [] k = Some k"
| "run_hooks irq (h # hs) k = do {
     (b, k1) \<leftarrow> run h (activate irq h k);
     run_hooks irq hs (if b then deactivate irq h k1 else k1)
   }"

lemma run_hooks_invariant:
  assumes "run_hooks irq hs k = Some k'" "P k" "\<And>f a. P a \<Longrightarrow> P (set_irqs f a)"
    and "\<And>h a b a'. run h a = Some (b, a') \<Longrightarrow> P a \<Longrightarrow> P a'"
  shows "P k'"
  using assms(1,2)
proof (induction hs arbitrary: k)
  case (Cons h hs)
  then obtain b k1 where r: "run h (activate irq h k) = Some (b, k1)"
      "run_hooks irq hs (if b then deactivate irq h k1 else k1) = Some k'"
    by (auto simp: bind_eq_Some_conv)
  have "P k1" using assms(4) [OF r(1)] assms(3) Cons.prems(2) by (simp add: activate_def)
  then show ?case using Cons.IH [OF r(2)] assms(3) by (simp add: deactivate_def)
qed simp

lemma run_hook_hooks:
  assumes "run h (activate irq h k) = Some (b, k1)"
  shows "hooks (irqs (if b then deactivate irq h k1 else k1)) = hooks (irqs k)"
    "irq_handlers (irqs (if b then deactivate irq h k1 else k1)) = irq_handlers (irqs k)"
    "irq_masked (irqs (if b then deactivate irq h k1 else k1)) = irq_masked (irqs k)"
    "irq_actids (irqs (if b then deactivate irq h k1 else k1)) = (irq_actids (irqs k))(irq :=
       if quick (hooks (irqs k) h) then (irq_actids (irqs k) irq OR ident (irqs k) h) AND NOT (ident (irqs k) h)
       else irq_actids (irqs k) irq OR ident (irqs k) h)"
  using run_irqs [OF assms] run_answer [OF assms] by (simp_all add: activate_def deactivate_def)

lemma handle_loop_runs:
  assumes "chain (next_hook (irqs k)) p hs" "\<forall>h \<in> set hs. hook_irq (hooks (irqs k) h) = irq"
  shows "handle_loop run irq p k = run_hooks irq hs k"
  using assms
proof (induction hs arbitrary: p k)
  case Nil
  then show ?case by (simp add: handle_loop.simps)
next
  case (Cons h hs)
  have p: "p = Some h" "hook_irq (hooks (irqs k) h) = irq" using Cons.prems by simp_all
  have loop: "handle_loop run irq (hook_next (hooks (irqs k3) h)) k3 = run_hooks irq hs k3"
    if "run h (activate irq h k) = Some (b, k1)" "k3 = (if b then deactivate irq h k1 else k1)" for b k1 k3
  proof -
    have hk: "hooks (irqs k3) = hooks (irqs k)" using run_hook_hooks(1) [OF that(1)] that(2) by simp
    then have nx: "next_hook (irqs k3) = next_hook (irqs k)" by (auto simp: next_hook_def)
    have "chain (next_hook (irqs k3)) (hook_next (hooks (irqs k3) h)) hs"
      using Cons.prems(1) unfolding nx hk by (simp add: next_hook_def [of _ h])
    then show ?thesis using Cons.IH Cons.prems(2) hk by simp
  qed
  show ?case
  proof (cases "run h (activate irq h k)")
    case None
    then show ?thesis using p by (simp add: handle_loop.simps [of run irq "Some h"] activate_def Let_def)
  next
    case (Some r)
    obtain b k1 where r: "r = (b, k1)" by (cases r)
    have i1: "hook_irq (hooks (irqs k1) h) = irq"
      using run_irqs [of h "activate irq h k" b k1] Some p(2) by (simp add: r activate_def)
    then have "handle_loop run irq (Some h) k =
        handle_loop run irq (hook_next (hooks (irqs (if b then deactivate irq h k1 else k1)) h)) (if b then deactivate irq h k1 else k1)"
      using Some [unfolded r activate_def]
      by (simp add: handle_loop.simps [of run irq "Some h"] Let_def deactivate_def set_irqs_def)
    then show ?thesis using loop [of b k1, OF _ refl] Some p(1) r by simp
  qed
qed

lemma run_hooks_irqs:
  assumes "run_hooks irq hs k = Some k'" "\<forall>h \<in> set hs. one_bit (ident (irqs k) h)" "distinct hs" "inj_on (ident (irqs k)) (set hs)"
  shows "hooks (irqs k') = hooks (irqs k) \<and> irq_handlers (irqs k') = irq_handlers (irqs k) \<and>
    irq_masked (irqs k') = irq_masked (irqs k) \<and> (\<forall>i. i \<noteq> irq \<longrightarrow> irq_actids (irqs k') i = irq_actids (irqs k) i) \<and>
    (\<forall>n. bit (irq_actids (irqs k') irq) n \<longleftrightarrow>
       (if \<exists>h \<in> set hs. bit (ident (irqs k) h) n then \<exists>h \<in> set hs. bit (ident (irqs k) h) n \<and> \<not> quick (hooks (irqs k) h)
        else bit (irq_actids (irqs k) irq) n))"
  using assms
proof (induction hs arbitrary: k)
  case Nil
  then show ?case by simp
next
  case (Cons h hs)
  obtain b k1 where r: "run h (activate irq h k) = Some (b, k1)"
      "run_hooks irq hs (if b then deactivate irq h k1 else k1) = Some k'"
    using Cons.prems(1) by (auto simp: bind_eq_Some_conv)
  define k2 where "k2 = (if b then deactivate irq h k1 else k1)"
  note s = run_hook_hooks [OF r(1), folded k2_def]
  have one: "\<not> bit (ident (irqs k) g) n" if "g \<in> set hs" "bit (ident (irqs k) h) n" for g n
    using that Cons.prems(2-4) one_bit_eq [of "ident (irqs k) g" "ident (irqs k) h" n] by (auto simp: inj_on_def)
  have a: "bit (irq_actids (irqs k2) irq) n = (if bit (ident (irqs k) h) n then \<not> quick (hooks (irqs k) h)
      else bit (irq_actids (irqs k) irq) n)" for n
    unfolding s(4) by (auto simp: bit_simps dest: bit_imp_le_length)
  have IH: "hooks (irqs k') = hooks (irqs k2) \<and> irq_handlers (irqs k') = irq_handlers (irqs k2) \<and>
    irq_masked (irqs k') = irq_masked (irqs k2) \<and> (\<forall>i. i \<noteq> irq \<longrightarrow> irq_actids (irqs k') i = irq_actids (irqs k2) i) \<and>
    (\<forall>n. bit (irq_actids (irqs k') irq) n \<longleftrightarrow>
       (if \<exists>h \<in> set hs. bit (ident (irqs k2) h) n then \<exists>h \<in> set hs. bit (ident (irqs k2) h) n \<and> \<not> quick (hooks (irqs k2) h)
        else bit (irq_actids (irqs k2) irq) n))"
    by (rule Cons.IH) (use r(2) Cons.prems in \<open>auto simp: s(1) simp flip: k2_def\<close>)
  have "bit (irq_actids (irqs k') irq) n \<longleftrightarrow>
       (if \<exists>g \<in> set (h # hs). bit (ident (irqs k) g) n
        then \<exists>g \<in> set (h # hs). bit (ident (irqs k) g) n \<and> \<not> quick (hooks (irqs k) g)
        else bit (irq_actids (irqs k) irq) n)" for n
    using IH one [of _ n] a [of n] unfolding s(1) by (cases "bit (ident (irqs k) h) n") auto
  then show ?case using IH by (simp add: s)
qed

end

definition reenables :: "irq_hook \<Rightarrow> bool" where
  "reenables r \<longleftrightarrow> hook_handler r = Timer_Int_Handler \<or> has (hook_policy r) IRQ_REENABLE"

lemma generic_handler_Some:
  assumes "generic_handler h k = Some (b, k')"
  obtains p i r where "isokendpt k (hook_proc_nr_e (hooks (irqs k) h)) = Some p" "p_priv (procs k p) = Some i"
    "mini_notify HARDWARE (hook_proc_nr_e (hooks (irqs k) h))
       (upd_priv i (\<lambda>pr. pr\<lparr>s_int_pending := insert (uint (hook_notify_id (hooks (irqs k) h))) (s_int_pending pr)\<rparr>) k) = Some (r, k')"
    "b = has (hook_policy (hooks (irqs k) h)) IRQ_REENABLE"
  using assms by (auto simp: generic_handler_def Let_def bind_eq_Some_conv)

lemma generic_handler_cur [cur]: "generic_handler h k = Some (b, k') \<Longrightarrow> outer k' = outer k"
  by (erule generic_handler_Some) (auto dest!: cur)

interpretation kernel_irqs: irq_host "run_handler lethal" reenables for lethal
proof unfold_locales
  fix h k b k'
  assume r: "run_handler lethal h k = Some (b, k')"
  show "irqs k' = irqs k"
    using r by (auto simp: run_handler_def split: irq_handler.splits dest: outerD(3) [OF generic_handler_cur] timer_int_handler_irqs)
  show "b = reenables (hooks (irqs k) h)"
    using r by (auto simp: run_handler_def reenables_def split: irq_handler.splits elim: generic_handler_Some)
qed

section \<open>An interrupt keeps the invariants\<close>

lemma kernel_ok_irqs [keeps]: "kernel_ok k \<Longrightarrow> kernel_ok (set_irqs f k)"
  unfolding set_irqs_def by (erule kernel_ok_cong; simp)

lemma clock_ok_irqs [simp]: "clock_ok (set_irqs f k) = clock_ok k"
  by (simp add: clock_ok_def clock_list_def get_timers_def)

lemma generic_handler_keeps:
  assumes "generic_handler h k = Some (b, k')"
  shows "kernel_ok k \<Longrightarrow> kernel_ok k'" "idents k' = idents k"
proof -
  obtain p i r where n: "mini_notify HARDWARE (hook_proc_nr_e (hooks (irqs k) h))
      (upd_priv i (\<lambda>pr. pr\<lparr>s_int_pending := insert (uint (hook_notify_id (hooks (irqs k) h))) (s_int_pending pr)\<rparr>) k) = Some (r, k')"
    using assms by (rule generic_handler_Some)
  show "kernel_ok k'" if "kernel_ok k" by (rule mini_notify_keeps [OF n]) (simp add: kernel_ok_upd_priv that)
  show "idents k' = idents k" using mini_notify_idents [OF n] by simp
qed

text \<open>What a handler keeps.\<close>

definition handler_frame :: "kernel \<Rightarrow> kernel \<Rightarrow> bool" where
  "handler_frame k k' \<longleftrightarrow> idents k' = idents k \<and> proc_ptr k' = proc_ptr k \<and> bill_ptr k' = bill_ptr k \<and>
     clock_sub k k' \<and> (clock_ok k \<and> kernel_ok k \<and> is_proc (bill_ptr k) \<longrightarrow> kernel_ok k')"

lemma run_handler_frame:
  assumes "run_handler lethal h k = Some (b, k')"
  shows "handler_frame k k'"
proof (cases "hook_handler (hooks (irqs k) h)")
  case Generic_Handler
  then have g: "generic_handler h k = Some (b, k')" using assms by (simp add: run_handler_def)
  note o = outerD [OF generic_handler_cur [OF g]]
  show ?thesis using generic_handler_keeps [OF g] o clock_sub_same [OF o(2)] by (simp add: handler_frame_def)
next
  case Timer_Int_Handler
  then have t: "timer_int_handler lethal k = Some k'" using assms by (auto simp: run_handler_def)
  obtain k4 where k4: "idents k4 = idents k" "proc_ptr k4 = proc_ptr k" "bill_ptr k4 = bill_ptr k" "expire k4 = Some k'"
    by (rule timer_int_handler_split [OF t]) blast
  have e: "idents k' = idents k4" "proc_ptr k' = proc_ptr k4" "bill_ptr k' = bill_ptr k4"
    by (rule expire_frame [OF k4(4)])+
  have "clock_sub k k'" unfolding clock_sub_def using timer_int_handler_result(1) [OF t] by fastforce
  then show ?thesis using timer_int_handler_result(9) [OF t] k4 e unfolding handler_frame_def clock_ok_def by auto
qed

lemma handler_frame_trans: "handler_frame a b \<Longrightarrow> handler_frame b c \<Longrightarrow> handler_frame a c"
  unfolding handler_frame_def by (metis clock_sub_ok clock_sub_trans)

lemma handler_frame_irqs [simp]: "handler_frame k (set_irqs f k)"
  by (simp add: handler_frame_def kernel_ok_irqs clock_sub_same)

lemma irq_handle_runs:
  assumes "irq_list (irqs k) irq hs" "irq_line irq"
  shows "irq_handle lethal irq k = do {
    k2 \<leftarrow> kernel_irqs.run_hooks lethal irq hs (set_irqs (hw_intr_mask irq) k);
    Some (if hs \<noteq> [] \<and> irq_actids (irqs k2) irq = 0 then set_irqs (hw_intr_unmask irq) k2 else k2)
  }"
proof -
  define k1 where "k1 = set_irqs (hw_intr_mask irq) k"
  have c: "chain (next_hook (irqs k1)) (irq_handlers (irqs k1) irq) hs"
      "\<forall>h \<in> set hs. hook_irq (hooks (irqs k1) h) = irq"
    using assms(1) by (simp_all add: k1_def irq_list_def)
  show ?thesis
  proof (cases hs)
    case Nil
    then show ?thesis using assms(2) c(1) by (simp add: irq_handle_def Let_def flip: k1_def)
  next
    case (Cons h gs)
    then have "irq_handlers (irqs k1) irq = Some h" using c(1) by simp
    then show ?thesis using assms(2) Cons kernel_irqs.handle_loop_runs [OF c, of lethal]
      by (simp add: irq_handle_def Let_def flip: k1_def)
  qed
qed

lemma irq_ok_line:
  assumes "irq_ok k" "irq_line irq"
  obtains IL where "irq_lists (attached (irqs k)) (irqs k) IL" "irq_list (irqs k) irq (IL irq)"
    "set (IL irq) = {h \<in> attached (irqs k). hook_irq (hooks (irqs k) h) = irq}"
  using assms by (auto simp: irq_ok_def irqs_fine_def irq_lists_def)

lemma irq_handle_frame:
  assumes "irq_handle lethal irq k = Some k'" "irq_ok k"
  shows "handler_frame k k'"
proof -
  have irq: "irq_line irq" using assms(1) by (simp add: irq_handle_def split: if_splits)
  obtain IL where l: "irq_list (irqs k) irq (IL irq)" by (rule irq_ok_line [OF assms(2) irq])
  obtain k2 where k2: "kernel_irqs.run_hooks lethal irq (IL irq) (set_irqs (hw_intr_mask irq) k) = Some k2"
      "k' = (if IL irq \<noteq> [] \<and> irq_actids (irqs k2) irq = 0 then set_irqs (hw_intr_unmask irq) k2 else k2)"
    using assms(1) irq_handle_runs [OF l irq] by (auto simp: bind_eq_Some_conv)
  have "handler_frame k k2"
    by (rule kernel_irqs.run_hooks_invariant [OF k2(1), where P = "handler_frame k"])
      (auto intro: handler_frame_trans run_handler_frame handler_frame_irqs)
  then show ?thesis unfolding k2(2) using handler_frame_trans handler_frame_irqs by simp
qed

text \<open>Afterwards a line that has hooks is masked if and only if one of them is still waiting for its driver.\<close>

lemma irq_handle_irqs:
  assumes "irq_handle lethal irq k = Some k'" "irq_ok k"
  defines "on_line \<equiv> {h \<in> attached (irqs k). hook_irq (hooks (irqs k) h) = irq}"
  shows "irq_ok k' \<and> hooks (irqs k') = hooks (irqs k) \<and>
    (irq_masked (irqs k') irq \<longleftrightarrow> on_line = {} \<or> (\<exists>h \<in> on_line. \<not> reenables (hooks (irqs k) h)))"
proof -
  have irq: "irq_line irq" using assms(1) by (simp add: irq_handle_def split: if_splits)
  obtain IL where L: "irq_lists (attached (irqs k)) (irqs k) IL" and l: "irq_list (irqs k) irq (IL irq)"
      and hs: "set (IL irq) = on_line"
    unfolding on_line_def by (rule irq_ok_line [OF assms(2) irq])
  define k1 where "k1 = set_irqs (hw_intr_mask irq) k"
  obtain k2 where k2: "kernel_irqs.run_hooks lethal irq (IL irq) k1 = Some k2"
      "k' = (if IL irq \<noteq> [] \<and> irq_actids (irqs k2) irq = 0 then set_irqs (hw_intr_unmask irq) k2 else k2)"
    using assms(1) irq_handle_runs [OF l irq] by (auto simp: bind_eq_Some_conv simp flip: k1_def)
  have d: "distinct (IL irq)" using l by (auto simp: irq_list_def intro: chain_distinct)
  have r: "hooks (irqs k2) = hooks (irqs k) \<and> irq_handlers (irqs k2) = irq_handlers (irqs k) \<and>
      irq_masked (irqs k2) = (irq_masked (irqs k))(irq := True) \<and> (\<forall>i. i \<noteq> irq \<longrightarrow> irq_actids (irqs k2) i = irq_actids (irqs k) i) \<and>
      (\<forall>n. bit (irq_actids (irqs k2) irq) n \<longleftrightarrow>
         (if \<exists>h \<in> set (IL irq). bit (ident (irqs k) h) n
          then \<exists>h \<in> set (IL irq). bit (ident (irqs k) h) n \<and> \<not> reenables (hooks (irqs k) h)
          else bit (irq_actids (irqs k) irq) n))"
    using kernel_irqs.run_hooks_irqs [OF k2(1) _ d] l by (simp add: k1_def irq_list_def)
  have acts: "bit (irq_actids (irqs k2) irq) n \<longleftrightarrow> (\<exists>h \<in> set (IL irq). bit (ident (irqs k) h) n \<and> \<not> reenables (hooks (irqs k) h))" for n
    using r l unfolding irq_list_def by meson
  have h': "hooks (irqs k') = hooks (irqs k)" "irq_handlers (irqs k') = irq_handlers (irqs k)"
    "irq_actids (irqs k') = irq_actids (irqs k2)" using r by (simp_all add: k2(2))
  have m: "irq_masked (irqs k') irq \<longleftrightarrow> IL irq = [] \<or> irq_actids (irqs k2) irq \<noteq> 0" using r by (simp add: k2(2))
  have "irq_actids (irqs k2) irq \<noteq> 0 \<longleftrightarrow> (\<exists>h \<in> on_line. \<not> reenables (hooks (irqs k) h))"
  proof -
    have "\<exists>n. bit (ident (irqs k) h) n" if "h \<in> set (IL irq)" for h
      using l that by (auto simp: irq_list_def one_bit_def bit_exp)
    then show ?thesis unfolding word_0_iff using acts hs by blast
  qed
  moreover have "irqs_fine (irqs k')"
  proof (cases "IL irq = []")
    case True
    then have k': "k' = k1" using k2 by simp
    have "irq_lists (attached (irqs k)) (irqs k1) IL"
    proof -
      have "irq_list (irqs k1) i (IL i)" if "irq_line i" for i
      proof (rule irq_list_eqI)
        show "irq_list (irqs k) i (IL i)" using L that by (simp add: irq_lists_def)
        show "irq_masked (irqs k1) i = irq_masked (irqs k) i" using l True by (simp add: k1_def irq_list_def)
      qed (simp_all add: k1_def)
      then show ?thesis using L by (simp add: irq_lists_def k1_def)
    qed
    then show ?thesis using assms(2) k' by (auto simp: irq_ok_def irqs_fine_def attached_def k1_def)
  next
    case False
    have "irq_lists (attached (irqs k)) (irqs k') IL"
    proof (rule irq_lists_acts [OF L irq False h'(1,2)])
      show "irq_actids (irqs k') i = irq_actids (irqs k) i \<and> irq_masked (irqs k') i = irq_masked (irqs k) i" if "i \<noteq> irq" for i
        using r that by (simp add: k2(2))
      show "\<exists>h \<in> set (IL irq). bit (ident (irqs k) h) n" if "bit (irq_actids (irqs k') irq) n" for n
        using that acts unfolding h'(3) by blast
      show "irq_masked (irqs k') irq = (irq_actids (irqs k') irq \<noteq> 0)" using m False unfolding h'(3) by simp
    qed
    moreover have "attached (irqs k') = attached (irqs k)" by (simp add: attached_def h'(1))
    ultimately show ?thesis using assms(2) h'(1) by (auto simp: irq_ok_def irqs_fine_def)
  qed
  moreover have "IL irq = [] \<longleftrightarrow> on_line = {}" using hs by auto
  ultimately show ?thesis using m h'(1) by (simp add: irq_ok_def)
qed

section \<open>Interrupts reach their drivers\<close>

text \<open>The process \<open>p\<close> has learnt of the interrupt it calls \<open>n\<close>, or will with its next receive.\<close>

definition told :: "kernel \<Rightarrow> int \<Rightarrow> int \<Rightarrow> bool" where
  "told k p n \<longleftrightarrow>
     has (misc k p) MF_DELIVERMSG \<and>
       (\<exists>t ints. p_delivermsg (procs k p) =
          \<lparr>m_source = p_endpoint (procs k HARDWARE), m_type = NOTIFY_MESSAGE, m_body = Notify_Payload t ints {}\<rparr> \<and> n \<in> ints) \<or>
     (\<exists>i j. p_priv (procs k p) = Some i \<and> p_priv (procs k HARDWARE) = Some j \<and>
        s_notify_pending (privs k i) (s_id (privs k j)) \<and> n \<in> s_int_pending (privs k i))"

lemma told_irqs [simp]: "told (set_irqs f k) = told k"
  by (simp add: told_def fun_eq_iff)

lemma mini_notify_tells:
  assumes "mini_notify HARDWARE e k = Some (r, k')" and q: "isokendpt k e = Some q" and i: "p_priv (procs k q) = Some i"
    and hw: "p_nr (procs k HARDWARE) = HARDWARE"
  shows "n \<in> s_int_pending (privs k i) \<Longrightarrow> told k' q n"
    and "told k p n \<Longrightarrow> p_priv (procs k p) = p_priv (procs k q) \<longrightarrow> p = q \<Longrightarrow> told k' p n"
proof -
  let ?e = "p_endpoint (procs k HARDWARE)"
  have both: "(n \<in> s_int_pending (privs k i) \<longrightarrow> told k' q n) \<and>
      (told k p n \<and> (p_priv (procs k p) = p_priv (procs k q) \<longrightarrow> p = q) \<longrightarrow> told k' p n)"
  proof (cases "WILLRECEIVE k q ?e \<and> \<not> has (misc k q) MF_REPLY_PEND")
    case True
    define k1 where "k1 = upd_priv i (\<lambda>pr. pr\<lparr>s_int_pending := {}\<rparr>) k"
    define m where "m = \<lparr>m_source = 0, m_type = NOTIFY_MESSAGE,
      m_body = Notify_Payload (monotonic k) (s_int_pending (privs k i)) {}\<rparr>"
    define k2 where "k2 = IPC_STATUS_ADD_CALL q NOTIFY (deliver q m ?e k1)"
    have u: "\<not> has (misc k q) MF_DELIVERMSG" "RTS_UNSET q RTS_RECEIVING k2 = Some k'"
      using assms(1) q True i by (auto simp: mini_notify_def BuildNotifyMessage_def hw Let_def bind_eq_Some_conv
          m_def k1_def k2_def split: if_splits)
    have cr: "cores k' = cores k2" by (rule RTS_UNSET_cores [OF u(2)]) simp
    note same = cores_sel [OF cr]
    have mq: "misc k' q = misc k q OR MF_DELIVERMSG" "p_delivermsg (procs k' q) = m\<lparr>m_source := ?e\<rparr>"
      by (simp_all add: same k2_def k1_def IPC_STATUS_ADD_CALL_def IPC_STATUS_ADD_def deliver_def set_misc_def)
    have rest: "misc k' p = misc k p" "p_delivermsg (procs k' p) = p_delivermsg (procs k p)" if "p \<noteq> q"
      using that by (simp_all add: same k2_def k1_def IPC_STATUS_ADD_CALL_def IPC_STATUS_ADD_def deliver_def set_misc_def)
    have al: "p_endpoint (procs k' x) = p_endpoint (procs k x)" "p_priv (procs k' x) = p_priv (procs k x)" for x
      by (simp_all add: same k2_def k1_def IPC_STATUS_ADD_CALL_def IPC_STATUS_ADD_def deliver_def set_misc_def)
    have pv: "privs k' = (privs k)(i := (privs k i)\<lparr>s_int_pending := {}\<rparr>)"
      by (simp add: same k2_def k1_def IPC_STATUS_ADD_CALL_def IPC_STATUS_ADD_def deliver_def set_misc_def)
    have hit: "told k' q n" if "n \<in> s_int_pending (privs k i)"
      using that mq al by (auto simp: told_def m_def)
    moreover have "told k' p n" if t: "told k p n" "p_priv (procs k p) = p_priv (procs k q) \<longrightarrow> p = q"
    proof (cases "p = q")
      case True
      then have "n \<in> s_int_pending (privs k i)" using t(1) u(1) i by (auto simp: told_def)
      then show ?thesis using hit True by simp
    next
      case False
      then have "p_priv (procs k p) \<noteq> Some i" using t(2) i by auto
      moreover have "s_id (privs k' j) = s_id (privs k j)" "x \<noteq> i \<Longrightarrow> privs k' x = privs k x" for j x by (simp_all add: pv)
      ultimately show ?thesis using t(1) unfolding told_def rest [OF False] al by metis
    qed
    ultimately show ?thesis by blast
  next
    case False
    then obtain j where j: "p_priv (procs k HARDWARE) = Some j"
        "k' = upd_priv i (\<lambda>pr. pr\<lparr>s_notify_pending := (s_notify_pending pr)(s_id (privs k j) := True)\<rparr>) k"
      using assms(1) q i by (auto simp: mini_notify_def priv_of_def bind_eq_Some_conv split: if_splits)
    have "told k' q n" if "n \<in> s_int_pending (privs k i)" using that i j by (auto simp: told_def)
    moreover have "told k' p n" if "told k p n" using that by (auto simp: told_def j(2))
    ultimately show ?thesis by blast
  qed
  then show "n \<in> s_int_pending (privs k i) \<Longrightarrow> told k' q n"
    and "told k p n \<Longrightarrow> p_priv (procs k p) = p_priv (procs k q) \<longrightarrow> p = q \<Longrightarrow> told k' p n" by blast+
qed

text \<open>The drivers of the hooks \<open>H\<close> are alive and do not share privilege structures.\<close>

definition drivers_alive :: "nat set \<Rightarrow> kernel \<Rightarrow> bool" where
  "drivers_alive H k \<longleftrightarrow> (\<forall>h \<in> H. \<exists>p. alive_as k (hook_proc_nr_e (hooks (irqs k) h)) p)"

definition own_privs :: "nat set \<Rightarrow> kernel \<Rightarrow> bool" where
  "own_privs H k \<longleftrightarrow> (\<forall>g \<in> H. \<forall>h \<in> H. \<forall>p q. alive_as k (hook_proc_nr_e (hooks (irqs k) g)) p \<longrightarrow>
     alive_as k (hook_proc_nr_e (hooks (irqs k) h)) q \<longrightarrow> p_priv (procs k p) = p_priv (procs k q) \<longrightarrow> p = q)"

lemma drivers_idents:
  assumes "idents k' = idents k" "hooks (irqs k') = hooks (irqs k)"
  shows "drivers_alive H k' = drivers_alive H k" "own_privs H k' = own_privs H k"
  by (simp_all add: drivers_alive_def own_privs_def assms(2) alive_as_idents [OF assms(1)] identsD(2) [OF assms(1)])

lemma hardware_is_proc [simp]: "is_proc HARDWARE"
  by (simp add: is_proc_def isokprocn_def HARDWARE_def KERNEL_def NR_TASKS_def NR_PROCS_def)

lemma alive_unique: "alive_as k e p \<Longrightarrow> alive_as k e q \<Longrightarrow> p = q"
  by (simp add: alive_as_def)

lemma generic_handler_tells:
  assumes "generic_handler h k = Some (b, k')" "p_nr (procs k HARDWARE) = HARDWARE"
    and "alive_as k (hook_proc_nr_e (hooks (irqs k) h)) q"
  shows "told k' q (uint (hook_notify_id (hooks (irqs k) h)))"
    and "told k p n \<Longrightarrow> p_priv (procs k p) = p_priv (procs k q) \<longrightarrow> p = q \<Longrightarrow> told k' p n"
proof -
  let ?h = "hooks (irqs k) h"
  obtain q' i r where g: "isokendpt k (hook_proc_nr_e ?h) = Some q'" "p_priv (procs k q') = Some i"
      "mini_notify HARDWARE (hook_proc_nr_e ?h)
        (upd_priv i (\<lambda>pr. pr\<lparr>s_int_pending := insert (uint (hook_notify_id ?h)) (s_int_pending pr)\<rparr>) k) = Some (r, k')"
    using assms(1) by (rule generic_handler_Some)
  have q': "q' = q" using alive_as_isokendpt [OF assms(3)] g(1) by simp
  define k1 where "k1 = upd_priv i (\<lambda>pr. pr\<lparr>s_int_pending := insert (uint (hook_notify_id ?h)) (s_int_pending pr)\<rparr>) k"
  have pr: "procs k1 = procs k" by (simp add: k1_def)
  have ok: "isokendpt k1 (hook_proc_nr_e ?h) = Some q" using g(1) q' by (simp add: k1_def isokendpt_def isemptyn_def)
  note t = mini_notify_tells [OF g(3) [folded k1_def] ok, unfolded pr, OF g(2) [unfolded q'] assms(2)]
  show "told k' q (uint (hook_notify_id ?h))" by (rule t(1)) (simp add: k1_def)
  show "told k' p n" if "told k p n" "p_priv (procs k p) = p_priv (procs k q) \<longrightarrow> p = q"
  proof (rule t(2))
    show "told k1 p n" using that(1) by (auto simp: told_def k1_def)
  qed (use that(2) in simp)
qed

lemma generic_handler_returns:
  assumes "kernel_ok k" "hands_free k" "alive_as k (hook_proc_nr_e (hooks (irqs k) h)) p"
  shows "\<exists>b k'. generic_handler h k = Some (b, k') \<and> hands_free k'"
proof -
  let ?h = "hooks (irqs k) h"
  have p: "isokendpt k (hook_proc_nr_e ?h) = Some p" by (rule alive_as_isokendpt [OF assms(3)])
  obtain i where i: "p_priv (procs k p) = Some i" using proc_has_priv [OF assms(1) isokendpt_is_proc [OF p]] by blast
  define k1 where "k1 = upd_priv i (\<lambda>pr. pr\<lparr>s_int_pending := insert (uint (hook_notify_id ?h)) (s_int_pending pr)\<rparr>) k"
  have "kernel_ok k1" "hands_free k1" using assms by (simp_all add: k1_def kernel_ok_upd_priv hands_free_def)
  from mini_notify_returns [OF this hardware_is_proc, of "hook_proc_nr_e ?h"] show ?thesis
    using p i by (fastforce simp: generic_handler_def Let_def k1_def)
qed

lemma hands_free_irqs [simp]: "hands_free (set_irqs f k) = hands_free k"
  by (simp add: hands_free_def)

text \<open>One step of the chain, for a hook with the generic handler.\<close>

lemma generic_step:
  assumes "run_handler lethal h (activate irq h k) = Some (b, k1)" "hook_handler (hooks (irqs k) h) = Generic_Handler"
  defines "k2 \<equiv> (if b then deactivate irq h k1 else k1)"
  shows "generic_handler h (activate irq h k) = Some (b, k1)" "idents k2 = idents k" "hooks (irqs k2) = hooks (irqs k)"
    "kernel_ok k \<Longrightarrow> kernel_ok k2" "told k2 = told k1" "hands_free k2 = hands_free k1"
proof -
  show g: "generic_handler h (activate irq h k) = Some (b, k1)"
    using assms(1,2) by (simp add: run_handler_def activate_def)
  show "idents k2 = idents k" using generic_handler_keeps(2) [OF g] by (simp add: k2_def activate_def deactivate_def)
  show "hooks (irqs k2) = hooks (irqs k)" unfolding k2_def by (rule kernel_irqs.run_hook_hooks(1) [OF assms(1)])
  show "kernel_ok k2" if "kernel_ok k"
    using generic_handler_keeps(1) [OF g] that by (simp add: k2_def activate_def deactivate_def kernel_ok_irqs)
  show "told k2 = told k1" "hands_free k2 = hands_free k1" by (simp_all add: k2_def deactivate_def)
qed

lemma activate_sel [simp]:
  "procs (activate irq h k) = procs k" "hooks (irqs (activate irq h k)) = hooks (irqs k)" "idents (activate irq h k) = idents k"
  "told (activate irq h k) = told k" "hands_free (activate irq h k) = hands_free k" "alive_as (activate irq h k) = alive_as k"
  by (simp_all add: activate_def alive_as_def fun_eq_iff)

lemma run_hooks_returns:
  assumes "kernel_ok k" "hands_free k" "drivers_alive (set hs) k" "\<forall>h \<in> set hs. hook_handler (hooks (irqs k) h) = Generic_Handler"
  shows "\<exists>k'. kernel_irqs.run_hooks lethal irq hs k = Some k'"
  using assms
proof (induction hs arbitrary: k)
  case (Cons h hs)
  have gen: "hook_handler (hooks (irqs k) h) = Generic_Handler" using Cons.prems(4) by simp
  obtain p where p: "alive_as (activate irq h k) (hook_proc_nr_e (hooks (irqs (activate irq h k)) h)) p"
    using Cons.prems(3) by (auto simp: drivers_alive_def)
  have "kernel_ok (activate irq h k)" "hands_free (activate irq h k)"
    using Cons.prems by (simp_all add: kernel_ok_irqs activate_def)
  from generic_handler_returns [OF this p] obtain b k1 where
    k1: "run_handler lethal h (activate irq h k) = Some (b, k1)" "hands_free k1"
    using gen by (auto simp: run_handler_def)
  note s = generic_step [OF k1(1) gen]
  have "\<exists>k'. kernel_irqs.run_hooks lethal irq hs (if b then deactivate irq h k1 else k1) = Some k'"
  proof (rule Cons.IH)
    show "drivers_alive (set hs) (if b then deactivate irq h k1 else k1)"
      unfolding drivers_idents(1) [OF s(2,3)] using Cons.prems(3) by (simp add: drivers_alive_def)
  qed (use Cons.prems s k1(2) in simp_all)
  then show ?case using k1(1) by simp
qed simp

lemma run_hooks_tells:
  assumes "kernel_irqs.run_hooks lethal irq hs k = Some k'" "p_nr (procs k HARDWARE) = HARDWARE"
    and "drivers_alive H k" "own_privs H k" "set hs \<subseteq> H" "\<forall>h \<in> set hs. hook_handler (hooks (irqs k) h) = Generic_Handler"
  shows "(\<forall>h \<in> set hs. \<forall>p. alive_as k (hook_proc_nr_e (hooks (irqs k) h)) p \<longrightarrow>
      told k' p (uint (hook_notify_id (hooks (irqs k) h)))) \<and>
    (\<forall>p n. told k p n \<longrightarrow> (\<exists>g \<in> H. alive_as k (hook_proc_nr_e (hooks (irqs k) g)) p) \<longrightarrow> told k' p n)"
  using assms
proof (induction hs arbitrary: k)
  case (Cons h hs)
  let ?o = "\<lambda>g. hook_proc_nr_e (hooks (irqs k) g)"
  have gen: "hook_handler (hooks (irqs k) h) = Generic_Handler" and hH: "h \<in> H" using Cons.prems(5,6) by simp_all
  obtain b k1 where r: "run_handler lethal h (activate irq h k) = Some (b, k1)"
      "kernel_irqs.run_hooks lethal irq hs (if b then deactivate irq h k1 else k1) = Some k'"
    using Cons.prems(1) by (auto simp: bind_eq_Some_conv)
  define k2 where "k2 = (if b then deactivate irq h k1 else k1)"
  note s = generic_step [OF r(1) gen, folded k2_def]
  obtain q where q: "alive_as k (?o h) q" using Cons.prems(3) hH by (auto simp: drivers_alive_def)
  note tells = generic_handler_tells [OF s(1), simplified, OF Cons.prems(2) q]
  have first: "told k2 q (uint (hook_notify_id (hooks (irqs k) h)))" unfolding s(5) by (rule tells(1))
  have keep: "told k2 p n" if "told k p n" "g \<in> H" "alive_as k (?o g) p" for p n g
    unfolding s(5) using tells(2) [OF that(1)] Cons.prems(4) that(2,3) hH q unfolding own_privs_def by blast
  have IH: "(\<forall>h \<in> set hs. \<forall>p. alive_as k (?o h) p \<longrightarrow> told k' p (uint (hook_notify_id (hooks (irqs k) h)))) \<and>
      (\<forall>p n. told k2 p n \<longrightarrow> (\<exists>g \<in> H. alive_as k (?o g) p) \<longrightarrow> told k' p n)"
  proof (rule Cons.IH [OF r(2), folded k2_def, unfolded s(3) alive_as_idents [OF s(2)]])
    show "p_nr (procs k2 HARDWARE) = HARDWARE" using Cons.prems(2) identsD(5) [OF s(2)] by simp
  qed (use Cons.prems drivers_idents [OF s(2,3)] in simp_all)
  have "told k' p (uint (hook_notify_id (hooks (irqs k) h)))" if "alive_as k (?o h) p" for p
    using IH first hH q alive_unique [OF that q] by blast
  moreover have "\<forall>p n. told k p n \<longrightarrow> (\<exists>g \<in> H. alive_as k (?o g) p) \<longrightarrow> told k' p n" using IH keep by blast
  ultimately show ?case using IH by simp
qed simp

section \<open>Properties\<close>

text \<open>Process 3, which waits for a message, has hook 0 on line 5 under the identifier 2, and reenables the line itself.\<close>

definition irq_kernel :: kernel where
  "irq_kernel = set_irqs (\<lambda>s. s\<lparr>hooks := (hooks s)(0 := \<lparr>hook_next = None, hook_handler = Generic_Handler, hook_irq = 5,
       hook_id = 1, hook_proc_nr_e = 3, hook_notify_id = 2, hook_policy = 0\<rparr>),
     irq_handlers := (irq_handlers s)(5 \<mapsto> 0), irq_masked := (irq_masked s)(5 := False)\<rparr>) ipc_kernel"

lemma irq_kernel_sel:
  "procs irq_kernel = demo_proc" "hooks (irqs irq_kernel) 0 = \<lparr>hook_next = None, hook_handler = Generic_Handler, hook_irq = 5,
       hook_id = 1, hook_proc_nr_e = 3, hook_notify_id = 2, hook_policy = 0\<rparr>"
  "h \<noteq> 0 \<Longrightarrow> hooks (irqs irq_kernel) h = \<lparr>hook_next = None, hook_handler = Timer_Int_Handler, hook_irq = 0, hook_id = 1,
       hook_proc_nr_e = NONE, hook_notify_id = 0, hook_policy = 0\<rparr>"
  "irq_handlers (irqs irq_kernel) = [0 \<mapsto> 16, 5 \<mapsto> 0]" "irq_actids (irqs irq_kernel) = (\<lambda>_. 0)"
  "irq_masked (irqs irq_kernel) = (\<lambda>i. i \<noteq> 0 \<and> i \<noteq> 5)"
  by (auto simp: irq_kernel_def ipc_kernel_def demo_kernel_def demo_irqs_def fun_eq_iff)

lemma irq_kernel_attached: "attached (irqs irq_kernel) = {0, TIMER_HOOK}"
proof -
  have "hook_proc_nr_e (hooks (irqs irq_kernel) 0) \<noteq> NONE" by (simp add: irq_kernel_sel(2) NONE_def endpoint_defs)
  moreover have "hook_proc_nr_e (hooks (irqs irq_kernel) h) = NONE" if "h \<noteq> 0" for h using irq_kernel_sel(3) [OF that] by simp
  moreover have "0 < NR_IRQ_HOOKS" by (simp add: NR_IRQ_HOOKS_def)
  ultimately have "{h. h < NR_IRQ_HOOKS \<and> hook_proc_nr_e (hooks (irqs irq_kernel) h) \<noteq> NONE} = {0}" by blast
  then show ?thesis by (simp add: attached_def insert_commute)
qed

lemma irq_kernel_ok: "irq_ok irq_kernel"
proof -
  have one: "one_bit 1" by (auto simp: one_bit_def intro!: exI [of _ 0])
  have h: "hook_irq (hooks (irqs irq_kernel) x) = (if x = 0 then 5 else 0)" "ident (irqs irq_kernel) x = 1"
    "next_hook (irqs irq_kernel) x = None" for x
    by (cases "x = 0"; simp add: irq_kernel_sel next_hook_def)+
  have "irq_lists {0, TIMER_HOOK} (irqs irq_kernel) (\<lambda>i. if i = 0 then [TIMER_HOOK] else if i = 5 then [0] else [])"
    by (auto simp: irq_lists_def irq_list_def h irq_kernel_sel(4-6) one TIMER_HOOK_def irq_line_def NR_IRQ_VECTORS_def)
  moreover have "{0, TIMER_HOOK} - {TIMER_HOOK} = {0}" by (auto simp: TIMER_HOOK_def)
  ultimately show ?thesis unfolding irq_ok_def irqs_fine_def irq_kernel_attached
    by (auto simp: hook_fits_def irq_kernel_sel TIMER_HOOK_def CLOCK_IRQ_def)
qed

lemma irq_kernel_facts:
  "kernel_ok irq_kernel" "hands_free irq_kernel" "p_nr (procs irq_kernel HARDWARE) = HARDWARE"
  "alive_as irq_kernel 3 3"
  "drivers_alive {h \<in> attached (irqs irq_kernel). hook_irq (hooks (irqs irq_kernel) h) = 5} irq_kernel"
  "own_privs {h \<in> attached (irqs irq_kernel). hook_irq (hooks (irqs irq_kernel) h) = 5} irq_kernel"
proof -
  have five: "{h \<in> attached (irqs irq_kernel). hook_irq (hooks (irqs irq_kernel) h) = 5} = {0}"
    by (auto simp: irq_kernel_attached irq_kernel_sel TIMER_HOOK_def)
  show "kernel_ok irq_kernel" unfolding irq_kernel_def by (rule kernel_ok_irqs [OF ipc_kernel_ok])
  show "hands_free irq_kernel" "p_nr (procs irq_kernel HARDWARE) = HARDWARE"
    by (simp_all add: hands_free_def irq_kernel_sel demo_proc_def)
  show a: "alive_as irq_kernel 3 3"
    by (simp add: alive_as_def irq_kernel_sel demo_proc_def ENDPOINT_P_def endpoint_defs isokprocn_def NR_TASKS_def NR_PROCS_def
        has_def RTS_SLOT_FREE_def RTS_RECEIVING_def idle_proc_def)
  then show "drivers_alive {h \<in> attached (irqs irq_kernel). hook_irq (hooks (irqs irq_kernel) h) = 5} irq_kernel"
    unfolding five by (auto simp: drivers_alive_def irq_kernel_sel)
  show "own_privs {h \<in> attached (irqs irq_kernel). hook_irq (hooks (irqs irq_kernel) h) = 5} irq_kernel"
    unfolding five by (auto simp: own_privs_def irq_kernel_sel alive_as_def)
qed

text \<open>C8. An interrupt on a line other than the clock's: the handler returns, every driver with a hook on the line learns
  of the interrupt by the identifier it chose (now, if it waits for a message, else with its next receive), and
  the line stays masked exactly if it has no hook or one whose driver has to reenable it. This is for live drivers with
  privilege structures of their own.
\<close>

theorem interrupt_reaches_drivers:
  assumes "kernel_ok k" "irq_ok k" "hands_free k" "p_nr (procs k HARDWARE) = HARDWARE" "irq_line irq" "irq \<noteq> CLOCK_IRQ"
    and "drivers_alive {h \<in> attached (irqs k). hook_irq (hooks (irqs k) h) = irq} k"
    and "own_privs {h \<in> attached (irqs k). hook_irq (hooks (irqs k) h) = irq} k"
  shows "\<exists>k'. irq_handle lethal irq k = Some k' \<and> irq_ok k' \<and>
    (\<forall>h \<in> {h \<in> attached (irqs k). hook_irq (hooks (irqs k) h) = irq}.
       \<forall>p. alive_as k (hook_proc_nr_e (hooks (irqs k) h)) p \<longrightarrow> told k' p (uint (hook_notify_id (hooks (irqs k) h)))) \<and>
    (irq_masked (irqs k') irq \<longleftrightarrow> {h \<in> attached (irqs k). hook_irq (hooks (irqs k) h) = irq} = {} \<or>
       (\<exists>h \<in> {h \<in> attached (irqs k). hook_irq (hooks (irqs k) h) = irq}. \<not> has (hook_policy (hooks (irqs k) h)) IRQ_REENABLE))"
proof -
  let ?H = "{h \<in> attached (irqs k). hook_irq (hooks (irqs k) h) = irq}"
  obtain IL where l: "irq_list (irqs k) irq (IL irq)" "set (IL irq) = ?H" by (rule irq_ok_line [OF assms(2,5)])
  have gen: "hook_handler (hooks (irqs k) h) = Generic_Handler" if "h \<in> ?H" for h
    using assms(2,6) that by (auto simp: irq_ok_def irqs_fine_def hook_fits_def split: if_splits)
  define k1 where "k1 = set_irqs (hw_intr_mask irq) k"
  have id1: "idents k1 = idents k" "hooks (irqs k1) = hooks (irqs k)" by (simp_all add: k1_def)
  have al: "drivers_alive ?H k1" "own_privs ?H k1" using assms(7,8) drivers_idents [OF id1] by simp_all
  have "kernel_ok k1" "hands_free k1" using assms(1,3) by (simp_all add: k1_def kernel_ok_irqs)
  moreover have gen1: "\<forall>h \<in> set (IL irq). hook_handler (hooks (irqs k1) h) = Generic_Handler" using gen l(2) id1(2) by simp
  ultimately obtain k2 where k2: "kernel_irqs.run_hooks lethal irq (IL irq) k1 = Some k2"
    using run_hooks_returns [of k1 "IL irq" lethal irq] al(1) unfolding l(2) by blast
  define k' where "k' = (if IL irq \<noteq> [] \<and> irq_actids (irqs k2) irq = 0 then set_irqs (hw_intr_unmask irq) k2 else k2)"
  have h: "irq_handle lethal irq k = Some k'" using irq_handle_runs [OF l(1) assms(5)] k2 by (simp add: k'_def flip: k1_def)
  have "p_nr (procs k1 HARDWARE) = HARDWARE" using assms(4) by (simp add: k1_def)
  note t = conjunct1 [OF run_hooks_tells [OF k2 this al _ gen1, unfolded l(2) id1(2) alive_as_idents [OF id1(1)], OF order_refl]]
  have "told k' = told k2" by (simp add: k'_def)
  moreover have "reenables (hooks (irqs k) h) = has (hook_policy (hooks (irqs k) h)) IRQ_REENABLE" if "h \<in> ?H" for h
    using gen [OF that] by (simp add: reenables_def)
  ultimately show ?thesis using h t irq_handle_irqs [OF h assms(2)] by auto
qed

theorem interrupt_reaches_drivers_witness:
  "\<exists>k'. irq_handle (\<lambda>_. False) 5 irq_kernel = Some k' \<and> told k' 3 2 \<and> irq_masked (irqs k') 5"
proof -
  note f = irq_kernel_facts
  have five: "0 \<in> {h \<in> attached (irqs irq_kernel). hook_irq (hooks (irqs irq_kernel) h) = 5}"
    by (simp add: irq_kernel_attached irq_kernel_sel)
  have "irq_line 5" "5 \<noteq> CLOCK_IRQ" by (simp_all add: irq_line_def NR_IRQ_VECTORS_def CLOCK_IRQ_def)
  from interrupt_reaches_drivers [OF f(1) irq_kernel_ok f(2,3) this f(5,6), of "\<lambda>_. False"]
  show ?thesis using bspec [OF _ five] five f(4) by (auto simp: irq_kernel_sel has_def)
qed

text \<open>C9. The kernel's table of hooks implements a registry that maps a driver and its identifier to a line and a policy:
  setting a policy on a permitted line enters it (replacing what was there), answers with the number of the hook, and
  leaves all other entries alone; only a new entry can be refused, and only when all hooks are taken.
\<close>

theorem setpolicy_implements_registry:
  assumes "irqs_fine (irqs k)" "priv_of k c = Some pr" "p_endpoint (procs k c) \<noteq> NONE"
    and "irq_line v" "may_use_irq pr v" "0 \<le> n" "n \<le> 31"
  shows "(\<exists>i s. do_irqctl c IRQ_SETPOLICY v p n k = Some (OK, Some (int i + 1), k\<lparr>irqs := s\<rparr>) \<and> i < NR_IRQ_HOOKS \<and>
      irqs_fine s \<and> registry s = (registry (irqs k))((p_endpoint (procs k c), word_of_int n) \<mapsto> (v, p)) \<and>
      hook_key (hooks s i) = (p_endpoint (procs k c), word_of_int n)) \<or>
    do_irqctl c IRQ_SETPOLICY v p n k = Some (ENOSPC, None, k) \<and>
      registry (irqs k) (p_endpoint (procs k c), word_of_int n) = None \<and>
      (\<forall>h < NR_IRQ_HOOKS. hook_proc_nr_e (hooks (irqs k) h) \<noteq> NONE)"
proof -
  have "do_irqctl c IRQ_SETPOLICY v p n k = irq_setpolicy c v n p k" by (simp add: do_irqctl_def IRQ_defs)
  then show ?thesis using irq_setpolicy_result [OF assms, of p] by auto
qed

theorem setpolicy_implements_registry_witness:
  "\<exists>i s. do_irqctl 3 IRQ_SETPOLICY 7 1 2 irq_kernel = Some (OK, Some (int i + 1), irq_kernel\<lparr>irqs := s\<rparr>) \<and>
     registry s (3, 2) = Some (7, 1)"
proof -
  have e: "p_endpoint (procs irq_kernel 3) = 3" "3 \<noteq> NONE"
    by (simp_all add: irq_kernel_sel demo_proc_def idle_proc_def NONE_def endpoint_defs)
  have p: "priv_of irq_kernel 3 = Some (demo_priv 0)" "may_use_irq (demo_priv 0) 7"
    by (simp_all add: irq_kernel_def ipc_kernel_def demo_kernel_def priv_of_def demo_proc_def idle_proc_def may_use_irq_def
        demo_priv_def has_def PREEMPTIBLE_def BILLABLE_def CHECK_IRQ_def)
  have "irq_line 7" "irqs_fine (irqs irq_kernel)" using irq_kernel_ok by (simp_all add: irq_line_def NR_IRQ_VECTORS_def irq_ok_def)
  moreover have "\<not> (\<forall>h < NR_IRQ_HOOKS. hook_proc_nr_e (hooks (irqs irq_kernel) h) \<noteq> NONE)"
    by (auto simp: irq_kernel_sel NR_IRQ_HOOKS_def intro!: exI [of _ 1])
  ultimately obtain i s where "do_irqctl 3 IRQ_SETPOLICY 7 1 2 irq_kernel = Some (OK, Some (int i + 1), irq_kernel\<lparr>irqs := s\<rparr>)"
      "registry s = (registry (irqs irq_kernel))((3, 2) \<mapsto> (7, 1))"
    using setpolicy_implements_registry [of irq_kernel 3 "demo_priv 0" 7 2 1] e p by auto
  then show ?thesis by (intro exI [of _ i] exI [of _ s]) simp
qed

end
