(* ===== verification/Process_Calls.thy ===== *)
theory Process_Calls
  imports Interrupts
begin

text \<open>
  Kernel calls by which PM and RS set up and take down processes: the new program of a process (\<^verbatim>\<open>do_exec.c\<close>), its end
  (\<^verbatim>\<open>do_clear.c\<close>), and the small calls \<^verbatim>\<open>do_setgrant.c\<close>,
  \<^verbatim>\<open>do_diagctl.c\<close> and \<^verbatim>\<open>do_abort.c\<close>.

  Address spaces, the floating point unit and the console are not part of the model. What the kernel copies
  from the memory of the caller is an argument: an error code, or the data.

  The invariant \<open>table_ok\<close> says that the process table is in order and that privilege structures have owners: every
  process in use has one that is taken, and one of a system process belongs to that process alone.
\<close>

section \<open>A new program\<close>

definition MF_FPU_INITIALIZED :: "32 word" where "MF_FPU_INITIALIZED = 0x1000"

text \<open>The registers are cleared but for the stack pointer, the program counter and \<open>bx\<close>, which is the IPC
  status register and the secondary return register as well.\<close>

definition arch_proc_init :: "int \<Rightarrow> nat \<Rightarrow> string \<Rightarrow> kernel \<Rightarrow> kernel" where
  "arch_proc_init p ps_str name k =
     set_misc p MF_CONTEXT_SET
       (upd_proc p (\<lambda>r. r\<lparr>p_retreg := OK, p_ipc_status := of_nat ps_str, p_ipc_return2 := ps_str,
          p_name := take (PROC_NAME_LEN - 1) name\<rparr>) k)"

definition do_exec :: "int \<Rightarrow> nat \<Rightarrow> code + string \<Rightarrow> kernel \<Rightarrow> (code \<times> kernel) option" where
  "do_exec endpt ps_str copied k =
     (case isokendpt k endpt of
        None \<Rightarrow> Some (EINVAL, k)
      | Some rp \<Rightarrow> do {
          let k1 = (if has (misc k rp) MF_DELIVERMSG then clear_misc rp MF_DELIVERMSG k else k);
          let name = (case copied of Inl _ \<Rightarrow> ''<unset>'' | Inr name \<Rightarrow> name);
          k2 \<leftarrow> RTS_UNSET rp RTS_RECEIVING (arch_proc_init rp ps_str name k1);
          Some (OK, clear_misc rp MF_FPU_INITIALIZED k2)
        })"

section \<open>The end of a process\<close>

fun release_hooks :: "int \<Rightarrow> nat list \<Rightarrow> irq_state \<Rightarrow> irq_state option" where
  "release_hooks e [] s = Some s"
| "release_hooks e (i # is) s =
     (if hook_proc_nr_e (hooks s i) = e
      then do { s1 \<leftarrow> rm_irq_handler i s;
                release_hooks e is (upd_hook i (\<lambda>h. h\<lparr>hook_proc_nr_e := NONE\<rparr>) s1) }
      else release_hooks e is s)"

definition do_clear :: "int \<Rightarrow> kernel \<Rightarrow> (code \<times> kernel) option" where
  "do_clear endpt k =
     (case isokendpt k endpt of
        None \<Rightarrow> Some (EINVAL, k)
      | Some rc \<Rightarrow>
          if isemptyn k rc then Some (OK, k)
          else do {
            s \<leftarrow> release_hooks (p_endpoint (procs k rc)) [0..<NR_IRQ_HOOKS] (irqs k);
            k2 \<leftarrow> clear_endpoint rc (k\<lparr>irqs := s\<rparr>);
            i \<leftarrow> p_priv (procs k2 rc);
            k3 \<leftarrow> reset_kernel_timer i k2;
            k4 \<leftarrow> RTS_SETFLAGS rc RTS_SLOT_FREE k3;
            let k5 = clear_misc rc MF_FPU_INITIALIZED k4;
            Some (OK, if has (s_flags (privs k5 i)) SYS_PROC
                      then upd_priv i (\<lambda>pr. pr\<lparr>s_proc_nr := NONE\<rparr>) k5 else k5)
          })"

section \<open>Small calls\<close>

definition do_setgrant :: "int \<Rightarrow> int \<Rightarrow> int \<Rightarrow> kernel \<Rightarrow> code \<times> kernel" where
  "do_setgrant caller addr entries k =
     (if RTS_ISSET k caller RTS_NO_PRIV then (EPERM, k)
      else
        (case p_priv (procs k caller) of
           None \<Rightarrow> (EPERM, k)
         | Some i \<Rightarrow> (OK, upd_priv i (\<lambda>pr. pr\<lparr>s_grant_table := addr, s_grant_entries := entries\<rparr>) k)))"

definition DIAGCTL_CODE_DIAG :: int where "DIAGCTL_CODE_DIAG = 1"
definition DIAGCTL_CODE_STACKTRACE :: int where "DIAGCTL_CODE_STACKTRACE = 2"
definition DIAGCTL_CODE_REGISTER :: int where "DIAGCTL_CODE_REGISTER = 3"
definition DIAGCTL_CODE_UNREGISTER :: int where "DIAGCTL_CODE_UNREGISTER = 4"
definition DIAG_BUFSIZE :: int where "DIAG_BUFSIZE = 80 * 25"

text \<open>\<open>END_OF_KMESS\<close> at the end of a diagnostic message makes \<open>kputc\<close> tell the processes that asked for it. The result of
  the copy and whether the message log is in use are arguments.\<close>

definition diag_register :: "int \<Rightarrow> bool \<Rightarrow> bool \<Rightarrow> kernel \<Rightarrow> (code \<times> kernel) option" where
  "diag_register caller on log_in_use k = do {
     i \<leftarrow> p_priv (procs k caller);
     if \<not> has (s_flags (privs k i)) SYS_PROC then Some (EPERM, k)
     else do {
       let k1 = upd_priv i (\<lambda>pr. pr\<lparr>s_diag_sig := on\<rparr>) k;
       k2 \<leftarrow> (if on \<and> log_in_use then map_option snd (send_sig (p_endpoint (procs k1 caller)) SIGKMESS k1) else Some k1);
       Some (OK, k2)
     }
   }"

definition do_diagctl :: "int \<Rightarrow> int \<Rightarrow> int \<Rightarrow> int \<Rightarrow> code \<Rightarrow> bool \<Rightarrow> bool \<Rightarrow> kernel \<Rightarrow> (code \<times> kernel) option" where
  "do_diagctl caller request len endpt copied log_in_use serial k =
     (if request = DIAGCTL_CODE_DIAG then
        (if len < 1 \<or> len > DIAG_BUFSIZE then Some (EINVAL, k)
         else if copied \<noteq> OK then Some (copied, k)
         else if serial then Some (OK, k)
         else map_option (Pair OK) (send_diag_sig k))
      else if request = DIAGCTL_CODE_STACKTRACE then Some (if isokendpt k endpt = None then EINVAL else OK, k)
      else if request = DIAGCTL_CODE_REGISTER then diag_register caller True (log_in_use \<and> \<not> serial) k
      else if request = DIAGCTL_CODE_UNREGISTER then diag_register caller False (log_in_use \<and> \<not> serial) k
      else Some (EINVAL, k))"

text \<open>The one timer that belongs to no privilege structure.\<close>

definition SHUTDOWN_TIMER :: nat where "SHUTDOWN_TIMER = 65"

definition prepare_shutdown :: "int \<Rightarrow> kernel \<Rightarrow> kernel option" where
  "prepare_shutdown how k =
     set_kernel_timer SHUTDOWN_TIMER (monotonic k + system_hz (clk k)) Minix_Shutdown
       (put_timers (upd_tmr SHUTDOWN_TIMER (\<lambda>t. t\<lparr>tmr_arg := how\<rparr>) (get_timers k)) k)"

definition do_abort :: "int \<Rightarrow> kernel \<Rightarrow> (code \<times> kernel) option" where
  "do_abort how k = map_option (Pair OK) (prepare_shutdown how k)"

section \<open>The process table\<close>

definition owner :: "kernel \<Rightarrow> nat \<Rightarrow> int" where
  "owner k i = s_proc_nr (privs k i)"

definition is_sys :: "kernel \<Rightarrow> nat \<Rightarrow> bool" where
  "is_sys k i \<longleftrightarrow> has (s_flags (privs k i)) SYS_PROC"

definition in_use :: "kernel \<Rightarrow> int \<Rightarrow> bool" where
  "in_use k p \<longleftrightarrow> iskerneln p \<or> \<not> has (p_rts_flags (procs k p)) RTS_SLOT_FREE"

definition table_ok :: "kernel \<Rightarrow> bool" where
  "table_ok k \<longleftrightarrow>
     (\<forall>p. is_proc p \<longrightarrow> p_nr (procs k p) = p) \<and>
     (\<forall>p. isokprocn p \<longrightarrow> ENDPOINT_P (p_endpoint (procs k p)) = p) \<and>
     (\<forall>p i. is_proc p \<longrightarrow> in_use k p \<longrightarrow> p_priv (procs k p) = Some i \<longrightarrow> i < nat NR_SYS_PROCS \<longrightarrow>
        owner k i \<noteq> NONE \<and> (is_sys k i \<longrightarrow> owner k i = p)) \<and>
     owner k (nat USER_PRIV_ID) \<noteq> NONE \<and> \<not> is_sys k (nat USER_PRIV_ID)"

lemma table_idents:
  assumes "idents k' = idents k"
  shows "owner k' i = owner k i" "is_sys k' i = is_sys k i" "in_use k' p = in_use k p" "table_ok k' = table_ok k"
proof -
  note d = identsD [OF assms]
  show *: "owner k' i = owner k i" "is_sys k' i = is_sys k i" "in_use k' p = in_use k p" for i p
    by (simp_all add: owner_def is_sys_def in_use_def d)
  show "table_ok k' = table_ok k" by (simp add: table_ok_def * d)
qed

lemma table_okD:
  assumes "table_ok k"
  shows "is_proc p \<Longrightarrow> p_nr (procs k p) = p" "isokprocn p \<Longrightarrow> ENDPOINT_P (p_endpoint (procs k p)) = p"
    "is_proc p \<Longrightarrow> in_use k p \<Longrightarrow> p_priv (procs k p) = Some i \<Longrightarrow> i < nat NR_SYS_PROCS \<Longrightarrow> owner k i \<noteq> NONE"
    "is_proc p \<Longrightarrow> in_use k p \<Longrightarrow> p_priv (procs k p) = Some i \<Longrightarrow> i < nat NR_SYS_PROCS \<Longrightarrow> is_sys k i \<Longrightarrow> owner k i = p"
    "owner k (nat USER_PRIV_ID) \<noteq> NONE" "\<not> is_sys k (nat USER_PRIV_ID)"
proof -
  note t = assms [unfolded table_ok_def]
  show "is_proc p \<Longrightarrow> p_nr (procs k p) = p" using t by simp
  show "isokprocn p \<Longrightarrow> ENDPOINT_P (p_endpoint (procs k p)) = p" using t by simp
  have *: "is_proc p \<Longrightarrow> in_use k p \<Longrightarrow> p_priv (procs k p) = Some i \<Longrightarrow> i < nat NR_SYS_PROCS \<Longrightarrow>
      owner k i \<noteq> NONE \<and> (is_sys k i \<longrightarrow> owner k i = p)" using t by simp
  show "is_proc p \<Longrightarrow> in_use k p \<Longrightarrow> p_priv (procs k p) = Some i \<Longrightarrow> i < nat NR_SYS_PROCS \<Longrightarrow> owner k i \<noteq> NONE"
    using * by simp
  show "is_proc p \<Longrightarrow> in_use k p \<Longrightarrow> p_priv (procs k p) = Some i \<Longrightarrow> i < nat NR_SYS_PROCS \<Longrightarrow> is_sys k i \<Longrightarrow> owner k i = p"
    using * by simp
  show "owner k (nat USER_PRIV_ID) \<noteq> NONE" "\<not> is_sys k (nat USER_PRIV_ID)" using t by simp_all
qed

text \<open>Timers are queued for structures in use only, hooks belong to live processes.\<close>

definition clock_owned :: "kernel \<Rightarrow> bool" where
  "clock_owned k \<longleftrightarrow> (\<exists>ts. clock_list k ts \<and> (\<forall>i \<in> set ts. i < nat NR_SYS_PROCS \<longrightarrow> owner k i \<noteq> NONE))"

definition hooks_alive :: "kernel \<Rightarrow> bool" where
  "hooks_alive k \<longleftrightarrow> drivers_alive (attached (irqs k) - {TIMER_HOOK}) k"

definition machine_ok :: "kernel \<Rightarrow> bool" where
  "machine_ok k \<longleftrightarrow> kernel_ok k \<and> is_proc (bill_ptr k) \<and> table_ok k \<and> clock_owned k \<and> irq_ok k \<and> hooks_alive k"

lemma machine_kernel: "machine_ok k \<Longrightarrow> kernel_ok k"
  by (simp add: machine_ok_def)

lemma clock_owned_sub: "clock_sub k k' \<Longrightarrow> (\<And>i. owner k' i = owner k i) \<Longrightarrow> clock_owned k \<Longrightarrow> clock_owned k'"
  unfolding clock_owned_def clock_sub_def by (metis subsetD)

lemma clock_owned_ok: "clock_owned k \<Longrightarrow> clock_ok k"
  by (auto simp: clock_owned_def clock_ok_def)

lemma hooks_alive_idents:
  assumes "idents k' = idents k" "irqs k' = irqs k"
  shows "hooks_alive k' = hooks_alive k"
proof -
  have "drivers_alive H k' = drivers_alive H k" for H by (rule drivers_idents(1) [OF assms(1)]) (simp only: assms(2))
  then show ?thesis by (simp only: hooks_alive_def assms(2))
qed

lemma machine_ok_outer:
  assumes "outer k' = outer k" "kernel_ok k'" "machine_ok k"
  shows "machine_ok k'"
proof -
  note o = outerD [OF assms(1)] and t = table_idents [OF outerD(6) [OF assms(1)]]
  have "clock_owned k'" using clock_owned_sub [OF clock_sub_same [OF o(2)] t(1)] assms(3) by (simp add: machine_ok_def)
  moreover have "irq_ok k'" "hooks_alive k'" "table_ok k'"
    using assms(3) o(3) t(4) hooks_alive_idents [OF o(6,3)] by (simp_all add: machine_ok_def irq_ok_def)
  ultimately show ?thesis using assms(2,3) o(5) by (simp add: machine_ok_def)
qed

section \<open>Calls that leave the table alone\<close>

lemma do_exec_cur [cur]: "do_exec e ps c k = Some (r, k') \<Longrightarrow> outer k' = outer k"
  by (auto simp: do_exec_def arch_proc_init_def cur_splits split: option.splits dest!: cur)

lemma mild_exec [simp]: "mild (\<lambda>r. r\<lparr>p_retreg := a, p_ipc_status := b, p_ipc_return2 := c, p_name := n\<rparr>)"
  by (simp add: mild_def)

lemma do_exec_keeps:
  assumes "do_exec e ps c k = Some (r, k')" "kernel_ok k"
  shows "kernel_ok k'"
  using assms
  by (auto simp: do_exec_def arch_proc_init_def Let_def bind_eq_Some_conv split: option.splits
      elim!: RTS_UNSET_keeps intro!: status_keeps kernel_ok_upd_proc isokendpt_is_proc)

lemma send_diag_loop_cur [cur]: "send_diag_loop is k = Some k' \<Longrightarrow> outer k' = outer k"
  by (induction "is" arbitrary: k) (auto simp: cur_splits split: if_splits dest!: cur)

lemma diag_register_cur [cur]: "diag_register c on l k = Some (r, k') \<Longrightarrow> outer k' = outer k"
  by (auto simp: diag_register_def cur_splits split: if_splits dest!: cur)

lemma do_diagctl_cur [cur]: "do_diagctl c q n e r l s k = Some (x, k') \<Longrightarrow> outer k' = outer k"
  by (auto simp: do_diagctl_def send_diag_sig_def cur_splits simp del: send_diag_loop.simps split: if_splits dest!: cur)

lemma diag_register_keeps: "diag_register c on l k = Some (r, k') \<Longrightarrow> kernel_ok k \<Longrightarrow> kernel_ok k'"
  by (auto simp: diag_register_def cur_splits split: if_splits elim!: send_sig_keeps intro!: kernel_ok_upd_priv)

lemma do_diagctl_keeps: "do_diagctl c q n e r l s k = Some (x, k') \<Longrightarrow> kernel_ok k \<Longrightarrow> kernel_ok k'"
  by (auto simp: do_diagctl_def send_diag_sig_def simp del: send_diag_loop.simps split: if_splits
      dest: send_diag_keeps diag_register_keeps)

lemma do_setgrant_cur: "do_setgrant c a n k = (r, k') \<Longrightarrow> outer k' = outer k"
  by (auto simp: do_setgrant_def split: if_splits option.splits)

lemma do_setgrant_keeps: "do_setgrant c a n k = (r, k') \<Longrightarrow> kernel_ok k \<Longrightarrow> kernel_ok k'"
  by (auto simp: do_setgrant_def split: if_splits option.splits intro!: kernel_ok_upd_priv)

section \<open>Calls of the clock and of interrupts\<close>

lemma machine_ok_clk:
  assumes "machine_ok k" "kernel_ok k'" "clock_owned k'" "bill_ptr k' = bill_ptr k" "irqs k' = irqs k" "idents k' = idents k"
  shows "machine_ok k'"
  using assms hooks_alive_idents [OF assms(6,5)] table_idents(4) [OF assms(6)] by (simp add: machine_ok_def irq_ok_def)

lemma set_insert_timer [simp]: "set (insert_timer f e t ts) = insert t (set ts)"
proof -
  have "set ts = set (takeWhile P ts) \<union> set (dropWhile P ts)" for P by (metis set_append takeWhile_dropWhile_id)
  from this [of "\<lambda>t. f t \<le> e"] show ?thesis by (auto simp: insert_timer_def)
qed

lemma do_setalarm_machine:
  assumes "do_setalarm c e a k = Some (r, l, k')" "machine_ok k" "is_proc c" "in_use k c"
  shows "machine_ok k'"
proof (rule machine_ok_clk [OF assms(2)])
  note keeps = do_setalarm_keeps [OF assms(1)]
  show "kernel_ok k'" "bill_ptr k' = bill_ptr k" "irqs k' = irqs k" and i: "idents k' = idents k"
    using keeps assms(2) by (simp_all add: machine_ok_def)
  obtain tp where tp: "p_priv (procs k c) = Some tp" using assms(1) by (auto simp: do_setalarm_def bind_eq_Some_conv)
  obtain ts where ts: "clock_list k ts" "\<forall>i \<in> set ts. i < nat NR_SYS_PROCS \<longrightarrow> owner k i \<noteq> NONE"
    using assms(2) by (auto simp: machine_ok_def clock_owned_def)
  show "clock_owned k'"
  proof (cases "has (s_flags (privs k tp)) SYS_PROC")
    case True
    define ts' where "ts' = (if e = 0 then remove1 tp ts
      else insert_timer (expiry (get_timers k)) (alarm_time e a (monotonic k)) tp (remove1 tp ts))"
    have ts': "clock_list k' ts'"
      using do_setalarm_result [OF ts(1) tp True, of e a, folded ts'_def] assms(1) by auto
    have sub: "set ts' \<subseteq> insert tp (set ts)" using set_remove1_subset [of tp ts] by (auto simp: ts'_def)
    have "owner k tp \<noteq> NONE" if "tp < nat NR_SYS_PROCS"
      using table_okD(3) [OF _ assms(3,4) tp that] assms(2) by (simp add: machine_ok_def)
    then show ?thesis unfolding clock_owned_def table_idents(1) [OF i] using ts' sub ts(2) by blast
  next
    case False
    then have "k' = k" using assms(1) tp by (simp add: do_setalarm_def)
    then show ?thesis using assms(2) by (simp add: machine_ok_def)
  qed
qed

lemma clock_owned_timers:
  assumes "clock_owned k" "get_timers k' = get_timers k" "next_timeout (clk k') = next_timeout (clk k)" "idents k' = idents k"
  shows "clock_owned k'"
  using assms(1) table_idents(1) [OF assms(4)] unfolding clock_owned_def clock_list_def assms(2,3) by simp

lemma do_settime_machine: "do_settime b now s n k = Some (r, k') \<Longrightarrow> machine_ok k \<Longrightarrow> machine_ok k'"
proof (rule machine_ok_clk, assumption)
  assume r: "do_settime b now s n k = Some (r, k')" and ok: "machine_ok k"
  note keeps = do_settime_keeps [OF r]
  show "kernel_ok k'" "bill_ptr k' = bill_ptr k" "irqs k' = irqs k" and i: "idents k' = idents k"
    using keeps ok by (simp_all add: machine_ok_def)
  have "get_timers k' = get_timers k" "next_timeout (clk k') = next_timeout (clk k)"
    using r by (auto simp: do_settime_def Let_def get_timers_def split: if_splits)
  then show "clock_owned k'" by (rule clock_owned_timers [rotated]) (use i ok in \<open>simp_all add: machine_ok_def\<close>)
qed

lemma do_stime_machine: "do_stime t k = (r, k') \<Longrightarrow> machine_ok k \<Longrightarrow> machine_ok k'"
proof (rule machine_ok_clk, assumption)
  assume r: "do_stime t k = (r, k')" and ok: "machine_ok k"
  note keeps = do_stime_keeps [OF r]
  show "kernel_ok k'" "bill_ptr k' = bill_ptr k" "irqs k' = irqs k" and i: "idents k' = idents k"
    using keeps ok by (simp_all add: machine_ok_def)
  have "get_timers k' = get_timers k" "next_timeout (clk k') = next_timeout (clk k)"
    using r by (auto simp: do_stime_def get_timers_def)
  then show "clock_owned k'" by (rule clock_owned_timers [rotated]) (use i ok in \<open>simp_all add: machine_ok_def\<close>)
qed

lemma do_abort_machine:
  assumes "do_abort how k = Some (r, k')" "machine_ok k"
  shows "machine_ok k'"
proof -
  obtain ts where ts: "clock_list k ts" "\<forall>i \<in> set ts. i < nat NR_SYS_PROCS \<longrightarrow> owner k i \<noteq> NONE"
    using assms(2) by (auto simp: machine_ok_def clock_owned_def)
  let ?q = "get_timers k"
  define q where "q = upd_tmr SHUTDOWN_TIMER (\<lambda>t. t\<lparr>tmr_arg := how\<rparr>) ?q"
  have l: "timer_list ?q ts" "sorted (map (expiry ?q) ts)" using ts(1) by (simp_all add: clock_list_def timers_sorted_def)
  have ex: "expiry q = expiry ?q" by (rule ext) (auto simp: q_def expiry_def upd_tmr_def)
  have lq: "timer_list q ts" using l(1) by (simp add: q_def timer_list_def fun_upd_idem timer_next_def)
  have "sorted (map (expiry q) (remove1 SHUTDOWN_TIMER ts))"
    using l timer_list_distinct [OF l(1)] ex by (simp add: distinct_remove1_removeAll removeAll_filter_not_eq sorted_filter)
  then obtain k1 f where k1: "set_kernel_timer SHUTDOWN_TIMER (monotonic k + system_hz (clk k)) Minix_Shutdown (put_timers q k) = Some k1"
      "clock_list k1 (insert_timer (expiry q) (monotonic k + system_hz (clk k)) SHUTDOWN_TIMER (remove1 SHUTDOWN_TIMER ts))"
      "k1 = set_clk f (put_timers q k)"
    using set_kernel_timer_result [of "put_timers q k" ts SHUTDOWN_TIMER "monotonic k + system_hz (clk k)" Minix_Shutdown] lq
    unfolding timers_sel(1) by blast
  have k': "k' = k1" using assms(1) k1(1) by (simp add: do_abort_def prepare_shutdown_def q_def)
  have i: "idents k' = idents k" by (simp add: k' k1(3))
  have "clock_owned k'"
    unfolding clock_owned_def table_idents(1) [OF i]
    using k1(2) ts(2) by (auto simp: k' SHUTDOWN_TIMER_def NR_SYS_PROCS_def dest!: set_remove1_subset [THEN subsetD] intro!: exI)
  moreover have "kernel_ok k'" "bill_ptr k' = bill_ptr k" "irqs k' = irqs k"
    using assms(2) by (simp_all add: k' k1(3) machine_ok_def kernel_ok_clk)
  ultimately show ?thesis using machine_ok_clk [OF assms(2)] i by blast
qed

text \<open>Requests about interrupts give hooks to live callers only.\<close>

lemma in_use_alive: "table_ok k \<Longrightarrow> isokprocn c \<Longrightarrow> \<not> has (p_rts_flags (procs k c)) RTS_SLOT_FREE \<Longrightarrow>
    alive_as k (p_endpoint (procs k c)) c"
  using table_okD(2) by (simp add: alive_as_def)

lemma endpoint_not_NONE: "table_ok k \<Longrightarrow> isokprocn c \<Longrightarrow> p_endpoint (procs k c) \<noteq> NONE"
  using table_okD(2) [of k c] by (auto simp: isokprocn_def NONE_def endpoint_defs NR_TASKS_def NR_PROCS_def)

lemma do_irqctl_machine:
  assumes "do_irqctl c q v p j k = Some (r, x, k')" "machine_ok k" "isokprocn c" "\<not> has (p_rts_flags (procs k c)) RTS_SLOT_FREE"
  shows "machine_ok k'"
proof -
  have ok: "table_ok k" "irqs_fine (irqs k)" "kernel_ok k" using assms(2) by (simp_all add: machine_ok_def irq_ok_def)
  obtain s where s: "k' = k\<lparr>irqs := s\<rparr>" "irqs_fine s" "hooks_from (irqs k) (p_endpoint (procs k c)) s"
    using do_irqctl_result [OF ok(2) endpoint_not_NONE [OF ok(1) assms(3)], of q v p j] assms(1) by auto
  have k': "k' = set_irqs (\<lambda>_. s) k" by (simp add: s(1) set_irqs_def)
  have i: "idents k' = idents k" by (simp add: k')
  have al: "alive_as k' e y = alive_as k e y" for e y by (rule alive_as_idents [OF i])
  have "hooks_alive k'"
    unfolding hooks_alive_def drivers_alive_def
  proof
    fix h assume h: "h \<in> attached (irqs k') - {TIMER_HOOK}"
    then have "hook_proc_nr_e (hooks s h) = p_endpoint (procs k c) \<or> h \<in> attached (irqs k) \<and> hook_key (hooks s h) = hook_key (hooks (irqs k) h)"
      using s(3) by (auto simp: k' hooks_from_def)
    then show "\<exists>y. alive_as k' (hook_proc_nr_e (hooks (irqs k') h)) y"
    proof
      assume "hook_proc_nr_e (hooks s h) = p_endpoint (procs k c)"
      then show ?thesis using in_use_alive [OF ok(1) assms(3,4)] unfolding al by (auto simp: k')
    next
      assume "h \<in> attached (irqs k) \<and> hook_key (hooks s h) = hook_key (hooks (irqs k) h)"
      then show ?thesis using h assms(2) unfolding al by (auto simp: k' hook_key_def machine_ok_def hooks_alive_def drivers_alive_def)
    qed
  qed
  moreover have "clock_owned k'" using clock_owned_timers [of k k'] i assms(2) by (simp add: k' machine_ok_def get_timers_def)
  ultimately show ?thesis
    using assms(2) s(2) table_idents(4) [OF i] by (simp add: machine_ok_def irq_ok_def k' kernel_ok_irqs)
qed

lemma irq_handle_machine:
  assumes "irq_handle lethal irq k = Some k'" "machine_ok k"
  shows "machine_ok k'"
proof -
  have ok: "irq_ok k" "clock_owned k" "kernel_ok k" "is_proc (bill_ptr k)" using assms(2) by (simp_all add: machine_ok_def)
  have f: "idents k' = idents k" "bill_ptr k' = bill_ptr k" "clock_sub k k'" "kernel_ok k'"
    using irq_handle_frame [OF assms(1) ok(1)] ok clock_owned_ok [OF ok(2)] by (simp_all add: handler_frame_def)
  have h: "irq_ok k'" "hooks (irqs k') = hooks (irqs k)" using irq_handle_irqs [OF assms(1) ok(1)] by simp_all
  have "attached (irqs k') = attached (irqs k)" by (simp add: attached_def h(2))
  then have "hooks_alive k'"
    using assms(2) drivers_idents(1) [OF f(1) h(2)] by (simp add: machine_ok_def hooks_alive_def)
  then show ?thesis
    using f h(1) assms(2) table_idents [OF f(1)] clock_owned_sub [OF f(3)] by (simp add: machine_ok_def)
qed

section \<open>Fork\<close>

lemma hooks_alive_mono:
  assumes "hooks_alive k" "irqs k' = irqs k"
    and "\<And>e p. e \<noteq> NONE \<Longrightarrow> (\<exists>h. h < NR_IRQ_HOOKS \<and> hook_proc_nr_e (hooks (irqs k) h) = e) \<Longrightarrow> alive_as k e p \<Longrightarrow> alive_as k' e p"
  shows "hooks_alive k'"
  unfolding hooks_alive_def drivers_alive_def assms(2)
proof
  fix h assume h: "h \<in> attached (irqs k) - {TIMER_HOOK}"
  then have "h < NR_IRQ_HOOKS" using attached_cases by blast
  then have "hook_proc_nr_e (hooks (irqs k) h) \<noteq> NONE" using h attached_below by blast
  moreover obtain p where "alive_as k (hook_proc_nr_e (hooks (irqs k) h)) p"
    using assms(1) h unfolding hooks_alive_def drivers_alive_def by blast
  ultimately show "\<exists>p. alive_as k' (hook_proc_nr_e (hooks (irqs k) h)) p" using assms(3) \<open>h < NR_IRQ_HOOKS\<close> by blast
qed

lemma do_fork_result:
  assumes "do_fork e slot flags k = Some (c, reply, k')" "kernel_ok k"
  obtains "k' = k"
  | rpp where "isokendpt k e = Some rpp" "isokprocn slot" "isemptyn k slot" "k' = upd_proc slot (fork_child k rpp slot flags) k"
proof (cases "c = OK")
  case False
  then have "k' = k" using assms(1) by (auto simp: do_fork_def Let_def bind_eq_Some_conv split: option.splits if_splits)
  then show thesis by (rule that(1))
next
  case True
  then obtain rpp where rpp: "isokendpt k e = Some rpp" "isokprocn slot" "isemptyn k slot"
      "RTS_ISSET k rpp RTS_RECEIVING" "\<not> has (misc k rpp) MF_DELIVERMSG"
    using assms(1) by (auto simp: do_fork_def Let_def split: option.splits if_splits)
  have "p_priv (procs k rpp) \<noteq> None" using kernel_ok_wf(5) [OF assms(2) isokendpt_is_proc [OF rpp(1)]] by auto
  from do_fork_child [OF rpp(1) this rpp(2-5), of flags] assms(1) show thesis using that(2) rpp by simp
qed

lemma fork_child_free:
  "has (p_rts_flags (fork_child k rpp slot flags r)) RTS_SLOT_FREE = has (p_rts_flags (procs k rpp)) RTS_SLOT_FREE"
proof -
  have "\<not> has (RTS_SIGNALED OR RTS_SIG_PENDING OR RTS_P_STOP) RTS_SLOT_FREE" by (simp add: has_def RTS_defs)
  then have c: "has (w AND NOT (RTS_SIGNALED OR RTS_SIG_PENDING OR RTS_P_STOP)) RTS_SLOT_FREE = has w RTS_SLOT_FREE" for w
    by (rule has_clear_not)
  have "\<exists>a b. p_rts_flags (fork_child k rpp slot flags r) = (p_rts_flags (procs k rpp) OR RTS_NO_QUANTUM OR a OR b) AND
      NOT (RTS_SIGNALED OR RTS_SIG_PENDING OR RTS_P_STOP) \<and> a \<in> {0, RTS_NO_PRIV} \<and> b \<in> {0, RTS_VMINHIBIT}"
    by (rule exI [of _ "if \<exists>pr. priv_of k rpp = Some pr \<and> has (s_flags pr) SYS_PROC then RTS_NO_PRIV else 0"],
        rule exI [of _ "if has flags PFF_VMINHIBIT then RTS_VMINHIBIT else 0"])
      (simp add: fork_child_def fork_copy_def Let_def)
  then obtain a b where f: "p_rts_flags (fork_child k rpp slot flags r) = (p_rts_flags (procs k rpp) OR RTS_NO_QUANTUM OR a OR b) AND
      NOT (RTS_SIGNALED OR RTS_SIG_PENDING OR RTS_P_STOP)" "a \<in> {0, RTS_NO_PRIV}" "b \<in> {0, RTS_VMINHIBIT}" by blast
  have "\<not> has a RTS_SLOT_FREE" "\<not> has b RTS_SLOT_FREE" using f(2,3) by auto
  then show ?thesis unfolding f(1) c by (simp add: has_or)
qed

lemma isempty_free: "isemptyn k p \<Longrightarrow> has (p_rts_flags (procs k p)) RTS_SLOT_FREE"
  by (simp add: isemptyn_def has_def RTS_SLOT_FREE_def)

lemma do_fork_machine:
  assumes "do_fork e slot flags k = Some (c, reply, k')" "machine_ok k" "\<not> iskerneln slot"
  shows "machine_ok k'"
proof -
  have ok: "kernel_ok k" "table_ok k" using assms(2) by (simp_all add: machine_ok_def)
  from assms(1) ok(1) show ?thesis
  proof (cases rule: do_fork_result)
    case 1
    then show ?thesis using assms(2) by simp
  next
    case (2 rpp)
    let ?c = "fork_child k rpp slot flags (procs k slot)"
    have rpp: "is_proc rpp" by (rule isokendpt_is_proc [OF 2(1)])
    have free: "has (p_rts_flags (procs k slot)) RTS_SLOT_FREE" by (rule isempty_free [OF 2(3)])
    have k': "procs k' = (procs k)(slot := ?c)" "privs k' = privs k" using 2(4) by simp_all
    have c: "p_nr ?c = slot" "ENDPOINT_P (p_endpoint ?c) = slot"
        "has (p_rts_flags ?c) RTS_SLOT_FREE = has (p_rts_flags (procs k rpp)) RTS_SLOT_FREE"
      using fork_endpoint_fresh(1) [OF 2(2)] fork_child_free by (simp_all add: fork_child_def fork_copy_def Let_def)
    have own: "owner k i \<noteq> NONE \<and> \<not> is_sys k i"
      if i: "p_priv ?c = Some i" "i < nat NR_SYS_PROCS" "\<not> has (p_rts_flags ?c) RTS_SLOT_FREE" for i
    proof (cases "\<exists>pr. priv_of k rpp = Some pr \<and> has (s_flags pr) SYS_PROC")
      case True
      then have "i = nat USER_PRIV_ID" using i(1) by (simp add: fork_child_def Let_def)
      then show ?thesis using table_okD(5,6) [OF ok(2)] by simp
    next
      case False
      then have "p_priv (procs k rpp) = Some i" 
        using i(1) unfolding fork_child_def Let_def if_not_P [OF False] by (simp add: fork_copy_def)
      moreover have "in_use k rpp" using i(3) c(3) by (simp add: in_use_def)
      ultimately show ?thesis using table_okD(3) [OF ok(2) rpp] i(2) False by (auto simp: is_sys_def priv_of_def)
    qed
    have o: "owner k' = owner k" "is_sys k' = is_sys k" by (auto simp: owner_def is_sys_def k'(2) fun_eq_iff)
    have "table_ok k'"
      unfolding table_ok_def o
    proof (intro conjI allI impI)
      fix p i
      show "p_nr (procs k' p) = p" if "is_proc p" using table_okD(1) [OF ok(2) that] c(1) by (simp add: k')
      show "ENDPOINT_P (p_endpoint (procs k' p)) = p" if "isokprocn p" using table_okD(2) [OF ok(2) that] c(2) by (simp add: k')
      assume p: "is_proc p" "in_use k' p" "p_priv (procs k' p) = Some i" "i < nat NR_SYS_PROCS"
      have "owner k i \<noteq> NONE \<and> (is_sys k i \<longrightarrow> owner k i = p)"
        using p own [of i] table_okD(3,4) [OF ok(2) p(1)] assms(3) by (cases "p = slot") (auto simp: k' in_use_def)
      then show "owner k i \<noteq> NONE" "is_sys k i \<Longrightarrow> owner k i = p" by simp_all
    qed (use table_okD(5,6) [OF ok(2)] in simp_all)
    moreover have "hooks_alive k'"
    proof (rule hooks_alive_mono)
      show "hooks_alive k" using assms(2) by (simp add: machine_ok_def)
      show "alive_as k' x p" if "alive_as k x p" for x p
        using that free by (cases "p = slot") (auto simp: alive_as_def k')
    qed (simp add: 2(4))
    moreover have "clock_owned k'" using assms(2) o(1) by (simp add: machine_ok_def clock_owned_def 2(4) clock_list_def get_timers_def)
    ultimately show ?thesis using assms(2) do_fork_keeps [OF assms(1) ok(1) assms(3)] 2(4) by (simp add: machine_ok_def irq_ok_def)
  qed
qed

section \<open>The end of a process\<close>

lemma release_hooks_result:
  assumes "irqs_fine s" "e \<noteq> NONE" "\<forall>i \<in> set is. i < NR_IRQ_HOOKS"
  shows "\<exists>s'. release_hooks e is s = Some s' \<and> irqs_fine s' \<and>
    (\<forall>h. hook_proc_nr_e (hooks s' h) = (if h \<in> set is \<and> hook_proc_nr_e (hooks s h) = e then NONE else hook_proc_nr_e (hooks s h)))"
  using assms
proof (induction "is" arbitrary: s)
  case Nil
  then show ?case by simp
next
  case (Cons i "is")
  show ?case
  proof (cases "hook_proc_nr_e (hooks s i) = e")
    case False
    then have "(h \<in> set (i # is) \<and> hook_proc_nr_e (hooks s h) = e) = (h \<in> set is \<and> hook_proc_nr_e (hooks s h) = e)" for h
      by auto
    moreover have "release_hooks e (i # is) s = release_hooks e is s" using False by simp
    ultimately show ?thesis using Cons.IH [OF Cons.prems(1,2)] Cons.prems(3) by simp
  next
    case True
    obtain s1 where s1: "rm_irq_handler i s = Some s1" "irqs_fine (upd_hook i (\<lambda>r. r\<lparr>hook_proc_nr_e := NONE\<rparr>) s1)"
        "\<And>g. unlinked (hooks s1 g) = unlinked (hooks s g)"
      using rm_policy_result [of s i] Cons.prems True by auto
    obtain s' where s': "release_hooks e is (upd_hook i (\<lambda>r. r\<lparr>hook_proc_nr_e := NONE\<rparr>) s1) = Some s'" "irqs_fine s'"
        "\<And>h. hook_proc_nr_e (hooks s' h) = (if h \<in> set is \<and> hook_proc_nr_e (hooks (upd_hook i (\<lambda>r. r\<lparr>hook_proc_nr_e := NONE\<rparr>) s1) h) = e
           then NONE else hook_proc_nr_e (hooks (upd_hook i (\<lambda>r. r\<lparr>hook_proc_nr_e := NONE\<rparr>) s1) h))"
      using Cons.IH [OF s1(2)] Cons.prems by auto
    have "hook_proc_nr_e (hooks s' h) = (if h \<in> set (i # is) \<and> hook_proc_nr_e (hooks s h) = e then NONE else hook_proc_nr_e (hooks s h))" for h
      using s'(3) [of h] unlinkedD(4) [OF s1(3), of h] True by (cases "h = i") auto
    then show ?thesis using True s1(1) s'(1,2) by simp
  qed
qed

lemma clear_endpoint_cur [cur]: "clear_endpoint p k = Some k' \<Longrightarrow> outer k' = outer k"
  by (auto simp: clear_endpoint_def cur_splits split: if_splits dest!: cur)

lemma RTS_SETFLAGS_blocked:
  assumes "RTS_SETFLAGS p f k = Some k'" "f \<noteq> 0"
  shows "\<not> proc_is_runnable k p" "k' = upd_proc p (\<lambda>r. r\<lparr>p_rts_flags := f\<rparr>) k"
proof -
  show "\<not> proc_is_runnable k p"
    using assms by (auto simp: RTS_SETFLAGS_def dequeue_def bind_eq_Some_conv split: if_splits)
  then show "k' = upd_proc p (\<lambda>r. r\<lparr>p_rts_flags := f\<rparr>) k" using assms(1) by (simp add: RTS_SETFLAGS_def)
qed

lemma RTS_SETFLAGS_keeps:
  assumes "RTS_SETFLAGS p f k = Some k'" "f \<noteq> 0" "kernel_ok k" "is_proc p"
  shows "kernel_ok k'"
proof -
  note b = RTS_SETFLAGS_blocked [OF assms(1,2)]
  show ?thesis unfolding b(2)
    by (rule kernel_ok_blocked_upd [OF assms(3,4) b(1)])
      (use kernel_ok_well_blocked [OF assms(3,4) b(1)] assms(2) in \<open>simp add: well_blocked_def well_linked_def\<close>)
qed

lemma hooks_released:
  assumes "irqs_fine s" "e \<noteq> NONE"
  obtains s' where "release_hooks e [0..<NR_IRQ_HOOKS] s = Some s'" "irqs_fine s'"
    "\<And>h. h \<in> attached s' - {TIMER_HOOK} \<longleftrightarrow> h \<in> attached s - {TIMER_HOOK} \<and> hook_proc_nr_e (hooks s h) \<noteq> e"
    "\<And>h. h \<in> attached s' - {TIMER_HOOK} \<Longrightarrow> hook_proc_nr_e (hooks s' h) = hook_proc_nr_e (hooks s h)"
proof -
  obtain s' where s': "release_hooks e [0..<NR_IRQ_HOOKS] s = Some s'" "irqs_fine s'"
      "\<And>h. hook_proc_nr_e (hooks s' h) = (if h < NR_IRQ_HOOKS \<and> hook_proc_nr_e (hooks s h) = e then NONE else hook_proc_nr_e (hooks s h))"
    using release_hooks_result [OF assms, of "[0..<NR_IRQ_HOOKS]"] by auto
  have "h \<in> attached s' - {TIMER_HOOK} \<longleftrightarrow> h \<in> attached s - {TIMER_HOOK} \<and> hook_proc_nr_e (hooks s h) \<noteq> e" for h
    using s'(3) [of h] assms(2) attached_cases [of h s] attached_cases [of h s'] by (auto simp: attached_below split: if_splits)
  moreover from this have "hook_proc_nr_e (hooks s' h) = hook_proc_nr_e (hooks s h)" if "h \<in> attached s' - {TIMER_HOOK}" for h
    using that s'(3) [of h] by simp
  ultimately show thesis using that s'(1,2) by blast
qed

text \<open>Freeing a slot that has neither hooks nor a queued timer.\<close>

definition free_slot :: "int \<Rightarrow> nat \<Rightarrow> kernel \<Rightarrow> kernel" where
  "free_slot p i k =
     (let k1 = clear_misc p MF_FPU_INITIALIZED (upd_proc p (\<lambda>r. r\<lparr>p_rts_flags := RTS_SLOT_FREE\<rparr>) k)
      in if has (s_flags (privs k i)) SYS_PROC then upd_priv i (\<lambda>pr. pr\<lparr>s_proc_nr := NONE\<rparr>) k1 else k1)"

lemma free_slot_sel [simp]:
  "procs (free_slot p i k) = (procs k)(p := (procs k p)\<lparr>p_rts_flags := RTS_SLOT_FREE,
     p_misc_flags := p_misc_flags (procs k p) AND NOT MF_FPU_INITIALIZED\<rparr>)"
  "owner (free_slot p i k) j = (if j = i \<and> is_sys k i then NONE else owner k j)"
  "is_sys (free_slot p i k) j = is_sys k j" "clk (free_slot p i k) = clk k" "irqs (free_slot p i k) = irqs k"
  "bill_ptr (free_slot p i k) = bill_ptr k" "proc_ptr (free_slot p i k) = proc_ptr k" "monotonic (free_slot p i k) = monotonic k"
  by (simp_all add: free_slot_def Let_def owner_def is_sys_def clear_misc_def)

lemma free_slot_table:
  assumes t: "table_ok k" and p: "is_proc p" "\<not> iskerneln p" "in_use k p" and i: "p_priv (procs k p) = Some i"
  shows "table_ok (free_slot p i k)"
  unfolding table_ok_def
proof (intro conjI allI impI)
  let ?k = "free_slot p i k"
  have iu: "in_use ?k x \<longleftrightarrow> in_use k x \<and> x \<noteq> p" for x using p(2) by (auto simp: in_use_def has_def RTS_SLOT_FREE_def)
  fix x j
  show "p_nr (procs ?k x) = x" if "is_proc x" using table_okD(1) [OF t that] by auto
  show "ENDPOINT_P (p_endpoint (procs ?k x)) = x" if "isokprocn x" using table_okD(2) [OF t that] by auto
  assume x: "is_proc x" "in_use ?k x" "p_priv (procs ?k x) = Some j" "j < nat NR_SYS_PROCS"
  have x': "in_use k x" "x \<noteq> p" "p_priv (procs k x) = Some j" using x(2,3) by (auto simp: iu)
  note own = table_okD(3,4) [OF t x(1) x'(1,3) x(4)]
  have "\<not> (j = i \<and> is_sys k i)" using own(2) table_okD(4) [OF t p(1,3) i] x(4) x'(2) by auto
  then show "owner ?k j \<noteq> NONE" "is_sys ?k j \<Longrightarrow> owner ?k j = x" using own by auto
qed (use table_okD(5,6) [OF t] in auto)

lemma free_slot_machine:
  assumes k: "kernel_ok k" "\<not> proc_is_runnable k p" "table_ok k" "is_proc (bill_ptr k)" "irqs_fine (irqs k)"
    and p: "is_proc p" "\<not> iskerneln p" "in_use k p" "p_priv (procs k p) = Some i"
    and ts: "clock_list k ts" "\<forall>j \<in> set ts. j < nat NR_SYS_PROCS \<longrightarrow> owner k j \<noteq> NONE" "i \<notin> set ts"
    and h: "\<forall>h \<in> attached (irqs k) - {TIMER_HOOK}. hook_proc_nr_e (hooks (irqs k) h) \<noteq> p_endpoint (procs k p) \<and>
      (\<exists>x. alive_as k (hook_proc_nr_e (hooks (irqs k) h)) x)"
  shows "machine_ok (free_slot p i k)"
proof -
  let ?k = "free_slot p i k"
  have nz: "RTS_SLOT_FREE \<noteq> 0" by simp
  have "kernel_ok (upd_proc p (\<lambda>r. r\<lparr>p_rts_flags := RTS_SLOT_FREE\<rparr>) k)"
    by (rule kernel_ok_blocked_upd [OF k(1) p(1) k(2)])
      (use kernel_ok_well_blocked [OF k(1) p(1) k(2)] in \<open>simp add: well_blocked_def well_linked_def\<close>)
  then have "kernel_ok ?k" by (auto simp: free_slot_def Let_def intro!: kernel_ok_upd_priv status_keeps)
  moreover have "clock_owned ?k"
    unfolding clock_owned_def using ts by (intro exI [of _ ts]) (auto simp: clock_list_def get_timers_def)
  moreover have "hooks_alive ?k"
    unfolding hooks_alive_def drivers_alive_def
  proof
    fix g assume "g \<in> attached (irqs ?k) - {TIMER_HOOK}"
    with h obtain x where x: "hook_proc_nr_e (hooks (irqs k) g) \<noteq> p_endpoint (procs k p)" "alive_as k (hook_proc_nr_e (hooks (irqs k) g)) x"
      by auto
    then have "x \<noteq> p" by (auto simp: alive_as_def)
    then have "alive_as ?k (hook_proc_nr_e (hooks (irqs ?k) g)) x" using x(2) by (simp add: alive_as_def)
    then show "\<exists>x. alive_as ?k (hook_proc_nr_e (hooks (irqs ?k) g)) x" ..
  qed
  ultimately show ?thesis using k(4,5) free_slot_table [OF k(3) p] by (simp add: machine_ok_def irq_ok_def)
qed

text \<open>The call step by step: the state before the slot is freed, and its end.\<close>

lemma do_clear_steps:
  assumes c: "do_clear e k = Some (r, k')" and ok: "machine_ok k" and rc: "isokendpt k e = Some rc"
  obtains s k2 i k3 where "release_hooks e [0..<NR_IRQ_HOOKS] (irqs k) = Some s"
    "clear_endpoint rc (set_irqs (\<lambda>_. s) k) = Some k2" "p_priv (procs k2 rc) = Some i" "reset_kernel_timer i k2 = Some k3"
    "\<not> proc_is_runnable k3 rc" "r = OK" "k' = free_slot rc i k3"
proof -
  have live: "isokprocn rc" "\<not> isemptyn k rc" "p_endpoint (procs k rc) = e"
    using rc by (auto simp: isokendpt_def Let_def split: if_splits)
  obtain s k2 i k3 k4 where st: "release_hooks e [0..<NR_IRQ_HOOKS] (irqs k) = Some s"
      "clear_endpoint rc (set_irqs (\<lambda>_. s) k) = Some k2" "p_priv (procs k2 rc) = Some i" "reset_kernel_timer i k2 = Some k3"
      "RTS_SETFLAGS rc RTS_SLOT_FREE k3 = Some k4" "r = OK"
      "k' = (if has (s_flags (privs (clear_misc rc MF_FPU_INITIALIZED k4) i)) SYS_PROC
             then upd_priv i (\<lambda>pr. pr\<lparr>s_proc_nr := NONE\<rparr>) (clear_misc rc MF_FPU_INITIALIZED k4) else clear_misc rc MF_FPU_INITIALIZED k4)"
    using c rc live(2,3) by (auto simp: do_clear_def Let_def bind_eq_Some_conv set_irqs_def)
  have k4: "\<not> proc_is_runnable k3 rc" "k4 = upd_proc rc (\<lambda>r. r\<lparr>p_rts_flags := RTS_SLOT_FREE\<rparr>) k3"
    using RTS_SETFLAGS_blocked [OF st(5)] by simp_all
  have "k' = free_slot rc i k3" unfolding st(7) k4(2) free_slot_def Let_def by (simp add: clear_misc_def)
  then show thesis using that st k4(1) by blast
qed

lemma clear_ready:
  assumes ok: "machine_ok k" and rc: "isokendpt k e = Some rc"
    and s: "release_hooks e [0..<NR_IRQ_HOOKS] (irqs k) = Some s" and k2: "clear_endpoint rc (set_irqs (\<lambda>_. s) k) = Some k2"
    and k3: "p_priv (procs k2 rc) = Some i" "reset_kernel_timer i k2 = Some k3"
  shows "kernel_ok k3" "idents k3 = idents k" "bill_ptr k3 = bill_ptr k" "proc_ptr k3 = proc_ptr k" "irqs k3 = s" "irqs_fine s"
    "\<exists>ts. clock_list k3 ts \<and> (\<forall>j \<in> set ts. j < nat NR_SYS_PROCS \<longrightarrow> owner k3 j \<noteq> NONE) \<and> i \<notin> set ts"
    "\<forall>h \<in> attached s - {TIMER_HOOK}. hook_proc_nr_e (hooks s h) \<noteq> e \<and> (\<exists>x. alive_as k3 (hook_proc_nr_e (hooks s h)) x)"
proof -
  have ok': "table_ok k" "irqs_fine (irqs k)" "kernel_ok k" "hooks_alive k" using ok by (simp_all add: machine_ok_def irq_ok_def)
  have live: "isokprocn rc" "p_endpoint (procs k rc) = e"
    using rc by (auto simp: isokendpt_def Let_def split: if_splits)
  have e: "e \<noteq> NONE" using endpoint_not_NONE [OF ok'(1) live(1)] live(2) by simp
  note o = outerD [OF clear_endpoint_cur [OF k2]]
  obtain ts where ts: "clock_list k ts" "\<forall>i \<in> set ts. i < nat NR_SYS_PROCS \<longrightarrow> owner k i \<noteq> NONE"
    using ok by (auto simp: machine_ok_def clock_owned_def)
  have "clock_list k2 ts" using ts(1) o(2) by (simp add: clock_list_def get_timers_def)
  from reset_kernel_timer_result [OF this, of i] k3(2)
  obtain f where f: "clock_list k3 (remove1 i ts)" "k3 = set_clk f k2" by auto
  show i3: "idents k3 = idents k" "bill_ptr k3 = bill_ptr k" "proc_ptr k3 = proc_ptr k" "irqs k3 = s"
    using o by (simp_all add: f(2))
  have "kernel_ok k2" by (rule clear_endpoint_keeps [OF k2 kernel_ok_irqs [OF ok'(3)] isokendpt_is_proc [OF rc]])
  then show "kernel_ok k3" by (simp add: f(2) kernel_ok_clk)
  have "distinct ts" using ts(1) by (auto simp: clock_list_def dest: timer_list_distinct)
  then show "\<exists>ts. clock_list k3 ts \<and> (\<forall>j \<in> set ts. j < nat NR_SYS_PROCS \<longrightarrow> owner k3 j \<noteq> NONE) \<and> i \<notin> set ts"
    using f(1) ts(2) unfolding table_idents(1) [OF i3(1)] by (intro exI [of _ "remove1 i ts"]) (simp add: set_remove1_eq)
  obtain s' where s': "release_hooks e [0..<NR_IRQ_HOOKS] (irqs k) = Some s'" "irqs_fine s'"
    "\<And>h. h \<in> attached s' - {TIMER_HOOK} \<longleftrightarrow> h \<in> attached (irqs k) - {TIMER_HOOK} \<and> hook_proc_nr_e (hooks (irqs k) h) \<noteq> e"
    "\<And>h. h \<in> attached s' - {TIMER_HOOK} \<Longrightarrow> hook_proc_nr_e (hooks s' h) = hook_proc_nr_e (hooks (irqs k) h)"
    using hooks_released [OF ok'(2) e] by metis
  have "s' = s" using s'(1) s by simp
  note s' = s' [unfolded this]
  show "irqs_fine s" by (rule s'(2))
  show "\<forall>h \<in> attached s - {TIMER_HOOK}. hook_proc_nr_e (hooks s h) \<noteq> e \<and> (\<exists>x. alive_as k3 (hook_proc_nr_e (hooks s h)) x)"
  proof
    fix h assume h: "h \<in> attached s - {TIMER_HOOK}"
    show "hook_proc_nr_e (hooks s h) \<noteq> e \<and> (\<exists>x. alive_as k3 (hook_proc_nr_e (hooks s h)) x)"
      using h s'(3,4) [of h] ok'(4) unfolding hooks_alive_def drivers_alive_def alive_as_idents [OF i3(1)] by simp
  qed
qed

text \<open>The processes PM and RS call the kernel about are no kernel tasks and have not been cleared.\<close>

definition ordinary :: "kernel \<Rightarrow> int \<Rightarrow> bool" where
  "ordinary k e \<longleftrightarrow> (case isokendpt k e of None \<Rightarrow> True | Some p \<Rightarrow> \<not> iskerneln p \<and> in_use k p)"

lemma do_clear_machine:
  assumes c: "do_clear e k = Some (r, k')" and ok: "machine_ok k" and t: "ordinary k e"
  shows "machine_ok k' \<and> proc_ptr k' = proc_ptr k"
proof (cases "isokendpt k e")
  case None
  then show ?thesis using c ok by (simp add: do_clear_def)
next
  case (Some rc)
  obtain s k2 i k3 where st: "release_hooks e [0..<NR_IRQ_HOOKS] (irqs k) = Some s"
      "clear_endpoint rc (set_irqs (\<lambda>_. s) k) = Some k2" "p_priv (procs k2 rc) = Some i" "reset_kernel_timer i k2 = Some k3"
      "\<not> proc_is_runnable k3 rc" "k' = free_slot rc i k3"
    using do_clear_steps [OF c ok Some] by metis
  note r = clear_ready [OF ok Some st(1-4)]
  have live: "p_endpoint (procs k rc) = e" using Some by (auto simp: isokendpt_def Let_def split: if_splits)
  have t': "\<not> iskerneln rc" "in_use k rc" using t Some by (simp_all add: ordinary_def)
  then have u: "in_use k3 rc" by (simp add: table_idents(3) [OF r(2)])
  have i: "p_priv (procs k3 rc) = Some i" using st(3) identsD(2) [OF r(2)] identsD(2) [OF outerD(6) [OF clear_endpoint_cur [OF st(2)]]] by simp
  obtain ts where ts: "clock_list k3 ts" "\<forall>j \<in> set ts. j < nat NR_SYS_PROCS \<longrightarrow> owner k3 j \<noteq> NONE" "i \<notin> set ts" using r(7) by blast
  have "machine_ok (free_slot rc i k3)"
    by (rule free_slot_machine [OF r(1) st(5) _ _ _ isokendpt_is_proc [OF Some] t'(1) u i ts])
      (use ok r(3,5,6,8) table_idents(4) [OF r(2)] identsD(1) [OF r(2)] live in \<open>simp_all add: machine_ok_def\<close>)
  then show ?thesis by (simp add: st(6) r(4))
qed

section \<open>Consistent kernels\<close>

lemma kernel_ok_proc_ptr: "kernel_ok k \<Longrightarrow> is_proc q \<Longrightarrow> kernel_ok (k\<lparr>proc_ptr := q\<rparr>)"
proof -
  assume ok: "kernel_ok k" and q: "is_proc q"
  then obtain L where L: "sched_inv L k" "links_ok k" by (auto simp: kernel_ok_def)
  have "wf_proc (k\<lparr>proc_ptr := q\<rparr>) p = wf_proc k p" for p
    by (simp add: wf_proc_def proc_ptr_ok_def queue_index_def priv_of_def Let_def)
  moreover have "runnables (k\<lparr>proc_ptr := q\<rparr>) = runnables k" by (simp add: runnables_def proc_is_runnable_def)
  moreover have "run_queues L (k\<lparr>proc_ptr := q\<rparr>)" if "run_queues L k"
    by (rule run_queues_cong [OF that]) (simp_all add: next_of_def)
  ultimately have "sched_inv L (k\<lparr>proc_ptr := q\<rparr>)"
    using L(1) q by (simp add: sched_inv_def queues_hold_def wf_kernel_def ticket_sum_def)
  moreover have "links_ok (k\<lparr>proc_ptr := q\<rparr>)" using L(2) by (simp add: links_ok_def)
  ultimately show ?thesis by (auto simp: kernel_ok_def)
qed

lemma idle_is_proc [simp]: "is_proc idle_proc"
  by (simp add: is_proc_def)

lemma machine_ok_ptrs:
  assumes "machine_ok k" "is_proc q"
  shows "machine_ok (k\<lparr>proc_ptr := q\<rparr>)" "machine_ok (k\<lparr>bill_ptr := q\<rparr>)"
proof -
  have "machine_ok k'" if "kernel_ok k'" "is_proc (bill_ptr k')" "idents k' = idents k" "irqs k' = irqs k" "clk k' = clk k" for k'
    using that assms(1) hooks_alive_idents [OF that(3,4)] table_idents(4) [OF that(3)]
      clock_owned_sub [OF clock_sub_same [OF that(5)] table_idents(1) [OF that(3)]] by (simp add: machine_ok_def irq_ok_def)
  then show "machine_ok (k\<lparr>proc_ptr := q\<rparr>)" "machine_ok (k\<lparr>bill_ptr := q\<rparr>)"
    using assms machine_kernel [OF assms(1)] kernel_ok_proc_ptr kernel_ok_fields(4) by (simp_all add: idents_def machine_ok_def)
qed

lemma demo_kernel_ok: "kernel_ok demo_kernel"
proof -
  have "ipc_kernel\<lparr>proc_ptr := idle_proc\<rparr> = demo_kernel" by (simp add: ipc_kernel_def demo_kernel_def)
  with kernel_ok_proc_ptr [OF ipc_kernel_ok idle_is_proc] show ?thesis by (simp only:)
qed

lemma demo_machine_ok: "machine_ok demo_kernel"
proof -
  have h: "hooks (irqs demo_kernel) x = \<lparr>hook_next = None, hook_handler = Timer_Int_Handler, hook_irq = 0, hook_id = 1,
       hook_proc_nr_e = NONE, hook_notify_id = 0, hook_policy = 0\<rparr>" "irq_handlers (irqs demo_kernel) = [0 \<mapsto> 16]"
      "irq_actids (irqs demo_kernel) = (\<lambda>_. 0)" "irq_masked (irqs demo_kernel) = (\<lambda>i. i \<noteq> 0)" for x
    by (simp_all add: demo_kernel_def demo_irqs_def)
  have at: "attached (irqs demo_kernel) = {TIMER_HOOK}" by (auto simp: attached_def h)
  have one: "one_bit 1" by (auto simp: one_bit_def intro!: exI [of _ 0])
  have "irq_lists {TIMER_HOOK} (irqs demo_kernel) (\<lambda>i. if i = 0 then [TIMER_HOOK] else [])"
    by (auto simp: irq_lists_def irq_list_def h one next_hook_def TIMER_HOOK_def irq_line_def NR_IRQ_VECTORS_def)
  then have irq: "irq_ok demo_kernel"
    by (auto simp: irq_ok_def irqs_fine_def at hook_fits_def h CLOCK_IRQ_def)
  have "clock_list demo_kernel []"
    by (simp add: clock_list_def get_timers_def demo_kernel_def demo_clock_def timer_list_def timers_sorted_def first_timeout_def)
  then have clock: "clock_owned demo_kernel" by (auto simp: clock_owned_def intro!: exI [of _ "[]"])
  have ep: "ENDPOINT_P (p_endpoint (procs demo_kernel p)) = p" if "isokprocn p" for p
    using that by (auto simp: demo_proc_def isokprocn_def idle_proc_def endpoint_defs NR_TASKS_def NR_PROCS_def)
  have sys: "\<not> is_sys demo_kernel i" "i < 16 \<Longrightarrow> owner demo_kernel i \<noteq> NONE" for i
    by (simp_all add: is_sys_def owner_def demo_priv_def has_def PREEMPTIBLE_def BILLABLE_def SYS_PROC_def NONE_def endpoint_defs)
  have "table_ok demo_kernel"
    unfolding table_ok_def
    by (intro conjI allI impI ep) (auto simp: sys demo_proc_def NR_SYS_PROCS_def USER_PRIV_ID_def static_priv_id_def ROOT_USR_PROC_NR_def NR_TASKS_def
        split: if_splits)
  moreover have "bill_ptr demo_kernel = idle_proc" by (simp add: demo_kernel_def)
  ultimately show ?thesis
    using demo_kernel_ok irq clock by (simp add: machine_ok_def hooks_alive_def drivers_alive_def at)
qed

section \<open>Properties\<close>

lemma irqs_views [simp]:
  "isokendpt (set_irqs f k) e = isokendpt k e" "has_pending_asend (set_irqs f k) p q = has_pending_asend k p q"
  "caller_chain (set_irqs f k) d qs = caller_chain k d qs" "P_BLOCKEDON (set_irqs f k) p = P_BLOCKEDON k p"
  by (simp_all add: isokendpt_def isemptyn_def Let_def has_pending_asend_def priv_of_def has_pending_def nr_to_id_def
      caller_chain_def P_BLOCKEDON_def cong: if_cong)


text \<open>Process 3 of \<open>irq_kernel\<close>, a driver that waits for a message.\<close>

lemma irq_machine_ok: "machine_ok irq_kernel"
proof -
  have i: "idents irq_kernel = idents demo_kernel" "clk irq_kernel = clk demo_kernel" "bill_ptr irq_kernel = bill_ptr demo_kernel"
    by (simp_all add: irq_kernel_def ipc_kernel_def idents_def)
  have "attached (irqs irq_kernel) - {TIMER_HOOK} = {0}" by (auto simp: irq_kernel_attached TIMER_HOOK_def)
  then have "hooks_alive irq_kernel" using irq_kernel_facts(4) by (auto simp: hooks_alive_def drivers_alive_def irq_kernel_sel)
  moreover have "clock_owned irq_kernel"
    using demo_machine_ok clock_owned_sub [OF clock_sub_same [OF i(2)] table_idents(1) [OF i(1)]] by (simp add: machine_ok_def)
  ultimately show ?thesis
    using demo_machine_ok irq_kernel_facts(1) irq_kernel_ok table_idents(4) [OF i(1)] i(3) by (simp add: machine_ok_def)
qed


end
