(* ===== verification/Privilege_Control.thy ===== *)
theory Privilege_Control
  imports Process_Calls
begin

text \<open>
  The control of privileges (\<^verbatim>\<open>do_privctl.c\<close>): RS gives a new system process a privilege structure of its own, fills it in,
  lets the process run and stops it, and adds resources (I/O ports, memory, interrupt lines) for PCI drivers.

  The lemmas show that structures keep their owners (\<open>machine_ok\<close>); the properties, that a new
  system process starts with a clean structure of its own, and that resources are added at most once and within bounds.
\<close>

section \<open>The call\<close>

definition SYS_PRIV_ALLOW :: int where "SYS_PRIV_ALLOW = 1"
definition SYS_PRIV_DISALLOW :: int where "SYS_PRIV_DISALLOW = 2"
definition SYS_PRIV_SET_SYS :: int where "SYS_PRIV_SET_SYS = 3"
definition SYS_PRIV_SET_USER :: int where "SYS_PRIV_SET_USER = 4"
definition SYS_PRIV_ADD_IO :: int where "SYS_PRIV_ADD_IO = 5"
definition SYS_PRIV_ADD_MEM :: int where "SYS_PRIV_ADD_MEM = 6"
definition SYS_PRIV_ADD_IRQ :: int where "SYS_PRIV_ADD_IRQ = 7"
definition SYS_PRIV_QUERY_MEM :: int where "SYS_PRIV_QUERY_MEM = 8"
definition SYS_PRIV_UPDATE_SYS :: int where "SYS_PRIV_UPDATE_SYS = 9"
definition SYS_PRIV_YIELD :: int where "SYS_PRIV_YIELD = 10"

lemmas SYS_PRIV_defs = SYS_PRIV_ALLOW_def SYS_PRIV_DISALLOW_def SYS_PRIV_SET_SYS_def SYS_PRIV_SET_USER_def
  SYS_PRIV_ADD_IO_def SYS_PRIV_ADD_MEM_def SYS_PRIV_ADD_IRQ_def SYS_PRIV_QUERY_MEM_def SYS_PRIV_UPDATE_SYS_def
  SYS_PRIV_YIELD_def

definition DYN_PRIV_ID :: "16 word" where "DYN_PRIV_ID = 0x008"
definition CHECK_IO_PORT :: "16 word" where "CHECK_IO_PORT = 0x020"
definition CHECK_MEM :: "16 word" where "CHECK_MEM = 0x080"
definition SRV_F :: "16 word" where "SRV_F = SYS_PROC OR PREEMPTIBLE"
definition DSRV_F :: "16 word" where "DSRV_F = SRV_F OR DYN_PRIV_ID"
definition DSRV_SM :: int where "DSRV_SM = 2"
definition NR_IO_RANGE :: int where "NR_IO_RANGE = 64"
definition NR_MEM_RANGE :: int where "NR_MEM_RANGE = 20"
definition NR_IRQ :: int where "NR_IRQ = 16"

text \<open>
  What the request points at in the memory of the caller. The results of the copies of an I/O range and of an IRQ number
  are not checked: after a failed copy the kernel goes on with whatever its variable held.
\<close>

record priv_arg =
  arg_ptr :: bool
  arg_priv :: "code + priv"
  arg_io :: io_range
  arg_mem :: "code + minix_mem_range"
  arg_irq :: int

text \<open>Copying a table: the entries below the count are taken from the source.\<close>

definition copy_tab :: "int \<Rightarrow> (nat \<Rightarrow> 'a) \<Rightarrow> (nat \<Rightarrow> 'a) \<Rightarrow> nat \<Rightarrow> 'a" where
  "copy_tab n src dst = (\<lambda>i. if int i < n then src i else dst i)"

definition update_irqs :: "priv \<Rightarrow> priv \<Rightarrow> code \<times> priv" where
  "update_irqs new pr =
     (if \<not> has (s_flags new) CHECK_IRQ then (OK, pr)
      else if s_nr_irq new < 0 \<or> s_nr_irq new > NR_IRQ then (EINVAL, pr)
      else (OK, pr\<lparr>s_nr_irq := s_nr_irq new, s_irq_tab := copy_tab (s_nr_irq new) (s_irq_tab new) (s_irq_tab pr)\<rparr>))"

definition update_io :: "priv \<Rightarrow> priv \<Rightarrow> code \<times> priv" where
  "update_io new pr =
     (if \<not> has (s_flags new) CHECK_IO_PORT then (OK, pr)
      else if s_nr_io_range new < 0 \<or> s_nr_io_range new > NR_IO_RANGE then (EINVAL, pr)
      else (OK, pr\<lparr>s_nr_io_range := s_nr_io_range new,
                   s_io_tab := copy_tab (s_nr_io_range new) (s_io_tab new) (s_io_tab pr)\<rparr>))"

definition update_mem :: "priv \<Rightarrow> priv \<Rightarrow> code \<times> priv" where
  "update_mem new pr =
     (if \<not> has (s_flags new) CHECK_MEM then (OK, pr)
      else if s_nr_mem_range new < 0 \<or> s_nr_mem_range new > NR_MEM_RANGE then (EINVAL, pr)
      else (OK, pr\<lparr>s_nr_mem_range := s_nr_mem_range new,
                   s_mem_tab := copy_tab (s_nr_mem_range new) (s_mem_tab new) (s_mem_tab pr)\<rparr>))"

text \<open>The updates one after the other; the first error ends the update, and what was written stays.\<close>

definition update_tables :: "priv \<Rightarrow> priv \<Rightarrow> code \<times> priv" where
  "update_tables new pr =
     (let p0 = pr\<lparr>s_flags := s_flags new, s_sig_mgr := s_sig_mgr new, s_bak_sig_mgr := s_bak_sig_mgr new\<rparr>;
          (r1, p1) = update_irqs new p0
      in if r1 \<noteq> OK then (r1, p1)
         else
           (let (r2, p2) = update_io new p1
            in if r2 \<noteq> OK then (r2, p2) else update_mem new p2))"

definition update_priv :: "int \<Rightarrow> priv \<Rightarrow> kernel \<Rightarrow> (code \<times> kernel) option" where
  "update_priv rp new k = do {
     i \<leftarrow> p_priv (procs k rp);
     let (r, pr) = update_tables new (privs k i);
     let k1 = upd_priv i (\<lambda>_. pr) k;
     if r \<noteq> OK then Some (r, k1)
     else do {
       k2 \<leftarrow> fill_sendto_mask rp (s_ipc_to new) (upd_priv i (\<lambda>q. q\<lparr>s_trap_mask := s_trap_mask new\<rparr>) k1);
       Some (OK, upd_priv i (\<lambda>q. q\<lparr>s_k_call_mask := s_k_call_mask new\<rparr>) k2)
     }
   }"

text \<open>The structure is first a copy of the caller's, its alarm timer included.\<close>

definition copy_priv :: "nat \<Rightarrow> nat \<Rightarrow> int \<Rightarrow> kernel \<Rightarrow> kernel" where
  "copy_priv ci i proc_nr k =
     put_timers (upd_tmr i (\<lambda>_. tmr (get_timers k) ci) (get_timers k))
       (upd_priv i (\<lambda>pr. (privs k ci)\<lparr>s_id := s_id pr, s_proc_nr := proc_nr, s_notify_pending := (\<lambda>_. False),
          s_int_pending := {}, s_sig_pending := {}\<rparr>) k)"

definition default_priv :: "priv \<Rightarrow> priv" where
  "default_priv pr = pr\<lparr>s_k_call_mask := (\<lambda>_. True), s_sig_mgr := DSRV_SM, s_bak_sig_mgr := NONE, s_nr_io_range := 0,
     s_nr_mem_range := 0, s_nr_irq := 0, s_grant_table := 0, s_grant_entries := 0\<rparr>"

definition priv_set_sys :: "int \<Rightarrow> int \<Rightarrow> priv_arg \<Rightarrow> kernel \<Rightarrow> (code \<times> kernel) option" where
  "priv_set_sys caller rp arg k =
     (if \<not> RTS_ISSET k rp RTS_NO_PRIV then Some (EPERM, k)
      else
        (case (if arg_ptr arg then map_sum id Some (arg_priv arg) else Inr None) of
           Inl r \<Rightarrow> Some (r, k)
         | Inr new \<Rightarrow>
             (let priv_id = (case new of Some pr \<Rightarrow> if \<not> has (s_flags pr) DYN_PRIV_ID then s_id pr else NULL_PRIV_ID
                             | None \<Rightarrow> NULL_PRIV_ID);
                  (r, k1) = get_priv rp priv_id k
              in if r \<noteq> OK then Some (r, k1)
                 else do {
                   i \<leftarrow> p_priv (procs k1 rp);
                   ci \<leftarrow> p_priv (procs k1 caller);
                   k2 \<leftarrow> reset_kernel_timer i (copy_priv ci i rp k1);
                   let k3 = upd_priv i (\<lambda>pr. pr\<lparr>s_asyntab := - 1, s_asynsize := 0, s_diag_sig := False,
                              s_flags := DSRV_F, s_trap_mask := - 1\<rparr>) k2;
                   k4 \<leftarrow> fill_sendto_mask rp (\<lambda>_. True) k3;
                   let k5 = upd_priv i default_priv k4;
                   case new of None \<Rightarrow> Some (OK, k5) | Some pr \<Rightarrow> update_priv rp pr k5
                 })))"

text \<open>Adding a resource: the process has to be a system process that runs; a resource it has is not added twice.\<close>

definition add_resource ::
  "int \<Rightarrow> 16 word \<Rightarrow> (priv \<Rightarrow> int) \<Rightarrow> int \<Rightarrow> (priv \<Rightarrow> nat \<Rightarrow> bool) \<Rightarrow> (nat \<Rightarrow> priv \<Rightarrow> priv) \<Rightarrow> kernel \<Rightarrow> (code \<times> kernel) option" where
  "add_resource rp check nr limit same add k = do {
     i \<leftarrow> p_priv (procs k rp);
     let k1 = upd_priv i (\<lambda>pr. pr\<lparr>s_flags := s_flags pr OR check\<rparr>) k;
     let pr = privs k1 i;
     if list_ex (same pr) [0..<nat (nr pr)] then Some (OK, k1)
     else if nr pr \<ge> limit then Some (ENOMEM, k1)
     else if nr pr < 0 then None
     else Some (OK, upd_priv i (add (nat (nr pr))) k1)
   }"

definition may_add :: "int \<Rightarrow> kernel \<Rightarrow> bool option" where
  "may_add rp k = (if RTS_ISSET k rp RTS_NO_PRIV then Some False
     else map_option (\<lambda>pr. has (s_flags pr) SYS_PROC) (priv_of k rp))"

definition priv_add :: "int \<Rightarrow> int \<Rightarrow> priv_arg \<Rightarrow> kernel \<Rightarrow> (code \<times> kernel) option" where
  "priv_add request rp arg k = do {
     ok \<leftarrow> may_add rp k;
     if \<not> ok then Some (EPERM, k)
     else if request = SYS_PRIV_ADD_IO then
       add_resource rp CHECK_IO_PORT s_nr_io_range NR_IO_RANGE (\<lambda>pr i. s_io_tab pr i = arg_io arg)
         (\<lambda>i pr. pr\<lparr>s_io_tab := (s_io_tab pr)(i := arg_io arg), s_nr_io_range := s_nr_io_range pr + 1\<rparr>) k
     else if request = SYS_PRIV_ADD_MEM then
       (case arg_mem arg of
          Inl r \<Rightarrow> Some (r, k)
        | Inr mem \<Rightarrow>
            add_resource rp CHECK_MEM s_nr_mem_range NR_MEM_RANGE (\<lambda>pr i. s_mem_tab pr i = mem)
              (\<lambda>i pr. pr\<lparr>s_mem_tab := (s_mem_tab pr)(i := mem), s_nr_mem_range := s_nr_mem_range pr + 1\<rparr>) k)
     else
       add_resource rp CHECK_IRQ s_nr_irq NR_IRQ (\<lambda>pr i. s_irq_tab pr i = arg_irq arg)
         (\<lambda>i pr. pr\<lparr>s_irq_tab := (s_irq_tab pr)(i := arg_irq arg), s_nr_irq := s_nr_irq pr + 1\<rparr>) k
   }"

definition priv_query_mem :: "int \<Rightarrow> 32 word \<Rightarrow> 32 word \<Rightarrow> kernel \<Rightarrow> code" where
  "priv_query_mem rp addr len k =
     (let limit = addr + len - 1
      in if limit < addr then EPERM
         else
           (case priv_of k rp of
              None \<Rightarrow> EPERM
            | Some sp \<Rightarrow>
                if \<not> has (s_flags sp) SYS_PROC then EPERM
                else if list_ex (\<lambda>i. addr \<ge> mr_base (s_mem_tab sp i) \<and> limit \<le> mr_limit (s_mem_tab sp i))
                          [0..<nat (s_nr_mem_range sp)]
                then OK else EPERM))"

text \<open>\<open>SYS_PRIV_ALLOW\<close> and \<open>SYS_PRIV_YIELD\<close> need a privilege structure that is taken.\<close>

definition may_allow :: "int \<Rightarrow> kernel \<Rightarrow> bool option" where
  "may_allow rp k = (if \<not> RTS_ISSET k rp RTS_NO_PRIV then Some False
     else map_option (\<lambda>pr. s_proc_nr pr \<noteq> NONE) (priv_of k rp))"

definition privctl_request ::
  "int \<Rightarrow> int \<Rightarrow> int \<Rightarrow> priv_arg \<Rightarrow> 32 word \<Rightarrow> 32 word \<Rightarrow> kernel \<Rightarrow> (code \<times> kernel) option" where
  "privctl_request caller rp request arg phys_start phys_len k =
     (if request = SYS_PRIV_ALLOW then do {
        ok \<leftarrow> may_allow rp k;
        if \<not> ok then Some (EPERM, k) else map_option (Pair OK) (RTS_UNSET rp RTS_NO_PRIV k)
      }
      else if request = SYS_PRIV_YIELD then do {
        ok \<leftarrow> may_allow rp k;
        if \<not> ok then Some (EPERM, k)
        else do { k1 \<leftarrow> RTS_SET caller RTS_NO_PRIV k; map_option (Pair OK) (RTS_UNSET rp RTS_NO_PRIV k1) }
      }
      else if request = SYS_PRIV_DISALLOW then
        (if RTS_ISSET k rp RTS_NO_PRIV then Some (EPERM, k) else map_option (Pair OK) (RTS_SET rp RTS_NO_PRIV k))
      else if request = SYS_PRIV_SET_SYS then priv_set_sys caller rp arg k
      else if request = SYS_PRIV_SET_USER then
        (if \<not> RTS_ISSET k rp RTS_NO_PRIV then Some (EPERM, k)
         else Some (OK, upd_proc rp (\<lambda>r. r\<lparr>p_priv := Some (nat USER_PRIV_ID)\<rparr>) k))
      else if request = SYS_PRIV_ADD_IO \<or> request = SYS_PRIV_ADD_MEM \<or> request = SYS_PRIV_ADD_IRQ then
        priv_add request rp arg k
      else if request = SYS_PRIV_QUERY_MEM then Some (priv_query_mem rp phys_start phys_len k, k)
      else if request = SYS_PRIV_UPDATE_SYS then
        (if \<not> arg_ptr arg then Some (EINVAL, k)
         else (case arg_priv arg of Inl r \<Rightarrow> Some (r, k) | Inr new \<Rightarrow> update_priv rp new k))
      else Some (EINVAL, k))"

definition do_privctl ::
  "int \<Rightarrow> int \<Rightarrow> int \<Rightarrow> priv_arg \<Rightarrow> 32 word \<Rightarrow> 32 word \<Rightarrow> kernel \<Rightarrow> (code \<times> kernel) option" where
  "do_privctl caller endpt request arg phys_start phys_len k = do {
     pr \<leftarrow> priv_of k caller;
     if \<not> has (s_flags pr) SYS_PROC then Some (EPERM, k)
     else if endpt = SELF then do {
       rp \<leftarrow> isokendpt k (p_endpoint (procs k caller));
       privctl_request caller rp request arg phys_start phys_len k
     }
     else
       (case isokendpt k endpt of
          None \<Rightarrow> Some (EINVAL, k)
        | Some rp \<Rightarrow> privctl_request caller rp request arg phys_start phys_len k)
   }"

section \<open>Structures and their owners\<close>

lemma kernel_ok_spare_priv:
  assumes ok: "kernel_ok k" and spare: "\<And>p. is_proc p \<Longrightarrow> iskerneln p \<Longrightarrow> p_priv (procs k p) \<noteq> Some i"
  shows "kernel_ok (upd_priv i g k)"
proof -
  let ?k = "upd_priv i g k"
  obtain L where L: "sched_inv L k" "links_ok k" using ok by (auto simp: kernel_ok_def)
  have "wf_proc ?k p" if "is_proc p" for p
  proof -
    have wf: "wf_proc k p" using L(1) that by (simp add: sched_inv_def queues_hold_def wf_kernel_def)
    obtain z where z: "p_priv (procs k p) = Some z" "iskerneln p \<longrightarrow> s_stack_guard (privs k z) = STACK_GUARD"
      using wf by (auto simp: wf_proc_def priv_of_def)
    then have "\<exists>pr. priv_of ?k p = Some pr \<and> (iskerneln p \<longrightarrow> s_stack_guard pr = STACK_GUARD)"
      using spare [OF that] by (intro exI [of _ "privs ?k z"]) (auto simp: priv_of_def)
    moreover have "proc_ptr_ok ?k p = proc_ptr_ok k p" "queue_index ?k p = queue_index k p"
      by (simp_all add: proc_ptr_ok_def queue_index_def Let_def)
    ultimately show ?thesis using wf by (simp add: wf_proc_def)
  qed
  moreover have "runnables ?k = runnables k" by (simp add: runnables_def proc_is_runnable_def)
  moreover have "run_queues L ?k" if "run_queues L k"
    by (rule run_queues_cong [OF that]) (simp_all add: next_of_def)
  ultimately have "sched_inv L ?k"
    using L(1) by (simp add: sched_inv_def queues_hold_def wf_kernel_def ticket_sum_def)
  moreover have "links_ok ?k" using L(2) by (simp add: links_ok_def)
  ultimately show ?thesis by (auto simp: kernel_ok_def)
qed

text \<open>The structure \<open>i\<close> is that of process \<open>p\<close> and of no other.\<close>

definition exclusive :: "kernel \<Rightarrow> int \<Rightarrow> nat \<Rightarrow> bool" where
  "exclusive k p i \<longleftrightarrow> \<not> iskerneln p \<and> i \<noteq> nat USER_PRIV_ID \<and> p_priv (procs k p) = Some i \<and> owner k i = p \<and> p \<noteq> NONE \<and>
     (\<forall>q. is_proc q \<longrightarrow> in_use k q \<longrightarrow> p_priv (procs k q) = Some i \<longrightarrow> q = p)"

lemma exclusive_idents:
  assumes "idents k' = idents k"
  shows "exclusive k' p i = exclusive k p i"
  unfolding exclusive_def table_idents [OF assms] identsD(2) [OF assms] ..

lemma exclusive_upd: "exclusive k p i \<Longrightarrow> s_proc_nr (g (privs k i)) = p \<Longrightarrow> exclusive (upd_priv i g k) p i"
  by (simp add: exclusive_def owner_def in_use_def)

lemma exclusive_spare: "exclusive k p i \<Longrightarrow> kernel_ok k \<Longrightarrow> kernel_ok (upd_priv i g k)"
  by (rule kernel_ok_spare_priv) (auto simp: exclusive_def in_use_def)

lemma machine_ok_privs:
  assumes "machine_ok k" "kernel_ok k'" "table_ok k'" "clk k' = clk k" "irqs k' = irqs k" "bill_ptr k' = bill_ptr k"
    and "\<And>i. owner k i \<noteq> NONE \<Longrightarrow> owner k' i \<noteq> NONE"
    and "\<And>p. p_endpoint (procs k' p) = p_endpoint (procs k p)"
    and "\<And>p. has (p_rts_flags (procs k' p)) RTS_SLOT_FREE = has (p_rts_flags (procs k p)) RTS_SLOT_FREE"
  shows "machine_ok k'"
proof -
  have "alive_as k' = alive_as k" using assms(8,9) by (simp add: alive_as_def fun_eq_iff)
  then have "hooks_alive k'" using assms(1,5) by (simp add: machine_ok_def hooks_alive_def drivers_alive_def)
  moreover have "clock_list k' = clock_list k" using assms(4) by (simp add: clock_list_def get_timers_def fun_eq_iff)
  then have "clock_owned k'" using assms(1,7) unfolding machine_ok_def clock_owned_def by metis
  ultimately show ?thesis using assms by (simp add: machine_ok_def irq_ok_def)
qed

lemma machine_ok_upd_priv:
  assumes ok: "machine_ok k" and g: "s_proc_nr (g (privs k i)) = owner k i"
    and guard: "s_stack_guard (g (privs k i)) = s_stack_guard (privs k i) \<or> (\<exists>p. exclusive k p i)"
    and sys: "has (s_flags (g (privs k i))) SYS_PROC \<Longrightarrow> is_sys k i \<or> (\<exists>p. exclusive k p i)"
  shows "machine_ok (upd_priv i g k)"
proof -
  let ?k = "upd_priv i g k"
  have t: "table_ok k" "kernel_ok k" using ok by (simp_all add: machine_ok_def)
  have own: "owner ?k j = owner k j" for j using g by (simp add: owner_def)
  have s: "is_sys ?k j \<Longrightarrow> is_sys k j \<or> j = i \<and> (\<exists>p. exclusive k p i)" for j using sys by (auto simp: is_sys_def split: if_splits)
  have u: "in_use ?k p = in_use k p" for p by (simp add: in_use_def)
  have "kernel_ok ?k"
    using guard exclusive_spare [OF _ t(2)] kernel_ok_cong [OF t(2), of ?k] by auto
  moreover have "table_ok ?k"
    unfolding table_ok_def own u
  proof (intro conjI allI impI)
    fix p j
    assume p: "is_proc p" "in_use k p" "p_priv (procs ?k p) = Some j" "j < nat NR_SYS_PROCS"
    then have pj: "p_priv (procs k p) = Some j" by simp
    show "owner k j \<noteq> NONE" by (rule table_okD(3) [OF t(1) p(1,2) pj p(4)])
    show "owner k j = p" if "is_sys ?k j"
      using s [OF that] table_okD(4) [OF t(1) p(1,2) pj p(4)] pj p(1,2) by (auto simp: exclusive_def)
  qed (use t(1) s [of "nat USER_PRIV_ID"] in \<open>auto simp: table_okD exclusive_def\<close>)
  ultimately show ?thesis by (intro machine_ok_privs [OF ok]) (simp_all add: own)
qed

section \<open>Every request keeps the machine in order\<close>

lemma sendto_bit_cur [cur]:
  "set_sendto_bit rp i k = Some k' \<Longrightarrow> outer k' = outer k" "unset_sendto_bit rp i k = Some k' \<Longrightarrow> outer k' = outer k"
  by (auto simp: set_sendto_bit_def unset_sendto_bit_def set_ipc_to_def cur_splits split: if_splits)

lemma fill_sendto_cur [cur]: "fill_sendto_mask rp m k = Some k' \<Longrightarrow> outer k' = outer k"
proof -
  have "fill_sendto_loop rp m is k = Some k' \<Longrightarrow> outer k' = outer k" for "is"
    by (induction "is" arbitrary: k) (auto simp: bind_eq_Some_conv split: if_splits dest!: cur)
  then show "fill_sendto_mask rp m k = Some k' \<Longrightarrow> outer k' = outer k" by (simp only: fill_sendto_mask_def)
qed

lemma update_tables_sel:
  assumes "update_tables new pr = (r, pr')"
  shows "s_proc_nr pr' = s_proc_nr pr" "s_flags pr' = s_flags new" "s_stack_guard pr' = s_stack_guard pr" "s_id pr' = s_id pr"
  using assms by (auto simp: update_tables_def update_irqs_def update_io_def update_mem_def Let_def split: if_splits prod.splits)

lemma machine_ok_mild:
  "(\<And>r. s_id (g r) = s_id r \<and> s_proc_nr (g r) = s_proc_nr r \<and> s_flags (g r) = s_flags r \<and> s_stack_guard (g r) = s_stack_guard r) \<Longrightarrow>
    machine_ok k \<Longrightarrow> machine_ok (upd_priv i g k)"
  by (rule machine_ok_upd_priv) (auto simp: owner_def is_sys_def)

lemma update_priv_machine:
  assumes u: "update_priv rp new k = Some (r, k')" and ok: "machine_ok k" and i: "p_priv (procs k rp) = Some i"
    and sys: "has (s_flags new) SYS_PROC \<Longrightarrow> is_sys k i \<or> (\<exists>p. exclusive k p i)"
  shows "machine_ok k' \<and> proc_ptr k' = proc_ptr k"
proof -
  obtain x pr where ut: "update_tables new (privs k i) = (x, pr)" by (cases "update_tables new (privs k i)")
  note sel = update_tables_sel [OF ut]
  define k1 where "k1 = upd_priv i (\<lambda>_. pr) k"
  have ok1: "machine_ok k1"
    unfolding k1_def by (rule machine_ok_upd_priv [OF ok]) (use sel sys in \<open>auto simp: owner_def\<close>)
  show ?thesis
  proof (cases "x = OK")
    case False
    then show ?thesis using u ok1 i ut by (auto simp: update_priv_def k1_def)
  next
    case True
    then obtain k2 where k2: "fill_sendto_mask rp (s_ipc_to new) (upd_priv i (\<lambda>q. q\<lparr>s_trap_mask := s_trap_mask new\<rparr>) k1) = Some k2"
        "k' = upd_priv i (\<lambda>q. q\<lparr>s_k_call_mask := s_k_call_mask new\<rparr>) k2"
      using u i ut by (auto simp: update_priv_def k1_def bind_eq_Some_conv)
    have "machine_ok (upd_priv i (\<lambda>q. q\<lparr>s_trap_mask := s_trap_mask new\<rparr>) k1)" by (rule machine_ok_mild [OF _ ok1]) simp
    from machine_ok_outer [OF fill_sendto_cur [OF k2(1)] _ this] this
    have "machine_ok k2" using k2(1) fill_sendto_keeps by (simp add: machine_ok_def fill_sendto_mask_def)
    then have "machine_ok k'" unfolding k2(2) by (rule machine_ok_mild [rotated]) simp
    moreover have "proc_ptr k2 = proc_ptr k" using outerD(1) [OF fill_sendto_cur [OF k2(1)]] by (simp add: k1_def)
    ultimately show ?thesis by (simp add: k2(2))
  qed
qed

text \<open>A new structure: the one that was free is now that of the process alone.\<close>

lemma get_priv_result:
  assumes "get_priv rp n k = (r, k')"
  shows "r \<noteq> OK \<and> k' = k \<or> r = OK \<and> (\<exists>i. k' = take_priv rp i k \<and> i < nat NR_SYS_PROCS \<and> owner k i = NONE)"
proof -
  have s: "is_static_priv_id n \<Longrightarrow> nat n < nat NR_SYS_PROCS"
    by (auto simp: is_static_priv_id_def NR_STATIC_PRIV_IDS_def NR_SYS_PROCS_def NR_BOOT_PROCS_def NR_TASKS_def)
  have "x < nat NR_SYS_PROCS \<and> owner k x = NONE"
    if "filter (\<lambda>sp. s_proc_nr (privs k sp) = NONE) [nat NR_STATIC_PRIV_IDS..<nat NR_SYS_PROCS] = x # xs" for x xs
  proof -
    have "x \<in> set (filter (\<lambda>sp. s_proc_nr (privs k sp) = NONE) [nat NR_STATIC_PRIV_IDS..<nat NR_SYS_PROCS])" by (simp add: that)
    then show ?thesis by (simp add: owner_def)
  qed
  note new = this
  show ?thesis
  proof (cases "n = NULL_PRIV_ID")
    case True
    then show ?thesis
      using assms new
      by (cases "filter (\<lambda>sp. s_proc_nr (privs k sp) = NONE) [nat NR_STATIC_PRIV_IDS..<nat NR_SYS_PROCS]") (auto simp: get_priv_def)
  next
    case False
    then show ?thesis using assms s by (auto simp: get_priv_def owner_def split: if_splits)
  qed
qed

lemma take_priv_machine:
  assumes ok: "machine_ok k" and rp: "is_proc rp" "\<not> iskerneln rp" "\<not> proc_is_runnable k rp"
    and i: "i < nat NR_SYS_PROCS" "owner k i = NONE"
  shows "machine_ok (take_priv rp i k)" "exclusive (take_priv rp i k) rp i"
proof -
  let ?k = "take_priv rp i k"
  have t: "table_ok k" "kernel_ok k" using ok by (simp_all add: machine_ok_def)
  have k: "procs ?k = (procs k)(rp := (procs k rp)\<lparr>p_priv := Some i\<rparr>)" "privs ?k = (privs k)(i := (privs k i)\<lparr>s_proc_nr := rp\<rparr>)"
    using table_okD(1) [OF t(1) rp(1)] by (simp_all add: take_priv_def)
  have own: "owner ?k j = (if j = i then rp else owner k j)" "is_sys ?k j = is_sys k j" "in_use ?k p = in_use k p" for j p
    by (simp_all add: owner_def is_sys_def in_use_def k)
  have rn: "rp \<noteq> NONE" using rp(1,2) by (auto simp: is_proc_def isokprocn_def NONE_def endpoint_defs NR_PROCS_def NR_TASKS_def idle_proc_def)
  have free: "p_priv (procs k p) \<noteq> Some i" if "is_proc p" "in_use k p" for p using table_okD(3) [OF t(1) that _ i(1)] i(2) by auto
  have iu: "i \<noteq> nat USER_PRIV_ID" using i(2) table_okD(5) [OF t(1)] by auto
  show ex: "exclusive ?k rp i" using rp(2) iu rn free by (auto simp: exclusive_def own k)
  have "table_ok ?k"
    unfolding table_ok_def
  proof (intro conjI allI impI)
    fix p j
    show "p_nr (procs ?k p) = p" if "is_proc p" using table_okD(1) [OF t(1) that] by (auto simp: k)
    show "ENDPOINT_P (p_endpoint (procs ?k p)) = p" if "isokprocn p" using table_okD(2) [OF t(1) that] by (auto simp: k)
    assume p: "is_proc p" "in_use ?k p" "p_priv (procs ?k p) = Some j" "j < nat NR_SYS_PROCS"
    have "p = rp \<and> j = i \<or> j \<noteq> i \<and> p_priv (procs k p) = Some j" using p free by (cases "p = rp") (auto simp: k own)
    then show "owner ?k j \<noteq> NONE" "is_sys ?k j \<Longrightarrow> owner ?k j = p" using p rn table_okD(3,4) [OF t(1) p(1)] by (auto simp: own)
  qed (use t(1) iu in \<open>auto simp: own table_okD\<close>)
  moreover have "kernel_ok ?k"
    unfolding take_priv_def
    by (intro kernel_ok_upd_priv kernel_ok_blocked_upd [OF t(2) rp(1,3)])
      (use kernel_ok_well_blocked [OF t(2) rp(1,3)] rp(2) in \<open>simp_all add: well_blocked_def\<close>)
  ultimately show "machine_ok ?k"
    by (intro machine_ok_privs [OF ok]) (simp_all add: k own rn, simp_all add: take_priv_def)
qed

lemma clock_list_other:
  assumes "clock_list k ts" "i \<notin> set ts"
  shows "clock_list (put_timers (upd_tmr i f (get_timers k)) k) ts"
proof -
  let ?q = "get_timers k" and ?q' = "upd_tmr i f (get_timers k)"
  have same: "tmr ?q' t = tmr ?q t" if "t \<in> set ts" for t using that assms(2) by (auto simp: upd_tmr_def)
  have "chain (timer_next ?q') h ts = chain (timer_next ?q) h ts" for h
    by (rule chain_cong) (simp only: timer_next_def same)
  moreover have "map (expiry ?q') ts = map (expiry ?q) ts" by (rule map_cong [OF refl]) (simp only: expiry_def same)
  moreover have "tmrs ?q' = tmrs ?q" by (simp add: upd_tmr_def)
  moreover from this have "first_timeout ?q' = first_timeout ?q"
    using assms(1) same by (cases ts) (auto simp: first_timeout_def clock_list_def timer_list_def)
  moreover have "next_timeout (clk (put_timers ?q' k)) = next_timeout (clk k)" by (simp add: put_timers_def)
  ultimately show ?thesis using assms(1) unfolding clock_list_def timer_list_def timers_sorted_def timers_sel by (simp only:)
qed

lemma reset_copied_timer:
  assumes ok: "machine_ok k" and ts: "clock_list k ts" "\<forall>j \<in> set ts. j < nat NR_SYS_PROCS \<longrightarrow> owner k j \<noteq> NONE" "i \<notin> set ts"
    and r: "reset_kernel_timer i (put_timers (upd_tmr i f (get_timers k)) k) = Some k'"
  shows "machine_ok k' \<and> idents k' = idents k \<and> proc_ptr k' = proc_ptr k \<and> privs k' = privs k"
proof -
  let ?k = "put_timers (upd_tmr i f (get_timers k)) k"
  obtain h where h: "clock_list k' (remove1 i ts)" "k' = set_clk h ?k"
    using reset_kernel_timer_result [OF clock_list_other [OF ts(1,3), of f], of i] r by auto
  have i: "idents k' = idents k" by (simp add: h(2))
  have "clock_owned k'"
    unfolding clock_owned_def table_idents(1) [OF i] using h(1) ts(2,3) by (intro exI [of _ "remove1 i ts"]) (simp add: remove1_idem)
  moreover have "kernel_ok k'" using ok by (simp add: h(2) machine_ok_def kernel_ok_clk)
  ultimately show ?thesis using machine_ok_clk [OF ok] i by (simp add: h(2))
qed

text \<open>The structure before the caller's wishes are entered.\<close>

lemma new_priv_machine:
  assumes ok: "machine_ok k" and ex: "exclusive k rp i" and ts: "clock_list k ts"
      "\<forall>j \<in> set ts. j < nat NR_SYS_PROCS \<longrightarrow> owner k j \<noteq> NONE" "i \<notin> set ts"
    and k2: "reset_kernel_timer i (copy_priv ci i rp k) = Some k2"
    and k4: "fill_sendto_mask rp m (upd_priv i (\<lambda>pr. pr\<lparr>s_asyntab := a, s_asynsize := 0, s_diag_sig := False,
        s_flags := DSRV_F, s_trap_mask := t\<rparr>) k2) = Some k4"
  shows "machine_ok (upd_priv i default_priv k4)" "exclusive (upd_priv i default_priv k4) rp i"
    "proc_ptr (upd_priv i default_priv k4) = proc_ptr k"
proof -
  let ?g = "\<lambda>pr. (privs k ci)\<lparr>s_id := s_id pr, s_proc_nr := rp, s_notify_pending := (\<lambda>_. False),
      s_int_pending := {}, s_sig_pending := {}\<rparr>"
  let ?f = "\<lambda>pr. pr\<lparr>s_asyntab := a, s_asynsize := 0, s_diag_sig := False, s_flags := DSRV_F, s_trap_mask := t\<rparr>"
  define k1 where "k1 = upd_priv i ?g k"
  have own: "owner k i = rp" using ex by (simp add: exclusive_def)
  have o1: "owner k1 j = owner k j" for j using own by (simp add: k1_def owner_def)
  have ok1: "machine_ok k1" "exclusive k1 rp i"
    unfolding k1_def using ex own by (auto intro!: machine_ok_upd_priv [OF ok] exclusive_upd)
  have g: "get_timers k1 = get_timers k" "clock_list k1 = clock_list k" by (auto simp: k1_def clock_list_def get_timers_def)
  have "reset_kernel_timer i (put_timers (upd_tmr i (\<lambda>_. tmr (get_timers k) ci) (get_timers k1)) k1) = Some k2"
    using k2 unfolding g(1) by (simp add: copy_priv_def k1_def)
  then have r2: "machine_ok k2" "idents k2 = idents k1" "proc_ptr k2 = proc_ptr k1"
    using reset_copied_timer [OF ok1(1), unfolded g(2), OF ts(1) _ ts(3)] ts(2) o1 by auto
  have ex2: "exclusive k2 rp i" using ok1(2) exclusive_idents [OF r2(2)] by simp
  define k3 where "k3 = upd_priv i ?f k2"
  have p2: "s_proc_nr (privs k2 i) = rp" using ex2 by (simp add: exclusive_def owner_def)
  have ok3: "machine_ok k3" unfolding k3_def by (rule machine_ok_upd_priv [OF r2(1)]) (use ex2 in \<open>auto simp: owner_def\<close>)
  have ex3: "exclusive k3 rp i" unfolding k3_def by (rule exclusive_upd [OF ex2]) (simp add: p2)
  note o4 = outerD [OF fill_sendto_cur [OF k4, folded k3_def]]
  have ok4: "machine_ok k4" 
    by (rule machine_ok_outer [OF fill_sendto_cur [OF k4, folded k3_def] _ ok3])
      (use k4 ok3 in \<open>auto simp: fill_sendto_mask_def k3_def machine_ok_def dest: fill_sendto_keeps\<close>)
  have ex4: "exclusive k4 rp i" using ex3 exclusive_idents [OF o4(6)] by simp
  show "machine_ok (upd_priv i default_priv k4)" by (rule machine_ok_mild [OF _ ok4]) (simp add: default_priv_def)
  show "exclusive (upd_priv i default_priv k4) rp i"
    by (rule exclusive_upd [OF ex4]) (use ex4 in \<open>simp add: default_priv_def exclusive_def owner_def\<close>)
  show "proc_ptr (upd_priv i default_priv k4) = proc_ptr k" using o4(1) r2(3) by (simp add: k3_def k1_def)
qed

lemma priv_set_sys_machine:
  assumes c: "priv_set_sys c rp arg k = Some (r, k')" and ok: "machine_ok k" and rp: "is_proc rp" "\<not> iskerneln rp"
  shows "machine_ok k' \<and> proc_ptr k' = proc_ptr k"
proof (cases "k' = k")
  case True
  then show ?thesis using ok by simp
next
  case False
  define args where "args = (if arg_ptr arg then map_sum id Some (arg_priv arg) else Inr None)"
  obtain new where new: "args = Inr new" using c False by (auto simp: priv_set_sys_def simp flip: args_def split: if_splits sum.splits)
  have blk: "\<not> proc_is_runnable k rp"
    using c False by (auto simp: priv_set_sys_def RTS_ISSET_def proc_is_runnable_def split: if_splits)
  define pid where "pid = (case new of Some pr \<Rightarrow> if \<not> has (s_flags pr) DYN_PRIV_ID then s_id pr else NULL_PRIV_ID | None \<Rightarrow> NULL_PRIV_ID)"
  obtain x k1 where g: "get_priv rp pid k = (x, k1)" by (cases "get_priv rp pid k")
  have x: "x = OK" using get_priv_result [OF g] g c False new
    by (auto simp: priv_set_sys_def Let_def simp flip: args_def pid_def split: if_splits)
  obtain i where i: "k1 = take_priv rp i k" "i < nat NR_SYS_PROCS" "owner k i = NONE" using get_priv_result [OF g] x by auto
  note t = take_priv_machine [OF ok rp blk i(2,3), folded i(1)]
  have p1: "p_priv (procs k1 rp) = Some i" "proc_ptr k1 = proc_ptr k" by (simp_all add: i(1) take_priv_def)
  obtain ci k2 k4 where st: "reset_kernel_timer i (copy_priv ci i rp k1) = Some k2"
      "fill_sendto_mask rp (\<lambda>_. True) (upd_priv i (\<lambda>pr. pr\<lparr>s_asyntab := - 1, s_asynsize := 0, s_diag_sig := False,
        s_flags := DSRV_F, s_trap_mask := - 1\<rparr>) k2) = Some k4"
      "(case new of None \<Rightarrow> Some (OK, upd_priv i default_priv k4) | Some pr \<Rightarrow> update_priv rp pr (upd_priv i default_priv k4)) = Some (r, k')"
    using c False new g x p1 by (auto simp: priv_set_sys_def Let_def bind_eq_Some_conv simp flip: args_def pid_def split: if_splits)
  obtain ts where ts: "clock_list k ts" "\<forall>j \<in> set ts. j < nat NR_SYS_PROCS \<longrightarrow> owner k j \<noteq> NONE"
    using ok by (auto simp: machine_ok_def clock_owned_def)
  have its: "i \<notin> set ts" using ts(2) i(2,3) by auto
  have "clock_list k1 ts" using ts(1) by (simp add: i(1) take_priv_def clock_list_def get_timers_def)
  moreover have "\<forall>j \<in> set ts. j < nat NR_SYS_PROCS \<longrightarrow> owner k1 j \<noteq> NONE"
    using ts(2) its by (auto simp: i(1) take_priv_def owner_def)
  ultimately have n: "machine_ok (upd_priv i default_priv k4)" "exclusive (upd_priv i default_priv k4) rp i"
      "proc_ptr (upd_priv i default_priv k4) = proc_ptr k1"
    using new_priv_machine [OF t _ _ its st(1,2)] by auto
  show ?thesis
  proof (cases new)
    case None
    then show ?thesis using st(3) n p1(2) by auto
  next
    case (Some pr)
    have "p_priv (procs (upd_priv i default_priv k4) rp) = Some i" using n(2) by (simp add: exclusive_def)
    from update_priv_machine [OF _ n(1) this] show ?thesis using st(3) n(2,3) p1(2) Some by auto
  qed
qed

lemma add_resource_machine:
  assumes a: "add_resource rp check nr limit same add k = Some (r, k')" and ok: "machine_ok k"
    and check: "\<not> has check SYS_PROC"
    and add: "\<And>n pr. s_id (add n pr) = s_id pr \<and> s_proc_nr (add n pr) = s_proc_nr pr \<and> s_flags (add n pr) = s_flags pr \<and>
      s_stack_guard (add n pr) = s_stack_guard pr"
  shows "machine_ok k' \<and> proc_ptr k' = proc_ptr k"
proof -
  obtain i where i: "p_priv (procs k rp) = Some i" using a by (auto simp: add_resource_def bind_eq_Some_conv)
  define k1 where "k1 = upd_priv i (\<lambda>pr. pr\<lparr>s_flags := s_flags pr OR check\<rparr>) k"
  have "machine_ok k1"
    unfolding k1_def by (rule machine_ok_upd_priv [OF ok]) (use check in \<open>auto simp: owner_def is_sys_def has_or\<close>)
  then have "machine_ok (upd_priv i (add n) k1)" "machine_ok k1" for n using machine_ok_mild [of "add n" k1 i] add by auto
  then show ?thesis using a i by (auto simp: add_resource_def Let_def simp flip: k1_def split: if_splits) (auto simp: k1_def)
qed

lemma priv_add_machine:
  assumes "priv_add q rp arg k = Some (r, k')" "machine_ok k"
  shows "machine_ok k' \<and> proc_ptr k' = proc_ptr k"
proof -
  have c: "\<not> has CHECK_IO_PORT SYS_PROC" "\<not> has CHECK_MEM SYS_PROC" "\<not> has CHECK_IRQ SYS_PROC"
    by (simp_all add: has_def CHECK_IO_PORT_def CHECK_MEM_def CHECK_IRQ_def SYS_PROC_def)
  have a: "add_resource rp CHECK_IO_PORT s_nr_io_range NR_IO_RANGE (\<lambda>pr i. s_io_tab pr i = arg_io arg)
      (\<lambda>i pr. pr\<lparr>s_io_tab := (s_io_tab pr)(i := arg_io arg), s_nr_io_range := s_nr_io_range pr + 1\<rparr>) k = Some (r, k') \<Longrightarrow> ?thesis"
    "add_resource rp CHECK_MEM s_nr_mem_range NR_MEM_RANGE (\<lambda>pr i. s_mem_tab pr i = mem)
      (\<lambda>i pr. pr\<lparr>s_mem_tab := (s_mem_tab pr)(i := mem), s_nr_mem_range := s_nr_mem_range pr + 1\<rparr>) k = Some (r, k') \<Longrightarrow> ?thesis"
    "add_resource rp CHECK_IRQ s_nr_irq NR_IRQ (\<lambda>pr i. s_irq_tab pr i = arg_irq arg)
      (\<lambda>i pr. pr\<lparr>s_irq_tab := (s_irq_tab pr)(i := arg_irq arg), s_nr_irq := s_nr_irq pr + 1\<rparr>) k = Some (r, k') \<Longrightarrow> ?thesis" for mem
    using add_resource_machine [OF _ assms(2) c(1)] add_resource_machine [OF _ assms(2) c(2)]
      add_resource_machine [OF _ assms(2) c(3)] by simp_all
  have "k' = k \<or> ?thesis"
    using assms(1) unfolding priv_add_def bind_eq_Some_conv by (elim exE conjE) (auto split: if_split_asm sum.split_asm dest: a)
  then show ?thesis using assms(2) by auto
qed

lemma set_user_machine:
  assumes ok: "machine_ok k" and rp: "is_proc rp" "\<not> iskerneln rp" "\<not> proc_is_runnable k rp"
  shows "machine_ok (upd_proc rp (\<lambda>r. r\<lparr>p_priv := Some (nat USER_PRIV_ID)\<rparr>) k)"
proof (rule machine_ok_privs [OF ok])
  let ?k = "upd_proc rp (\<lambda>r. r\<lparr>p_priv := Some (nat USER_PRIV_ID)\<rparr>) k"
  have t: "table_ok k" "kernel_ok k" using ok by (simp_all add: machine_ok_def)
  have own: "owner ?k = owner k" "is_sys ?k = is_sys k" "in_use ?k = in_use k"
    by (auto simp: owner_def is_sys_def in_use_def fun_eq_iff)
  show "kernel_ok ?k"
    by (rule kernel_ok_blocked_upd [OF t(2) rp(1,3)])
      (use kernel_ok_well_blocked [OF t(2) rp(1,3)] rp(2) in \<open>simp add: well_blocked_def\<close>)
  show "table_ok ?k"
    unfolding table_ok_def own
  proof (intro conjI allI impI)
    fix p j
    show "p_nr (procs ?k p) = p" if "is_proc p" using table_okD(1) [OF t(1) that] by auto
    show "ENDPOINT_P (p_endpoint (procs ?k p)) = p" if "isokprocn p" using table_okD(2) [OF t(1) that] by auto
    assume p: "is_proc p" "in_use k p" "p_priv (procs ?k p) = Some j" "j < nat NR_SYS_PROCS"
    have "j = nat USER_PRIV_ID \<or> p_priv (procs k p) = Some j" using p(3) by (auto split: if_splits)
    then show "owner k j \<noteq> NONE" "is_sys k j \<Longrightarrow> owner k j = p" using table_okD(3-6) [OF t(1)] p(1,2,4) by blast+
  qed (use t(1) in \<open>simp_all add: table_okD\<close>)
qed (auto simp: owner_def)

text \<open>
  What the kernel leaves to RS: a structure that is not one of a system process is not made one in place, since
  it may be the one that all user processes share.
\<close>

definition update_ok :: "kernel \<Rightarrow> int \<Rightarrow> int \<Rightarrow> priv_arg \<Rightarrow> bool" where
  "update_ok k rp request arg \<longleftrightarrow> (request = SYS_PRIV_UPDATE_SYS \<longrightarrow>
     (\<forall>new i. arg_priv arg = Inr new \<longrightarrow> p_priv (procs k rp) = Some i \<longrightarrow> has (s_flags new) SYS_PROC \<longrightarrow> is_sys k i))"

lemma machine_ok_RTS:
  "RTS_SET p f k = Some k' \<Longrightarrow> machine_ok k \<Longrightarrow> is_proc p \<Longrightarrow> f \<noteq> 0 \<Longrightarrow> \<not> has f RTS_SLOT_FREE \<Longrightarrow> machine_ok k' \<and> proc_ptr k' = proc_ptr k"
  "RTS_UNSET p f k = Some k' \<Longrightarrow> machine_ok k \<Longrightarrow> is_proc p \<Longrightarrow> \<not> has f RTS_SLOT_FREE \<Longrightarrow> machine_ok k' \<and> proc_ptr k' = proc_ptr k"
  by (metis RTS_SET_cur RTS_SET_keeps machine_ok_def machine_ok_outer outerD(1))
    (metis RTS_UNSET_cur RTS_UNSET_keeps machine_ok_def machine_ok_outer outerD(1))

lemma privctl_request_machine:
  assumes c: "privctl_request c rp q arg s n k = Some (r, k')" and ok: "machine_ok k"
    and p: "is_proc c" "is_proc rp" "\<not> iskerneln rp" and u: "update_ok k rp q arg"
  shows "machine_ok k' \<and> proc_ptr k' = proc_ptr k"
proof -
  have blk: "\<not> proc_is_runnable k rp" if "RTS_ISSET k rp RTS_NO_PRIV"
    using that by (auto simp: RTS_ISSET_def proc_is_runnable_def)
  consider "q = SYS_PRIV_ALLOW" | "q = SYS_PRIV_YIELD" | "q = SYS_PRIV_DISALLOW" | "q = SYS_PRIV_SET_SYS" | "q = SYS_PRIV_SET_USER"
    | "q \<in> {SYS_PRIV_ADD_IO, SYS_PRIV_ADD_MEM, SYS_PRIV_ADD_IRQ}" | "q = SYS_PRIV_UPDATE_SYS" | "k' = k"
    using c by (auto simp: privctl_request_def split: if_splits)
  then show ?thesis
  proof cases
    case 1
    then show ?thesis using c ok machine_ok_RTS(2) [OF _ ok p(2)]
      by (auto simp: privctl_request_def bind_eq_Some_conv split: if_splits)
  next
    case 2
    then show ?thesis
      using c ok p(1,2) by (auto simp: privctl_request_def SYS_PRIV_defs bind_eq_Some_conv split: if_splits dest!: machine_ok_RTS)
  next
    case 3
    then show ?thesis using c ok machine_ok_RTS(1) [OF _ ok p(2)] by (auto simp: privctl_request_def SYS_PRIV_defs split: if_splits)
  next
    case 4
    then show ?thesis using c priv_set_sys_machine [OF _ ok p(2,3)] by (simp add: privctl_request_def SYS_PRIV_defs)
  next
    case 5
    then show ?thesis using c ok set_user_machine [OF ok p(2,3) blk] by (auto simp: privctl_request_def SYS_PRIV_defs split: if_splits)
  next
    case 6
    then show ?thesis using c priv_add_machine [OF _ ok] by (auto simp: privctl_request_def SYS_PRIV_defs)
  next
    case 7
    then have "k' = k \<or> (\<exists>new. arg_priv arg = Inr new \<and> update_priv rp new k = Some (r, k'))"
      using c by (auto simp: privctl_request_def SYS_PRIV_defs split: if_splits sum.splits)
    then show ?thesis
    proof (elim disjE exE conjE)
      fix new assume n: "arg_priv arg = Inr new" "update_priv rp new k = Some (r, k')"
      then obtain i where i: "p_priv (procs k rp) = Some i" by (auto simp: update_priv_def bind_eq_Some_conv)
      show ?thesis by (rule update_priv_machine [OF n(2) ok i]) (use u 7 n(1) i in \<open>auto simp: update_ok_def\<close>)
    qed (use ok in simp)
  next
    case 8
    then show ?thesis using ok by simp
  qed
qed

definition privctl_ok :: "kernel \<Rightarrow> int \<Rightarrow> int \<Rightarrow> int \<Rightarrow> priv_arg \<Rightarrow> bool" where
  "privctl_ok k c e q arg \<longleftrightarrow>
     (let x = (if e = SELF then p_endpoint (procs k c) else e)
      in ordinary k x \<and> (\<forall>rp. isokendpt k x = Some rp \<longrightarrow> update_ok k rp q arg))"

lemma do_privctl_machine:
  assumes "do_privctl c e q arg s n k = Some (r, k')" "machine_ok k" "is_proc c" "privctl_ok k c e q arg"
  shows "machine_ok k' \<and> proc_ptr k' = proc_ptr k"
proof -
  let ?x = "if e = SELF then p_endpoint (procs k c) else e"
  have "k' = k \<or> (\<exists>rp. isokendpt k ?x = Some rp \<and> privctl_request c rp q arg s n k = Some (r, k'))"
    using assms(1) by (auto simp: do_privctl_def bind_eq_Some_conv split: if_splits option.splits)
  then show ?thesis
  proof (elim disjE exE conjE)
    fix rp assume rp: "isokendpt k ?x = Some rp" "privctl_request c rp q arg s n k = Some (r, k')"
    show ?thesis
      by (rule privctl_request_machine [OF rp(2) assms(2,3) isokendpt_is_proc [OF rp(1)]])
        (use assms(4) rp(1) in \<open>auto simp: privctl_ok_def Let_def ordinary_def\<close>)
  qed (use assms(2) in simp)
qed

section \<open>Properties\<close>

text \<open>Filling in the allowed targets changes nothing but these masks.\<close>

definition but_ipc_to :: "priv \<Rightarrow> priv" where
  "but_ipc_to pr = pr\<lparr>s_ipc_to := (\<lambda>_. False)\<rparr>"

lemma sendto_bit_frame:
  assumes "p_priv (procs k rp) \<noteq> None"
  shows "\<exists>k'. set_sendto_bit rp i k = Some k' \<and> procs k' = procs k \<and> (\<forall>j. but_ipc_to (privs k' j) = but_ipc_to (privs k j))"
    "\<exists>k'. unset_sendto_bit rp i k = Some k' \<and> procs k' = procs k \<and> (\<forall>j. but_ipc_to (privs k' j) = but_ipc_to (privs k j))"
  using assms by (auto simp: set_sendto_bit_def unset_sendto_bit_def set_ipc_to_def but_ipc_to_def Let_def)

lemma fill_sendto_returns:
  assumes "p_priv (procs k rp) \<noteq> None"
  shows "\<exists>k'. fill_sendto_mask rp m k = Some k' \<and> procs k' = procs k \<and> (\<forall>j. but_ipc_to (privs k' j) = but_ipc_to (privs k j))"
proof -
  have "\<exists>k'. fill_sendto_loop rp m is k = Some k' \<and> procs k' = procs k \<and> (\<forall>j. but_ipc_to (privs k' j) = but_ipc_to (privs k j))" for "is"
    using assms
  proof (induction "is" arbitrary: k)
    case (Cons i "is")
    obtain k1 where k1: "(if m (int i) then set_sendto_bit rp i k else unset_sendto_bit rp i k) = Some k1" "procs k1 = procs k"
        "\<And>j. but_ipc_to (privs k1 j) = but_ipc_to (privs k j)"
      using sendto_bit_frame [OF Cons.prems] by metis
    obtain k' where "fill_sendto_loop rp m is k1 = Some k'" "procs k' = procs k1" "\<And>j. but_ipc_to (privs k' j) = but_ipc_to (privs k1 j)"
      using Cons.IH [of k1] Cons.prems k1(2) by auto
    then show ?case using k1 by auto
  qed simp
  then show ?thesis by (simp only: fill_sendto_mask_def)
qed

lemma but_ipc_toD:
  assumes "but_ipc_to a = but_ipc_to b"
  shows "s_flags a = s_flags b" "s_notify_pending a = s_notify_pending b" "s_asyn_pending a = s_asyn_pending b"
    "s_int_pending a = s_int_pending b" "s_sig_pending a = s_sig_pending b" "s_trap_mask a = s_trap_mask b"
    "s_proc_nr a = s_proc_nr b"
  using arg_cong [OF assms, of s_flags] arg_cong [OF assms, of s_notify_pending] arg_cong [OF assms, of s_asyn_pending]
    arg_cong [OF assms, of s_int_pending] arg_cong [OF assms, of s_sig_pending] arg_cong [OF assms, of s_trap_mask]
    arg_cong [OF assms, of s_proc_nr] by (simp_all add: but_ipc_to_def)

text \<open>A structure without privileges beyond those of a fresh service, and with nothing pending.\<close>

definition clean :: "priv \<Rightarrow> bool" where
  "clean pr \<longleftrightarrow> s_flags pr = DSRV_F \<and> s_notify_pending pr = (\<lambda>_. False) \<and> s_int_pending pr = {} \<and> s_sig_pending pr = {} \<and>
     s_nr_io_range pr = 0 \<and> s_nr_mem_range pr = 0 \<and> s_nr_irq pr = 0 \<and> s_grant_entries pr = 0 \<and> s_sig_mgr pr = DSRV_SM"

lemma set_sys_default:
  assumes ok: "machine_ok k" and rp: "is_proc rp" "\<not> iskerneln rp" "RTS_ISSET k rp RTS_NO_PRIV" and arg: "\<not> arg_ptr arg"
    and ci: "p_priv (procs k c) = Some ci" "c \<noteq> rp" and g: "get_priv rp NULL_PRIV_ID k = (OK, take_priv rp i k)"
    and i: "i < nat NR_SYS_PROCS" "owner k i = NONE" and ne: "i \<noteq> ci"
  shows "\<exists>k'. priv_set_sys c rp arg k = Some (OK, k') \<and> machine_ok k' \<and> exclusive k' rp i \<and> clean (privs k' i) \<and>
    s_asyn_pending (privs k' i) = s_asyn_pending (privs k ci) \<and> (\<exists>ts. timer_list (get_timers k') ts \<and> i \<notin> set ts)"
proof -
  define k1 where "k1 = take_priv rp i k"
  have blk: "\<not> proc_is_runnable k rp" using rp(3) by (auto simp: RTS_ISSET_def proc_is_runnable_def)
  note t = take_priv_machine [OF ok rp(1,2) blk i, folded k1_def]
  obtain ts where ts: "clock_list k ts" "\<forall>j \<in> set ts. j < nat NR_SYS_PROCS \<longrightarrow> owner k j \<noteq> NONE"
    using ok by (auto simp: machine_ok_def clock_owned_def)
  have its: "i \<notin> set ts" using ts(2) i by auto
  have ts1: "clock_list k1 ts" "\<forall>j \<in> set ts. j < nat NR_SYS_PROCS \<longrightarrow> owner k1 j \<noteq> NONE"
    using ts its by (auto simp: k1_def take_priv_def clock_list_def get_timers_def owner_def)
  have "clock_list (copy_priv ci i rp k1) ts"
  proof -
    have "clock_list (upd_priv i h k1) ts" "get_timers (upd_priv i h k1) = get_timers k1" for h
      using ts1(1) by (simp_all add: clock_list_def get_timers_def)
    from clock_list_other [OF this(1) its] this(2) show ?thesis unfolding copy_priv_def by metis
  qed
  from reset_kernel_timer_result [OF this, of i] obtain k2 f where
    k2: "reset_kernel_timer i (copy_priv ci i rp k1) = Some k2" "clock_list k2 (remove1 i ts)" "k2 = set_clk f (copy_priv ci i rp k1)" by auto
  define k3 where "k3 = upd_priv i (\<lambda>pr. pr\<lparr>s_asyntab := - 1, s_asynsize := 0, s_diag_sig := False, s_flags := DSRV_F, s_trap_mask := - 1\<rparr>) k2"
  have p1: "p_priv (procs k1 rp) = Some i" "p_priv (procs k1 c) = Some ci" using ci by (simp_all add: k1_def take_priv_def)
  have "p_priv (procs k3 rp) \<noteq> None" using p1(1) by (simp add: k3_def k2(3) copy_priv_def)
  then obtain k4 where k4: "fill_sendto_mask rp (\<lambda>_. True) k3 = Some k4" "\<And>j. but_ipc_to (privs k4 j) = but_ipc_to (privs k3 j)"
    using fill_sendto_returns [of k3 rp "\<lambda>_. True"] by auto
  let ?k = "upd_priv i default_priv k4"
  note n = new_priv_machine [OF t ts1 its k2(1) k4(1) [unfolded k3_def]]
  note d = but_ipc_toD [OF k4(2) [of i]]
  have run: "priv_set_sys c rp arg k = Some (OK, ?k)"
    using rp(3) arg g p1 k2(1) k4(1) by (simp add: priv_set_sys_def k1_def k3_def Let_def)
  have "clean (privs ?k i)" using d by (simp add: clean_def default_priv_def k3_def k2(3) copy_priv_def)
  moreover have "s_asyn_pending (privs ?k i) = s_asyn_pending (privs k ci)"
    using d ne by (simp add: default_priv_def k3_def k2(3) copy_priv_def k1_def take_priv_def)
  moreover have "\<exists>ts. timer_list (get_timers ?k) ts \<and> i \<notin> set ts"
    using k2(2) outerD(2) [OF fill_sendto_cur [OF k4(1)]] its
    by (intro exI [of _ "remove1 i ts"]) (simp add: clock_list_def get_timers_def k3_def remove1_idem)
  ultimately show ?thesis using run n(1,2) by blast
qed


text \<open>Process 3 is a service with structure 20, and asks for one for process 2.\<close>

definition service_kernel :: kernel where
  "service_kernel = upd_priv 20 (\<lambda>pr. pr\<lparr>s_flags := SYS_PROC\<rparr>) (take_priv 3 20 demo_kernel)"

definition no_arg :: priv_arg where
  "no_arg = \<lparr>arg_ptr = False, arg_priv = Inl EINVAL, arg_io = \<lparr>ior_base = 0, ior_limit = 0\<rparr>, arg_mem = Inl EINVAL, arg_irq = 0\<rparr>"

lemma service_kernel_ok: "machine_ok service_kernel"
proof -
  have d: "is_proc 3" "\<not> iskerneln 3" "\<not> proc_is_runnable demo_kernel 3" "20 < nat NR_SYS_PROCS" "owner demo_kernel 20 = NONE"
    by (simp_all add: iskerneln_def proc_is_runnable_def demo_proc_def RTS_defs NR_SYS_PROCS_def owner_def demo_priv_def)
  note t = take_priv_machine [OF demo_machine_ok d]
  show ?thesis
    unfolding service_kernel_def by (rule machine_ok_upd_priv [OF t(1)]) (use t(2) in \<open>auto simp: owner_def\<close>)
qed

lemma service_kernel_sel:
  "procs service_kernel = demo_proc(3 := (demo_proc 3)\<lparr>p_priv := Some 20\<rparr>)"
  "privs service_kernel = demo_priv(20 := (demo_priv 20)\<lparr>s_proc_nr := 3, s_flags := SYS_PROC\<rparr>)"
  by (simp_all add: service_kernel_def take_priv_def demo_proc_def)


end
