(* ===== verification/Live_Update.thy ===== *)
theory Live_Update
  imports Privilege_Control
begin

text \<open>
  Live update (\<^verbatim>\<open>kernel/system/do_update.c\<close>): RS replaces a running system process by a new version. The kernel swaps the
  contents of the two process slots and of the two privilege structures, but the identities stay where they are: the endpoint, the number and
  the structure of a slot, the processes that wait to send to it, its scheduler, and what is pending for it.

  The alarm timer of a structure is moved with it and put back again, so that in the model, where a timer is named by its
  structure, it stays. The pointer \<open>ptproc\<close> to the address space in use is not part of the model.
\<close>

section \<open>The call\<close>

definition proc_is_updatable :: "kernel \<Rightarrow> int \<Rightarrow> bool" where
  "proc_is_updatable k p \<longleftrightarrow> RTS_ISSET k p RTS_NO_PRIV \<or> RTS_ISSET k p RTS_SIG_PENDING \<or>
     (RTS_ISSET k p RTS_RECEIVING \<and> \<not> RTS_ISSET k p RTS_SENDING)"

text \<open>The destination inherits the target mask of the source.\<close>

fun inherit_targets :: "int \<Rightarrow> int \<Rightarrow> nat list \<Rightarrow> kernel \<Rightarrow> kernel option" where
  "inherit_targets src dst [] k = Some k"
| "inherit_targets src dst (i # is) k = do {
     pr \<leftarrow> priv_of k src;
     k1 \<leftarrow> (if s_ipc_to pr (int i) then set_sendto_bit dst i k else Some k);
     inherit_targets src dst is k1
   }"

definition adjust_proc_slot :: "int \<Rightarrow> proc \<Rightarrow> kernel \<Rightarrow> kernel option" where
  "adjust_proc_slot rp from k = do {
     let k1 = upd_proc rp (\<lambda>r. r\<lparr>p_endpoint := p_endpoint from, p_nr := p_nr from, p_priv := p_priv from\<rparr>) k;
     i \<leftarrow> p_priv (procs k1 rp);
     let k2 = upd_priv i (\<lambda>pr. pr\<lparr>s_proc_nr := p_nr from\<rparr>) k1;
     Some (upd_proc rp (\<lambda>r. r\<lparr>p_caller_q := p_caller_q from, p_scheduler := p_scheduler from\<rparr>) k2)
   }"

definition adjust_priv_slot :: "nat \<Rightarrow> priv \<Rightarrow> kernel \<Rightarrow> kernel" where
  "adjust_priv_slot i from k =
     upd_priv i (\<lambda>pr. pr\<lparr>s_id := s_id from, s_notify_pending := s_notify_pending from, s_int_pending := s_int_pending from,
       s_sig_pending := s_sig_pending from, s_diag_sig := s_diag_sig from\<rparr>) k"

text \<open>From \<open>Save existing data\<close> to the end, for the slots \<open>s\<close> and \<open>d\<close> with the structures \<open>si\<close> and \<open>di\<close>.\<close>

definition swap_slots :: "int \<Rightarrow> nat \<Rightarrow> int \<Rightarrow> nat \<Rightarrow> kernel \<Rightarrow> kernel option" where
  "swap_slots s si d di k = do {
     let orig_src_proc = procs k s;
     let orig_src_priv = privs k si;
     let orig_dst_proc = procs k d;
     let orig_dst_priv = privs k di;
     let k1 = k\<lparr>procs := (procs k)(s := orig_dst_proc, d := orig_src_proc),
                privs := (privs k)(si := orig_dst_priv, di := orig_src_priv)\<rparr>;
     k2 \<leftarrow> adjust_proc_slot s orig_src_proc k1;
     k3 \<leftarrow> adjust_proc_slot d orig_dst_proc k2;
     si' \<leftarrow> p_priv (procs k3 s);
     di' \<leftarrow> p_priv (procs k3 d);
     Some (adjust_priv_slot di' orig_dst_priv (adjust_priv_slot si' orig_src_priv k3))
   }"

definition do_update :: "int \<Rightarrow> int \<Rightarrow> kernel \<Rightarrow> (code \<times> kernel) option" where
  "do_update src_e dst_e k =
     (case isokendpt k src_e of
        None \<Rightarrow> Some (EINVAL, k)
      | Some s \<Rightarrow> do {
          si \<leftarrow> p_priv (procs k s);
          if \<not> has (s_flags (privs k si)) SYS_PROC then Some (EPERM, k)
          else
            (case isokendpt k dst_e of
               None \<Rightarrow> Some (EINVAL, k)
             | Some d \<Rightarrow> do {
                 di \<leftarrow> p_priv (procs k d);
                 if \<not> has (s_flags (privs k di)) SYS_PROC then Some (EPERM, k)
                 else if proc_is_runnable k s \<or> proc_is_runnable k d then None
                 else if \<not> proc_is_updatable k s \<or> \<not> proc_is_updatable k d then Some (EBUSY, k)
                 else do {
                   k1 \<leftarrow> inherit_targets s d [0..<nat NR_SYS_PROCS] k;
                   k2 \<leftarrow> swap_slots s si d di k1;
                   Some (OK, k2)
                 }
               })
        })"

section \<open>What a slot keeps\<close>

definition moved :: "proc \<Rightarrow> proc \<Rightarrow> proc" where
  "moved img slot = img\<lparr>p_endpoint := p_endpoint slot, p_nr := p_nr slot, p_priv := p_priv slot,
     p_caller_q := p_caller_q slot, p_scheduler := p_scheduler slot\<rparr>"

definition moved_priv :: "priv \<Rightarrow> int \<Rightarrow> priv \<Rightarrow> priv" where
  "moved_priv img n slot = img\<lparr>s_proc_nr := n, s_id := s_id slot, s_notify_pending := s_notify_pending slot,
     s_int_pending := s_int_pending slot, s_sig_pending := s_sig_pending slot, s_diag_sig := s_diag_sig slot\<rparr>"

lemma moved_sel [simp]:
  "p_endpoint (moved r q) = p_endpoint q" "p_nr (moved r q) = p_nr q" "p_priv (moved r q) = p_priv q"
  "p_caller_q (moved r q) = p_caller_q q" "p_scheduler (moved r q) = p_scheduler q" "p_rts_flags (moved r q) = p_rts_flags r"
  "p_nextready (moved r q) = p_nextready r" "p_priority (moved r q) = p_priority r" "p_tickets (moved r q) = p_tickets r"
  "p_magic (moved r q) = p_magic r" "p_q_link (moved r q) = p_q_link r"
  by (simp_all add: moved_def)

lemma moved_back [simp]: "moved (moved r q) q' = moved r q'" "moved r (moved q q') = moved r q'" "moved r r = r"
  by (simp_all add: moved_def)

lemma moved_priv_sel [simp]:
  "s_proc_nr (moved_priv a n b) = n" "s_id (moved_priv a n b) = s_id b" "s_flags (moved_priv a n b) = s_flags a"
  "s_stack_guard (moved_priv a n b) = s_stack_guard a" "s_notify_pending (moved_priv a n b) = s_notify_pending b"
  "s_int_pending (moved_priv a n b) = s_int_pending b" "s_sig_pending (moved_priv a n b) = s_sig_pending b"
  "s_k_call_mask (moved_priv a n b) = s_k_call_mask a" "s_trap_mask (moved_priv a n b) = s_trap_mask a"
  "s_grant_table (moved_priv a n b) = s_grant_table a" "s_asyn_pending (moved_priv a n b) = s_asyn_pending a"
  by (simp_all add: moved_priv_def)

definition swapped :: "int \<Rightarrow> nat \<Rightarrow> int \<Rightarrow> nat \<Rightarrow> kernel \<Rightarrow> kernel" where
  "swapped s si d di k =
     k\<lparr>procs := (procs k)(s := moved (procs k d) (procs k s), d := moved (procs k s) (procs k d)),
       privs := (privs k)(si := moved_priv (privs k di) (p_nr (procs k s)) (privs k si),
                          di := moved_priv (privs k si) (p_nr (procs k d)) (privs k di))\<rparr>"

lemma swap_slots_eq:
  assumes "p_priv (procs k s) = Some si" "p_priv (procs k d) = Some di" "si = di \<longleftrightarrow> s = d"
  shows "swap_slots s si d di k = Some (swapped s si d di k)"
proof (cases "s = d")
  case True
  have e: "(procs k d)\<lparr>p_priv := Some si\<rparr> = procs k d" using assms(1) True by (cases "procs k d") simp
  show ?thesis using assms True
    by (auto simp: e swap_slots_def adjust_proc_slot_def adjust_priv_slot_def swapped_def moved_def moved_priv_def upd_proc_def upd_priv_def Let_def)
next
  case False
  then show ?thesis using assms
    by (auto simp: swap_slots_def adjust_proc_slot_def adjust_priv_slot_def swapped_def moved_def moved_priv_def upd_proc_def upd_priv_def Let_def
        fun_upd_twist)
qed

text \<open>Inheriting targets changes target masks only.\<close>

definition only_targets :: "kernel \<Rightarrow> kernel \<Rightarrow> bool" where
  "only_targets k k' \<longleftrightarrow> (\<exists>f. k' = k\<lparr>privs := \<lambda>i. (privs k i)\<lparr>s_ipc_to := f i\<rparr>\<rparr>)"

lemma only_targets_refl: "only_targets k k"
  unfolding only_targets_def by (rule exI [of _ "\<lambda>i. s_ipc_to (privs k i)"]) simp

lemma only_targets_trans: "only_targets k k1 \<Longrightarrow> only_targets k1 k2 \<Longrightarrow> only_targets k k2"
  by (auto simp: only_targets_def)

lemma set_ipc_to_targets: "only_targets k (set_ipc_to i b v k)"
  unfolding only_targets_def
  by (rule exI [of _ "\<lambda>j. if j = i then (s_ipc_to (privs k i))(b := v) else s_ipc_to (privs k j)"])
    (simp add: set_ipc_to_def upd_priv_def fun_eq_iff)

lemma set_sendto_bit_targets:
  assumes "p_priv (procs k rp) \<noteq> None"
  shows "\<exists>k'. set_sendto_bit rp i k = Some k' \<and> only_targets k k'"
  using assms only_targets_trans [OF set_ipc_to_targets set_ipc_to_targets]
  by (auto simp: set_sendto_bit_def Let_def set_ipc_to_targets)

lemma inherit_targets_result:
  assumes "p_priv (procs k s) \<noteq> None" "p_priv (procs k d) \<noteq> None"
  shows "\<exists>k'. inherit_targets s d is k = Some k' \<and> only_targets k k'"
  using assms
proof (induction "is" arbitrary: k)
  case Nil
  then show ?case by (simp add: only_targets_refl)
next
  case (Cons i "is")
  obtain pr where pr: "priv_of k s = Some pr" using Cons.prems by (auto simp: priv_of_def)
  obtain k1 where k1: "(if s_ipc_to pr (int i) then set_sendto_bit d i k else Some k) = Some k1" "only_targets k k1"
    using set_sendto_bit_targets [OF Cons.prems(2)] only_targets_refl by (metis (full_types))
  have "procs k1 = procs k" using k1(2) by (auto simp: only_targets_def)
  then obtain k' where "inherit_targets s d is k1 = Some k'" "only_targets k1 k'" using Cons.IH [of k1] Cons.prems by auto
  then show ?case using pr k1 only_targets_trans by auto
qed

lemma set_ipc_to_eq: "set_ipc_to i b v k = k\<lparr>privs := (privs k)(i := (privs k i)\<lparr>s_ipc_to := (s_ipc_to (privs k i))(b := v)\<rparr>)\<rparr>"
  by (simp add: set_ipc_to_def upd_priv_def)

text \<open>What the call does when it is not refused.\<close>

lemma do_update_cases:
  assumes "do_update src_e dst_e k = Some (r, k')"
  obtains (refused) "k' = k"
  | (updated) s d si di k1 where "isokendpt k src_e = Some s" "isokendpt k dst_e = Some d" "p_priv (procs k s) = Some si"
      "p_priv (procs k d) = Some di" "has (s_flags (privs k si)) SYS_PROC" "has (s_flags (privs k di)) SYS_PROC"
      "\<not> proc_is_runnable k s" "\<not> proc_is_runnable k d" "only_targets k k1" "swap_slots s si d di k1 = Some k'" "r = OK"
proof -
  have "k' = k \<or> (\<exists>s d si di k1. isokendpt k src_e = Some s \<and> isokendpt k dst_e = Some d \<and> p_priv (procs k s) = Some si \<and>
      p_priv (procs k d) = Some di \<and> has (s_flags (privs k si)) SYS_PROC \<and> has (s_flags (privs k di)) SYS_PROC \<and>
      \<not> proc_is_runnable k s \<and> \<not> proc_is_runnable k d \<and> inherit_targets s d [0..<nat NR_SYS_PROCS] k = Some k1 \<and>
      swap_slots s si d di k1 = Some k' \<and> r = OK)"
    using assms by (auto simp: do_update_def bind_eq_Some_conv split: option.splits if_splits)
  then show ?thesis using refused updated inherit_targets_result by (metis option.distinct(1) option.inject)
qed

section \<open>The invariant\<close>

text \<open>RS updates processes that are no kernel tasks and have structures of the table.\<close>

definition update_ok :: "kernel \<Rightarrow> int \<Rightarrow> bool" where
  "update_ok k e \<longleftrightarrow>
     (case isokendpt k e of
        None \<Rightarrow> True
      | Some p \<Rightarrow> \<not> iskerneln p \<and> in_use k p \<and> (case p_priv (procs k p) of None \<Rightarrow> True | Some i \<Rightarrow> i < nat NR_SYS_PROCS))"

lemma isokendpt_fields: "isokendpt k e = Some p \<Longrightarrow> isokprocn p \<and> p_endpoint (procs k p) = e"
  by (auto simp: isokendpt_def Let_def split: if_splits)

lemma well_linked_moved: "well_linked a \<Longrightarrow> well_linked b \<Longrightarrow> well_linked (moved a b)"
  by (simp add: well_linked_def)

lemma swapped_procs: "procs (swapped s si d di k) p =
    (if p = d then moved (procs k s) (procs k d) else if p = s then moved (procs k d) (procs k s) else procs k p)"
  by (simp add: swapped_def)

lemma sched_inv_swapped:
  assumes inv: "sched_inv L k" and p: "is_proc s" "is_proc d" "\<not> iskerneln s" "\<not> iskerneln d"
    and stop: "\<not> proc_is_runnable k s" "\<not> proc_is_runnable k d" and i: "p_priv (procs k s) = Some si" "p_priv (procs k d) = Some di"
    and own: "\<And>p. is_proc p \<Longrightarrow> iskerneln p \<Longrightarrow> p_priv (procs k p) \<noteq> Some si \<and> p_priv (procs k p) \<noteq> Some di"
  shows "sched_inv L (swapped s si d di k)"
proof -
  let ?k = "swapped s si d di k"
  have wf: "wf_kernel k" "run_queues L k" "queued L = runnables k" "total_tickets k = ticket_sum L k"
    using inv by (auto simp: sched_inv_def queues_hold_def)
  have out: "s \<notin> queued L" "d \<notin> queued L" using stop wf(3) by (auto simp: runnables_def)
  have same: "procs ?k p = procs k p" if "p \<in> queued L" for p using that out by (auto simp: swapped_def)
  have "runnables ?k = runnables k"
    using stop by (auto simp: runnables_def proc_is_runnable_def swapped_def)
  moreover have "run_queues L ?k"
    by (rule run_queues_cong [OF wf(2)]) (use same in \<open>simp_all add: next_of_def swapped_def\<close>)
  moreover have "ticket_sum L ?k = ticket_sum L k"
  proof -
    have "(\<Sum>p \<leftarrow> L q. p_tickets (procs ?k p)) = (\<Sum>p \<leftarrow> L q. p_tickets (procs k p))" if "q < NR_SCHED_QUEUES" for q
      by (intro arg_cong [of _ _ sum_list] map_cong refl arg_cong [of _ _ p_tickets] same) (use that in \<open>auto simp: queued_def\<close>)
    then show ?thesis by (simp add: ticket_sum_def)
  qed
  moreover have "wf_kernel ?k"
  proof -
    have "wf_proc ?k p" if ip: "is_proc p" for p
    proof -
      have w: "wf_proc k p" "wf_proc k s" "wf_proc k d" using wf(1) ip p(1,2) by (simp_all add: wf_kernel_def)
      have "proc_ptr_ok ?k p \<and> queue_index ?k p \<noteq> None \<and> 0 \<le> p_tickets (procs ?k p)"
        using w by (auto simp: wf_proc_def proc_ptr_ok_def queue_index_def swapped_def Let_def)
      moreover have "\<exists>pr. priv_of ?k p = Some pr \<and> (iskerneln p \<longrightarrow> s_stack_guard pr = STACK_GUARD)"
      proof -
        obtain j where j: "p_priv (procs k p) = Some j" "iskerneln p \<longrightarrow> s_stack_guard (privs k j) = STACK_GUARD"
          using w(1) by (auto simp: wf_proc_def priv_of_def)
        have "p_priv (procs ?k p) = Some j" using j(1) by (auto simp: swapped_def)
        moreover have "iskerneln p \<longrightarrow> privs ?k j = privs k j" using own [OF ip] j(1) by (auto simp: swapped_def)
        ultimately show ?thesis using j(2) by (simp add: priv_of_def)
      qed
      ultimately show ?thesis by (simp add: wf_proc_def)
    qed
    then show ?thesis using wf(1) by (simp add: wf_kernel_def swapped_def)
  qed
  ultimately show ?thesis using inv wf(4) by (simp add: sched_inv_def queues_hold_def swapped_def)
qed

lemma only_targets_outer:
  assumes "only_targets k k1"
  shows "outer k1 = outer k" "kernel_ok k \<Longrightarrow> kernel_ok k1" "procs k1 = procs k"
proof -
  obtain f where k1: "k1 = k\<lparr>privs := \<lambda>i. (privs k i)\<lparr>s_ipc_to := f i\<rparr>\<rparr>" using assms by (auto simp: only_targets_def)
  show "outer k1 = outer k" "procs k1 = procs k" by (simp_all add: k1 outer_def idents_def)
  show "kernel_ok k1" if "kernel_ok k"
  proof -
    obtain L where "sched_inv L k" "links_ok k" using \<open>kernel_ok k\<close> by (auto simp: kernel_ok_def)
    moreover have "sched_inv L k1" by (rule sched_inv_cong [OF \<open>sched_inv L k\<close>]) (simp_all add: k1)
    ultimately show ?thesis by (auto simp: kernel_ok_def links_ok_def k1)
  qed
qed

lemma swapped_machine:
  assumes ok: "machine_ok k" and e: "isokendpt k src_e = Some s" "isokendpt k dst_e = Some d" and u: "update_ok k src_e" "update_ok k dst_e"
    and i: "p_priv (procs k s) = Some si" "p_priv (procs k d) = Some di"
    and sys: "has (s_flags (privs k si)) SYS_PROC" "has (s_flags (privs k di)) SYS_PROC"
    and stop: "\<not> proc_is_runnable k s" "\<not> proc_is_runnable k d"
  shows "machine_ok (swapped s si d di k)" "si = di \<longleftrightarrow> s = d" "proc_ptr (swapped s si d di k) = proc_ptr k"
proof -
  let ?k = "swapped s si d di k"
  have t: "table_ok k" and kok: "kernel_ok k" using ok by (simp_all add: machine_ok_def)
  have nk: "\<not> iskerneln s" "\<not> iskerneln d" "si < nat NR_SYS_PROCS" "di < nat NR_SYS_PROCS"
    and use: "in_use k s" "in_use k d" using u e i by (simp_all add: update_ok_def)
  have ip: "is_proc s" "is_proc d" using e by (auto intro: isokendpt_is_proc)
  have a: "\<not> has (p_rts_flags (procs k s)) RTS_SLOT_FREE" "\<not> has (p_rts_flags (procs k d)) RTS_SLOT_FREE"
    using use nk(1,2) by (simp_all add: in_use_def)
  have nr: "p_nr (procs k s) = s" "p_nr (procs k d) = d" using table_okD(1) [OF t] ip by simp_all
  have own: "owner k si = s" "owner k di = d"
    using table_okD(4) [OF t ip(1) use(1) i(1) nk(3)] table_okD(4) [OF t ip(2) use(2) i(2) nk(4)] sys by (simp_all add: is_sys_def)
  show eq: "si = di \<longleftrightarrow> s = d" using own i by (metis option.inject)
  have mine: "p = s" if "is_proc p" "in_use k p" "p_priv (procs k p) = Some si" for p
    using table_okD(4) [OF t that nk(3)] own(1) sys(1) by (simp add: is_sys_def)
  have yours: "p = d" if "is_proc p" "in_use k p" "p_priv (procs k p) = Some di" for p
    using table_okD(4) [OF t that nk(4)] own(2) sys(2) by (simp add: is_sys_def)
  have o: "owner ?k j = owner k j" "is_sys ?k j = is_sys k j" for j
    using own nr sys by (auto simp: owner_def is_sys_def swapped_def)
  have f: "has (p_rts_flags (procs ?k p)) RTS_SLOT_FREE = has (p_rts_flags (procs k p)) RTS_SLOT_FREE"
    "p_endpoint (procs ?k p) = p_endpoint (procs k p)" "p_priv (procs ?k p) = p_priv (procs k p)" "p_nr (procs ?k p) = p_nr (procs k p)" for p
    using a by (auto simp: swapped_def)
  have iu: "in_use ?k p = in_use k p" for p by (simp add: in_use_def f(1))
  have "table_ok ?k" using t by (simp add: table_ok_def o iu f)
  moreover have "kernel_ok ?k"
  proof -
    obtain L where L: "sched_inv L k" "links_ok k" using kok by (auto simp: kernel_ok_def)
    have "sched_inv L ?k"
    proof (rule sched_inv_swapped [OF L(1) ip nk(1,2) stop i])
      show "p_priv (procs k p) \<noteq> Some si \<and> p_priv (procs k p) \<noteq> Some di" if "is_proc p" "iskerneln p" for p
        using mine [OF that(1)] yours [OF that(1)] that(2) nk(1,2) by (auto simp: in_use_def)
    qed
    moreover have "links_ok ?k" using L(2) ip by (simp add: links_ok_def swapped_procs well_linked_moved)
    ultimately show ?thesis by (auto simp: kernel_ok_def)
  qed
  moreover have c: "clk ?k = clk k" "irqs ?k = irqs k" "bill_ptr ?k = bill_ptr k" by (simp_all add: swapped_def)
  moreover have "clock_owned ?k" using clock_owned_sub [OF clock_sub_same [OF c(1)] o(1)] ok by (simp add: machine_ok_def)
  moreover have "hooks_alive ?k" using ok by (simp add: machine_ok_def hooks_alive_def drivers_alive_def alive_as_def c(2) f)
  ultimately show "machine_ok ?k" using ok by (simp add: machine_ok_def irq_ok_def)
  show "proc_ptr ?k = proc_ptr k" by (simp add: swapped_def)
qed

lemma only_targets_fields:
  assumes "only_targets k k1"
  shows "machine_ok k \<Longrightarrow> machine_ok k1" "isokendpt k1 = isokendpt k" "update_ok k1 = update_ok k" "proc_ptr k1 = proc_ptr k"
    "s_flags (privs k1 j) = s_flags (privs k j)" "proc_is_runnable k1 p = proc_is_runnable k p"
    "proc_is_updatable k1 p = proc_is_updatable k p"
proof -
  note o = only_targets_outer [OF assms]
  show "machine_ok k1" if "machine_ok k" using machine_ok_outer [OF o(1) o(2) [OF machine_kernel [OF that]] that] .
  show i: "isokendpt k1 = isokendpt k" by (simp add: isokendpt_def isemptyn_def o(3) fun_eq_iff)
  show "update_ok k1 = update_ok k" by (rule ext) (simp only: update_ok_def in_use_def o(3) i)
  show "proc_ptr k1 = proc_ptr k" using outerD(1) [OF o(1)] by simp
  show "s_flags (privs k1 j) = s_flags (privs k j)" using identsD(8) [OF outerD(6) [OF o(1)]] by simp
  show "proc_is_runnable k1 p = proc_is_runnable k p" "proc_is_updatable k1 p = proc_is_updatable k p"
    by (simp_all add: proc_is_runnable_def proc_is_updatable_def RTS_ISSET_def o(3))
qed

text \<open>The call on processes that can be updated.\<close>

definition updatable_pair :: "kernel \<Rightarrow> int \<Rightarrow> int \<Rightarrow> int \<Rightarrow> nat \<Rightarrow> int \<Rightarrow> nat \<Rightarrow> bool" where
  "updatable_pair k src_e dst_e s si d di \<longleftrightarrow>
     isokendpt k src_e = Some s \<and> isokendpt k dst_e = Some d \<and> update_ok k src_e \<and> update_ok k dst_e \<and>
     p_priv (procs k s) = Some si \<and> p_priv (procs k d) = Some di \<and>
     has (s_flags (privs k si)) SYS_PROC \<and> has (s_flags (privs k di)) SYS_PROC \<and>
     \<not> proc_is_runnable k s \<and> \<not> proc_is_runnable k d \<and> proc_is_updatable k s \<and> proc_is_updatable k d"

lemma swapped_updatable:
  assumes "machine_ok k" "updatable_pair k src_e dst_e s si d di"
  shows "machine_ok (swapped s si d di k)" "si = di \<longleftrightarrow> s = d" "proc_ptr (swapped s si d di k) = proc_ptr k"
  using swapped_machine [OF assms(1), of src_e s dst_e d si di] assms(2) by (simp_all add: updatable_pair_def)

lemma do_update_result:
  assumes "machine_ok k" "updatable_pair k src_e dst_e s si d di"
  shows "\<exists>k1. only_targets k k1 \<and> updatable_pair k1 src_e dst_e s si d di \<and> machine_ok k1 \<and>
    do_update src_e dst_e k = Some (OK, swapped s si d di k1) \<and> machine_ok (swapped s si d di k1)"
proof -
  note u = assms(2) [unfolded updatable_pair_def]
  obtain k1 where k1: "inherit_targets s d [0..<nat NR_SYS_PROCS] k = Some k1" "only_targets k k1"
    using inherit_targets_result [of k s d] u by auto
  note o = only_targets_fields [OF k1(2)] and pr = only_targets_outer(3) [OF k1(2)]
  have u1: "updatable_pair k1 src_e dst_e s si d di" using u by (simp add: updatable_pair_def o pr)
  note m = swapped_updatable [OF o(1) [OF assms(1)] u1]
  have "swap_slots s si d di k1 = Some (swapped s si d di k1)"
    by (rule swap_slots_eq [OF _ _ m(2)]) (use u in \<open>simp_all add: pr\<close>)
  then have "do_update src_e dst_e k = Some (OK, swapped s si d di k1)" using u k1(1) by (simp add: do_update_def)
  then show ?thesis using k1(2) u1 m(1) o(1) [OF assms(1)] by blast
qed

lemma do_update_kept:
  assumes c: "do_update src_e dst_e k = Some (r, k')" and ok: "machine_ok k" and u: "update_ok k src_e" "update_ok k dst_e"
  shows "machine_ok k'" "proc_ptr k' = proc_ptr k"
proof -
  have "machine_ok k' \<and> proc_ptr k' = proc_ptr k"
    using c
  proof (cases rule: do_update_cases)
    case refused
    then show ?thesis using ok by simp
  next
    case (updated s d si di k1)
    note o = only_targets_fields [OF updated(9)] and pr = only_targets_outer(3) [OF updated(9)]
    have m: "machine_ok (swapped s si d di k1)" "si = di \<longleftrightarrow> s = d" "proc_ptr (swapped s si d di k1) = proc_ptr k1"
      using swapped_machine [OF o(1) [OF ok], of src_e s dst_e d si di] updated(1-8) u by (simp_all add: o pr)
    have "swap_slots s si d di k1 = Some (swapped s si d di k1)"
      by (rule swap_slots_eq [OF _ _ m(2)]) (use updated in \<open>simp_all add: pr\<close>)
    then show ?thesis using updated(10) m o(4) by simp
  qed
  then show "machine_ok k'" "proc_ptr k' = proc_ptr k" by simp_all
qed

text \<open>A structure with other targets.\<close>

definition with_targets :: "(int \<Rightarrow> bool) \<Rightarrow> priv \<Rightarrow> priv" where
  "with_targets f pr = pr\<lparr>s_ipc_to := f\<rparr>"

lemma moved_priv_back: "moved_priv (with_targets f (moved_priv a m b)) (s_proc_nr a) (with_targets g (moved_priv c n a)) = with_targets f a"
  by (simp add: moved_priv_def with_targets_def)

lemma only_targetsI:
  assumes "k' = k\<lparr>privs := privs k'\<rparr>" "\<And>i. \<exists>f. privs k' i = with_targets f (privs k i)"
  shows "only_targets k k'"
proof -
  obtain f where "\<And>i. privs k' i = with_targets (f i) (privs k i)" using assms(2) by metis
  then have "privs k' = (\<lambda>i. (privs k i)\<lparr>s_ipc_to := f i\<rparr>)" by (simp add: with_targets_def fun_eq_iff)
  then show ?thesis using assms(1) unfolding only_targets_def by metis
qed

lemma only_targetsD:
  assumes "only_targets k k'"
  shows "k' = k\<lparr>privs := privs k'\<rparr>" "\<exists>f. privs k' i = with_targets f (privs k i)"
  using assms by (auto simp: only_targets_def with_targets_def)

lemma swapped_privs: "privs (swapped s si d di k) i =
    (if i = di then moved_priv (privs k si) (p_nr (procs k d)) (privs k di)
     else if i = si then moved_priv (privs k di) (p_nr (procs k s)) (privs k si) else privs k i)"
  by (simp add: swapped_def)

lemma swapped_rest: "swapped s si d di k = k\<lparr>procs := procs (swapped s si d di k), privs := privs (swapped s si d di k)\<rparr>"
  by (simp add: swapped_def)

lemma updatable_numbers:
  assumes "machine_ok k" "updatable_pair k src_e dst_e s si d di"
  shows "p_nr (procs k s) = s" "p_nr (procs k d) = d" "s_proc_nr (privs k si) = s" "s_proc_nr (privs k di) = d"
    "in_use k s" "in_use k d" "\<not> iskerneln s" "\<not> iskerneln d"
proof -
  note u = assms(2) [unfolded updatable_pair_def]
  have t: "table_ok k" using assms(1) by (simp add: machine_ok_def)
  have ip: "is_proc s" "is_proc d" using u by (auto intro: isokendpt_is_proc)
  show "p_nr (procs k s) = s" "p_nr (procs k d) = d" using table_okD(1) [OF t] ip by simp_all
  show use: "in_use k s" "in_use k d" "\<not> iskerneln s" "\<not> iskerneln d" using u by (auto simp: update_ok_def)
  have lt: "si < nat NR_SYS_PROCS" "di < nat NR_SYS_PROCS" using u by (auto simp: update_ok_def)
  show "s_proc_nr (privs k si) = s" "s_proc_nr (privs k di) = d"
    using table_okD(4) [OF t ip(1) use(1) _ lt(1)] table_okD(4) [OF t ip(2) use(2) _ lt(2)] u by (simp_all add: owner_def is_sys_def)
qed

lemma swapped_again:
  assumes ok: "machine_ok k" and u: "updatable_pair k src_e dst_e s si d di"
  shows "updatable_pair (swapped s si d di k) src_e dst_e s si d di"
    and "only_targets (swapped s si d di k) k1 \<Longrightarrow> only_targets k (swapped s si d di k1)"
proof -
  let ?k = "swapped s si d di k"
  note n = updatable_numbers [OF ok u] and eq = swapped_updatable(2) [OF ok u] and v = u [unfolded updatable_pair_def]
  have f: "\<not> has (p_rts_flags (procs k s)) RTS_SLOT_FREE" "\<not> has (p_rts_flags (procs k d)) RTS_SLOT_FREE"
    using n(5-8) by (simp_all add: in_use_def)
  have ids: "p_endpoint (procs ?k p) = p_endpoint (procs k p)" "p_priv (procs ?k p) = p_priv (procs k p)" "p_nr (procs ?k p) = p_nr (procs k p)" for p
    by (simp_all add: swapped_procs)
  have "p_rts_flags (procs k s) \<noteq> RTS_SLOT_FREE" "p_rts_flags (procs k d) \<noteq> RTS_SLOT_FREE" using f by (auto simp: has_def RTS_SLOT_FREE_def)
  then have e: "isokendpt ?k = isokendpt k" by (auto simp: isokendpt_def isemptyn_def ids swapped_procs fun_eq_iff Let_def)
  have iu: "in_use ?k p = in_use k p" for p using f by (simp add: in_use_def swapped_procs)
  have uo: "update_ok ?k x = update_ok k x" for x by (simp only: update_ok_def e iu ids)
  show "updatable_pair ?k src_e dst_e s si d di"
    using v unfolding updatable_pair_def uo e ids
    by (auto simp: swapped_procs swapped_privs proc_is_runnable_def proc_is_updatable_def RTS_ISSET_def)
  show "only_targets k (swapped s si d di k1)" if t: "only_targets ?k k1"
  proof (rule only_targetsI)
    obtain f where k1: "k1 = ?k\<lparr>privs := \<lambda>i. with_targets (f i) (privs ?k i)\<rparr>"
      using t by (auto simp: only_targets_def with_targets_def)
    have "swapped s si d di k1 = k\<lparr>procs := procs (swapped s si d di k1), privs := privs (swapped s si d di k1)\<rparr>"
      unfolding k1 by (simp add: swapped_def)
    moreover have "procs (swapped s si d di k1) = procs k" by (auto simp: swapped_procs k1 fun_eq_iff)
    ultimately show "swapped s si d di k1 = k\<lparr>privs := privs (swapped s si d di k1)\<rparr>" by (cases k) simp
    have p: "privs k1 j = with_targets (f j) (privs ?k j)" "p_nr (procs k1 q) = p_nr (procs k q)" for j q by (simp_all add: k1 ids)
    have di: "privs (swapped s si d di k1) di = with_targets (f si) (privs k di)"
    proof (cases "si = di")
      case True
      then have "s = d" using eq by simp
      then show ?thesis using moved_priv_back [of "f si" "privs k di" "p_nr (procs k d)"] n(2,4) True by (simp add: swapped_privs p)
    next
      case False
      then show ?thesis using moved_priv_back [of "f si" "privs k di"] n(2,4) by (simp add: swapped_privs p)
    qed
    have si: "privs (swapped s si d di k1) si = with_targets (f di) (privs k si)"
    proof (cases "si = di")
      case True
      then show ?thesis using di by simp
    next
      case False
      then show ?thesis using moved_priv_back [of "f di" "privs k si"] n(1,3) by (simp add: swapped_privs p)
    qed
    show "\<exists>f. privs (swapped s si d di k1) i = with_targets f (privs k i)" for i
      using di si p(1) [of i] by (cases "i = di \<or> i = si") (auto simp: swapped_privs)
  qed
qed

section \<open>Live update properties\<close>

text \<open>C24. A live update swaps two services and can be undone. When both are no kernel tasks, have structures of their own, are not runnable
  and can be updated, \<open>do_update\<close> succeeds and the kernel stays consistent: each slot gets the registers, messages, flags and name
  of the other one, and its structure the permissions, grants and tables of the other one, while the endpoint, the
  number, the structure, the waiting senders and the scheduler of the slot, and what is pending for it, stay; all other processes are as before. A
  second update brings back every process, and every privilege structure but for the targets that were added.
\<close>

theorem update_swaps_services:
  assumes ok: "machine_ok k" and u: "updatable_pair k src_e dst_e s si d di"
  shows "\<exists>k1 k2. do_update src_e dst_e k = Some (OK, k1) \<and> machine_ok k1 \<and>
    procs k1 = (procs k)(s := moved (procs k d) (procs k s), d := moved (procs k s) (procs k d)) \<and>
    (\<exists>f. privs k1 si = with_targets f (moved_priv (privs k di) s (privs k si))) \<and>
    (\<exists>f. privs k1 di = with_targets f (moved_priv (privs k si) d (privs k di))) \<and>
    do_update src_e dst_e k1 = Some (OK, k2) \<and> machine_ok k2 \<and> procs k2 = procs k \<and> only_targets k k2"
proof -
  obtain ka where a: "only_targets k ka" "updatable_pair ka src_e dst_e s si d di" "machine_ok ka"
      "do_update src_e dst_e k = Some (OK, swapped s si d di ka)" "machine_ok (swapped s si d di ka)"
    using do_update_result [OF ok u] by blast
  let ?k1 = "swapped s si d di ka"
  note again = swapped_again [OF a(3,2)] and pa = only_targets_outer(3) [OF a(1)] and n = updatable_numbers [OF a(3,2)]
  obtain kb where b: "only_targets ?k1 kb" "do_update src_e dst_e ?k1 = Some (OK, swapped s si d di kb)" "machine_ok (swapped s si d di kb)"
    using do_update_result [OF a(5) again(1)] by blast
  have undone: "only_targets k (swapped s si d di kb)" by (rule only_targets_trans [OF a(1) again(2) [OF b(1)]])
  have p: "procs ?k1 = (procs k)(s := moved (procs k d) (procs k s), d := moved (procs k s) (procs k d))"
    by (simp add: swapped_def pa)
  have eq: "si = di \<longleftrightarrow> s = d" by (rule swapped_updatable(2) [OF a(3,2)])
  have t: "\<exists>f. privs ka i = with_targets f (privs k i)" for i by (rule only_targetsD(2) [OF a(1)])
  have mp: "moved_priv (with_targets f x) j (with_targets g y) = with_targets f (moved_priv x j y)" for f g x j y
    by (simp add: moved_priv_def with_targets_def)
  have "\<exists>f. privs ?k1 si = with_targets f (moved_priv (privs k di) s (privs k si))"
    using t [of si] t [of di] n(1,2) eq by (auto simp: swapped_privs mp)
  moreover have "\<exists>f. privs ?k1 di = with_targets f (moved_priv (privs k si) d (privs k di))"
    using t [of si] t [of di] n(1,2) eq by (auto simp: swapped_privs mp)
  ultimately show ?thesis
    using a(4,5) b(2,3) p only_targets_outer(3) [OF undone] undone by blast
qed

text \<open>Process 3 of \<open>service_kernel\<close>, which waits for a message, and process 2, a new version of it with structure 21 that has not started.\<close>

definition new_version :: "kernel \<Rightarrow> kernel" where
  "new_version k = upd_priv 21 (\<lambda>pr. pr\<lparr>s_flags := SYS_PROC\<rparr>) (take_priv 2 21 k)"

theorem update_swaps_services_witness:
  "\<exists>k k1. RTS_SET 2 RTS_NO_PRIV service_kernel = Some k \<and> do_update 3 2 (new_version k) = Some (OK, k1) \<and>
     p_rts_flags (procs k1 2) = RTS_RECEIVING \<and> p_rts_flags (procs k1 3) = RTS_NO_PRIV \<and>
     p_endpoint (procs k1 2) = 2 \<and> p_priv (procs k1 2) = Some 21"
proof -
  have nz: "RTS_NO_PRIV \<noteq> 0" by simp
  obtain k where k: "RTS_SET 2 RTS_NO_PRIV service_kernel = Some k" "sched_frame service_kernel k"
      "\<forall>x. p_rts_flags (procs k x) = (if x = 2 then p_rts_flags (procs service_kernel x) OR RTS_NO_PRIV else p_rts_flags (procs service_kernel x))"
    using kernel_ok_RTS_SET [OF machine_kernel [OF service_kernel_ok] demo_is_proc(2) nz] by blast
  have m: "machine_ok k" using machine_ok_RTS(1) [OF k(1) service_kernel_ok] by simp
  have id: "idents k = idents service_kernel" by (rule outerD(6) [OF RTS_SET_cur [OF k(1)]]) simp
  have pv: "privs k = privs service_kernel" by (rule sched_frame_sel(1) [OF k(2)])
  have f: "p_rts_flags (procs k 2) = RTS_NO_PRIV" "p_endpoint (procs k 2) = 2" "p_rts_flags (procs k 3) = RTS_RECEIVING"
    "p_endpoint (procs k 3) = 3" "p_priv (procs k 3) = Some 20"
    using k(3) identsD(1) [OF id, of 2] identsD(1) [OF id, of 3] identsD(2) [OF id, of 3]
    by (simp_all add: service_kernel_sel demo_proc_def idle_proc_def)
  have d: "is_proc 2" "\<not> iskerneln 2" "\<not> proc_is_runnable k 2" "21 < nat NR_SYS_PROCS" "owner k 21 = NONE"
    by (simp_all add: iskerneln_def proc_is_runnable_def f RTS_NO_PRIV_def NR_SYS_PROCS_def owner_def pv service_kernel_sel demo_priv_def)
  note t = take_priv_machine [OF m d]
  have ok: "machine_ok (new_version k)"
    unfolding new_version_def by (rule machine_ok_upd_priv [OF t(1)]) (use t(2) in \<open>auto simp: owner_def\<close>)
  have n: "procs (new_version k) 2 = (procs k 2)\<lparr>p_priv := Some 21\<rparr>" "procs (new_version k) 3 = procs k 3"
    "s_flags (privs (new_version k) 21) = SYS_PROC" "s_flags (privs (new_version k) 20) = SYS_PROC"
    by (simp_all add: new_version_def take_priv_def pv service_kernel_sel)
  have e: "isokendpt (new_version k) 3 = Some 3" "isokendpt (new_version k) 2 = Some 2"
    by (simp_all add: isokendpt_def Let_def endpoint_defs isokprocn_def NR_TASKS_def NR_PROCS_def isemptyn_def n f RTS_defs)
  have u: "updatable_pair (new_version k) 3 2 3 20 2 21"
    by (simp add: updatable_pair_def e n f update_ok_def iskerneln_def in_use_def has_def RTS_defs NR_SYS_PROCS_def
        proc_is_runnable_def proc_is_updatable_def RTS_ISSET_def SYS_PROC_def)
  show ?thesis using update_swaps_services [OF ok u] k(1) n f by fastforce
qed

end
