(* ===== verification/Grants.thy ===== *)
theory Grants
  imports Process_Calls
begin

text \<open>
  Memory grants (\<^verbatim>\<open>kernel/system/do_safecopy.c\<close>, \<^verbatim>\<open>kernel/system/do_safememset.c\<close> and \<^verbatim>\<open>minix/safecopies.h\<close>): a
  process lets another one read or write a range of its memory by an entry of its grant table; the kernel
  verifies the entry, following indirect grants, before it copies.

  Addresses, sizes and flag words are 32-bit words and wrap around as in the code. The union of a grant is kept as
  its four words, so that reading it as the wrong variant is what the code does. The page tables are not modelled: what
  the kernel reads from and does to the memory of processes are the fields of \<open>copier\<close>, over any type of memory.
\<close>

section \<open>Grants\<close>

definition MAX_INDIRECT_DEPTH :: nat where "MAX_INDIRECT_DEPTH = 5"
definition MEM_TOP :: "32 word" where "MEM_TOP = 0xFFFFFFFF"
definition SCPVEC_NR :: nat where "SCPVEC_NR = 64"
definition VFS_PROC_NR :: int where "VFS_PROC_NR = 1"

definition CPF_READ :: "32 word" where "CPF_READ = 0x000001"
definition CPF_WRITE :: "32 word" where "CPF_WRITE = 0x000002"
definition CPF_TRY :: "32 word" where "CPF_TRY = 0x000010"
definition CPF_USED :: "32 word" where "CPF_USED = 0x000100"
definition CPF_DIRECT :: "32 word" where "CPF_DIRECT = 0x000200"
definition CPF_INDIRECT :: "32 word" where "CPF_INDIRECT = 0x000400"
definition CPF_MAGIC :: "32 word" where "CPF_MAGIC = 0x000800"
definition CPF_VALID :: "32 word" where "CPF_VALID = 0x001000"

lemmas CPF_defs = CPF_READ_def CPF_WRITE_def CPF_TRY_def CPF_USED_def CPF_DIRECT_def CPF_INDIRECT_def CPF_MAGIC_def
  CPF_VALID_def

text \<open>The words of the union: \<open>cp_direct\<close> is grantee, start, length; \<open>cp_indirect\<close> is grantee, previous granter, previous
  grant; \<open>cp_magic\<close> is granter, grantee, start, length.\<close>

record cp_grant =
  cp_flags :: "32 word"
  cp_u0 :: "32 word"
  cp_u1 :: "32 word"
  cp_u2 :: "32 word"
  cp_u3 :: "32 word"

definition cp_direct_who_to :: "cp_grant \<Rightarrow> int" where "cp_direct_who_to g = sint (cp_u0 g)"
definition cp_direct_start :: "cp_grant \<Rightarrow> 32 word" where "cp_direct_start g = cp_u1 g"
definition cp_direct_len :: "cp_grant \<Rightarrow> 32 word" where "cp_direct_len g = cp_u2 g"
definition cp_indirect_who_to :: "cp_grant \<Rightarrow> int" where "cp_indirect_who_to g = sint (cp_u0 g)"
definition cp_indirect_who_from :: "cp_grant \<Rightarrow> int" where "cp_indirect_who_from g = sint (cp_u1 g)"
definition cp_indirect_grant :: "cp_grant \<Rightarrow> int" where "cp_indirect_grant g = sint (cp_u2 g)"
definition cp_magic_who_from :: "cp_grant \<Rightarrow> int" where "cp_magic_who_from g = sint (cp_u0 g)"
definition cp_magic_who_to :: "cp_grant \<Rightarrow> int" where "cp_magic_who_to g = sint (cp_u1 g)"
definition cp_magic_start :: "cp_grant \<Rightarrow> 32 word" where "cp_magic_start g = cp_u2 g"
definition cp_magic_len :: "cp_grant \<Rightarrow> 32 word" where "cp_magic_len g = cp_u3 g"

text \<open>The size of a grant on the i386: the flags, the union of 24 bytes and 8 reserved bytes.\<close>

definition cp_grant_size :: "32 word" where "cp_grant_size = 36"

definition GRANT_INVALID :: int where "GRANT_INVALID = - 1"

definition GRANT_VALID :: "int \<Rightarrow> bool" where "GRANT_VALID g \<longleftrightarrow> g > GRANT_INVALID"

definition HASGRANTTABLE :: "kernel \<Rightarrow> int \<Rightarrow> bool" where
  "HASGRANTTABLE k p \<longleftrightarrow> (case priv_of k p of None \<Rightarrow> False | Some pr \<Rightarrow> s_grant_table pr \<noteq> 0)"

section \<open>Verification of a grant\<close>

text \<open>\<open>mem e a\<close> is the grant at address \<open>a\<close> of the process with endpoint \<open>e\<close>; \<open>None\<close>: the copy to the kernel fails.\<close>

type_synonym grant_mem = "int \<Rightarrow> 32 word \<Rightarrow> cp_grant option"

text \<open>One round of the loop of \<open>verify_grant\<close> up to the test of validity: an error, or the entry.\<close>

definition grant_entry :: "grant_mem \<Rightarrow> kernel \<Rightarrow> int \<Rightarrow> int \<Rightarrow> code + cp_grant" where
  "grant_entry mem k granter grant =
     (case isokendpt k granter of
        None \<Rightarrow> Inl EINVAL
      | Some proc_nr \<Rightarrow>
          if \<not> GRANT_VALID grant then Inl EINVAL
          else if \<not> HASGRANTTABLE k proc_nr then Inl EPERM
          else
            (case priv_of k proc_nr of
               None \<Rightarrow> Inl EPERM
             | Some pr \<Rightarrow>
                 if s_grant_entries pr \<le> grant then Inl EPERM
                 else
                   (case mem granter (word_of_int (s_grant_table pr) + cp_grant_size * word_of_int grant) of
                      None \<Rightarrow> Inl EPERM
                    | Some g \<Rightarrow>
                        if cp_flags g AND (CPF_USED OR CPF_VALID) \<noteq> CPF_USED OR CPF_VALID then Inl EPERM
                        else Inr g)))"

text \<open>The whole loop; \<open>left\<close> is how many more indirect grants are followed. The result is the grant at the end, its
  granter and its grantee.\<close>

fun follow_grant :: "grant_mem \<Rightarrow> kernel \<Rightarrow> nat \<Rightarrow> int \<Rightarrow> int \<Rightarrow> int \<Rightarrow> code + cp_grant \<times> int \<times> int" where
  "follow_grant mem k left granter grantee grant =
     (case grant_entry mem k granter grant of
        Inl e \<Rightarrow> Inl e
      | Inr g \<Rightarrow>
          if has (cp_flags g) CPF_INDIRECT then
            (case left of
               0 \<Rightarrow> Inl ELOOP
             | Suc left' \<Rightarrow>
                 if cp_indirect_who_to g \<noteq> grantee \<and> grantee \<noteq> ANY \<and> cp_indirect_who_to g \<noteq> ANY then Inl EPERM
                 else follow_grant mem k left' (cp_indirect_who_from g) granter (cp_indirect_grant g))
          else Inr (g, granter, grantee))"

declare follow_grant.simps [simp del]

text \<open>What follows the loop: an error, or \<open>offset_result\<close>, \<open>e_granter\<close> and \<open>flags\<close>. The grantee of a magic grant
  is compared as the code does it, once through \<open>cp_magic\<close> and once through \<open>cp_direct\<close>.\<close>

definition check_grant ::
  "32 word \<Rightarrow> 32 word \<Rightarrow> 32 word \<Rightarrow> cp_grant \<Rightarrow> int \<Rightarrow> int \<Rightarrow> code + 32 word \<times> int \<times> 32 word" where
  "check_grant bytes access offset_in g granter grantee =
     (if cp_flags g AND access \<noteq> access then Inl EPERM
      else if has (cp_flags g) CPF_DIRECT then
        (if MEM_TOP - cp_direct_len g + 1 < cp_direct_start g then Inl EPERM
         else if cp_direct_who_to g \<noteq> grantee \<and> grantee \<noteq> ANY \<and> cp_direct_who_to g \<noteq> ANY then Inl EPERM
         else if offset_in + bytes < offset_in \<or> offset_in + bytes > cp_direct_len g then Inl EPERM
         else Inr (cp_direct_start g + offset_in, granter, cp_flags g))
      else if has (cp_flags g) CPF_MAGIC then
        (if granter \<noteq> VFS_PROC_NR then Inl EPERM
         else if cp_magic_who_to g \<noteq> grantee \<and> grantee \<noteq> ANY \<and> cp_direct_who_to g \<noteq> ANY then Inl EPERM
         else if offset_in + bytes < offset_in \<or> offset_in + bytes > cp_magic_len g then Inl EPERM
         else Inr (cp_magic_start g + offset_in, cp_magic_who_from g, cp_flags g))
      else Inl EPERM)"

definition verify_grant ::
  "grant_mem \<Rightarrow> kernel \<Rightarrow> int \<Rightarrow> int \<Rightarrow> int \<Rightarrow> 32 word \<Rightarrow> 32 word \<Rightarrow> 32 word \<Rightarrow> code + 32 word \<times> int \<times> 32 word" where
  "verify_grant mem k granter grantee grant bytes access offset_in =
     (case follow_grant mem k MAX_INDIRECT_DEPTH granter grantee grant of
        Inl e \<Rightarrow> Inl e
      | Inr (g, granter', grantee') \<Rightarrow> check_grant bytes access offset_in g granter' grantee')"

section \<open>Copying\<close>

text \<open>
  What the kernel does to memory. \<open>grants_in m\<close> is how memory \<open>m\<close> shows grants to \<open>data_copy\<close>; \<open>virtual_copy\<close> takes source,
  destination and size; \<open>virtual_copy_vmcheck\<close> has the caller in addition, whom it may suspend; \<open>vm_memset\<close> takes the caller, the
  process, address, pattern and size. \<open>copy_vec caller a bytes\<close> copies \<open>bytes\<close> bytes at address \<open>a\<close> of the caller to the
  static array \<open>vec\<close> of \<open>do_vsafecopy\<close>: an error, or the array afterwards.
\<close>

type_synonym vir_addr = "int \<times> 32 word"

record vscp_vec =
  v_from :: int
  v_to :: int
  v_gid :: int
  v_offset :: "32 word"
  v_addr :: "32 word"
  v_bytes :: "32 word"

record 'm copier =
  grants_in :: "'m \<Rightarrow> grant_mem"
  virtual_copy :: "vir_addr \<Rightarrow> vir_addr \<Rightarrow> 32 word \<Rightarrow> 'm \<Rightarrow> code \<times> 'm"
  virtual_copy_vmcheck :: "int \<Rightarrow> vir_addr \<Rightarrow> vir_addr \<Rightarrow> 32 word \<Rightarrow> 'm \<Rightarrow> code \<times> 'm"
  vm_memset :: "int \<Rightarrow> int \<Rightarrow> 32 word \<Rightarrow> int \<Rightarrow> 32 word \<Rightarrow> 'm \<Rightarrow> code \<times> 'm"
  copy_vec :: "int \<Rightarrow> 32 word \<Rightarrow> 32 word \<Rightarrow> 'm \<Rightarrow> (code + (nat \<Rightarrow> vscp_vec)) \<times> 'm"

definition safecopy ::
  "'m copier \<Rightarrow> kernel \<Rightarrow> int \<Rightarrow> int \<Rightarrow> int \<Rightarrow> int \<Rightarrow> 32 word \<Rightarrow> 32 word \<Rightarrow> 32 word \<Rightarrow> 32 word \<Rightarrow> 'm \<Rightarrow> code \<times> 'm" where
  "safecopy A k caller granter grantee grantid bytes g_offset addr access m =
     (if granter = NONE \<or> grantee = NONE then (EFAULT, m)
      else
        (case endpoint_lookup k granter of
           None \<Rightarrow> (EINVAL, m)
         | Some granter_p \<Rightarrow>
             if \<not> HASGRANTTABLE k granter_p then (EPERM, m)
             else
               (case verify_grant (grants_in A m) k granter grantee grantid bytes access g_offset of
                  Inl r \<Rightarrow> (r, m)
                | Inr (v_off, new_granter, flags) \<Rightarrow>
                    let (v_src, v_dst) =
                          (if has access CPF_READ then ((new_granter, v_off), (grantee, addr))
                           else ((grantee, addr), (new_granter, v_off)))
                    in
                      if has flags CPF_TRY then
                        (let (r, m') = virtual_copy A v_src v_dst bytes m
                         in (if r = EFAULT_SRC \<or> r = EFAULT_DST then EFAULT else r, m'))
                      else virtual_copy_vmcheck A caller v_src v_dst bytes m)))"

definition do_safecopy_to :: "'m copier \<Rightarrow> kernel \<Rightarrow> int \<Rightarrow> int \<Rightarrow> int \<Rightarrow> 32 word \<Rightarrow> 32 word \<Rightarrow> 32 word \<Rightarrow> 'm \<Rightarrow> code \<times> 'm" where
  "do_safecopy_to A k caller from_to gid bytes offset address m =
     safecopy A k caller from_to (p_endpoint (procs k caller)) gid bytes offset address CPF_WRITE m"

definition do_safecopy_from :: "'m copier \<Rightarrow> kernel \<Rightarrow> int \<Rightarrow> int \<Rightarrow> int \<Rightarrow> 32 word \<Rightarrow> 32 word \<Rightarrow> 32 word \<Rightarrow> 'm \<Rightarrow> code \<times> 'm" where
  "do_safecopy_from A k caller from_to gid bytes offset address m =
     safecopy A k caller from_to (p_endpoint (procs k caller)) gid bytes offset address CPF_READ m"

text \<open>The loop over the elements \<open>i\<close>, \<open>i + 1\<close>, \<dots> of which \<open>n\<close> are left; \<open>None\<close>: the array is read past its end.\<close>

fun vsafecopy_elems :: "'m copier \<Rightarrow> kernel \<Rightarrow> int \<Rightarrow> (nat \<Rightarrow> vscp_vec) \<Rightarrow> nat \<Rightarrow> nat \<Rightarrow> 'm \<Rightarrow> (code \<times> 'm) option" where
  "vsafecopy_elems A k caller vec i 0 m = Some (OK, m)"
| "vsafecopy_elems A k caller vec i (Suc n) m =
     (if i \<ge> SCPVEC_NR then None
      else
        (let v = vec i; e = p_endpoint (procs k caller) in
           if v_from v = SELF then
             (let (r, m') = safecopy A k caller (v_to v) e (v_gid v) (v_bytes v) (v_offset v) (v_addr v) CPF_WRITE m
              in if r \<noteq> OK then Some (r, m') else vsafecopy_elems A k caller vec (Suc i) n m')
           else if v_to v = SELF then
             (let (r, m') = safecopy A k caller (v_from v) e (v_gid v) (v_bytes v) (v_offset v) (v_addr v) CPF_READ m
              in if r \<noteq> OK then Some (r, m') else vsafecopy_elems A k caller vec (Suc i) n m')
           else Some (EINVAL, m)))"

text \<open>The size of the vector is not checked: \<open>None\<close> when the copy writes past the end of the static array.\<close>

definition vscp_vec_size :: "32 word" where "vscp_vec_size = 24"

definition do_vsafecopy :: "'m copier \<Rightarrow> kernel \<Rightarrow> int \<Rightarrow> 32 word \<Rightarrow> int \<Rightarrow> 'm \<Rightarrow> (code \<times> 'm) option" where
  "do_vsafecopy A k caller vec_addr vec_size m =
     (if p_endpoint (procs k caller) = NONE then None
      else
        (let bytes = word_of_int vec_size * vscp_vec_size in
           if unat bytes > SCPVEC_NR * unat vscp_vec_size then None
           else
             (case copy_vec A caller vec_addr bytes m of
                (Inl r, m') \<Rightarrow> Some (r, m')
              | (Inr vec, m') \<Rightarrow> vsafecopy_elems A k caller vec 0 (nat vec_size) m')))"

definition do_safememset :: "'m copier \<Rightarrow> kernel \<Rightarrow> int \<Rightarrow> int \<Rightarrow> int \<Rightarrow> 32 word \<Rightarrow> int \<Rightarrow> 32 word \<Rightarrow> 'm \<Rightarrow> code \<times> 'm" where
  "do_safememset A k caller dst_endpt grantid g_offset pattern len m =
     (let caller_endpt = p_endpoint (procs k caller) in
        if dst_endpt = NONE \<or> caller_endpt = NONE then (EFAULT, m)
        else
          (case endpoint_lookup k dst_endpt of
             None \<Rightarrow> (EINVAL, m)
           | Some dst_p \<Rightarrow>
               if \<not> HASGRANTTABLE k dst_p then (EINVAL, m)
               else
                 (case verify_grant (grants_in A m) k dst_endpt caller_endpt grantid len CPF_WRITE g_offset of
                    Inl r \<Rightarrow> (r, m)
                  | Inr (v_off, new_granter, _) \<Rightarrow> vm_memset A caller new_granter v_off pattern len m)))"

section \<open>What a grant allows\<close>

text \<open>The grant is for the process, or for everyone.\<close>

definition given_to :: "int \<Rightarrow> int \<Rightarrow> bool" where
  "given_to who user \<longleftrightarrow> who = user \<or> who = ANY"

text \<open>\<open>grant_chain mem k n granter grantee gid g writer user\<close>: grant \<open>gid\<close> of \<open>granter\<close>, used by \<open>grantee\<close>, leads over
  \<open>n\<close> indirect grants, each given to the one who uses it, to the grant \<open>g\<close> in the table of \<open>writer\<close>, used by \<open>user\<close>.\<close>

inductive grant_chain :: "grant_mem \<Rightarrow> kernel \<Rightarrow> nat \<Rightarrow> int \<Rightarrow> int \<Rightarrow> int \<Rightarrow> cp_grant \<Rightarrow> int \<Rightarrow> int \<Rightarrow> bool" for mem k where
  here: "grant_entry mem k granter gid = Inr g \<Longrightarrow> \<not> has (cp_flags g) CPF_INDIRECT \<Longrightarrow>
    grant_chain mem k 0 granter grantee gid g granter grantee"
| via: "grant_entry mem k granter gid = Inr h \<Longrightarrow> has (cp_flags h) CPF_INDIRECT \<Longrightarrow> given_to (cp_indirect_who_to h) grantee \<Longrightarrow>
    grant_chain mem k n (cp_indirect_who_from h) granter (cp_indirect_grant h) g writer user \<Longrightarrow>
    grant_chain mem k (Suc n) granter grantee gid g writer user"

inductive_cases grant_chain_0E: "grant_chain mem k 0 granter grantee gid g writer user"
inductive_cases grant_chain_SucE: "grant_chain mem k (Suc n) granter grantee gid g writer user"
inductive_cases grant_chainE: "grant_chain mem k n granter grantee gid g writer user"

text \<open>What a grant at the end of a chain allows, in unbounded integers: \<open>bytes\<close> bytes at \<open>off\<close> inside the range, which are
  those at address \<open>a\<close> of the process \<open>own\<close>.\<close>

definition direct_permits :: "cp_grant \<Rightarrow> int \<Rightarrow> int \<Rightarrow> 32 word \<Rightarrow> 32 word \<Rightarrow> 32 word \<Rightarrow> int \<Rightarrow> bool" where
  "direct_permits g writer user off bytes a own \<longleftrightarrow>
     has (cp_flags g) CPF_DIRECT \<and> own = writer \<and> given_to (cp_direct_who_to g) user \<and>
     a = cp_direct_start g + off \<and> uint off + uint bytes \<le> uint (cp_direct_len g) \<and>
     uint (cp_direct_start g) + uint (cp_direct_len g) \<le> 2 ^ 32 \<and> (cp_direct_len g = 0 \<longrightarrow> cp_direct_start g = 0) \<and>
     (bytes \<noteq> 0 \<longrightarrow> uint (cp_direct_start g) \<le> uint a \<and>
        uint a + uint bytes \<le> uint (cp_direct_start g) + uint (cp_direct_len g))"

definition magic_permits :: "cp_grant \<Rightarrow> int \<Rightarrow> int \<Rightarrow> 32 word \<Rightarrow> 32 word \<Rightarrow> 32 word \<Rightarrow> int \<Rightarrow> bool" where
  "magic_permits g writer user off bytes a own \<longleftrightarrow>
     \<not> has (cp_flags g) CPF_DIRECT \<and> has (cp_flags g) CPF_MAGIC \<and> writer = VFS_PROC_NR \<and> own = cp_magic_who_from g \<and>
     (cp_magic_who_to g = user \<or> own = ANY) \<and>
     a = cp_magic_start g + off \<and> uint off + uint bytes \<le> uint (cp_magic_len g)"

definition authorised ::
  "grant_mem \<Rightarrow> kernel \<Rightarrow> int \<Rightarrow> int \<Rightarrow> int \<Rightarrow> 32 word \<Rightarrow> 32 word \<Rightarrow> 32 word \<Rightarrow> 32 word \<Rightarrow> int \<Rightarrow> 32 word \<Rightarrow> bool" where
  "authorised mem k granter grantee gid bytes access off a own flags \<longleftrightarrow>
     (\<exists>n g writer user. n \<le> 5 \<and> grant_chain mem k n granter grantee gid g writer user \<and>
        flags = cp_flags g \<and> flags AND access = access \<and>
        (direct_permits g writer user off bytes a own \<or> magic_permits g writer user off bytes a own))"

section \<open>Verification and chains agree\<close>

declare isokendpt_ANY [simp]

lemma grant_entry_process: "grant_entry mem k granter gid = Inr g \<Longrightarrow> isokendpt k granter \<noteq> None"
  by (auto simp: grant_entry_def split: option.splits)

lemma follow_grant_iff:
  assumes "isokendpt k grantee \<noteq> None"
  shows "follow_grant mem k d granter grantee gid = Inr (g, writer, user) \<longleftrightarrow>
    (\<exists>n \<le> d. grant_chain mem k n granter grantee gid g writer user)"
  using assms
proof (induction d arbitrary: granter grantee gid)
  case 0
  then show ?case
    by (subst follow_grant.simps) (auto split: sum.splits if_splits intro: grant_chain.here elim: grant_chain_0E)
next
  case (Suc d)
  have ne: "grantee \<noteq> ANY" using Suc.prems by auto
  show ?case
  proof (cases "grant_entry mem k granter gid")
    case (Inl e)
    then show ?thesis by (subst follow_grant.simps) (auto elim: grant_chainE)
  next
    case (Inr h)
    have ok: "isokendpt k granter \<noteq> None" by (rule grant_entry_process [OF Inr])
    show ?thesis
    proof (cases "has (cp_flags h) CPF_INDIRECT")
      case False
      then show ?thesis
        by (subst follow_grant.simps) (use Inr in \<open>auto intro!: exI [of _ 0] grant_chain.here elim: grant_chainE\<close>)
    next
      case True
      have "(\<exists>n \<le> Suc d. grant_chain mem k n granter grantee gid g writer user) \<longleftrightarrow>
          given_to (cp_indirect_who_to h) grantee \<and>
          (\<exists>n \<le> d. grant_chain mem k n (cp_indirect_who_from h) granter (cp_indirect_grant h) g writer user)"
        (is "?l \<longleftrightarrow> ?r")
      proof
        assume ?l
        then obtain n where n: "n \<le> Suc d" "grant_chain mem k n granter grantee gid g writer user" by blast
        from n(2) show ?r by (cases rule: grant_chain.cases) (use Inr True n(1) in auto)
      next
        assume ?r
        then show ?l using Inr True by (meson Suc_le_mono grant_chain.via)
      qed
      then show ?thesis using Suc.IH [OF ok] ne True
        by (subst follow_grant.simps) (auto simp: Inr given_to_def)
    qed
  qed
qed

lemma follow_grant_user:
  "grant_chain mem k n granter grantee gid g writer user \<Longrightarrow> isokendpt k grantee \<noteq> None \<Longrightarrow> user \<noteq> ANY"
  by (induction rule: grant_chain.induct) (auto dest: grant_entry_process)

text \<open>The tests of the code on words, in unbounded integers.\<close>

lemma in_range_iff:
  fixes off :: "32 word"
  shows "\<not> (off + bytes < off \<or> off + bytes > len) \<longleftrightarrow> uint off + uint bytes \<le> uint len"
  by uint_arith

lemma no_wrap_iff:
  fixes len :: "32 word"
  shows "\<not> MEM_TOP - len + 1 < start \<longleftrightarrow> uint start + uint len \<le> 2 ^ 32 \<and> (len = 0 \<longrightarrow> start = 0)"
proof (cases "len = 0")
  case True
  then show ?thesis using uint_lt2p [of start] by (auto simp: MEM_TOP_def word_less_def uint_0_iff less_le)
next
  case False
  then have pos: "0 < uint len" by (simp add: uint_0_iff less_le)
  have "MEM_TOP - len + 1 = - len" by (simp add: MEM_TOP_def)
  moreover have "uint (- len) = 2 ^ 32 - uint len"
    using pos uint_lt2p [of len] by (simp add: uint_word_ariths zmod_zminus1_eq_if)
  ultimately have "uint (MEM_TOP - len + 1) = 2 ^ 32 - uint len" by metis
  then show ?thesis using False unfolding word_less_def by linarith
qed

lemma inside_range:
  fixes start :: "32 word"
  assumes "uint start + uint len \<le> 2 ^ 32" "uint off + uint bytes \<le> uint len" "bytes \<noteq> 0"
  shows "uint start \<le> uint (start + off) \<and> uint (start + off) + uint bytes \<le> uint start + uint len"
proof -
  have "0 < uint bytes" using assms(3) by (simp add: uint_0_iff less_le)
  then have "uint start + uint off < 2 ^ 32" using assms(1,2) by linarith
  then have "uint (start + off) = uint start + uint off" by (simp add: uint_word_ariths)
  then show ?thesis using assms(2) by simp
qed

lemma check_direct:
  assumes "has (cp_flags g) CPF_DIRECT" "user \<noteq> ANY"
  shows "check_grant bytes access off g writer user = Inr (a, own, flags) \<longleftrightarrow>
    flags = cp_flags g \<and> flags AND access = access \<and> direct_permits g writer user off bytes a own"
proof -
  have w: "(cp_direct_who_to g \<noteq> user \<and> user \<noteq> ANY \<and> cp_direct_who_to g \<noteq> ANY) \<longleftrightarrow> \<not> given_to (cp_direct_who_to g) user"
    using assms(2) by (auto simp: given_to_def)
  have r: "(off + bytes < off \<or> off + bytes > cp_direct_len g) \<longleftrightarrow> \<not> uint off + uint bytes \<le> uint (cp_direct_len g)"
    using in_range_iff by blast
  have n: "MEM_TOP - cp_direct_len g + 1 < cp_direct_start g \<longleftrightarrow>
      \<not> (uint (cp_direct_start g) + uint (cp_direct_len g) \<le> 2 ^ 32 \<and> (cp_direct_len g = 0 \<longrightarrow> cp_direct_start g = 0))"
    using no_wrap_iff by blast
  show ?thesis
    unfolding check_grant_def w r n using assms(1) inside_range [of "cp_direct_start g" "cp_direct_len g" off bytes]
    by (auto simp: direct_permits_def split: if_splits)
qed

lemma check_other:
  assumes "\<not> has (cp_flags g) CPF_DIRECT" "user \<noteq> ANY"
  shows "check_grant bytes access off g writer user = Inr (a, own, flags) \<longleftrightarrow>
    flags = cp_flags g \<and> flags AND access = access \<and> magic_permits g writer user off bytes a own"
proof -
  have w: "(cp_magic_who_to g \<noteq> user \<and> user \<noteq> ANY \<and> cp_direct_who_to g \<noteq> ANY) \<longleftrightarrow>
      \<not> (cp_magic_who_to g = user \<or> cp_magic_who_from g = ANY)"
    using assms(2) by (simp add: cp_magic_who_from_def cp_direct_who_to_def)
  have r: "(off + bytes < off \<or> off + bytes > cp_magic_len g) \<longleftrightarrow> \<not> uint off + uint bytes \<le> uint (cp_magic_len g)"
    using in_range_iff by blast
  show ?thesis
    unfolding check_grant_def w r using assms(1) by (auto simp: magic_permits_def split: if_splits)
qed

lemma check_grant_iff:
  assumes "user \<noteq> ANY"
  shows "check_grant bytes access off g writer user = Inr (a, own, flags) \<longleftrightarrow>
    flags = cp_flags g \<and> flags AND access = access \<and>
    (direct_permits g writer user off bytes a own \<or> magic_permits g writer user off bytes a own)"
proof (cases "has (cp_flags g) CPF_DIRECT")
  case True
  then show ?thesis using check_direct [OF True assms] by (simp add: magic_permits_def)
next
  case False
  then show ?thesis using check_other [OF False assms] by (simp add: direct_permits_def)
qed

lemma verify_grant_authorised:
  assumes "isokendpt k grantee \<noteq> None"
  shows "verify_grant mem k granter grantee gid bytes access off = Inr (a, own, flags) \<longleftrightarrow>
    authorised mem k granter grantee gid bytes access off a own flags"
proof -
  have "verify_grant mem k granter grantee gid bytes access off = Inr (a, own, flags) \<longleftrightarrow>
      (\<exists>g writer user. follow_grant mem k 5 granter grantee gid = Inr (g, writer, user) \<and>
         check_grant bytes access off g writer user = Inr (a, own, flags))"
    by (auto simp: verify_grant_def MAX_INDIRECT_DEPTH_def split: sum.splits)
  also have "\<dots> \<longleftrightarrow> (\<exists>g writer user. (\<exists>n \<le> 5. grant_chain mem k n granter grantee gid g writer user) \<and>
      flags = cp_flags g \<and> flags AND access = access \<and>
      (direct_permits g writer user off bytes a own \<or> magic_permits g writer user off bytes a own))"
    unfolding follow_grant_iff [OF assms] using check_grant_iff follow_grant_user [OF _ assms] by metis
  also have "\<dots> \<longleftrightarrow> authorised mem k granter grantee gid bytes access off a own flags"
    unfolding authorised_def by metis
  finally show ?thesis .
qed

section \<open>Copies under grants\<close>

text \<open>
  The abstract machine that safe copies implement: its only moves are copies between the caller and the owner of a
  range that a chain of grants gives the caller, in the direction it allows.
\<close>

definition run_copy :: "'m copier \<Rightarrow> int \<Rightarrow> 32 word \<Rightarrow> vir_addr \<Rightarrow> vir_addr \<Rightarrow> 32 word \<Rightarrow> 'm \<Rightarrow> code \<times> 'm" where
  "run_copy A caller flags src dst bytes =
     (if has flags CPF_TRY then virtual_copy A src dst bytes else virtual_copy_vmcheck A caller src dst bytes)"

inductive granted_copy :: "'m copier \<Rightarrow> kernel \<Rightarrow> int \<Rightarrow> 'm \<Rightarrow> 'm \<Rightarrow> bool" for A k caller where
  out_of: "authorised (grants_in A m) k granter (p_endpoint (procs k caller)) gid bytes CPF_READ off a own flags \<Longrightarrow>
    run_copy A caller flags (own, a) (p_endpoint (procs k caller), addr) bytes m = (r, m') \<Longrightarrow> granted_copy A k caller m m'"
| into: "authorised (grants_in A m) k granter (p_endpoint (procs k caller)) gid bytes CPF_WRITE off a own flags \<Longrightarrow>
    run_copy A caller flags (p_endpoint (procs k caller), addr) (own, a) bytes m = (r, m') \<Longrightarrow> granted_copy A k caller m m'"

lemma grant_entry_error: "grant_entry mem k granter gid = Inl e \<Longrightarrow> e \<noteq> OK"
  by (auto simp: grant_entry_def split: option.splits if_splits)

lemma follow_grant_error: "follow_grant mem k d granter grantee gid = Inl e \<Longrightarrow> e \<noteq> OK"
proof (induction d arbitrary: granter grantee gid)
  case 0
  then show ?case by (subst (asm) follow_grant.simps) (auto split: sum.splits if_splits dest: grant_entry_error)
next
  case (Suc d)
  then show ?case by (subst (asm) (1) follow_grant.simps) (auto split: sum.splits if_splits dest: grant_entry_error)
qed

lemma verify_grant_error: "verify_grant mem k granter grantee gid bytes access off = Inl e \<Longrightarrow> e \<noteq> OK"
  by (auto simp: verify_grant_def check_grant_def split: sum.splits if_splits dest: follow_grant_error)

lemma safecopy_cases:
  assumes "safecopy A k caller granter grantee gid bytes off addr access m = (r, m')" "isokendpt k grantee \<noteq> None"
  obtains (refused) "m' = m" "r \<noteq> OK"
  | (copied) a own flags c where "authorised (grants_in A m) k granter grantee gid bytes access off a own flags"
      "(if has access CPF_READ then run_copy A caller flags (own, a) (grantee, addr) bytes m
        else run_copy A caller flags (grantee, addr) (own, a) bytes m) = (c, m')" "r = OK \<longleftrightarrow> c = OK"
proof (cases "verify_grant (grants_in A m) k granter grantee gid bytes access off")
  case (Inl e)
  then show ?thesis using assms(1) refused verify_grant_error [OF Inl]
    by (auto simp: safecopy_def split: if_splits option.splits)
next
  case (Inr t)
  obtain a own flags where t: "t = (a, own, flags)" by (cases t)
  have auth: "authorised (grants_in A m) k granter grantee gid bytes access off a own flags"
    using verify_grant_authorised [OF assms(2)] Inr t by simp
  obtain c m1 where c: "(if has access CPF_READ then run_copy A caller flags (own, a) (grantee, addr) bytes m
        else run_copy A caller flags (grantee, addr) (own, a) bytes m) = (c, m1)" by fastforce
  have "(r, m') = (EFAULT, m) \<or> (r, m') = (EINVAL, m) \<or> (r, m') = (EPERM, m) \<or> (m' = m1 \<and> (r = OK \<longleftrightarrow> c = OK))"
    using assms(1) c Inr t
    by (auto simp: safecopy_def run_copy_def Let_def split: if_splits option.splits prod.splits)
  then show ?thesis using refused copied [OF auth] c by auto
qed

lemma safecopy_granted:
  assumes "safecopy A k caller granter (p_endpoint (procs k caller)) gid bytes off addr access m = (r, m')"
    and "isokendpt k (p_endpoint (procs k caller)) \<noteq> None" "access = CPF_READ \<or> access = CPF_WRITE"
  shows "granted_copy A k caller m m' \<or> m' = m \<and> r \<noteq> OK"
  using assms(1,2)
proof (cases rule: safecopy_cases)
  case refused
  then show ?thesis by simp
next
  case (copied a own flags c)
  have "has CPF_READ CPF_READ" "\<not> has CPF_WRITE CPF_READ" by (simp_all add: has_def CPF_defs)
  then show ?thesis using copied(1,2) assms(3) granted_copy.intros by (metis (full_types))
qed

lemma vsafecopy_elems_granted:
  assumes "isokendpt k (p_endpoint (procs k caller)) \<noteq> None" "i + n \<le> SCPVEC_NR"
  shows "\<exists>r m' j. vsafecopy_elems A k caller vec i n m = Some (r, m') \<and> j \<le> n \<and>
    (granted_copy A k caller ^^ j) m m' \<and> (r = OK \<longrightarrow> j = n)"
  using assms(2)
proof (induction n arbitrary: i m)
  case 0
  then show ?case by auto
next
  case (Suc n)
  define v where "v = vec i"
  have step: "\<exists>r m' j. (let (r, m') = safecopy A k caller granter (p_endpoint (procs k caller)) (v_gid v) (v_bytes v) (v_offset v)
          (v_addr v) access m in if r \<noteq> OK then Some (r, m') else vsafecopy_elems A k caller vec (Suc i) n m') = Some (r, m') \<and>
      j \<le> Suc n \<and> (granted_copy A k caller ^^ j) m m' \<and> (r = OK \<longrightarrow> j = Suc n)"
    if acc: "access = CPF_READ \<or> access = CPF_WRITE" for granter access
  proof -
    obtain r m1 where s: "safecopy A k caller granter (p_endpoint (procs k caller)) (v_gid v) (v_bytes v) (v_offset v)
          (v_addr v) access m = (r, m1)" by fastforce
    note g = safecopy_granted [OF s assms(1) acc]
    show ?thesis
    proof (cases "r = OK")
      case True
      obtain r' m' j where t: "vsafecopy_elems A k caller vec (Suc i) n m1 = Some (r', m')" "j \<le> n"
          "(granted_copy A k caller ^^ j) m1 m'" "r' = OK \<longrightarrow> j = n"
        using Suc.IH [of "Suc i" m1] Suc.prems by auto
      have "(granted_copy A k caller ^^ Suc j) m m'" using g True t(3) by (meson relpowp_Suc_I2)
      then show ?thesis using True s t by (intro exI [of _ r'] exI [of _ m'] exI [of _ "Suc j"]) simp
    next
      case False
      have "\<exists>j. j \<le> 1 \<and> (granted_copy A k caller ^^ j) m m1"
        using g False by (metis One_nat_def le_numeral_extra(4) relpowp_0_I relpowp_1 zero_le_one)
      then obtain j where "j \<le> 1" "(granted_copy A k caller ^^ j) m m1" by blast
      then show ?thesis using False s by (intro exI [of _ r] exI [of _ m1] exI [of _ j]) simp
    qed
  qed
  show ?case
  proof (cases "v_from v = SELF \<or> v_to v = SELF")
    case True
    then show ?thesis using Suc.prems step [of CPF_WRITE "v_to v"] step [of CPF_READ "v_from v"]
      by (cases "v_from v = SELF") (simp_all add: v_def [symmetric] Let_def)
  next
    case False
    then show ?thesis using Suc.prems by (auto simp: v_def [symmetric] Let_def intro!: exI [of _ 0])
  qed
qed

lemma isokendpt_NONE [simp]: "isokendpt k NONE = None"
  by (simp add: isokendpt_def Let_def isokprocn_def endpoint_defs NR_TASKS_def NR_PROCS_def)

lemma vec_bytes:
  assumes "0 \<le> n" "n < 178956970"
  shows "unat (word_of_int n * vscp_vec_size) = 24 * nat n"
proof -
  have "word_of_int n * vscp_vec_size = (word_of_int (24 * n) :: 32 word)" by (simp add: vscp_vec_size_def mult.commute)
  moreover have "uint (word_of_int (24 * n) :: 32 word) = 24 * n"
    unfolding uint_word_of_int using assms by simp
  ultimately have "uint (word_of_int n * vscp_vec_size) = 24 * n" by metis
  then show ?thesis using assms(1) by (simp only: unat_eq_nat_uint nat_mult_distrib) simp
qed

lemma vsafecopy_overflows: "64 < n \<Longrightarrow> n < 178956970 \<Longrightarrow> do_vsafecopy A k caller a n m = None"
  using vec_bytes [of n] zless_nat_conj [of 64 n] by (auto simp: do_vsafecopy_def Let_def SCPVEC_NR_def vscp_vec_size_def)

lemma safememset_granted:
  assumes "do_safememset A k caller dst gid off pattern len m = (r, m')" "isokendpt k (p_endpoint (procs k caller)) \<noteq> None"
  obtains (refused) "m' = m" "r \<noteq> OK"
  | (set) a own flags where "authorised (grants_in A m) k dst (p_endpoint (procs k caller)) gid len CPF_WRITE off a own flags"
      "vm_memset A caller own a pattern len m = (r, m')"
proof (cases "verify_grant (grants_in A m) k dst (p_endpoint (procs k caller)) gid len CPF_WRITE off")
  case (Inl e)
  then show ?thesis using assms(1) refused verify_grant_error [OF Inl]
    by (auto simp: do_safememset_def Let_def split: if_splits option.splits)
next
  case (Inr t)
  obtain a own flags where t: "t = (a, own, flags)" by (cases t)
  have auth: "authorised (grants_in A m) k dst (p_endpoint (procs k caller)) gid len CPF_WRITE off a own flags"
    using verify_grant_authorised [OF assms(2)] Inr t by simp
  show ?thesis using assms(1) Inr t refused set [OF auth]
    by (auto simp: do_safememset_def Let_def split: if_splits option.splits)
qed

section \<open>A concrete grant\<close>

text \<open>Process 2 lets process 1 write 16 bytes at 8192 (its grant 0), and process 1 passes this on to process 3 (its grant 1).\<close>

definition demo_grants :: grant_mem where
  "demo_grants e a =
     (if e = 2 \<and> a = 4096 then Some \<lparr>cp_flags = 0x1302, cp_u0 = 1, cp_u1 = 8192, cp_u2 = 16, cp_u3 = 0\<rparr>
      else if e = 1 \<and> a = 4132 then Some \<lparr>cp_flags = 0x1500, cp_u0 = 3, cp_u1 = 2, cp_u2 = 0, cp_u3 = 0\<rparr>
      else None)"

definition granting_kernel :: kernel where
  "granting_kernel = upd_priv 0 (\<lambda>pr. pr\<lparr>s_grant_table := 4096, s_grant_entries := 2\<rparr>) demo_kernel"

lemma granting_kernel_endpoints:
  "isokendpt granting_kernel 1 = Some 1" "isokendpt granting_kernel 2 = Some 2" "isokendpt granting_kernel 3 = Some 3"
  by (simp_all add: granting_kernel_def isokendpt_def ENDPOINT_P_def MAX_NR_TASKS_def ENDPOINT_GENERATION_SIZE_def
      isokprocn_def NR_TASKS_def NR_PROCS_def isemptyn_def demo_proc_def RTS_defs idle_proc_def)

lemma granting_kernel_table:
  "p \<noteq> idle_proc \<Longrightarrow> HASGRANTTABLE granting_kernel p"
  "p \<noteq> idle_proc \<Longrightarrow> priv_of granting_kernel p = Some ((demo_priv 0)\<lparr>s_grant_table := 4096, s_grant_entries := 2\<rparr>)"
  by (simp_all add: granting_kernel_def HASGRANTTABLE_def priv_of_def upd_priv_def demo_proc_def)

lemma demo_grants_verify:
  "verify_grant demo_grants granting_kernel 1 3 1 8 CPF_WRITE 4 = Inr (8196, 2, 0x1302)"
proof -
  have e: "grant_entry demo_grants granting_kernel 1 1 = Inr \<lparr>cp_flags = 0x1500, cp_u0 = 3, cp_u1 = 2, cp_u2 = 0, cp_u3 = 0\<rparr>"
    "grant_entry demo_grants granting_kernel 2 0 = Inr \<lparr>cp_flags = 0x1302, cp_u0 = 1, cp_u1 = 8192, cp_u2 = 16, cp_u3 = 0\<rparr>"
    by (simp_all add: grant_entry_def granting_kernel_endpoints granting_kernel_table idle_proc_def GRANT_VALID_def
        GRANT_INVALID_def demo_grants_def cp_grant_size_def CPF_defs)
  have d: "MAX_INDIRECT_DEPTH = Suc 4" by (simp add: MAX_INDIRECT_DEPTH_def)
  have "follow_grant demo_grants granting_kernel MAX_INDIRECT_DEPTH 1 3 1 =
      Inr (\<lparr>cp_flags = 0x1302, cp_u0 = 1, cp_u1 = 8192, cp_u2 = 16, cp_u3 = 0\<rparr>, 2, 1)"
    unfolding d by (simp add: follow_grant.simps e has_def CPF_defs cp_indirect_who_to_def cp_indirect_who_from_def
        cp_indirect_grant_def)
  then show ?thesis
    by (simp add: verify_grant_def check_grant_def has_def CPF_defs cp_direct_who_to_def cp_direct_start_def
        cp_direct_len_def MEM_TOP_def)
qed

text \<open>A memory that records the copies, in which the vector of process 3 has one element: 8 bytes to the grant of process 1.\<close>

definition demo_copier :: "(vir_addr \<times> vir_addr) list copier" where
  "demo_copier = \<lparr>grants_in = (\<lambda>_. demo_grants), virtual_copy = (\<lambda>s d n m. (OK, m @ [(s, d)])),
     virtual_copy_vmcheck = (\<lambda>c s d n m. (OK, m @ [(s, d)])), vm_memset = (\<lambda>c p a x n m. (OK, m)),
     copy_vec = (\<lambda>c a n m. (Inr (\<lambda>_. \<lparr>v_from = SELF, v_to = 1, v_gid = 1, v_offset = 4, v_addr = 512, v_bytes = 8\<rparr>), m))\<rparr>"

lemma granting_caller: "p_endpoint (procs granting_kernel 3) = 3"
  by (simp add: granting_kernel_def upd_priv_def demo_proc_def idle_proc_def)

lemma demo_copy_vec: "copy_vec demo_copier c a n m = (Inr (\<lambda>_. \<lparr>v_from = SELF, v_to = 1, v_gid = 1, v_offset = 4, v_addr = 512, v_bytes = 8\<rparr>), m)"
  by (simp add: demo_copier_def)

lemma demo_vsafecopy: "do_vsafecopy demo_copier granting_kernel 3 64 1 [] = Some (OK, [((3, 512), (2, 8196))])"
proof -
  have s: "safecopy demo_copier granting_kernel 3 1 3 1 8 4 512 CPF_WRITE [] = (OK, [((3, 512), (2, 8196))])"
    by (simp add: safecopy_def endpoint_lookup_def granting_kernel_endpoints granting_kernel_table idle_proc_def NONE_def
        endpoint_defs demo_copier_def demo_grants_verify [unfolded CPF_WRITE_def] has_def CPF_defs)
  have "vsafecopy_elems demo_copier granting_kernel 3
      (\<lambda>_. \<lparr>v_from = SELF, v_to = 1, v_gid = 1, v_offset = 4, v_addr = 512, v_bytes = 8\<rparr>) 0 (Suc 0) [] =
      Some (OK, [((3, 512), (2, 8196))])"
    by (simp add: granting_caller s SCPVEC_NR_def)
  then show ?thesis
    by (simp add: do_vsafecopy_def granting_caller demo_copy_vec NONE_def endpoint_defs vscp_vec_size_def SCPVEC_NR_def)
qed

section \<open>Properties\<close>

text \<open>C19. \<open>verify_grant\<close> accepts exactly the uses that grants allow. For a process that exists, it returns address, owner and
  flags exactly when the grant leads over at most five indirect grants, each given to the process that uses it, to a valid grant
  with the wanted access that is given to its user: a direct grant, whose range does not wrap around, of the one who
  wrote it, or a magic grant written by VFS; the bytes lie inside the range, in unbounded integers.\<close>

theorem verify_grant_exact:
  assumes "isokendpt k grantee \<noteq> None"
  shows "verify_grant mem k granter grantee gid bytes access off = Inr (a, own, flags) \<longleftrightarrow>
    authorised mem k granter grantee gid bytes access off a own flags"
  by (rule verify_grant_authorised [OF assms])

theorem verify_grant_exact_witness:
  "isokendpt granting_kernel 3 \<noteq> None \<and> authorised demo_grants granting_kernel 1 3 1 8 CPF_WRITE 4 8196 2 0x1302"
  using verify_grant_exact [of granting_kernel 3 demo_grants 1 1 8 CPF_WRITE 4 8196 2 "0x1302"]
  by (simp add: granting_kernel_endpoints demo_grants_verify)



end
