(* ===== verification/Grant_Library.thy ===== *)
theory Grant_Library
  imports Grants
begin

text \<open>
  The grant tables of system processes (\<^verbatim>\<open>lib/libsys/safecopies.c\<close>): a process keeps its grants in a table that grows, tells
  the kernel where it is (\<open>sys_setgrant\<close>), fills slots in and empties them again.

  \<open>grants_at\<close> is the pointer \<open>grants\<close> (0 for the null pointer), \<open>grants\<close> the entries, whose number is \<open>ngrants\<close>. A result
  \<open>Inl e\<close> stands for \<open>return -1\<close> with \<open>errno\<close> set to \<open>e\<close>; \<open>None\<close> for a failed assertion. The C library's \<open>malloc\<close> and the
  way to the kernel are the fields of \<open>lib_env\<close>; for the properties the latter is \<open>do_setgrant\<close> of the kernel.
\<close>

section \<open>The library\<close>

record grant_lib =
  grants_at :: "32 word"
  grants :: "cp_grant list"

text \<open>\<open>malloc\<close> returns 0 or the address of a block, \<open>junk\<close> is what the block holds, by slots.\<close>

record 'k lib_env =
  static_grants :: "32 word"
  malloc :: "32 word \<Rightarrow> 32 word"
  junk :: "nat \<Rightarrow> cp_grant"
  sys_setgrant :: "32 word \<Rightarrow> int \<Rightarrow> 'k \<Rightarrow> code \<times> 'k"

definition ngrants :: "grant_lib \<Rightarrow> int" where "ngrants l = int (length (grants l))"

definition NR_STATIC_GRANTS :: int where "NR_STATIC_GRANTS = 2"

definition no_grant :: cp_grant where
  "no_grant = \<lparr>cp_flags = 0, cp_u0 = 0, cp_u1 = 0, cp_u2 = 0, cp_u3 = 0\<rparr>"

definition ACCESS_CHECK :: "32 word \<Rightarrow> bool" where
  "ACCESS_CHECK a \<longleftrightarrow> a AND NOT (CPF_READ OR CPF_WRITE OR CPF_TRY) = 0"

definition GID_CHECK :: "grant_lib \<Rightarrow> int \<Rightarrow> bool" where
  "GID_CHECK l gid \<longleftrightarrow> GRANT_VALID gid \<and> \<not> gid < 0 \<and> \<not> gid \<ge> ngrants l"

definition GID_CHECK_USED :: "grant_lib \<Rightarrow> int \<Rightarrow> bool" where
  "GID_CHECK_USED l gid \<longleftrightarrow> GID_CHECK l gid \<and> has (cp_flags (grants l ! nat gid)) CPF_USED"

text \<open>The block of \<open>new_size\<close> slots that \<open>cpf_grow\<close> makes at \<open>a\<close>: the old ones, then slots marked unused.\<close>

definition new_grants :: "(nat \<Rightarrow> cp_grant) \<Rightarrow> int \<Rightarrow> grant_lib \<Rightarrow> cp_grant list" where
  "new_grants old new_size l =
     grants l @ map (\<lambda>g. (old g)\<lparr>cp_flags := 0\<rparr>) [length (grants l)..<nat new_size]"

definition register_grants :: "'k lib_env \<Rightarrow> 32 word \<Rightarrow> int \<Rightarrow> (nat \<Rightarrow> cp_grant) \<Rightarrow> grant_lib \<times> 'k \<Rightarrow> grant_lib \<times> 'k" where
  "register_grants E a new_size old s =
     (let (r, k) = sys_setgrant E a new_size (snd s)
      in if r \<noteq> OK then (fst s, k) else (\<lparr>grants_at = a, grants = new_grants old new_size (fst s)\<rparr>, k))"

definition cpf_grow :: "'k lib_env \<Rightarrow> grant_lib \<times> 'k \<Rightarrow> (grant_lib \<times> 'k) option" where
  "cpf_grow E s =
     (if ngrants (fst s) = 0 then Some (register_grants E (static_grants E) NR_STATIC_GRANTS (\<lambda>_. no_grant) s)
      else
        (let new_size = wrap32 ((1 + ngrants (fst s)) * 2) in
           if \<not> new_size > ngrants (fst s) then None
           else
             (let a = malloc E (word_of_int new_size * cp_grant_size)
              in if a = 0 then Some s else Some (register_grants E a new_size (junk E) s))))"

definition cpf_new_grantslot :: "'k lib_env \<Rightarrow> grant_lib \<times> 'k \<Rightarrow> ((code + int) \<times> grant_lib \<times> 'k) option" where
  "cpf_new_grantslot E s =
     (let g = length (takeWhile (\<lambda>h. has (cp_flags h) CPF_USED) (grants (fst s))) in
        do {
          s' \<leftarrow> (if int g = ngrants (fst s) then cpf_grow E s else Some s);
          if int g > ngrants (fst s') then None
          else if int g = ngrants (fst s') then Some (Inl ENOSPC, s')
          else if has (cp_flags (grants (fst s') ! g)) CPF_USED then None
          else Some (Inr (int g), s')
        })"

definition set_slot :: "int \<Rightarrow> (cp_grant \<Rightarrow> cp_grant) \<Rightarrow> grant_lib \<Rightarrow> grant_lib" where
  "set_slot gid f l = l\<lparr>grants := (grants l)[nat gid := f (grants l ! nat gid)]\<rparr>"

definition cpf_setgrant_direct :: "int \<Rightarrow> int \<Rightarrow> 32 word \<Rightarrow> 32 word \<Rightarrow> 32 word \<Rightarrow> grant_lib \<Rightarrow> code + grant_lib" where
  "cpf_setgrant_direct gid who addr bytes access l =
     (if \<not> GID_CHECK l gid then Inl EINVAL
      else if \<not> ACCESS_CHECK access then Inl EINVAL
      else Inr (set_slot gid (\<lambda>g. g\<lparr>cp_flags := access OR CPF_DIRECT OR CPF_USED OR CPF_VALID,
             cp_u0 := word_of_int who, cp_u1 := addr, cp_u2 := bytes\<rparr>) l))"

definition cpf_setgrant_indirect :: "int \<Rightarrow> int \<Rightarrow> int \<Rightarrow> int \<Rightarrow> grant_lib \<Rightarrow> code + grant_lib" where
  "cpf_setgrant_indirect gid who_to who_from his_gid l =
     (if \<not> GID_CHECK l gid then Inl EINVAL
      else Inr (set_slot gid (\<lambda>g. g\<lparr>cp_flags := CPF_USED OR CPF_INDIRECT OR CPF_VALID,
             cp_u0 := word_of_int who_to, cp_u1 := word_of_int who_from, cp_u2 := word_of_int his_gid\<rparr>) l))"

definition cpf_setgrant_magic :: "int \<Rightarrow> int \<Rightarrow> int \<Rightarrow> 32 word \<Rightarrow> 32 word \<Rightarrow> 32 word \<Rightarrow> grant_lib \<Rightarrow> code + grant_lib" where
  "cpf_setgrant_magic gid who_to who_from addr bytes access l =
     (if \<not> GID_CHECK l gid then Inl EINVAL
      else if \<not> ACCESS_CHECK access then Inl EINVAL
      else Inr (set_slot gid (\<lambda>g. g\<lparr>cp_flags := CPF_USED OR CPF_MAGIC OR CPF_VALID OR access,
             cp_u1 := word_of_int who_to, cp_u0 := word_of_int who_from, cp_u2 := addr, cp_u3 := bytes\<rparr>) l))"

definition cpf_setgrant_disable :: "int \<Rightarrow> grant_lib \<Rightarrow> code + grant_lib" where
  "cpf_setgrant_disable gid l =
     (if \<not> GID_CHECK l gid then Inl EINVAL else Inr (set_slot gid (\<lambda>g. g\<lparr>cp_flags := CPF_USED\<rparr>) l))"

definition cpf_revoke :: "int \<Rightarrow> grant_lib \<Rightarrow> code + grant_lib" where
  "cpf_revoke g l =
     (if \<not> GID_CHECK_USED l g then Inl EINVAL else Inr (set_slot g (\<lambda>h. h\<lparr>cp_flags := 0\<rparr>) l))"

text \<open>The common shape of the three functions that make a grant: a new slot, which \<open>fill\<close> fills in; on failure it is
  given back.\<close>

definition make_grant :: "'k lib_env \<Rightarrow> (int \<Rightarrow> grant_lib \<Rightarrow> code + grant_lib) \<Rightarrow> grant_lib \<times> 'k \<Rightarrow> (int \<times> grant_lib \<times> 'k) option" where
  "make_grant E fill s =
     do {
       (x, l, k) \<leftarrow> cpf_new_grantslot E s;
       (case x of
          Inl e \<Rightarrow> Some (GRANT_INVALID, l, k)
        | Inr g \<Rightarrow>
            (case fill g l of
               Inl e \<Rightarrow> Some (GRANT_INVALID, case cpf_revoke g l of Inl _ \<Rightarrow> l | Inr l' \<Rightarrow> l', k)
             | Inr l' \<Rightarrow> Some (g, l', k)))
     }"

definition cpf_grant_direct ::
  "'k lib_env \<Rightarrow> int \<Rightarrow> 32 word \<Rightarrow> 32 word \<Rightarrow> 32 word \<Rightarrow> grant_lib \<times> 'k \<Rightarrow> (int \<times> grant_lib \<times> 'k) option" where
  "cpf_grant_direct E who_to addr bytes access =
     make_grant E (\<lambda>g. cpf_setgrant_direct g who_to addr bytes access)"

definition cpf_grant_indirect ::
  "'k lib_env \<Rightarrow> int \<Rightarrow> int \<Rightarrow> int \<Rightarrow> grant_lib \<times> 'k \<Rightarrow> (int \<times> grant_lib \<times> 'k) option" where
  "cpf_grant_indirect E who_to who_from gr =
     make_grant E (\<lambda>g. cpf_setgrant_indirect g who_to who_from gr)"

definition cpf_grant_magic ::
  "'k lib_env \<Rightarrow> int \<Rightarrow> int \<Rightarrow> 32 word \<Rightarrow> 32 word \<Rightarrow> 32 word \<Rightarrow> grant_lib \<times> 'k \<Rightarrow> (int \<times> grant_lib \<times> 'k) option" where
  "cpf_grant_magic E who_to who_from addr bytes access s =
     (if \<not> ACCESS_CHECK access then Some (- 1, s)
      else make_grant E (\<lambda>g. cpf_setgrant_magic g who_to who_from addr bytes access) s)"

text \<open>Granter and grantee of a grant; \<open>None\<close> is \<open>return -1\<close>.\<close>

definition cpf_lookup :: "int \<Rightarrow> grant_lib \<Rightarrow> (int \<times> int) option" where
  "cpf_lookup g l =
     (if \<not> GID_CHECK_USED l g then None
      else
        (let h = grants l ! nat g in
           if has (cp_flags h) CPF_DIRECT then Some (SELF, cp_direct_who_to h)
           else if has (cp_flags h) CPF_MAGIC then Some (cp_magic_who_from h, cp_magic_who_to h)
           else None))"

text \<open>The identifiers that were assigned, at most \<open>n\<close>.\<close>

fun cpf_getgrants :: "'k lib_env \<Rightarrow> nat \<Rightarrow> grant_lib \<times> 'k \<Rightarrow> (int list \<times> grant_lib \<times> 'k) option" where
  "cpf_getgrants E 0 s = Some ([], s)"
| "cpf_getgrants E (Suc n) s =
     do {
       (x, l, k) \<leftarrow> cpf_new_grantslot E s;
       (case x of
          Inl e \<Rightarrow> Some ([], l, k)
        | Inr g \<Rightarrow>
            do {
              (gs, s') \<leftarrow> cpf_getgrants E n (set_slot g (\<lambda>h. h\<lparr>cp_flags := CPF_USED\<rparr>) l, k);
              Some (g # gs, s')
            })
     }"

definition cpf_reload :: "'k lib_env \<Rightarrow> grant_lib \<times> 'k \<Rightarrow> grant_lib \<times> 'k" where
  "cpf_reload E s =
     (if grants_at (fst s) \<noteq> 0 then (fst s, snd (sys_setgrant E (grants_at (fst s)) (ngrants (fst s)) (snd s))) else s)"

section \<open>The contract of a table of grants\<close>

text \<open>
  What a server expects of the library: a grant gets an identifier that was not in use, is what was asked for and leaves all
  others alone; a grant that is taken back is gone. \<open>used\<close> are the grants in use, \<open>meets x h\<close> that \<open>h\<close> is a grant as \<open>x\<close> asks for.
\<close>

locale grant_store =
  fixes inv :: "'s \<Rightarrow> bool"
    and used :: "'s \<Rightarrow> int \<Rightarrow> cp_grant option"
    and give :: "'a \<Rightarrow> 's \<Rightarrow> (int \<times> 's) option"
    and meets :: "'a \<Rightarrow> cp_grant \<Rightarrow> bool"
    and revoke :: "int \<Rightarrow> 's \<Rightarrow> 's option"
  assumes give_inv: "inv s \<Longrightarrow> give x s = Some (g, s') \<Longrightarrow> inv s'"
    and give_new: "inv s \<Longrightarrow> give x s = Some (g, s') \<Longrightarrow> g \<noteq> GRANT_INVALID \<Longrightarrow>
      used s g = None \<and> (\<exists>h. meets x h \<and> used s' = (used s)(g \<mapsto> h))"
    and give_fails: "inv s \<Longrightarrow> give x s = Some (GRANT_INVALID, s') \<Longrightarrow> used s' = used s"
    and revoke_used: "inv s \<Longrightarrow> used s g = Some h \<Longrightarrow> \<exists>s'. revoke g s = Some s' \<and> inv s' \<and> used s' = (used s)(g := None)"
    and revoke_unused: "inv s \<Longrightarrow> used s g = None \<Longrightarrow> revoke g s = None"
begin

lemma give_twice:
  assumes "inv s" "give x s = Some (g, s1)" "give y s1 = Some (h, s2)" "g \<noteq> GRANT_INVALID" "h \<noteq> GRANT_INVALID"
  shows "h \<noteq> g" and "\<exists>a. meets x a \<and> used s2 g = Some a"
proof -
  obtain a where a: "meets x a" "used s1 = (used s)(g \<mapsto> a)" using give_new [OF assms(1,2,4)] by blast
  obtain b where b: "used s1 h = None" "used s2 = (used s1)(h \<mapsto> b)"
    using give_new [OF give_inv [OF assms(1,2)] assms(3,5)] by blast
  show ne: "h \<noteq> g" using a(2) b(1) by auto
  show "\<exists>a. meets x a \<and> used s2 g = Some a" using a b(2) ne by auto
qed

lemma give_revoke:
  assumes "inv s" "give x s = Some (g, s1)" "g \<noteq> GRANT_INVALID"
  shows "\<exists>s2. revoke g s1 = Some s2 \<and> inv s2 \<and> used s2 = used s \<and> revoke g s2 = None"
proof -
  obtain h where h: "used s g = None" "used s1 = (used s)(g \<mapsto> h)" using give_new [OF assms] by blast
  obtain s2 where s2: "revoke g s1 = Some s2" "inv s2" "used s2 = (used s1)(g := None)"
    using revoke_used [OF give_inv [OF assms(1,2)], of g h] h(2) by auto
  have "used s2 = used s" using s2(3) h by (auto simp: fun_eq_iff)
  then show ?thesis using s2 h(1) revoke_unused [OF s2(2)] by simp
qed

end

section \<open>The library keeps the contract\<close>

text \<open>The library of process \<open>c\<close>, whose calls reach the kernel of the model.\<close>

definition kernel_env :: "int \<Rightarrow> 32 word \<Rightarrow> (32 word \<Rightarrow> 32 word) \<Rightarrow> (nat \<Rightarrow> cp_grant) \<Rightarrow> kernel lib_env" where
  "kernel_env c st ml jk =
     \<lparr>static_grants = st, malloc = ml, junk = jk, sys_setgrant = (\<lambda>a n k. do_setgrant c (uint a) n k)\<rparr>"

definition used_grants :: "grant_lib \<Rightarrow> int \<Rightarrow> cp_grant option" where
  "used_grants l g = (if GID_CHECK_USED l g then Some (grants l ! nat g) else None)"

text \<open>The kernel knows the table as it is.\<close>

definition lib_ok :: "int \<Rightarrow> 32 word \<Rightarrow> grant_lib \<times> kernel \<Rightarrow> bool" where
  "lib_ok c st s \<longleftrightarrow> st \<noteq> 0 \<and>
     (if grants (fst s) = [] then grants_at (fst s) = 0
      else grants_at (fst s) \<noteq> 0 \<and> (\<exists>pr. priv_of (snd s) c = Some pr \<and> s_grant_table pr = uint (grants_at (fst s)) \<and>
             s_grant_entries pr = ngrants (fst s)))"

datatype grant_request =
    Direct int "32 word" "32 word" "32 word"  \<comment> \<open>grantee, address, size, access\<close>
  | Indirect int int int  \<comment> \<open>grantee, previous granter, its grant\<close>
  | Magic int int "32 word" "32 word" "32 word"  \<comment> \<open>grantee, granter, address, size, access\<close>

fun cpf_grant :: "'k lib_env \<Rightarrow> grant_request \<Rightarrow> grant_lib \<times> 'k \<Rightarrow> (int \<times> grant_lib \<times> 'k) option" where
  "cpf_grant E (Direct who addr bytes access) s = cpf_grant_direct E who addr bytes access s"
| "cpf_grant E (Indirect who from gid) s = cpf_grant_indirect E who from gid s"
| "cpf_grant E (Magic who from addr bytes access) s = cpf_grant_magic E who from addr bytes access s"

fun fits :: "grant_request \<Rightarrow> cp_grant \<Rightarrow> bool" where
  "fits (Direct who addr bytes access) h \<longleftrightarrow> cp_flags h = access OR CPF_DIRECT OR CPF_USED OR CPF_VALID \<and>
     cp_u0 h = word_of_int who \<and> cp_direct_start h = addr \<and> cp_direct_len h = bytes"
| "fits (Indirect who from gid) h \<longleftrightarrow> cp_flags h = CPF_USED OR CPF_INDIRECT OR CPF_VALID \<and>
     cp_u0 h = word_of_int who \<and> cp_u1 h = word_of_int from \<and> cp_u2 h = word_of_int gid"
| "fits (Magic who from addr bytes access) h \<longleftrightarrow> cp_flags h = CPF_USED OR CPF_MAGIC OR CPF_VALID OR access \<and>
     cp_u1 h = word_of_int who \<and> cp_u0 h = word_of_int from \<and> cp_magic_start h = addr \<and> cp_magic_len h = bytes"

definition do_revoke :: "int \<Rightarrow> grant_lib \<times> 'k \<Rightarrow> (grant_lib \<times> 'k) option" where
  "do_revoke g s = (case cpf_revoke g (fst s) of Inl _ \<Rightarrow> None | Inr l \<Rightarrow> Some (l, snd s))"

lemma has_CPF_USED: "has w CPF_USED \<longleftrightarrow> bit w 8"
proof -
  have u: "CPF_USED = 2 ^ 8" by (simp add: CPF_USED_def)
  show ?thesis unfolding has_def u and_exp_eq_0_iff_not_bit by simp
qed

lemma bit_CPF_USED: "bit CPF_USED 8"
  by (simp add: CPF_USED_def bit_iff_and_drop_bit_eq_1)

lemma has_used:
  "\<not> has 0 CPF_USED" "has CPF_USED CPF_USED" "has (access OR CPF_DIRECT OR CPF_USED OR CPF_VALID) CPF_USED"
  "has (CPF_USED OR CPF_INDIRECT OR CPF_VALID) CPF_USED" "has (CPF_USED OR CPF_MAGIC OR CPF_VALID OR access) CPF_USED"
  by (simp_all add: has_CPF_USED bit_or_iff bit_CPF_USED)

lemma do_setgrant_cases:
  assumes "do_setgrant c a n k = (r, k')"
  obtains (refused) "r = EPERM" "k' = k"
  | (registered) "r = OK" "procs k' = procs k" "\<exists>pr. priv_of k' c = Some pr \<and> s_grant_table pr = a \<and> s_grant_entries pr = n"
  using assms by (auto simp: do_setgrant_def priv_of_def upd_priv_def split: if_splits option.splits)

lemma used_new_grants [simp]:
  assumes "ngrants l \<le> n"
  shows "used_grants \<lparr>grants_at = a, grants = new_grants old n l\<rparr> = used_grants l"
proof
  fix g
  show "used_grants \<lparr>grants_at = a, grants = new_grants old n l\<rparr> g = used_grants l g"
    using assms by (cases "g < ngrants l")
      (auto simp: used_grants_def GID_CHECK_USED_def GID_CHECK_def new_grants_def ngrants_def nth_append has_used)
qed

lemma register_keeps:
  assumes "lib_ok c st s" "a \<noteq> 0" "ngrants (fst s) < n" "register_grants (kernel_env c st ml jk) a n old s = s'"
  shows "lib_ok c st s'" "used_grants (fst s') = used_grants (fst s)" "procs (snd s') = procs (snd s)"
    "ngrants (fst s) \<le> ngrants (fst s')"
proof -
  obtain r k where r: "do_setgrant c (uint a) n (snd s) = (r, k)" by fastforce
  have "lib_ok c st s' \<and> used_grants (fst s') = used_grants (fst s) \<and> procs (snd s') = procs (snd s) \<and>
      ngrants (fst s) \<le> ngrants (fst s')"
    using r
  proof (cases rule: do_setgrant_cases)
    case refused
    then show ?thesis using assms r by (auto simp: register_grants_def kernel_env_def)
  next
    case registered
    have len: "int (length (new_grants old n (fst s))) = n" "new_grants old n (fst s) \<noteq> []"
      using assms(3) by (auto simp: new_grants_def ngrants_def)
    have s': "s' = (\<lparr>grants_at = a, grants = new_grants old n (fst s)\<rparr>, k)"
      using assms(4) r registered(1) by (simp add: register_grants_def kernel_env_def)
    show ?thesis using assms(1-3) registered len by (auto simp: s' lib_ok_def ngrants_def)
  qed
  then show "lib_ok c st s'" "used_grants (fst s') = used_grants (fst s)" "procs (snd s') = procs (snd s)"
    "ngrants (fst s) \<le> ngrants (fst s')" by auto
qed

lemma cpf_grow_keeps:
  assumes "lib_ok c st s" "cpf_grow (kernel_env c st ml jk) s = Some s'"
  shows "lib_ok c st s'" "used_grants (fst s') = used_grants (fst s)" "procs (snd s') = procs (snd s)"
    "ngrants (fst s) \<le> ngrants (fst s')"
proof -
  have st: "st \<noteq> 0" using assms(1) by (simp add: lib_ok_def)
  show "lib_ok c st s'" "used_grants (fst s') = used_grants (fst s)" "procs (snd s') = procs (snd s)"
    "ngrants (fst s) \<le> ngrants (fst s')"
    using assms register_keeps [OF assms(1) st, of 2] register_keeps [OF assms(1)]
    by (auto simp: cpf_grow_def NR_STATIC_GRANTS_def kernel_env_def Let_def split: if_splits)
qed

lemma new_grantslot_keeps:
  assumes "lib_ok c st s" "cpf_new_grantslot (kernel_env c st ml jk) s = Some (x, s')"
  shows "lib_ok c st s'" "used_grants (fst s') = used_grants (fst s)" "procs (snd s') = procs (snd s)"
    "x = Inr g \<Longrightarrow> GID_CHECK (fst s') g \<and> \<not> has (cp_flags (grants (fst s') ! nat g)) CPF_USED"
proof -
  define n where "n = length (takeWhile (\<lambda>h. has (cp_flags h) CPF_USED) (grants (fst s)))"
  obtain s1 where s1: "(if int n = ngrants (fst s) then cpf_grow (kernel_env c st ml jk) s else Some s) = Some s1"
      and rest: "(if int n > ngrants (fst s1) then None else if int n = ngrants (fst s1) then Some (Inl ENOSPC, s1)
        else if has (cp_flags (grants (fst s1) ! n)) CPF_USED then None else Some (Inr (int n), s1)) = Some (x, s')"
    using assms(2) by (auto simp: cpf_new_grantslot_def n_def [symmetric] Let_def bind_eq_Some_conv simp del: split_paired_Ex)
  have s': "s' = s1" using rest by (auto split: if_splits)
  show "lib_ok c st s'" "used_grants (fst s') = used_grants (fst s)" "procs (snd s') = procs (snd s)"
    using s1 assms(1) cpf_grow_keeps [OF assms(1)] s' by (auto split: if_splits)
  show "GID_CHECK (fst s') g \<and> \<not> has (cp_flags (grants (fst s') ! nat g)) CPF_USED" if "x = Inr g"
    using rest that s' by (auto simp: GID_CHECK_def GRANT_VALID_def GRANT_INVALID_def split: if_splits)
qed

lemma set_slot_fields [simp]: "grants_at (set_slot g f l) = grants_at l" "ngrants (set_slot g f l) = ngrants l"
  "GID_CHECK (set_slot g f l) = GID_CHECK l"
  by (simp_all add: set_slot_def ngrants_def GID_CHECK_def fun_eq_iff)

lemma lib_ok_set_slot: "lib_ok c st (set_slot g f l, k) = lib_ok c st (l, k)"
  by (auto simp: lib_ok_def set_slot_def ngrants_def)

lemma used_set_slot:
  assumes "GID_CHECK l g"
  shows "used_grants (set_slot g f l) = (used_grants l)(g := (let h = f (grants l ! nat g) in if has (cp_flags h) CPF_USED then Some h else None))"
proof
  fix i
  have b: "0 \<le> g" "nat g < length (grants l)" using assms by (auto simp: GID_CHECK_def ngrants_def)
  show "used_grants (set_slot g f l) i =
      ((used_grants l)(g := (let h = f (grants l ! nat g) in if has (cp_flags h) CPF_USED then Some h else None))) i"
  proof (cases "i = g")
    case True
    then show ?thesis using assms b by (simp add: used_grants_def GID_CHECK_USED_def Let_def) (simp add: set_slot_def)
  next
    case False
    then have "GID_CHECK l i \<Longrightarrow> nat i \<noteq> nat g" using b by (auto simp: GID_CHECK_def)
    then show ?thesis using False by (auto simp: used_grants_def GID_CHECK_USED_def) (simp_all add: set_slot_def)
  qed
qed

lemma make_grant_keeps:
  assumes ok: "lib_ok c st s" and m: "make_grant (kernel_env c st ml jk) fill s = Some (g, s')"
    and fill: "\<And>g l l'. fill g l = Inr l' \<Longrightarrow> GID_CHECK l g \<Longrightarrow> l' = set_slot g f l"
    and mark: "\<And>h. has (cp_flags (f h)) CPF_USED"
  shows "lib_ok c st s'" "procs (snd s') = procs (snd s)"
    "g \<noteq> GRANT_INVALID \<Longrightarrow> GID_CHECK (fst s') g \<and> used_grants (fst s) g = None \<and>
       (\<exists>h. used_grants (fst s') = (used_grants (fst s))(g \<mapsto> f h))"
    "g = GRANT_INVALID \<Longrightarrow> used_grants (fst s') = used_grants (fst s)"
proof -
  obtain x l k where n: "cpf_new_grantslot (kernel_env c st ml jk) s = Some (x, l, k)"
      and rest: "(case x of Inl e \<Rightarrow> Some (GRANT_INVALID, l, k) | Inr g \<Rightarrow> (case fill g l of
          Inl e \<Rightarrow> Some (GRANT_INVALID, case cpf_revoke g l of Inl _ \<Rightarrow> l | Inr l' \<Rightarrow> l', k)
        | Inr l' \<Rightarrow> Some (g, l', k))) = Some (g, s')"
    using m by (auto simp: make_grant_def bind_eq_Some_conv)
  note slot = new_grantslot_keeps [OF ok n, simplified]
  have "lib_ok c st s' \<and> procs (snd s') = procs (snd s) \<and>
      (if g = GRANT_INVALID then used_grants (fst s') = used_grants (fst s)
       else GID_CHECK (fst s') g \<and> used_grants (fst s) g = None \<and> (\<exists>h. used_grants (fst s') = (used_grants (fst s))(g \<mapsto> f h)))"
  proof (cases x)
    case (Inl e)
    then show ?thesis using rest slot by auto
  next
    case (Inr i)
    have i: "GID_CHECK l i" "\<not> has (cp_flags (grants l ! nat i)) CPF_USED" using slot(4) Inr by auto
    have v: "i \<noteq> GRANT_INVALID" using i(1) by (auto simp: GID_CHECK_def GRANT_VALID_def)
    have u: "used_grants (fst s) i = None" using slot(2) i by (simp add: used_grants_def GID_CHECK_USED_def flip: slot(2))
    show ?thesis
    proof (cases "fill i l")
      case (Inl e)
      then show ?thesis using rest Inr slot i by (auto simp: cpf_revoke_def GID_CHECK_USED_def)
    next
      case (Inr l')
      have l': "l' = set_slot i f l" by (rule fill [OF Inr i(1)])
      have s': "g = i" "s' = (l', k)" using rest Inr \<open>x = Inr i\<close> by auto
      have "used_grants l' = (used_grants (fst s))(i \<mapsto> f (grants l ! nat i))"
        using used_set_slot [OF i(1), of f] mark by (simp add: l' slot(2) Let_def)
      then show ?thesis using s' v u slot i by (auto simp: l' lib_ok_set_slot)
    qed
  qed
  then show "lib_ok c st s'" "procs (snd s') = procs (snd s)"
    "g \<noteq> GRANT_INVALID \<Longrightarrow> GID_CHECK (fst s') g \<and> used_grants (fst s) g = None \<and>
       (\<exists>h. used_grants (fst s') = (used_grants (fst s))(g \<mapsto> f h))"
    "g = GRANT_INVALID \<Longrightarrow> used_grants (fst s') = used_grants (fst s)" by auto
qed

lemma cpf_grant_keeps:
  assumes ok: "lib_ok c st s" and m: "cpf_grant (kernel_env c st ml jk) x s = Some (g, s')"
  shows "lib_ok c st s' \<and> procs (snd s') = procs (snd s) \<and>
    (if g = GRANT_INVALID then used_grants (fst s') = used_grants (fst s)
     else GID_CHECK (fst s') g \<and> used_grants (fst s) g = None \<and>
       (\<exists>h. fits x h \<and> used_grants (fst s') = (used_grants (fst s))(g \<mapsto> h)))"
proof -
  have step: ?thesis if m: "make_grant (kernel_env c st ml jk) fill s = Some (g, s')"
      and fill: "\<And>g l l'. fill g l = Inr l' \<Longrightarrow> GID_CHECK l g \<Longrightarrow> l' = set_slot g f l"
      and mark: "\<And>h. has (cp_flags (f h)) CPF_USED" and fit: "\<And>h. fits x (f h)" for fill f
    using make_grant_keeps [OF ok m fill mark] fit by (auto split: if_splits)
  show ?thesis
  proof (cases x)
    case (Direct who addr bytes access)
    show ?thesis
      by (rule step [where fill = "\<lambda>g. cpf_setgrant_direct g who addr bytes access" and
            f = "\<lambda>g. g\<lparr>cp_flags := access OR CPF_DIRECT OR CPF_USED OR CPF_VALID, cp_u0 := word_of_int who, cp_u1 := addr, cp_u2 := bytes\<rparr>"])
        (use m Direct in \<open>auto simp: cpf_grant_direct_def cpf_setgrant_direct_def cp_direct_start_def cp_direct_len_def has_used
          split: if_splits\<close>)
  next
    case (Indirect who frm gid)
    show ?thesis
      by (rule step [where fill = "\<lambda>g. cpf_setgrant_indirect g who frm gid" and f = "\<lambda>g. g\<lparr>cp_flags := CPF_USED OR CPF_INDIRECT OR CPF_VALID,
            cp_u0 := word_of_int who, cp_u1 := word_of_int frm, cp_u2 := word_of_int gid\<rparr>"])
        (use m Indirect in \<open>auto simp: cpf_grant_indirect_def cpf_setgrant_indirect_def has_used split: if_splits\<close>)
  next
    case (Magic who frm addr bytes access)
    show ?thesis
    proof (cases "ACCESS_CHECK access")
      case True
      then show ?thesis
        by (intro step [where fill = "\<lambda>g. cpf_setgrant_magic g who frm addr bytes access" and
              f = "\<lambda>g. g\<lparr>cp_flags := CPF_USED OR CPF_MAGIC OR CPF_VALID OR access, cp_u1 := word_of_int who, cp_u0 := word_of_int frm,
              cp_u2 := addr, cp_u3 := bytes\<rparr>"])
          (use m Magic in \<open>auto simp: cpf_grant_magic_def cpf_setgrant_magic_def cp_magic_start_def cp_magic_len_def has_used
            split: if_splits\<close>)
    next
      case False
      then show ?thesis using m Magic ok by (auto simp: cpf_grant_magic_def GRANT_INVALID_def)
    qed
  qed
qed

lemma do_revoke_used:
  assumes "lib_ok c st s" "used_grants (fst s) g = Some h"
  shows "\<exists>s'. do_revoke g s = Some s' \<and> lib_ok c st s' \<and> used_grants (fst s') = (used_grants (fst s))(g := None)"
proof -
  have g: "GID_CHECK_USED (fst s) g" "GID_CHECK (fst s) g"
    using assms(2) by (auto simp: used_grants_def GID_CHECK_USED_def split: if_splits)
  show ?thesis using g assms(1) used_set_slot [OF g(2), of "\<lambda>h. h\<lparr>cp_flags := 0\<rparr>"] lib_ok_set_slot [of c st g _ "fst s" "snd s"]
    by (simp add: do_revoke_def cpf_revoke_def has_used)
qed

interpretation libsys: grant_store "lib_ok c st" "\<lambda>s. used_grants (fst s)" "cpf_grant (kernel_env c st ml jk)" fits do_revoke
  for c st ml jk
proof
  fix s s' x g h
  assume ok: "lib_ok c st s"
  show "lib_ok c st s'" if "cpf_grant (kernel_env c st ml jk) x s = Some (g, s')"
    using cpf_grant_keeps [OF ok that] by simp
  show "used_grants (fst s) g = None \<and> (\<exists>h. fits x h \<and> used_grants (fst s') = (used_grants (fst s))(g \<mapsto> h))"
    if "cpf_grant (kernel_env c st ml jk) x s = Some (g, s')" "g \<noteq> GRANT_INVALID"
    using cpf_grant_keeps [OF ok that(1)] that(2) by auto
  show "used_grants (fst s') = used_grants (fst s)" if "cpf_grant (kernel_env c st ml jk) x s = Some (GRANT_INVALID, s')"
    using cpf_grant_keeps [OF ok that] by simp
  show "\<exists>s'. do_revoke g s = Some s' \<and> lib_ok c st s' \<and> used_grants (fst s') = (used_grants (fst s))(g := None)"
    if "used_grants (fst s) g = Some h" by (rule do_revoke_used [OF ok that])
  show "do_revoke g s = None" if "used_grants (fst s) g = None"
    using that by (auto simp: do_revoke_def cpf_revoke_def used_grants_def split: if_splits)
qed

section \<open>A grant can be had\<close>

lemma grow_succeeds:
  assumes "lib_ok c st s" "ngrants (fst s) < 536870912" "\<And>n. ml n \<noteq> 0"
    and priv: "\<not> RTS_ISSET (snd s) c RTS_NO_PRIV" "p_priv (procs (snd s) c) \<noteq> None"
  shows "\<exists>s'. cpf_grow (kernel_env c st ml jk) s = Some s' \<and> ngrants (fst s) < ngrants (fst s') \<and>
    (\<forall>i. ngrants (fst s) \<le> i \<and> i < ngrants (fst s') \<longrightarrow> \<not> has (cp_flags (grants (fst s') ! nat i)) CPF_USED)"
proof -
  define n where "n = (if ngrants (fst s) = 0 then 2 else (1 + ngrants (fst s)) * 2)"
  have n: "ngrants (fst s) < n" "ngrants (fst s) \<noteq> 0 \<Longrightarrow> wrap32 ((1 + ngrants (fst s)) * 2) = n"
    using assms(2) by (auto simp: n_def ngrants_def wrap32_id INT_MAX_def)
  have reg: "ngrants (fst (register_grants (kernel_env c st ml jk) a n old s)) = n \<and>
      (\<forall>i. ngrants (fst s) \<le> i \<and> i < n \<longrightarrow>
        \<not> has (cp_flags (grants (fst (register_grants (kernel_env c st ml jk) a n old s)) ! nat i)) CPF_USED)" for a old
    using priv n(1) by (auto simp: register_grants_def kernel_env_def do_setgrant_def new_grants_def ngrants_def nth_append
        has_used split: option.splits)
  define a where "a = (if ngrants (fst s) = 0 then st else ml (word_of_int n * cp_grant_size))"
  define old where "old = (if ngrants (fst s) = 0 then (\<lambda>_. no_grant) else jk)"
  have "cpf_grow (kernel_env c st ml jk) s = Some (register_grants (kernel_env c st ml jk) a n old s)"
  proof (cases "ngrants (fst s) = 0")
    case True
    then show ?thesis by (simp add: cpf_grow_def a_def old_def n_def NR_STATIC_GRANTS_def kernel_env_def)
  next
    case False
    then show ?thesis using n assms(3) by (simp add: cpf_grow_def a_def old_def kernel_env_def)
  qed
  then show ?thesis using reg [of a old] n(1) by metis
qed

lemma grantslot_succeeds:
  assumes "lib_ok c st s" "ngrants (fst s) < 536870912" "\<And>n. ml n \<noteq> 0"
    and priv: "\<not> RTS_ISSET (snd s) c RTS_NO_PRIV" "p_priv (procs (snd s) c) \<noteq> None"
  shows "\<exists>g s'. cpf_new_grantslot (kernel_env c st ml jk) s = Some (Inr g, s')"
proof -
  define n where "n = length (takeWhile (\<lambda>h. has (cp_flags h) CPF_USED) (grants (fst s)))"
  show ?thesis
  proof (cases "int n = ngrants (fst s)")
    case True
    obtain s' where s': "cpf_grow (kernel_env c st ml jk) s = Some s'" "ngrants (fst s) < ngrants (fst s')"
        "\<not> has (cp_flags (grants (fst s') ! n)) CPF_USED"
      using grow_succeeds [of c st s ml jk, OF assms] True by (metis nat_int order_refl)
    have "cpf_new_grantslot (kernel_env c st ml jk) s = Some (Inr (int n), s')"
      using True s' by (simp add: cpf_new_grantslot_def n_def [symmetric] Let_def)
    then show ?thesis by blast
  next
    case False
    then have n: "n < length (grants (fst s))" using length_takeWhile_le [of _ "grants (fst s)"]
      by (simp add: n_def ngrants_def le_neq_implies_less)
    then have "\<not> has (cp_flags (grants (fst s) ! n)) CPF_USED" unfolding n_def by (rule nth_length_takeWhile)
    then show ?thesis using False n by (simp add: cpf_new_grantslot_def n_def [symmetric] Let_def ngrants_def)
  qed
qed

section \<open>The kernel sees the grants\<close>

text \<open>The memory of process \<open>me\<close> holds its table.\<close>

definition shows_table :: "grant_mem \<Rightarrow> int \<Rightarrow> grant_lib \<Rightarrow> bool" where
  "shows_table mem me l \<longleftrightarrow>
     (\<forall>i < length (grants l). mem me (grants_at l + cp_grant_size * of_nat i) = Some (grants l ! i))"

lemma isokendpt_procs: "procs k' = procs k \<Longrightarrow> isokendpt k' = isokendpt k"
  by (simp add: isokendpt_def isemptyn_def fun_eq_iff)

lemma grant_entry_table:
  assumes ok: "lib_ok c st (l, k)" and me: "isokendpt k me = Some c" and mem: "shows_table mem me l" and g: "GID_CHECK l g"
  shows "grant_entry mem k me g =
    (if cp_flags (grants l ! nat g) AND (CPF_USED OR CPF_VALID) \<noteq> CPF_USED OR CPF_VALID then Inl EPERM
     else Inr (grants l ! nat g))"
proof -
  have i: "nat g < length (grants l)" "GRANT_VALID g" "g < ngrants l" "grants l \<noteq> []" "0 \<le> g"
    using g by (auto simp: GID_CHECK_def ngrants_def)
  obtain pr where pr: "priv_of k c = Some pr" "s_grant_table pr = uint (grants_at l)" "s_grant_entries pr = ngrants l" "grants_at l \<noteq> 0"
    using ok i(4) by (auto simp: lib_ok_def)
  have "(of_nat (nat g) :: 32 word) = word_of_int g" using i(5) by (metis int_nat_eq of_int_of_nat_eq)
  then have "mem me (grants_at l + cp_grant_size * word_of_int g) = Some (grants l ! nat g)"
    using mem i(1) unfolding shows_table_def by metis
  then show ?thesis using me i pr by (simp add: grant_entry_def HASGRANTTABLE_def uint_0_iff)
qed

lemma access_bits:
  assumes "ACCESS_CHECK access"
  shows "\<not> has (access OR CPF_DIRECT OR CPF_USED OR CPF_VALID) CPF_INDIRECT"
    and "has (access OR CPF_DIRECT OR CPF_USED OR CPF_VALID) CPF_DIRECT"
    and "(access OR CPF_DIRECT OR CPF_USED OR CPF_VALID) AND (CPF_USED OR CPF_VALID) = CPF_USED OR CPF_VALID"
    and "w = CPF_READ \<or> w = CPF_WRITE \<Longrightarrow> (access OR CPF_DIRECT OR CPF_USED OR CPF_VALID) AND w = access AND w"
proof -
  have d: "(access OR CPF_DIRECT OR CPF_USED OR CPF_VALID) AND w = access AND w OR (CPF_DIRECT OR CPF_USED OR CPF_VALID) AND w" for w
    by (simp add: bit_eq_iff bit_and_iff bit_or_iff) blast
  have a: "access = access AND (CPF_READ OR CPF_WRITE OR CPF_TRY)"
    using assms unfolding ACCESS_CHECK_def by (simp add: bit_eq_iff bit_and_iff bit_or_iff bit_not_iff) blast
  have "access AND CPF_INDIRECT = access AND ((CPF_READ OR CPF_WRITE OR CPF_TRY) AND CPF_INDIRECT)"
    using a by (metis and.assoc)
  then have "access AND CPF_INDIRECT = 0" by (simp add: CPF_defs)
  then show "\<not> has (access OR CPF_DIRECT OR CPF_USED OR CPF_VALID) CPF_INDIRECT"
    unfolding has_def d by (simp add: CPF_defs)
  show "has (access OR CPF_DIRECT OR CPF_USED OR CPF_VALID) CPF_DIRECT"
    unfolding has_def d by (simp add: CPF_defs or_eq_0_iff)
  show "(access OR CPF_DIRECT OR CPF_USED OR CPF_VALID) AND (CPF_USED OR CPF_VALID) = CPF_USED OR CPF_VALID"
    by (auto simp: bit_eq_iff bit_and_iff bit_or_iff)
  show "(access OR CPF_DIRECT OR CPF_USED OR CPF_VALID) AND w = access AND w" if "w = CPF_READ \<or> w = CPF_WRITE"
    unfolding d using that by (auto simp: CPF_defs)
qed

text \<open>What the kernel answers about a grant in use that was made by \<open>cpf_grant_direct\<close>.\<close>

lemma verify_direct_grant:
  assumes ok: "lib_ok c st (l, k)" and me: "isokendpt k me = Some c" and user: "isokendpt k user \<noteq> None" and mem: "shows_table mem me l"
    and used: "used_grants l g = Some h" "fits (Direct who addr bytes access) h" and acc: "ACCESS_CHECK access"
    and who: "- 2147483648 \<le> who" "who < 2147483648" and w: "w = CPF_READ \<or> w = CPF_WRITE"
  shows "verify_grant mem k me user g n w off = Inr (a, own, flags) \<longleftrightarrow>
    given_to who user \<and> access AND w = w \<and> uint off + uint n \<le> uint bytes \<and> uint addr + uint bytes \<le> 2 ^ 32 \<and>
    (bytes = 0 \<longrightarrow> addr = 0) \<and> own = me \<and> a = addr + off \<and> flags = (access OR CPF_DIRECT OR CPF_USED OR CPF_VALID)"
proof -
  have g: "GID_CHECK l g" "grants l ! nat g = h" using used(1) by (auto simp: used_grants_def GID_CHECK_USED_def split: if_splits)
  have f: "cp_flags h = access OR CPF_DIRECT OR CPF_USED OR CPF_VALID" "cp_direct_start h = addr" "cp_direct_len h = bytes"
    using used(2) by auto
  have to: "cp_direct_who_to h = who" using used(2) who by (simp add: cp_direct_who_to_def int_word_sint)
  have e: "grant_entry mem k me g = Inr h" using grant_entry_table [OF ok me mem g(1)] access_bits(3) [OF acc] by (simp add: g(2) f(1))
  have "follow_grant mem k MAX_INDIRECT_DEPTH me user g = Inr (h, me, user)"
    using access_bits(1) [OF acc] by (subst follow_grant.simps) (simp add: e f(1))
  then have v: "verify_grant mem k me user g n w off = check_grant n w off h me user" by (simp add: verify_grant_def)
  have ne: "user \<noteq> ANY" using user by auto
  have d: "has (cp_flags h) CPF_DIRECT" using access_bits(2) [OF acc] by (simp add: f(1))
  show ?thesis
    unfolding v check_direct [OF d ne] direct_permits_def f to access_bits(4) [OF acc w]
    using inside_range [of addr bytes off n] access_bits(2) [OF acc] access_bits(4) [OF acc w] by auto
qed

lemma verify_revoked:
  assumes ok: "lib_ok c st (l, k)" and me: "isokendpt k me = Some c" and mem: "shows_table mem me l" and g: "GID_CHECK l g"
    and unused: "used_grants l g = None"
  shows "verify_grant mem k me user g n w off = Inl EPERM"
proof -
  have "\<not> has (cp_flags (grants l ! nat g)) CPF_USED" using g unused by (simp add: used_grants_def GID_CHECK_USED_def split: if_splits)
  then have "cp_flags (grants l ! nat g) AND (CPF_USED OR CPF_VALID) \<noteq> CPF_USED OR CPF_VALID"
    unfolding has_CPF_USED by (metis bit_CPF_USED bit_and_iff bit_or_iff)
  then have "grant_entry mem k me g = Inl EPERM" using grant_entry_table [OF ok me mem g] by simp
  then show ?thesis by (simp add: verify_grant_def follow_grant.simps)
qed

section \<open>A first grant\<close>

text \<open>Process 2, without a table yet, lets process 1 write 16 bytes at 8192.\<close>

definition demo_env :: "kernel lib_env" where "demo_env = kernel_env 2 4096 (\<lambda>_. 16384) (\<lambda>_. no_grant)"

definition no_table :: grant_lib where "no_table = \<lparr>grants_at = 0, grants = []\<rparr>"

definition one_grant :: grant_lib where
  "one_grant = \<lparr>grants_at = 4096, grants = [\<lparr>cp_flags = 0x1302, cp_u0 = 1, cp_u1 = 8192, cp_u2 = 16, cp_u3 = 0\<rparr>, no_grant]\<rparr>"

definition table_mem :: "int \<Rightarrow> grant_lib \<Rightarrow> grant_mem" where
  "table_mem me l e a = (if e = me \<and> a = grants_at l then Some (grants l ! 0) else if e = me \<and> a = grants_at l + 36 then Some (grants l ! 1) else None)"

lemma first_grant: "cpf_grant_direct demo_env 1 8192 16 CPF_WRITE (no_table, demo_kernel) = Some (0, one_grant, granting_kernel)"
proof -
  have "cpf_new_grantslot demo_env (no_table, demo_kernel) =
      Some (Inr 0, \<lparr>grants_at = 4096, grants = [no_grant, no_grant]\<rparr>, granting_kernel)"
    by (simp add: cpf_new_grantslot_def no_table_def cpf_grow_def ngrants_def demo_env_def kernel_env_def register_grants_def
        NR_STATIC_GRANTS_def do_setgrant_def RTS_ISSET_def demo_proc_def idle_proc_def RTS_defs new_grants_def upt_rec
        no_grant_def has_used granting_kernel_def)
  then show ?thesis
    by (simp add: cpf_grant_direct_def make_grant_def cpf_setgrant_direct_def GID_CHECK_def GRANT_VALID_def GRANT_INVALID_def
        ngrants_def ACCESS_CHECK_def CPF_defs set_slot_def one_grant_def no_grant_def)
qed

lemma first_revoke: "cpf_revoke 0 one_grant = Inr (set_slot 0 (\<lambda>h. h\<lparr>cp_flags := 0\<rparr>) one_grant)"
  by (simp add: cpf_revoke_def GID_CHECK_USED_def GID_CHECK_def GRANT_VALID_def GRANT_INVALID_def ngrants_def one_grant_def has_def CPF_defs)

lemma table_mem_shows: "length (grants l) = 2 \<Longrightarrow> shows_table (table_mem me l) me l"
  by (auto simp: shows_table_def table_mem_def cp_grant_size_def less_2_cases_iff)

lemma no_table_ok: "lib_ok 2 4096 (no_table, k)"
  by (simp add: lib_ok_def no_table_def)

lemma demo_access: "ACCESS_CHECK CPF_WRITE"
  by (simp add: ACCESS_CHECK_def CPF_defs)

section \<open>Grant library properties\<close>

text \<open>C23. The library hands out grants. As long as its table has fewer than 2^29 slots, the process has a privilege structure and
  \<open>malloc\<close> finds memory, \<open>cpf_grant_direct\<close> with a proper access returns an identifier that was not in use; afterwards exactly this
  grant is in use in addition, with the grantee, range and access asked for; the kernel knows the table; and \<open>cpf_revoke\<close> brings back the grants of before.\<close>

theorem grant_direct_adds_one:
  assumes ok: "lib_ok c st (l, k)" and room: "ngrants l < 536870912" "\<And>n. ml n \<noteq> 0"
    and priv: "\<not> RTS_ISSET k c RTS_NO_PRIV" "p_priv (procs k c) \<noteq> None" and acc: "ACCESS_CHECK access"
  shows "\<exists>g l' k' h. cpf_grant_direct (kernel_env c st ml jk) who addr bytes access (l, k) = Some (g, l', k') \<and>
    GRANT_VALID g \<and> used_grants l g = None \<and> fits (Direct who addr bytes access) h \<and>
    used_grants l' = (used_grants l)(g \<mapsto> h) \<and> lib_ok c st (l', k') \<and>
    (\<exists>l''. cpf_revoke g l' = Inr l'' \<and> used_grants l'' = used_grants l)"
proof -
  let ?E = "kernel_env c st ml jk" and ?r = "Direct who addr bytes access"
  obtain g l1 k1 where n: "cpf_new_grantslot ?E (l, k) = Some (Inr g, l1, k1)"
    using grantslot_succeeds [of c st "(l, k)" ml jk] ok room priv by auto
  have c: "GID_CHECK l1 g" using new_grantslot_keeps(4) [OF ok n refl] by simp
  then obtain l' where d: "cpf_grant_direct ?E who addr bytes access (l, k) = Some (g, l', k1)"
    using n acc by (simp add: cpf_grant_direct_def make_grant_def cpf_setgrant_direct_def)
  have v: "GRANT_VALID g" "g \<noteq> GRANT_INVALID" using c by (auto simp: GID_CHECK_def GRANT_VALID_def)
  have m: "cpf_grant ?E ?r (l, k) = Some (g, l', k1)" using d by simp
  obtain h where h: "used_grants l g = None" "fits ?r h" "used_grants l' = (used_grants l)(g \<mapsto> h)"
    using libsys.give_new [OF ok m v(2)] by auto
  obtain l'' where r: "cpf_revoke g l' = Inr l''" "used_grants l'' = used_grants l"
    using libsys.give_revoke [OF ok m v(2)] by (auto simp: do_revoke_def split: sum.splits)
  show ?thesis using d v(1) h r libsys.give_inv [OF ok m] by blast
qed

theorem grant_direct_adds_one_witness:
  "\<exists>g l' k' h. cpf_grant_direct demo_env 1 8192 16 CPF_WRITE (no_table, demo_kernel) = Some (g, l', k') \<and>
    GRANT_VALID g \<and> used_grants no_table g = None \<and> fits (Direct 1 8192 16 CPF_WRITE) h \<and>
    used_grants l' = (used_grants no_table)(g \<mapsto> h) \<and> lib_ok 2 4096 (l', k') \<and>
    (\<exists>l''. cpf_revoke g l' = Inr l'' \<and> used_grants l'' = used_grants no_table)"
  unfolding demo_env_def
  by (rule grant_direct_adds_one [OF no_table_ok _ _ _ _ demo_access])
    (simp_all add: no_table_def ngrants_def RTS_ISSET_def demo_proc_def idle_proc_def RTS_defs)

text \<open>C21. The library and the kernel agree on grants. After \<open>cpf_grant_direct\<close> has returned an identifier, and with the table in memory as the
  library wrote it, the kernel lets a process use the grant exactly when it is the grantee (or the grant is for everyone), for the access given and for
  bytes inside the range, and gives it the address in the memory of the granter; after \<open>cpf_revoke\<close> it refuses everyone with \<open>EPERM\<close>.\<close>

theorem granted_until_revoked:
  assumes ok: "lib_ok c st (l, k)" and me: "isokendpt k me = Some c" and user: "isokendpt k user \<noteq> None"
    and grant: "cpf_grant_direct (kernel_env c st ml jk) who addr bytes access (l, k) = Some (g, l1, k1)" "GRANT_VALID g"
    and acc: "ACCESS_CHECK access" and who: "- 2147483648 \<le> who" "who < 2147483648" and w: "w = CPF_READ \<or> w = CPF_WRITE"
    and mem: "shows_table mem me l1" and revoke: "cpf_revoke g l1 = Inr l2" and mem2: "shows_table mem2 me l2"
  shows "(verify_grant mem k1 me user g n w off = Inr (a, own, flags) \<longleftrightarrow>
      given_to who user \<and> access AND w = w \<and> uint off + uint n \<le> uint bytes \<and> uint addr + uint bytes \<le> 2 ^ 32 \<and>
      (bytes = 0 \<longrightarrow> addr = 0) \<and> own = me \<and> a = addr + off \<and> flags = (access OR CPF_DIRECT OR CPF_USED OR CPF_VALID)) \<and>
    verify_grant mem2 k1 me user g n w off = Inl EPERM"
proof -
  let ?r = "Direct who addr bytes access"
  have m: "cpf_grant (kernel_env c st ml jk) ?r (l, k) = Some (g, l1, k1)" using grant(1) by simp
  have v: "g \<noteq> GRANT_INVALID" using grant(2) by (auto simp: GRANT_VALID_def)
  note kept = cpf_grant_keeps [OF ok m]
  have ok1: "lib_ok c st (l1, k1)" and ends: "isokendpt k1 = isokendpt k" and gid: "GID_CHECK l1 g"
    using kept v isokendpt_procs [of k1 k] by auto
  obtain h where h: "fits ?r h" "used_grants l1 = (used_grants l)(g \<mapsto> h)" using kept v by auto
  have s2: "l2 = set_slot g (\<lambda>h. h\<lparr>cp_flags := 0\<rparr>) l1" using revoke by (auto simp: cpf_revoke_def split: if_splits)
  have ok2: "lib_ok c st (l2, k1)" using ok1 by (simp add: s2 lib_ok_set_slot)
  have u2: "used_grants l2 g = None" unfolding s2 used_set_slot [OF gid] by (simp add: has_used)
  have me1: "isokendpt k1 me = Some c" and user1: "isokendpt k1 user \<noteq> None" using me user by (simp_all add: ends)
  show ?thesis
    using verify_direct_grant [OF ok1 me1 user1 mem _ h(1) acc who w, of g n off a own flags] h(2)
      verify_revoked [OF ok2 me1 mem2 _ u2, of user n w off] gid by (simp add: s2)
qed

theorem granted_until_revoked_witness:
  "verify_grant (table_mem 2 one_grant) granting_kernel 2 1 0 8 CPF_WRITE 4 = Inr (8196, 2, 0x1302) \<and>
   verify_grant (table_mem 2 (set_slot 0 (\<lambda>h. h\<lparr>cp_flags := 0\<rparr>) one_grant)) granting_kernel 2 1 0 8 CPF_WRITE 4 = Inl EPERM"
proof -
  have ends: "isokendpt demo_kernel 2 = Some 2" "isokendpt demo_kernel 1 \<noteq> None"
    using granting_kernel_endpoints isokendpt_procs [of granting_kernel demo_kernel] by (simp_all add: granting_kernel_def upd_priv_def)
  have len: "length (grants one_grant) = 2" "length (grants (set_slot 0 (\<lambda>h. h\<lparr>cp_flags := 0\<rparr>) one_grant)) = 2"
    by (simp_all add: one_grant_def set_slot_def)
  show ?thesis
    using granted_until_revoked [OF no_table_ok ends first_grant [unfolded demo_env_def] _ demo_access _ _ _ table_mem_shows [OF len(1)]
        first_revoke table_mem_shows [OF len(2)], of CPF_WRITE 8 4 8196 2 "0x1302"]
    by (simp add: GRANT_VALID_def GRANT_INVALID_def given_to_def CPF_defs)
qed

end
