(* ===== verification/Kernel_Entry.thy ===== *)
theory Kernel_Entry
  imports Live_Update
begin

text \<open>
  The way into the kernel calls (\<^verbatim>\<open>kernel/system.c\<close>): \<open>kernel_call\<close> copies the message of the
  caller, \<open>kernel_call_dispatch\<close> checks the call number and the call mask and runs the handler,
  \<open>kernel_call_finish\<close> replies or suspends the call until VM has fixed the memory it needs, and
  \<open>kernel_call_resume\<close> runs a suspended call again.

  The message is a union; how its members lie over each other is a matter of the ABI. Reading
  and writing a member by its name are parameters of the model, as are the number of a result
  code, the signal numbering, what handlers copy from the memory of the caller, and the handlers of the kernel calls
  that are not modelled.
\<close>

section \<open>Calls\<close>

type_synonym handler = "int \<Rightarrow> message \<Rightarrow> kernel \<Rightarrow> (code \<times> message \<times> kernel) option"

record abi =
  rd :: "string \<Rightarrow> message \<Rightarrow> int"
  wr :: "string \<Rightarrow> int \<Rightarrow> message \<Rightarrow> message"
  wr_map :: "string \<Rightarrow> signal set \<Rightarrow> message \<Rightarrow> message"
  code_nr :: "code \<Rightarrow> int"
  nsig :: int
  signal_of :: "int \<Rightarrow> signal"
  lethal :: "signal \<Rightarrow> bool"
  exec_name :: "int \<Rightarrow> message \<Rightarrow> kernel \<Rightarrow> code + string"
  priv_args :: "int \<Rightarrow> message \<Rightarrow> kernel \<Rightarrow> priv_arg"
  diag_text :: "int \<Rightarrow> message \<Rightarrow> kernel \<Rightarrow> code"
  clock_realtime :: int
  kmess_in_use :: bool
  do_serial_debug :: bool
  other_call :: "int \<Rightarrow> handler option"

definition KERNEL_CALL :: int where "KERNEL_CALL = 0x600"
definition NR_SYS_CALLS :: int where "NR_SYS_CALLS = 58"
definition SYS_FORK :: int where "SYS_FORK = KERNEL_CALL + 0"
definition SYS_EXEC :: int where "SYS_EXEC = KERNEL_CALL + 1"
definition SYS_CLEAR :: int where "SYS_CLEAR = KERNEL_CALL + 2"
definition SYS_SCHEDULE :: int where "SYS_SCHEDULE = KERNEL_CALL + 3"
definition SYS_PRIVCTL :: int where "SYS_PRIVCTL = KERNEL_CALL + 4"
definition SYS_KILL :: int where "SYS_KILL = KERNEL_CALL + 6"
definition SYS_GETKSIG :: int where "SYS_GETKSIG = KERNEL_CALL + 7"
definition SYS_ENDKSIG :: int where "SYS_ENDKSIG = KERNEL_CALL + 8"
definition SYS_IRQCTL :: int where "SYS_IRQCTL = KERNEL_CALL + 19"
definition SYS_SETALARM :: int where "SYS_SETALARM = KERNEL_CALL + 24"
definition SYS_TIMES :: int where "SYS_TIMES = KERNEL_CALL + 25"
definition SYS_ABORT :: int where "SYS_ABORT = KERNEL_CALL + 27"
definition SYS_SETGRANT :: int where "SYS_SETGRANT = KERNEL_CALL + 34"
definition SYS_STIME :: int where "SYS_STIME = KERNEL_CALL + 39"
definition SYS_SETTIME :: int where "SYS_SETTIME = KERNEL_CALL + 40"
definition SYS_DIAGCTL :: int where "SYS_DIAGCTL = KERNEL_CALL + 44"
definition SYS_VTIMER :: int where "SYS_VTIMER = KERNEL_CALL + 45"
definition SYS_RUNCTL :: int where "SYS_RUNCTL = KERNEL_CALL + 46"
definition SYS_UPDATE :: int where "SYS_UPDATE = KERNEL_CALL + 52"
definition SYS_EXIT :: int where "SYS_EXIT = KERNEL_CALL + 53"
definition SYS_SCHEDCTL :: int where "SYS_SCHEDCTL = KERNEL_CALL + 54"
definition SYS_STATECTL :: int where "SYS_STATECTL = KERNEL_CALL + 55"

text \<open>\<open>call_vec\<close>: which handler serves which call, and what it reads from and writes to the message.\<close>

definition call_fork :: "abi \<Rightarrow> handler" where
  "call_fork A caller m k = do {
     (r, reply, k1) \<leftarrow> do_fork (rd A ''m_lsys_krn_sys_fork.endpt'' m) (rd A ''m_lsys_krn_sys_fork.slot'' m)
                         (word_of_int (rd A ''m_lsys_krn_sys_fork.flags'' m)) k;
     Some (r, case reply of None \<Rightarrow> m
              | Some (e, a) \<Rightarrow> wr A ''m_krn_lsys_sys_fork.msgaddr'' (int a) (wr A ''m_krn_lsys_sys_fork.endpt'' e m), k1)
   }"

definition call_getksig :: "abi \<Rightarrow> handler" where
  "call_getksig A caller m k = do {
     (r, (e, pending), k1) \<leftarrow> do_getksig caller k;
     let m1 = wr A ''m_sigcalls.endpt'' e m;
     Some (r, case pending of None \<Rightarrow> m1 | Some S \<Rightarrow> wr_map A ''m_sigcalls.map'' S m1, k1)
   }"

definition call_vtimer :: "abi \<Rightarrow> handler" where
  "call_vtimer A caller m k = do {
     (r, old, k1) \<leftarrow> do_vtimer caller (rd A ''m2_i1'' m) (rd A ''m2_i2'' m \<noteq> 0) (rd A ''m2_l1'' m) (rd A ''m2_l2'' m) k;
     Some (r, case old of None \<Rightarrow> m | Some v \<Rightarrow> wr A ''m2_l1'' (sint v) m, k1)
   }"

definition call_irqctl :: "abi \<Rightarrow> handler" where
  "call_irqctl A caller m k = do {
     (r, hook, k1) \<leftarrow> do_irqctl caller (rd A ''m_lsys_krn_sys_irqctl.request'' m) (rd A ''m_lsys_krn_sys_irqctl.vector'' m)
                        (word_of_int (rd A ''m_lsys_krn_sys_irqctl.policy'' m)) (rd A ''m_lsys_krn_sys_irqctl.hook_id'' m) k;
     Some (r, case hook of None \<Rightarrow> m | Some h \<Rightarrow> wr A ''m_krn_lsys_sys_irqctl.hook_id'' h m, k1)
   }"

definition call_setalarm :: "abi \<Rightarrow> handler" where
  "call_setalarm A caller m k = do {
     (r, left, k1) \<leftarrow> do_setalarm caller (word_of_int (rd A ''m_lsys_krn_sys_setalarm.exp_time'' m))
                        (rd A ''m_lsys_krn_sys_setalarm.abs_time'' m \<noteq> 0) k;
     Some (r, case left of None \<Rightarrow> m | Some t \<Rightarrow> wr A ''m_lsys_krn_sys_setalarm.time_left'' (uint t) m, k1)
   }"

definition call_times :: "abi \<Rightarrow> handler" where
  "call_times A caller m k =
     (let (r, used, boot_ticks, real_ticks, boot_time) = do_times caller (rd A ''m_lsys_krn_sys_times.endpt'' m) k;
          m1 = (case used of None \<Rightarrow> m | Some (user, sys) \<Rightarrow>
                 wr A ''m_krn_lsys_sys_times.system_time'' (uint sys) (wr A ''m_krn_lsys_sys_times.user_time'' (uint user) m))
      in Some (r, wr A ''m_krn_lsys_sys_times.boot_time'' (uint boot_time)
                   (wr A ''m_krn_lsys_sys_times.real_ticks'' (uint real_ticks)
                     (wr A ''m_krn_lsys_sys_times.boot_ticks'' (uint boot_ticks) m1)), k))"

text \<open>The handlers that leave the message as it is.\<close>

definition quiet :: "message \<Rightarrow> (code \<times> kernel) option \<Rightarrow> (code \<times> message \<times> kernel) option" where
  "quiet m = map_option (\<lambda>(r, k). (r, m, k))"

definition call_settime :: "abi \<Rightarrow> handler" where
  "call_settime A caller m k =
     quiet m (do_settime (rd A ''m_lsys_krn_sys_settime.clock_id'' m = clock_realtime A) (rd A ''m_lsys_krn_sys_settime.now'' m \<noteq> 0)
       (rd A ''m_lsys_krn_sys_settime.sec'' m) (rd A ''m_lsys_krn_sys_settime.nsec'' m) k)"

definition call_privctl :: "abi \<Rightarrow> handler" where
  "call_privctl A caller m k =
     quiet m (do_privctl caller (rd A ''m_lsys_krn_sys_privctl.endpt'' m) (rd A ''m_lsys_krn_sys_privctl.request'' m)
       (priv_args A caller m k) (word_of_int (rd A ''m_lsys_krn_sys_privctl.phys_start'' m))
       (word_of_int (rd A ''m_lsys_krn_sys_privctl.phys_len'' m)) k)"

definition call_diagctl :: "abi \<Rightarrow> handler" where
  "call_diagctl A caller m k =
     quiet m (do_diagctl caller (rd A ''m_lsys_krn_sys_diagctl.code'' m) (rd A ''m_lsys_krn_sys_diagctl.len'' m)
       (rd A ''m_lsys_krn_sys_diagctl.endpt'' m) (diag_text A caller m k) (kmess_in_use A) (do_serial_debug A) k)"

text \<open>The calls in three groups: about the setting up of processes, about devices and time, and the rest.\<close>

definition call_vec_process :: "abi \<Rightarrow> int \<Rightarrow> handler option" where
  "call_vec_process A n =
     (if n = SYS_EXEC - KERNEL_CALL then
        Some (\<lambda>c m k. quiet m (do_exec (rd A ''m_lsys_krn_sys_exec.endpt'' m) (nat (rd A ''m_lsys_krn_sys_exec.ps_str'' m))
          (exec_name A c m k) k))
      else if n = SYS_CLEAR - KERNEL_CALL then Some (\<lambda>c m k. quiet m (do_clear (rd A ''m_lsys_krn_sys_clear.endpt'' m) k))
      else if n = SYS_PRIVCTL - KERNEL_CALL then Some (call_privctl A)
      else if n = SYS_SETGRANT - KERNEL_CALL then
        Some (\<lambda>c m k. quiet m (Some (do_setgrant c (rd A ''m_lsys_krn_sys_setgrant.addr'' m)
          (rd A ''m_lsys_krn_sys_setgrant.size'' m) k)))
      else if n = SYS_UPDATE - KERNEL_CALL then Some (\<lambda>c m k. quiet m (do_update (rd A ''m1_i1'' m) (rd A ''m1_i2'' m) k))
      else None)"

definition call_vec_device :: "abi \<Rightarrow> int \<Rightarrow> handler option" where
  "call_vec_device A n =
     (if n = SYS_IRQCTL - KERNEL_CALL then Some (call_irqctl A)
      else if n = SYS_TIMES - KERNEL_CALL then Some (call_times A)
      else if n = SYS_SETALARM - KERNEL_CALL then Some (call_setalarm A)
      else if n = SYS_STIME - KERNEL_CALL then
        Some (\<lambda>c m k. quiet m (Some (do_stime (rd A ''m_lsys_krn_sys_stime.boot_time'' m) k)))
      else if n = SYS_SETTIME - KERNEL_CALL then Some (call_settime A)
      else if n = SYS_ABORT - KERNEL_CALL then Some (\<lambda>c m k. quiet m (do_abort (rd A ''m_lsys_krn_sys_abort.how'' m) k))
      else if n = SYS_DIAGCTL - KERNEL_CALL then Some (call_diagctl A)
      else None)"

definition call_vec_control :: "abi \<Rightarrow> int \<Rightarrow> handler option" where
  "call_vec_control A n =
     (if n = SYS_FORK - KERNEL_CALL then Some (call_fork A)
      else if n = SYS_EXIT - KERNEL_CALL then Some (\<lambda>c m k. quiet m (do_exit (lethal A) c k))
      else if n = SYS_RUNCTL - KERNEL_CALL then
        Some (\<lambda>c m k. quiet m (do_runctl (rd A ''m1_i1'' m) (rd A ''m1_i2'' m) (word_of_int (rd A ''m1_i3'' m)) k))
      else if n = SYS_STATECTL - KERNEL_CALL then
        Some (\<lambda>c m k. quiet m (do_statectl c (rd A ''m_lsys_krn_sys_statectl.request'' m) k))
      else if n = SYS_KILL - KERNEL_CALL then
        Some (\<lambda>c m k. quiet m (do_kill (lethal A) (nsig A) (signal_of A)
          (rd A ''m_sigcalls.endpt'' m) (rd A ''m_sigcalls.sig'' m) k))
      else if n = SYS_GETKSIG - KERNEL_CALL then Some (call_getksig A)
      else if n = SYS_ENDKSIG - KERNEL_CALL then
        Some (\<lambda>c m k. quiet m (do_endksig c (rd A ''m_sigcalls.endpt'' m) k))
      else if n = SYS_VTIMER - KERNEL_CALL then Some (call_vtimer A)
      else if n = SYS_SCHEDULE - KERNEL_CALL then
        Some (\<lambda>c m k. quiet m (do_schedule c (rd A ''m_lsys_krn_schedule.endpoint'' m)
          (rd A ''m_lsys_krn_schedule.priority'' m) (rd A ''m_lsys_krn_schedule.quantum'' m) k))
      else if n = SYS_SCHEDCTL - KERNEL_CALL then
        Some (\<lambda>c m k. quiet m (do_schedctl c (word_of_int (rd A ''m_lsys_krn_schedctl.flags'' m))
          (rd A ''m_lsys_krn_schedctl.endpoint'' m) (rd A ''m_lsys_krn_schedctl.priority'' m)
          (rd A ''m_lsys_krn_schedctl.quantum'' m) k))
      else None)"

definition call_vec :: "abi \<Rightarrow> int \<Rightarrow> handler option" where
  "call_vec A n =
     (case call_vec_control A n of
        Some h \<Rightarrow> Some h
      | None \<Rightarrow>
          (case call_vec_process A n of
             Some h \<Rightarrow> Some h
           | None \<Rightarrow> (case call_vec_device A n of Some h \<Rightarrow> Some h | None \<Rightarrow> other_call A n)))"

section \<open>Dispatch\<close>

definition kernel_call_dispatch :: "abi \<Rightarrow> handler" where
  "kernel_call_dispatch A caller msg k =
     (let call_nr = m_type msg - KERNEL_CALL
      in if call_nr < 0 \<or> call_nr \<ge> NR_SYS_CALLS then Some (EBADREQUEST, msg, k)
         else do {
           pr \<leftarrow> priv_of k caller;
           if \<not> s_k_call_mask pr call_nr then Some (ECALLDENIED, msg, k)
           else
             (case call_vec A call_nr of
                Some h \<Rightarrow> h caller msg k
              | None \<Rightarrow> Some (EBADREQUEST, msg, k))
         })"

definition kernel_call_finish :: "abi \<Rightarrow> int \<Rightarrow> message \<Rightarrow> code \<Rightarrow> kernel \<Rightarrow> kernel option" where
  "kernel_call_finish A caller msg result k =
     (if result = VMSUSPEND then
        (if \<not> RTS_ISSET k caller RTS_VMREQUEST \<or> \<not> p_vm_kernelcall (procs k caller) then None
         else Some (set_misc caller MF_KCALL_RESUME (upd_proc caller (\<lambda>r. r\<lparr>p_reqmsg := msg\<rparr>) k)))
      else
        (let k1 = upd_proc caller (\<lambda>r. r\<lparr>p_reqmsg := (p_reqmsg r)\<lparr>m_source := NONE\<rparr>\<rparr>) k
         in if result = EDONTREPLY then Some k1
            else
              (let reply = msg\<lparr>m_source := SYSTEM, m_type := code_nr A result\<rparr>;
                   a = p_delivermsg_vir (procs k1 caller)
               in if user_msg k1 caller a = None
                  then cause_sig (lethal A) (p_nr (procs k1 caller)) SIGSEGV k1
                  else Some (k1\<lparr>user_msg := (user_msg k1)(caller := (user_msg k1 caller)(a \<mapsto> reply))\<rparr>))))"

definition kernel_call :: "abi \<Rightarrow> nat \<Rightarrow> int \<Rightarrow> kernel \<Rightarrow> kernel option" where
  "kernel_call A m_user caller k =
     (let k1 = upd_proc caller (\<lambda>r. r\<lparr>p_delivermsg_vir := m_user\<rparr>) k
      in case user_msg k1 caller m_user of
           None \<Rightarrow> cause_sig (lethal A) (p_nr (procs k1 caller)) SIGSEGV k1
         | Some m \<Rightarrow> do {
             (result, msg, k2) \<leftarrow> kernel_call_dispatch A caller (m\<lparr>m_source := p_endpoint (procs k1 caller)\<rparr>) k1;
             kernel_call_finish A caller msg result (k2\<lparr>kbill_kcall := caller\<rparr>)
           })"

text \<open>The handler of a resumed call works on the saved message itself.\<close>

definition kernel_call_resume :: "abi \<Rightarrow> int \<Rightarrow> kernel \<Rightarrow> kernel option" where
  "kernel_call_resume A caller k =
     (if RTS_ISSET k caller RTS_SLOT_FREE \<or> RTS_ISSET k caller RTS_VMREQUEST \<or>
         m_source (p_reqmsg (procs k caller)) \<noteq> p_endpoint (procs k caller) then None
      else do {
        (result, msg, k1) \<leftarrow> kernel_call_dispatch A caller (p_reqmsg (procs k caller)) k;
        let k2 = upd_proc caller (\<lambda>r. r\<lparr>p_reqmsg := msg\<rparr>) k1;
        kernel_call_finish A caller msg result (clear_misc caller MF_KCALL_RESUME k2)
      })"

section \<open>The invariant\<close>

text \<open>
  What the invariant needs of the handlers that are not modelled, and of the requests: the
  kernel checks neither that the slot PM passes to \<open>SYS_FORK\<close> is one of a user process, nor that
  a scheduler's priority is below 16, nor that the processes PM and RS name are no kernel tasks.
\<close>

definition kept :: "kernel \<Rightarrow> kernel \<Rightarrow> bool" where
  "kept k k' \<longleftrightarrow> machine_ok k' \<and> proc_ptr k' = proc_ptr k"

definition calls_ok :: "abi \<Rightarrow> bool" where
  "calls_ok A \<longleftrightarrow>
     (\<forall>n h c m k r m' k'. other_call A n = Some h \<longrightarrow> h c m k = Some (r, m', k') \<longrightarrow> machine_ok k \<longrightarrow> kept k k')"

definition request_ok :: "abi \<Rightarrow> int \<Rightarrow> message \<Rightarrow> kernel \<Rightarrow> bool" where
  "request_ok A c m k \<longleftrightarrow>
     (m_type m = SYS_FORK \<longrightarrow> \<not> iskerneln (rd A ''m_lsys_krn_sys_fork.slot'' m)) \<and>
     (m_type m = SYS_SCHEDULE \<longrightarrow> rd A ''m_lsys_krn_schedule.priority'' m < int NR_SCHED_QUEUES) \<and>
     (m_type m = SYS_SCHEDCTL \<longrightarrow> rd A ''m_lsys_krn_schedctl.priority'' m < int NR_SCHED_QUEUES) \<and>
     (m_type m = SYS_CLEAR \<longrightarrow> ordinary k (rd A ''m_lsys_krn_sys_clear.endpt'' m)) \<and>
     (m_type m = SYS_UPDATE \<longrightarrow> update_ok k (rd A ''m1_i1'' m) \<and> update_ok k (rd A ''m1_i2'' m)) \<and>
     (m_type m = SYS_PRIVCTL \<longrightarrow> privctl_ok k c (rd A ''m_lsys_krn_sys_privctl.endpt'' m)
        (rd A ''m_lsys_krn_sys_privctl.request'' m) (priv_args A c m k))"

lemma mild_reqmsg [simp]: "mild (\<lambda>r. r\<lparr>p_reqmsg := x r\<rparr>)"
  by (simp add: mild_def)

lemma kernel_ok_kbill [keeps]: "kernel_ok k \<Longrightarrow> kernel_ok (k\<lparr>kbill_kcall := c\<rparr>)"
  by (erule kernel_ok_cong; simp)

lemma quiet_Some: "quiet m x = Some (r, m', k') \<longleftrightarrow> x = Some (r, k') \<and> m' = m"
  by (auto simp: quiet_def)

lemma kept_refl: "machine_ok k \<Longrightarrow> kept k k"
  by (simp add: kept_def)

lemma kept_outer: "outer k' = outer k \<Longrightarrow> kernel_ok k' \<Longrightarrow> machine_ok k \<Longrightarrow> kept k k'"
  using machine_ok_outer outerD(1) unfolding kept_def by blast

lemma do_fork_kept:
  assumes "do_fork e slot f k = Some (r, reply, k')" "machine_ok k" "\<not> iskerneln slot"
  shows "kept k k'"
  using do_fork_machine [OF assms] do_fork_result [OF assms(1) machine_kernel [OF assms(2)]]
  unfolding kept_def by (metis upd_proc_sel(4))

text \<open>The calls that only touch processes and their messages.\<close>

lemma old_calls_kept:
  assumes "machine_ok k"
  shows "do_exit l c k = Some (r, k') \<Longrightarrow> is_proc c \<Longrightarrow> kept k k'"
    "do_runctl e ac f k = Some (r, k') \<Longrightarrow> kept k k'"
    "do_statectl c rq k = Some (r, k') \<Longrightarrow> is_proc c \<Longrightarrow> kept k k'"
    "do_kill l n sg e sn k = Some (r, k') \<Longrightarrow> kept k k'"
    "do_endksig c e k = Some (r, k') \<Longrightarrow> kept k k'"
    "do_getksig c k = Some (r, x, k') \<Longrightarrow> kept k k'"
    "do_vtimer c w b v pe k = Some (r, old, k') \<Longrightarrow> kept k k'"
    "do_schedule c e p q k = Some (r, k') \<Longrightarrow> p < int NR_SCHED_QUEUES \<Longrightarrow> kept k k'"
    "do_schedctl c g e p q k = Some (r, k') \<Longrightarrow> is_proc c \<Longrightarrow> p < int NR_SCHED_QUEUES \<Longrightarrow> kept k k'"
  by (rule kept_outer [OF _ _ assms],
      (auto dest!: cur)[1],
      use machine_kernel [OF assms] in \<open>auto elim!: do_exit_keeps do_runctl_keeps do_statectl_keeps do_kill_keeps
          do_endksig_keeps do_vtimer_keeps do_schedule_keeps do_schedctl_keeps dest: do_getksig_keeps\<close>)+

lemma do_irqctl_kept:
  assumes "do_irqctl c q v p j k = Some (r, x, k')" "machine_ok k" "isokprocn c" "\<not> has (p_rts_flags (procs k c)) RTS_SLOT_FREE"
  shows "kept k k'"
proof -
  have "table_ok k" "irqs_fine (irqs k)" using assms(2) by (simp_all add: machine_ok_def irq_ok_def)
  then obtain s where "k' = k\<lparr>irqs := s\<rparr>"
    using do_irqctl_result [OF _ endpoint_not_NONE [OF _ assms(3)], of k q v p j] assms(1) by auto
  then show ?thesis using do_irqctl_machine [OF assms] by (simp add: kept_def)
qed

lemma do_setalarm_kept:
  assumes "do_setalarm c e a k = Some (r, l, k')" "machine_ok k" "is_proc c" "\<not> has (p_rts_flags (procs k c)) RTS_SLOT_FREE"
  shows "kept k k'"
proof -
  have "machine_ok k'" using do_setalarm_machine [OF assms(1-3)] assms(4) by (simp add: in_use_def)
  then show ?thesis using do_setalarm_keeps [OF assms(1)] by (simp add: kept_def)
qed

lemma do_abort_ptr: "do_abort how k = Some (r, k') \<Longrightarrow> proc_ptr k' = proc_ptr k"
  by (auto simp: do_abort_def prepare_shutdown_def set_kernel_timer_def bind_eq_Some_conv)

lemma new_calls_kept:
  assumes "machine_ok k"
  shows "do_exec e ps nm k = Some (r, k') \<Longrightarrow> kept k k'"
    "do_clear e k = Some (r, k') \<Longrightarrow> ordinary k e \<Longrightarrow> kept k k'"
    "do_privctl c e q arg s n k = Some (r, k') \<Longrightarrow> is_proc c \<Longrightarrow> privctl_ok k c e q arg \<Longrightarrow> kept k k'"
    "do_setgrant c a m k = (r, k') \<Longrightarrow> kept k k'"
    "do_stime bt k = (r, k') \<Longrightarrow> kept k k'"
    "do_settime b now sec ns k = Some (r, k') \<Longrightarrow> kept k k'"
    "do_abort how k = Some (r, k') \<Longrightarrow> kept k k'"
    "do_diagctl c dq l e dc lg ser k = Some (r, k') \<Longrightarrow> kept k k'"
proof -
  note ok = machine_kernel [OF assms]
  show "do_exec e ps nm k = Some (r, k') \<Longrightarrow> kept k k'"
    by (rule kept_outer [OF do_exec_cur _ assms], assumption) (erule do_exec_keeps [OF _ ok])
  show "do_setgrant c a m k = (r, k') \<Longrightarrow> kept k k'"
    by (rule kept_outer [OF do_setgrant_cur _ assms], assumption) (erule do_setgrant_keeps [OF _ ok])
  show "do_diagctl c dq l e dc lg ser k = Some (r, k') \<Longrightarrow> kept k k'"
    by (rule kept_outer [OF do_diagctl_cur _ assms], assumption) (erule do_diagctl_keeps [OF _ ok])
  show "do_clear e k = Some (r, k') \<Longrightarrow> ordinary k e \<Longrightarrow> kept k k'"
    using do_clear_machine assms unfolding kept_def by blast
  show "do_privctl c e q arg s n k = Some (r, k') \<Longrightarrow> is_proc c \<Longrightarrow> privctl_ok k c e q arg \<Longrightarrow> kept k k'"
    using do_privctl_machine assms unfolding kept_def by blast
  show "do_stime bt k = (r, k') \<Longrightarrow> kept k k'"
    using do_stime_machine [OF _ assms] do_stime_keeps(3) unfolding kept_def by blast
  show "do_settime b now sec ns k = Some (r, k') \<Longrightarrow> kept k k'"
    using do_settime_machine [OF _ assms] do_settime_keeps(3) unfolding kept_def by blast
  show "do_abort how k = Some (r, k') \<Longrightarrow> kept k k'"
    using do_abort_machine [OF _ assms] do_abort_ptr unfolding kept_def by blast
qed

lemma update_kept: "do_update a b k = Some (r, k') \<Longrightarrow> machine_ok k \<Longrightarrow> update_ok k a \<Longrightarrow> update_ok k b \<Longrightarrow> kept k k'"
  using do_update_kept unfolding kept_def by blast

lemma if_SomeE: "(if b then Some x else y) = Some h \<Longrightarrow> (b \<Longrightarrow> h = x \<Longrightarrow> P) \<Longrightarrow> (\<not> b \<Longrightarrow> y = Some h \<Longrightarrow> P) \<Longrightarrow> P"
  by (auto split: if_splits)

lemma handler_kept:
  assumes "call_vec A (m_type m - KERNEL_CALL) = Some h" "h c m k = Some (r, m', k')"
    and ok: "machine_ok k" and c: "isokprocn c" "\<not> has (p_rts_flags (procs k c)) RTS_SLOT_FREE" "calls_ok A" "request_ok A c m k"
  shows "kept k k'"
proof -
  define n where "n = m_type m - KERNEL_CALL"
  have n: "(n = x - KERNEL_CALL) = (m_type m = x)" for x by (simp add: n_def)
  have other: "other_call A n = Some h \<Longrightarrow> kept k k'"
    using assms(2) ok c(3) unfolding calls_ok_def by blast
  have ip: "is_proc c" using c(1) by (simp add: is_proc_def)
  note req = c(4) [unfolded request_ok_def]
  have proc: "kept k k'" if "call_vec_process A n = Some h"
    using that unfolding call_vec_process_def n
    by (elim if_SomeE) (use assms(2) req ip in \<open>auto simp: call_privctl_def quiet_Some intro: new_calls_kept(1-4) [OF ok] update_kept [OF _ ok]\<close>)
  have dev: "kept k k'" if "call_vec_device A n = Some h"
    using that unfolding call_vec_device_def n
    by (elim if_SomeE) (use assms(2) ok in \<open>auto simp: call_irqctl_def call_times_def call_setalarm_def call_settime_def call_diagctl_def
        quiet_Some bind_eq_Some_conv split: prod.splits
        intro: new_calls_kept(5-8) [OF ok] do_irqctl_kept [OF _ ok c(1,2)] do_setalarm_kept [OF _ ok ip c(2)] kept_refl\<close>)
  have ctl: "kept k k'" if "call_vec_control A n = Some h"
    using that unfolding call_vec_control_def n
    by (elim if_SomeE) (use assms(2) req ip in \<open>auto simp: call_fork_def call_getksig_def call_vtimer_def quiet_Some
        bind_eq_Some_conv Let_def intro: old_calls_kept [OF ok] do_fork_kept [OF _ ok]\<close>)
  have "call_vec_control A n = Some h \<or> call_vec_process A n = Some h \<or> call_vec_device A n = Some h \<or> other_call A n = Some h"
    using assms(1) by (auto simp: call_vec_def n_def split: option.split_asm)
  then show ?thesis using ctl proc dev other by blast
qed

lemma kernel_call_dispatch_kept:
  assumes "kernel_call_dispatch A c m k = Some (r, m', k')" "machine_ok k" "isokprocn c"
    "\<not> has (p_rts_flags (procs k c)) RTS_SLOT_FREE" "calls_ok A" "request_ok A c m k"
  shows "kept k k'"
  using assms kept_refl [OF assms(2)]
  by (auto simp: kernel_call_dispatch_def Let_def bind_eq_Some_conv split: if_splits option.splits
      dest: handler_kept)

lemma kernel_call_finish_keeps:
  assumes "kernel_call_finish A c m r k = Some k'" "kernel_ok k" "is_proc c"
  shows "kernel_ok k'"
proof -
  have up: "kernel_ok (upd_proc c (\<lambda>r. r\<lparr>p_reqmsg := x r\<rparr>) k)" for x
    by (rule kernel_ok_upd_proc [OF _ assms(2)]) simp
  show ?thesis
    using assms(1) up cause_sig_keeps [OF _ up] kernel_ok_links(1) [OF assms(2,3)]
    by (auto simp: kernel_call_finish_def Let_def split: if_splits
        intro!: status_keeps kernel_ok_fields)
qed

lemma kernel_call_finish_cur: "kernel_call_finish A c m r k = Some k' \<Longrightarrow> outer k' = outer k"
  by (auto simp: kernel_call_finish_def cur_splits split: if_splits dest!: cur)

lemma kernel_call_finish_kept:
  assumes "kernel_call_finish A c m r k1 = Some k'" "kept k k2" "outer k1 = outer k2" "kernel_ok k1" "is_proc c"
  shows "kept k k'"
proof -
  have "outer k' = outer k2" using kernel_call_finish_cur [OF assms(1)] assms(3) by simp
  from kept_outer [OF this kernel_call_finish_keeps [OF assms(1,4,5)]] show ?thesis using assms(2) by (simp add: kept_def)
qed

lemma kernel_call_kept:
  assumes "kernel_call A a c k = Some k'" "machine_ok k" "isokprocn c" "\<not> has (p_rts_flags (procs k c)) RTS_SLOT_FREE" "calls_ok A"
    "\<And>m e. user_msg k c a = Some m \<Longrightarrow> request_ok A c (m\<lparr>m_source := e\<rparr>) (upd_proc c (\<lambda>r. r\<lparr>p_delivermsg_vir := a\<rparr>) k)"
  shows "kept k k'"
proof -
  define k1 where "k1 = upd_proc c (\<lambda>r. r\<lparr>p_delivermsg_vir := a\<rparr>) k"
  have ip: "is_proc c" using assms(3) by (simp add: is_proc_def)
  have ko: "kernel_ok k1" unfolding k1_def by (rule kernel_ok_upd_proc [OF _ machine_kernel [OF assms(2)]]) simp
  have out: "outer k1 = outer k" by (simp add: k1_def)
  have ok1: "machine_ok k1" using machine_ok_outer [OF out ko assms(2)] .
  show ?thesis
  proof (cases "user_msg k c a")
    case None
    then have s: "cause_sig (lethal A) (p_nr (procs k1 c)) SIGSEGV k1 = Some k'"
      using assms(1) by (simp add: kernel_call_def k1_def)
    have "kernel_ok k'" using cause_sig_keeps [OF s ko] kernel_ok_links(1) [OF ko ip] by blast
    moreover have "outer k' = outer k" using cause_sig_cur [OF s] out by simp
    ultimately show ?thesis using kept_outer assms(2) by blast
  next
    case (Some m)
    then obtain r m' k2 where d: "kernel_call_dispatch A c (m\<lparr>m_source := p_endpoint (procs k1 c)\<rparr>) k1 = Some (r, m', k2)"
        and f: "kernel_call_finish A c m' r (k2\<lparr>kbill_kcall := c\<rparr>) = Some k'"
      using assms(1) by (auto simp: kernel_call_def k1_def bind_eq_Some_conv)
    have nf: "\<not> has (p_rts_flags (procs k1 c)) RTS_SLOT_FREE" using assms(4) by (simp add: k1_def)
    have "kept k1 k2"
      by (rule kernel_call_dispatch_kept [OF d ok1 assms(3) nf assms(5)]) (use assms(6) [OF Some] in \<open>simp add: k1_def\<close>)
    then have k2: "kept k k2" using outerD(1) [OF out] by (simp add: kept_def)
    then show ?thesis
      by (intro kernel_call_finish_kept [OF f k2 _ _ ip]) (auto simp: kept_def machine_kernel kernel_ok_kbill)
  qed
qed

lemma RTS_ISSET_free: "RTS_ISSET k p RTS_SLOT_FREE = has (p_rts_flags (procs k p)) RTS_SLOT_FREE"
  by (simp add: RTS_ISSET_def has_def RTS_SLOT_FREE_def and_one_eq mod_2_eq_odd)

lemma kernel_call_resume_kept:
  assumes "kernel_call_resume A c k = Some k'" "machine_ok k" "isokprocn c" "calls_ok A" "request_ok A c (p_reqmsg (procs k c)) k"
  shows "kept k k'"
proof -
  obtain r m k1 where d: "kernel_call_dispatch A c (p_reqmsg (procs k c)) k = Some (r, m, k1)"
      and f: "kernel_call_finish A c m r (clear_misc c MF_KCALL_RESUME (upd_proc c (\<lambda>r. r\<lparr>p_reqmsg := m\<rparr>) k1)) = Some k'"
      and nf: "\<not> has (p_rts_flags (procs k c)) RTS_SLOT_FREE"
    using assms(1) by (auto simp: kernel_call_resume_def bind_eq_Some_conv RTS_ISSET_free split: if_splits)
  have k1: "kept k k1" by (rule kernel_call_dispatch_kept [OF d assms(2,3) nf assms(4,5)])
  have "kernel_ok (upd_proc c (\<lambda>r. r\<lparr>p_reqmsg := m\<rparr>) k1)"
    by (rule kernel_ok_upd_proc) (use k1 in \<open>simp_all add: kept_def machine_kernel\<close>)
  then show ?thesis
    using assms(3) by (intro kernel_call_finish_kept [OF f k1]) (auto intro: status_keeps simp: is_proc_def)
qed

section \<open>Properties\<close>

text \<open>C17. A kernel call with a number out of range, or one that the call mask of the caller does not
  allow, has no effect but its reply: no handler runs, and the caller finds its own message back
  at the address it passed, from \<open>SYSTEM\<close>, with \<open>EBADREQUEST\<close> or \<open>ECALLDENIED\<close> as the result.
\<close>

theorem denied_kernel_call_only_replies:
  assumes "user_msg k c a = Some m" and "priv_of k c = Some pr"
    and "m_type m < KERNEL_CALL \<or> KERNEL_CALL + NR_SYS_CALLS \<le> m_type m \<or>
      \<not> s_k_call_mask pr (m_type m - KERNEL_CALL)"
  shows "kernel_call A a c k = Some
    ((upd_proc c (\<lambda>r. r\<lparr>p_delivermsg_vir := a, p_reqmsg := (p_reqmsg r)\<lparr>m_source := NONE\<rparr>\<rparr>) k)
       \<lparr>kbill_kcall := c,
        user_msg := (user_msg k)(c := (user_msg k c)(a \<mapsto> m\<lparr>m_source := SYSTEM, m_type := code_nr A
          (if m_type m < KERNEL_CALL \<or> KERNEL_CALL + NR_SYS_CALLS \<le> m_type m then EBADREQUEST else ECALLDENIED)\<rparr>))\<rparr>)"
proof -
  define k1 where "k1 = upd_proc c (\<lambda>r. r\<lparr>p_delivermsg_vir := a\<rparr>) k"
  define m1 where "m1 = m\<lparr>m_source := p_endpoint (procs k1 c)\<rparr>"
  define r where "r = (if m_type m < KERNEL_CALL \<or> KERNEL_CALL + NR_SYS_CALLS \<le> m_type m then EBADREQUEST else ECALLDENIED)"
  have r: "r \<noteq> VMSUSPEND" "r \<noteq> EDONTREPLY" by (simp_all add: r_def)
  have pr: "priv_of k1 c = Some pr" using assms(2) by (simp add: priv_of_def k1_def)
  have d: "kernel_call_dispatch A c m1 k1 = Some (r, m1, k1)"
    using assms(3) pr by (auto simp: kernel_call_dispatch_def Let_def r_def m1_def)
  have u: "user_msg k1 = user_msg k" "p_delivermsg_vir (procs k1 c) = a" by (simp_all add: k1_def)
  have "kernel_call A a c k = kernel_call_finish A c m1 r (k1\<lparr>kbill_kcall := c\<rparr>)"
    using assms(1) d u by (simp add: kernel_call_def m1_def flip: k1_def)
  also have "\<dots> = Some ((upd_proc c (\<lambda>r. r\<lparr>p_delivermsg_vir := a, p_reqmsg := (p_reqmsg r)\<lparr>m_source := NONE\<rparr>\<rparr>) k)
       \<lparr>kbill_kcall := c, user_msg := (user_msg k)(c := (user_msg k c)(a \<mapsto> m\<lparr>m_source := SYSTEM, m_type := code_nr A r\<rparr>))\<rparr>)"
    using r assms(1) u
    by (simp add: kernel_call_finish_def Let_def m1_def) (simp add: k1_def upd_proc_def)
  finally show ?thesis by (simp only: r_def)
qed

text \<open>A caller that may make no kernel call, and its \<open>SYS_KILL\<close>.\<close>

definition masked_kernel :: kernel where
  "masked_kernel = demo_kernel\<lparr>privs := (\<lambda>i. (demo_priv i)\<lparr>s_k_call_mask := (\<lambda>_. False)\<rparr>),
     user_msg := (\<lambda>_ _. Some \<lparr>m_source = 0, m_type = SYS_KILL, m_body = Raw []\<rparr>)\<rparr>"

theorem denied_kernel_call_only_replies_witness:
  "\<forall>A. \<exists>k'. kernel_call A 44 1 masked_kernel = Some k' \<and> privs k' = privs masked_kernel \<and>
     user_msg k' 1 44 = Some \<lparr>m_source = SYSTEM, m_type = code_nr A ECALLDENIED, m_body = Raw []\<rparr>"
proof -
  have m: "user_msg masked_kernel 1 44 = Some \<lparr>m_source = 0, m_type = SYS_KILL, m_body = Raw []\<rparr>"
      "priv_of masked_kernel 1 = Some ((demo_priv 0)\<lparr>s_k_call_mask := (\<lambda>_. False)\<rparr>)"
    by (simp_all add: masked_kernel_def priv_of_def demo_kernel_def demo_proc_def idle_proc_def)
  have "privs (upd_proc 1 f masked_kernel) = privs masked_kernel" for f by simp
  with denied_kernel_call_only_replies [OF m] show ?thesis
    by (simp add: SYS_KILL_def KERNEL_CALL_def NR_SYS_CALLS_def)
qed

end
