(* ===== verification/Kernel_Switch.thy ===== *)
theory Kernel_Switch
  imports Kernel_Entry
begin

text \<open>
  The way out of the kernel (\<^verbatim>\<open>kernel/proc.c\<close>): \<open>switch_to_user\<close> chooses the process that runs
  next, finishes what is pending for it (a suspended kernel call, a message to deliver, a
  deferred system call, a trace event), renews or takes away its quantum, and starts over with
  another process when that one turns out not to be runnable.

  Address spaces, the FPU and cycle accounting are not part of the model. Which interrupts arrive
  while the processor is halted is a parameter, as are the random numbers and the heads of the
  queues that the lottery finds in its unassigned local variable.
\<close>

section \<open>Choosing a process\<close>

record environ =
  heads :: "nat \<Rightarrow> kernel \<Rightarrow> nat \<Rightarrow> int option"
  draw :: "nat \<Rightarrow> int"
  raised :: "nat \<Rightarrow> int list"
  resume :: "int \<Rightarrow> kernel \<Rightarrow> kernel option"
  is_lethal :: "signal \<Rightarrow> bool"
  load :: nat

definition idle :: "kernel \<Rightarrow> kernel option" where
  "idle k =
     (let k1 = k\<lparr>proc_ptr := idle_proc\<rparr>
      in do { pr \<leftarrow> priv_of k1 idle_proc;
              Some (if has (s_flags pr) BILLABLE then k1\<lparr>bill_ptr := idle_proc\<rparr> else k1) })"

text \<open>The interrupts that come while the processor is halted, one after the other.\<close>

fun take_irqs :: "(signal \<Rightarrow> bool) \<Rightarrow> int list \<Rightarrow> kernel \<Rightarrow> kernel option" where
  "take_irqs fatal [] k = Some k"
| "take_irqs fatal (irq # is) k = do { k1 \<leftarrow> irq_handle fatal irq k; take_irqs fatal is k1 }"

text \<open>\<open>n\<close> counts the calls of \<open>pick_proc\<close>.\<close>

partial_function (option) pick_loop :: "environ \<Rightarrow> nat \<Rightarrow> kernel \<Rightarrow> (int \<times> nat \<times> kernel) option" where
  "pick_loop E n k = do {
     (p, k1) \<leftarrow> pick_proc (heads E n k) (draw E n) k;
     case p of
       Some q \<Rightarrow> Some (q, Suc n, k1)
     | None \<Rightarrow> do {
         k2 \<leftarrow> idle k1;
         k3 \<leftarrow> take_irqs (is_lethal E) (raised E n) k2;
         pick_loop E (Suc n) k3
       }
   }"

definition requeue_preempted :: "int \<Rightarrow> kernel \<Rightarrow> kernel option" where
  "requeue_preempted p k =
     (if \<not> proc_is_preempted k p then Some k
      else
        (let k1 = upd_proc p (\<lambda>r. r\<lparr>p_rts_flags := p_rts_flags r AND NOT RTS_PREEMPTED\<rparr>) k
         in if \<not> proc_is_runnable k1 p then Some k1
            else if p_cpu_time_left (procs k1 p) \<noteq> 0 then enqueue_head p k1
            else enqueue p k1))"

section \<open>Pending work of the chosen process\<close>

definition arch_do_syscall :: "(signal \<Rightarrow> bool) \<Rightarrow> int \<Rightarrow> kernel \<Rightarrow> kernel option" where
  "arch_do_syscall fatal p k =
     (if p \<noteq> proc_ptr k \<or> \<not> has (misc k p) MF_SC_DEFER then None
      else (case p_defer (procs k p) of
              (r1, r2, r3) \<Rightarrow> do {
                (r, k1) \<leftarrow> do_ipc fatal r1 r2 r3 k;
                Some (upd_proc p (\<lambda>q. q\<lparr>p_retreg := r\<rparr>) k1)
              }))"

definition MISC_WORK :: "32 word" where
  "MISC_WORK = MF_KCALL_RESUME OR MF_DELIVERMSG OR MF_SC_DEFER OR MF_SC_TRACE OR MF_SC_ACTIVE"

text \<open>One round of the loop; the flag: \<open>break\<close>.\<close>

definition misc_step :: "environ \<Rightarrow> int \<Rightarrow> kernel \<Rightarrow> (bool \<times> kernel) option" where
  "misc_step E p k =
     (if has (misc k p) MF_KCALL_RESUME then map_option (Pair False) (resume E p k)
      else if has (misc k p) MF_DELIVERMSG then map_option (Pair False) (delivermsg (is_lethal E) p k)
      else if has (misc k p) MF_SC_DEFER then
        (if has (misc k p) MF_SC_ACTIVE then None
         else do {
           k1 \<leftarrow> arch_do_syscall (is_lethal E) p k;
           k2 \<leftarrow> (if has (misc k1 p) MF_SIG_DELAY \<and> \<not> RTS_ISSET k1 p RTS_SENDING
                 then sig_delay_done (is_lethal E) p k1 else Some k1);
           Some (False, k2)
         })
      else if has (misc k p) MF_SC_TRACE then
        (if \<not> has (misc k p) MF_SC_ACTIVE then Some (True, k)
         else map_option (Pair False)
                (cause_sig (is_lethal E) (p_nr (procs k p)) SIGTRAP (clear_misc p (MF_SC_TRACE OR MF_SC_ACTIVE) k)))
      else if has (misc k p) MF_SC_ACTIVE then Some (True, clear_misc p MF_SC_ACTIVE k)
      else Some (False, k))"

text \<open>The result tells whether the process may run; if not, another one is picked.\<close>

partial_function (option) misc_loop :: "environ \<Rightarrow> int \<Rightarrow> kernel \<Rightarrow> (bool \<times> kernel) option" where
  "misc_loop E p k =
     (if \<not> has (misc k p) MISC_WORK then Some (True, k)
      else if \<not> proc_is_runnable k p then None
      else do {
        (stop, k1) \<leftarrow> misc_step E p k;
        if stop then Some (True, k1)
        else if \<not> proc_is_runnable k1 p then Some (False, k1)
        else misc_loop E p k1
      })"

section \<open>Switching\<close>

text \<open>\<open>switch_from E True\<close> is the code from the label \<open>not_runnable_pick_new\<close>, \<open>switch_from E False\<close>
  the code from \<open>check_misc_flags\<close>.\<close>

definition next_process :: "environ \<Rightarrow> bool \<Rightarrow> nat \<Rightarrow> int \<Rightarrow> kernel \<Rightarrow> (int \<times> nat \<times> kernel) option" where
  "next_process E pick n p k =
     (if pick then do {
        k0 \<leftarrow> requeue_preempted p k;
        (q, n', k1) \<leftarrow> pick_loop E n k0;
        Some (q, n', k1\<lparr>proc_ptr := q\<rparr>)
      }
      else Some (p, n, k))"

definition enter_user :: "kernel \<Rightarrow> kernel option" where
  "enter_user k =
     (let p = proc_ptr k
      in if p_cpu_time_left (procs k p) = 0 then None else Some (clear_misc p MF_CONTEXT_SET k))"

partial_function (option) switch_from ::
  "environ \<Rightarrow> bool \<Rightarrow> nat \<Rightarrow> int \<Rightarrow> kernel \<Rightarrow> kernel option" where
  "switch_from E pick n p k = do {
     (q, n', k1) \<leftarrow> next_process E pick n p k;
     if \<not> proc_is_runnable k1 q then None
     else do {
       (go, k2) \<leftarrow> misc_loop E q k1;
       if \<not> go then switch_from E True n' q k2
       else do {
         k3 \<leftarrow> (if p_cpu_time_left (procs k2 q) = 0 then proc_no_time (load E) q k2 else Some k2);
         if \<not> proc_is_runnable k3 q then switch_from E True n' q k3
         else enter_user k3
       }
     }
   }"

definition switch_to_user :: "environ \<Rightarrow> kernel \<Rightarrow> kernel option" where
  "switch_to_user E k = switch_from E (\<not> proc_is_runnable k (proc_ptr k)) 0 (proc_ptr k) k"

section \<open>The invariant\<close>

text \<open>
  What the environment has to do: resumed kernel calls keep the invariant
  (\<open>kernel_call_resume_kept\<close>) and the current process; random numbers are not negative; the
  unassigned local \<open>rdy_head\<close> holds the run queues or points at empty ones.
\<close>

definition environ_ok :: "environ \<Rightarrow> bool" where
  "environ_ok E \<longleftrightarrow>
     (\<forall>p k k'. resume E p k = Some k' \<longrightarrow> machine_ok k \<longrightarrow> is_proc p \<longrightarrow> kept k k') \<and>
     (\<forall>n. 0 \<le> draw E n) \<and> (\<forall>n k. heads E n k = run_q_head k \<or> heads E n k = (\<lambda>_. None))"

lemma idle_keeps: "idle k = Some k' \<Longrightarrow> machine_ok k \<Longrightarrow> machine_ok k'"
  by (auto simp: idle_def Let_def bind_eq_Some_conv intro!: machine_ok_ptrs split: if_splits)

lemma take_irqs_keeps: "take_irqs l is k = Some k' \<Longrightarrow> machine_ok k \<Longrightarrow> machine_ok k'"
  by (induction "is" arbitrary: k) (auto simp: bind_eq_Some_conv dest: irq_handle_machine)

text \<open>What \<open>pick_proc\<close> returns is runnable, and it changes nothing but the billed process.\<close>

lemma pick_proc_result:
  assumes ok: "kernel_ok k" and h: "h = run_q_head k \<or> h = (\<lambda>_. None)" and r: "0 \<le> rnd"
    and pick: "pick_proc h rnd k = Some (p, k')"
  shows "(k' = k \<or> (\<exists>q. p = Some q \<and> k' = k\<lparr>bill_ptr := q\<rparr>)) \<and> (\<forall>q. p = Some q \<longrightarrow> q \<in> runnables k)"
proof -
  obtain L where L: "sched_inv L k" using ok by (auto simp: kernel_ok_def)
  show ?thesis
  proof (cases "style k = 0")
    case True
    then have st: "pick_standard [0..<NR_SCHED_QUEUES] k = Some (p, k')" using pick by (simp add: pick_proc_def)
    have "pick_standard qs k = Some (p, k') \<Longrightarrow> k' = k \<or> (\<exists>q. p = Some q \<and> k' = k\<lparr>bill_ptr := q\<rparr>)" for qs
      by (induction qs) (auto simp: picked_def bind_eq_Some_conv split: option.splits if_splits)
    moreover have "q \<in> runnables k" if "p = Some q" for q
      using pick_standard_best [OF L] st that
      by (cases "runnables k = {}") (use standard_empty [OF L] st that in auto)
    ultimately show ?thesis using st by blast
  next
    case False
    show ?thesis
    proof (cases "0 < total_tickets k \<and> h = run_q_head k")
      case True
      have t: "0 < total_tickets k" "h = run_q_head k" using True by simp_all
      obtain rp k'' where k'': "rp \<in> runnables k" "pick_proc h rnd k = Some (Some rp, k'')"
          "k'' = k \<or> k'' = k\<lparr>bill_ptr := rp\<rparr>"
        using pick_proc_lottery [OF L False t(1) r] t(2) by blast
      have e: "p = Some rp" "k' = k''" using k''(2) pick by simp_all
      then show ?thesis using k''(1,3) by auto
    next
      case no: False
      have "lottery_queues k (\<lambda>_. None) c qs s = Some None" for c qs s
        by (induction qs arbitrary: s) (simp_all add: lottery_queue.simps [of k c None])
      then have "p = None \<and> k' = k" if "0 < total_tickets k" "h = (\<lambda>_. None)"
        using that pick False by (simp add: pick_proc_def Let_def)
      moreover have "p = None \<and> k' = k" if "\<not> 0 < total_tickets k"
        using that pick False by (simp add: pick_proc_def)
      ultimately have "p = None \<and> k' = k" using no h by blast
      then show ?thesis by simp
    qed
  qed
qed

lemma pick_proc_machine:
  assumes "pick_proc h rnd k = Some (p, k')" "machine_ok k" "h = run_q_head k \<or> h = (\<lambda>_. None)" "0 \<le> rnd"
  shows "machine_ok k' \<and> procs k' = procs k \<and> (\<forall>q. p = Some q \<longrightarrow> q \<in> runnables k)"
  using pick_proc_result [OF machine_kernel [OF assms(2)] assms(3,4,1)] machine_ok_ptrs(2) [OF assms(2)] assms(2)
  by (auto simp: runnables_def)

lemma pick_loop_result:
  assumes "pick_loop E n k = Some (p, n', k')" "machine_ok k" "environ_ok E"
  shows "machine_ok k' \<and> is_proc p \<and> proc_is_runnable k' p"
proof -
  have "machine_ok k \<longrightarrow> environ_ok E \<longrightarrow> (case (p, n', k') of (p, n', k') \<Rightarrow> machine_ok k' \<and> is_proc p \<and> proc_is_runnable k' p)"
  proof (rule pick_loop.raw_induct [where P = "\<lambda>E n k y. machine_ok k \<longrightarrow> environ_ok E \<longrightarrow>
        (case y of (p, n', k') \<Rightarrow> machine_ok k' \<and> is_proc p \<and> proc_is_runnable k' p)", OF _ assms(1)], intro impI)
    fix pl :: "environ \<Rightarrow> nat \<Rightarrow> kernel \<Rightarrow> (int \<times> nat \<times> kernel) option" and E n k y
    assume IH: "\<And>E n k y. pl E n k = Some y \<Longrightarrow> machine_ok k \<longrightarrow> environ_ok E \<longrightarrow>
          (case y of (p, n', k') \<Rightarrow> machine_ok k' \<and> is_proc p \<and> proc_is_runnable k' p)"
      and body: "pick_proc (heads E n k) (draw E n) k \<bind> (\<lambda>(p, k1). case p of
          None \<Rightarrow> idle k1 \<bind> (\<lambda>k2. take_irqs (is_lethal E) (raised E n) k2 \<bind> pl E (Suc n))
        | Some q \<Rightarrow> Some (q, Suc n, k1)) = Some y"
      and ok: "machine_ok k" and E: "environ_ok E"
    have env: "heads E n k = run_q_head k \<or> heads E n k = (\<lambda>_. None)" "0 \<le> draw E n"
      using E unfolding environ_ok_def by blast+
    from body obtain p k1 where pick: "pick_proc (heads E n k) (draw E n) k = Some (p, k1)"
      by (auto simp: bind_eq_Some_conv)
    note res = pick_proc_machine [OF pick ok env]
    show "case y of (p, n', k') \<Rightarrow> machine_ok k' \<and> is_proc p \<and> proc_is_runnable k' p"
    proof (cases p)
      case None
      then obtain k2 k3 where k23: "idle k1 = Some k2" "take_irqs (is_lethal E) (raised E n) k2 = Some k3" "pl E (Suc n) k3 = Some y"
        using body pick by (auto simp: bind_eq_Some_conv)
      have "machine_ok k3" using take_irqs_keeps [OF k23(2)] idle_keeps [OF k23(1)] res by blast
      then show ?thesis using IH [OF k23(3)] E by blast
    next
      case (Some q)
      then show ?thesis using body pick res by (auto simp: runnables_def proc_is_runnable_def)
    qed
  qed
  then show ?thesis using assms(2,3) by simp
qed

lemma requeue_preempted_keeps:
  assumes "requeue_preempted p k = Some k'" and ok: "kernel_ok k" and p: "is_proc p"
  shows "kernel_ok k'"
proof (cases "proc_is_preempted k p")
  case False
  then show ?thesis using assms by (simp add: requeue_preempted_def)
next
  case True
  define k1 where "k1 = upd_proc p (\<lambda>r. r\<lparr>p_rts_flags := p_rts_flags r AND NOT RTS_PREEMPTED\<rparr>) k"
  have nz: "p_rts_flags (procs k p) \<noteq> 0" using True by (auto simp: proc_is_preempted_def has_def)
  have unset: "RTS_UNSET p RTS_PREEMPTED k = (if proc_is_runnable k1 p then enqueue p k1 else Some k1)"
    using nz by (simp add: RTS_UNSET_def k1_def)
  show ?thesis
  proof (cases "proc_is_runnable k1 p \<and> p_cpu_time_left (procs k1 p) \<noteq> 0")
    case False
    then have "RTS_UNSET p RTS_PREEMPTED k = Some k'"
      using assms(1) True unset by (auto simp: requeue_preempted_def k1_def [symmetric] Let_def split: if_splits)
    then show ?thesis using RTS_UNSET_keeps ok p by blast
  next
    case front: True
    obtain L where L: "sched_inv L k" "links_ok k" using ok by (auto simp: kernel_ok_def)
    have fr: "sched_frame k k1" by (simp add: k1_def)
    have "runnables k = runnables k1 - {p}"
      using front nz p by (auto simp: runnables_def proc_is_runnable_def k1_def)
    then have "queues_hold L (runnables k1 - {p}) k1"
      using queues_hold_upd_flags [OF sched_inv_hold [OF L(1)]] by (simp add: k1_def)
    moreover have "total_tickets k1 = ticket_sum L k1"
      using L(1) ticket_sum_frame [OF fr] by (simp add: sched_inv_def k1_def)
    ultimately obtain k2 where k2: "enqueue_head p k1 = Some k2"
        "sched_inv (L(qof k1 p := p # L (qof k1 p))) k2" "sched_frame k1 k2"
      using enqueue_head_inv [of L k1 p] front p by blast
    have "k' = k2"
      using assms(1) True front k2(1) by (simp add: requeue_preempted_def k1_def [symmetric] Let_def)
    moreover have "links_ok k2" using L(2) links_ok_frame [OF fr] links_ok_frame [OF k2(3)] by simp
    ultimately show ?thesis using k2(2) by (auto simp: kernel_ok_def)
  qed
qed

lemma requeue_preempted_cur: "requeue_preempted p k = Some k' \<Longrightarrow> outer k' = outer k"
  by (auto simp: requeue_preempted_def cur_splits has_clear_not split: if_splits dest!: cur)

lemma next_process_result:
  assumes "next_process E pick n p k = Some (q, n', k')" "machine_ok k" "environ_ok E" "p = proc_ptr k"
  shows "machine_ok k' \<and> proc_ptr k' = q \<and> is_proc q"
proof (cases pick)
  case False
  then show ?thesis using assms proc_ptr_is_proc machine_kernel by (auto simp: next_process_def)
next
  case True
  then obtain k0 k1 where k: "requeue_preempted p k = Some k0" "pick_loop E n k0 = Some (q, n', k1)"
      "k' = k1\<lparr>proc_ptr := q\<rparr>"
    using assms(1) by (auto simp: next_process_def bind_eq_Some_conv)
  have "kernel_ok k0"
    by (rule requeue_preempted_keeps [OF k(1) machine_kernel [OF assms(2)]]) (simp add: assms(4) proc_ptr_is_proc machine_kernel [OF assms(2)])
  from machine_ok_outer [OF requeue_preempted_cur [OF k(1)] this assms(2)]
  have "machine_ok k0" .
  from pick_loop_result [OF k(2) this assms(3)] show ?thesis using k(3) machine_ok_ptrs(1) by simp
qed

lemma arch_do_syscall_keeps:
  assumes "arch_do_syscall l p k = Some k'" "kernel_ok k"
  shows "kernel_ok k' \<and> outer k' = outer k"
  using assms
  by (auto simp: arch_do_syscall_def bind_eq_Some_conv split: if_splits prod.splits
      intro!: kernel_ok_upd_proc dest: do_ipc_keeps do_ipc_cur)

lemma delivermsg_keeps:
  assumes "delivermsg l p k = Some k'" "kernel_ok k" "is_proc p"
  shows "kernel_ok k'"
proof -
  have sig: "kernel_ok k1" if "cause_sig l (p_nr (procs k p)) SIGSEGV k = Some k1" for k1
    using cause_sig_keeps [OF that assms(2)] kernel_ok_links(1) [OF assms(2,3)] by blast
  show ?thesis using assms(1)
    by (auto simp: delivermsg_def bind_eq_Some_conv Let_def split: if_splits
        intro!: kernel_ok_upd_proc status_keeps kernel_ok_fields(1) assms(2) dest!: sig)
qed

lemma misc_step_keeps:
  assumes "misc_step E p k = Some (stop, k')" "machine_ok k" "is_proc p" "environ_ok E"
  shows "kept k k'"
proof (cases "has (misc k p) MF_KCALL_RESUME")
  case True
  then show ?thesis using assms unfolding environ_ok_def by (auto simp: misc_step_def)
next
  case False
  note ok = machine_kernel [OF assms(2)]
  have sig: "kernel_ok k1 \<and> outer k1 = outer k"
    if "cause_sig l (p_nr (procs k p)) SIGTRAP (clear_misc p m k) = Some k1" for l m k1
    using cause_sig_keeps [OF that] cause_sig_cur [OF that] status_keeps(5) [OF ok] kernel_ok_links(1) [OF ok assms(3)] by simp
  have delay: "kernel_ok k2 \<and> outer k2 = outer k" if "sig_delay_done l p k1 = Some k2" "kernel_ok k1 \<and> outer k1 = outer k" for l k1 k2
    using sig_delay_done_keeps [OF that(1) _ assms(3)] sig_delay_done_cur [OF that(1)] that(2) by simp
  have "kernel_ok k' \<and> outer k' = outer k"
    using assms(1) ok assms(3) False
    by (auto simp: misc_step_def bind_eq_Some_conv status_keeps split: if_splits
        dest: arch_do_syscall_keeps sig delivermsg_keeps delivermsg_cur delay)
  then show ?thesis using kept_outer assms(2) by blast
qed

text \<open>No kernel call to resume, no message to deliver and no system call to carry out.\<close>

definition settled :: "kernel \<Rightarrow> int \<Rightarrow> bool" where
  "settled k p \<longleftrightarrow> \<not> has (misc k p) MF_KCALL_RESUME \<and> \<not> has (misc k p) MF_DELIVERMSG \<and> \<not> has (misc k p) MF_SC_DEFER"

lemma has_or_right: "has w (f OR g) \<longleftrightarrow> has w f \<or> has w g" for w f g :: "'a::len word"
proof -
  have "w AND (f OR g) = (w AND f) OR (w AND g)" by (intro bit_eqI) (auto simp: bit_simps)
  then show ?thesis by (simp add: has_def or_eq_0_iff)
qed

lemma has_clear_le: "has (w AND NOT f) g \<Longrightarrow> has w g" for w f g :: "'a::len word"
proof -
  assume "has (w AND NOT f) g"
  moreover have "(w AND NOT f) AND g = (w AND g) AND NOT f" by (intro bit_eqI) (auto simp: bit_simps)
  ultimately show ?thesis by (auto simp: has_def)
qed

lemma settled_clear: "settled k p \<Longrightarrow> settled (clear_misc q f k) p"
  using has_clear_le [of "misc k q" f] by (auto simp: settled_def clear_misc_def)

lemma misc_step_stop:
  assumes "misc_step E p k = Some (True, k')"
  shows "settled k' p"
proof -
  have "settled k p \<and> (k' = k \<or> k' = clear_misc p MF_SC_ACTIVE k)"
    using assms by (auto simp: misc_step_def settled_def bind_eq_Some_conv split: if_splits)
  then show ?thesis using settled_clear by blast
qed

lemma misc_loop_result:
  assumes "misc_loop E p k = Some (go, k')" "machine_ok k" "is_proc p" "environ_ok E"
  shows "machine_ok k' \<and> proc_ptr k' = proc_ptr k \<and> (go \<longrightarrow> settled k' p)"
proof -
  have "machine_ok k \<longrightarrow> is_proc p \<longrightarrow> environ_ok E \<longrightarrow> machine_ok (snd (go, k')) \<and> proc_ptr (snd (go, k')) = proc_ptr k \<and>
      (fst (go, k') \<longrightarrow> settled (snd (go, k')) p)"
  proof (rule misc_loop.raw_induct [where P = "\<lambda>E p k y. machine_ok k \<longrightarrow> is_proc p \<longrightarrow> environ_ok E \<longrightarrow>
        machine_ok (snd y) \<and> proc_ptr (snd y) = proc_ptr k \<and> (fst y \<longrightarrow> settled (snd y) p)", OF _ assms(1)], intro impI)
    fix ml :: "environ \<Rightarrow> int \<Rightarrow> kernel \<Rightarrow> (bool \<times> kernel) option" and E p k y
    assume IH: "\<And>E p k y. ml E p k = Some y \<Longrightarrow> machine_ok k \<longrightarrow> is_proc p \<longrightarrow> environ_ok E \<longrightarrow>
          machine_ok (snd y) \<and> proc_ptr (snd y) = proc_ptr k \<and> (fst y \<longrightarrow> settled (snd y) p)"
      and body: "(if \<not> has (misc k p) MISC_WORK then Some (True, k)
        else if \<not> proc_is_runnable k p then None
        else misc_step E p k \<bind> (\<lambda>(stop, k1). if stop then Some (True, k1)
          else if \<not> proc_is_runnable k1 p then Some (False, k1) else ml E p k1)) = Some y"
      and ok: "machine_ok k" "is_proc p" "environ_ok E"
    show "machine_ok (snd y) \<and> proc_ptr (snd y) = proc_ptr k \<and> (fst y \<longrightarrow> settled (snd y) p)"
    proof (cases "has (misc k p) MISC_WORK")
      case False
      then show ?thesis using body ok by (auto simp: settled_def MISC_WORK_def has_or_right)
    next
      case True
      then obtain stop k1 where st: "misc_step E p k = Some (stop, k1)"
        using body by (auto simp: bind_eq_Some_conv split: if_splits)
      note keep = misc_step_keeps [OF st ok]
      then show ?thesis
        using body True st IH [of E p k1 y] ok(2,3) misc_step_stop [of E p k k1]
        by (auto simp: kept_def split: if_splits)
    qed
  qed
  then show ?thesis using assms(2-4) by simp
qed

section \<open>Out of quantum\<close>

lemma RTS_UNSET_keeps_quantum:
  assumes "RTS_UNSET d RTS_RECEIVING k = Some k'" "kernel_ok k" "is_proc d" "has (p_rts_flags (procs k p)) RTS_NO_QUANTUM"
  shows "has (p_rts_flags (procs k' p)) RTS_NO_QUANTUM"
proof (cases "p = d")
  case True
  have "RTS_RECEIVING AND RTS_NO_QUANTUM = 0" by (simp add: RTS_defs)
  then have "has (w AND NOT RTS_RECEIVING) RTS_NO_QUANTUM = has w RTS_NO_QUANTUM" for w :: "32 word"
    by (rule has_clear_other)
  then show ?thesis using kernel_ok_RTS_UNSET [OF assms(2,3), of RTS_RECEIVING] assms(1,4) True by auto
next
  case False
  from RTS_UNSET_others [OF assms(2,3,1) this] show ?thesis using assms(4) has_set_mono by metis
qed

lemma mini_send_keeps_quantum:
  assumes "mini_send c e m f k = Some (r, k')" and ok: "kernel_ok k" "is_proc c" "is_proc (ENDPOINT_P e)"
    and q: "has (p_rts_flags (procs k p)) RTS_NO_QUANTUM"
  shows "has (p_rts_flags (procs k' p)) RTS_NO_QUANTUM"
proof -
  have direct: "has (p_rts_flags (procs k2 p)) RTS_NO_QUANTUM" if "send_direct c d x f k = Some (r, k2)" "is_proc d" for d x k2
    using that ok(1) q
    by (auto simp: send_direct_def Let_def bind_eq_Some_conv split: if_splits
        elim!: RTS_UNSET_keeps_quantum intro!: status_keeps)
  have append: "p_rts_flags (procs k2 y) = p_rts_flags (procs k1 y)" if "caller_q_append k1 d c prev = Some k2" for k1 k2 d prev y
    by (rule caller_q_append.raw_induct [where P = "\<lambda>k d c prev k'. p_rts_flags (procs k' y) = p_rts_flags (procs k y)", OF _ that])
      (auto simp: set_caller_xpp_def split: option.splits)
  have block: "has (p_rts_flags (procs k2 p)) RTS_NO_QUANTUM" if "send_block c d e x f k = Some (r, k2)" for d x k2
  proof -
    have set: "has (p_rts_flags (procs k3 y)) RTS_NO_QUANTUM"
      if "RTS_SET c RTS_SENDING k1 = Some k3" "kernel_ok k1" "has (p_rts_flags (procs k1 y)) RTS_NO_QUANTUM" for k1 k3 y
      using kernel_ok_RTS_SET [OF that(2) ok(2), of RTS_SENDING] that(1,3) by (auto simp: RTS_defs intro: has_set_mono)
    show ?thesis using that ok(1) q
      by (auto simp: send_block_def Let_def bind_eq_Some_conv append split: if_splits
          elim!: set intro!: status_keeps kernel_ok_upd_proc)
  qed
  show ?thesis using assms(1) ok(3) q
    by (auto simp: mini_send_def Let_def bind_eq_Some_conv split: if_splits option.splits intro: direct block)
qed

lemma proc_no_time_result:
  assumes "proc_no_time l p k = Some k'" "kernel_ok k" "is_proc p"
  shows "kernel_ok k' \<and> proc_ptr k' = proc_ptr k \<and> (proc_is_runnable k' p \<longrightarrow> settled k' p = settled k p)"
proof -
  have notify: "kernel_ok k' \<and> \<not> proc_is_runnable k' p" if run: "notify_scheduler l p k = Some k'"
  proof -
    obtain k1 where k1: "RTS_SET p RTS_NO_QUANTUM k = Some k1" "kernel_ok k1"
        "\<forall>x. p_rts_flags (procs k1 x) = (if x = p then p_rts_flags (procs k x) OR RTS_NO_QUANTUM else p_rts_flags (procs k x))"
      using kernel_ok_RTS_SET [OF assms(2,3), of RTS_NO_QUANTUM] by (auto simp: RTS_defs)
    define k2 where "k2 = reset_proc_accounting p k1"
    obtain s m where s: "p_scheduler (procs k2 p) = Some s"
        and sent: "mini_send p (p_endpoint (procs k2 s)) (Kernel_Msg m) FROM_KERNEL k2 = Some (OK, k')"
      using run k1(1) by (auto simp: notify_scheduler_def Let_def k2_def bind_eq_Some_conv split: if_splits)
    have ok2: "kernel_ok k2" unfolding k2_def reset_proc_accounting_def
      by (rule kernel_ok_upd_proc [OF _ k1(2)]) simp
    have dst: "is_proc (ENDPOINT_P (p_endpoint (procs k2 s)))"
      using kernel_ok_links(4) [OF ok2 kernel_ok_links(5) [OF ok2 assms(3) s]] .
    have q: "has (p_rts_flags (procs k2 p)) RTS_NO_QUANTUM"
      using k1(3) by (simp add: k2_def reset_proc_accounting_def RTS_defs)
    have "has (p_rts_flags (procs k' p)) RTS_NO_QUANTUM"
      by (rule mini_send_keeps_quantum [OF sent ok2 assms(3) dst q])
    then show ?thesis using mini_send_keeps [OF sent ok2 assms(3) dst] by (auto simp: proc_is_runnable_def has_def)
  qed
  have renew: "kernel_ok (upd_proc p (\<lambda>r. r\<lparr>p_cpu_time_left := t r\<rparr>) k)" for t
    by (rule kernel_ok_upd_proc [OF _ assms(2)]) simp
  show ?thesis
    using assms(1) notify renew outerD(1) [OF proc_no_time_cur [OF assms(1)]]
    by (auto simp: proc_no_time_def bind_eq_Some_conv settled_def split: if_splits)
qed

lemma proc_no_time_machine:
  assumes "proc_no_time l p k = Some k'" "machine_ok k" "is_proc p"
  shows "machine_ok k' \<and> proc_ptr k' = proc_ptr k \<and> (proc_is_runnable k' p \<longrightarrow> settled k' p = settled k p)"
  using proc_no_time_result [OF assms(1) machine_kernel [OF assms(2)] assms(3)]
    machine_ok_outer [OF proc_no_time_cur [OF assms(1)] _ assms(2)] by blast

lemma switch_from_result:
  assumes "switch_from E pick n p k = Some k'" "machine_ok k" "environ_ok E" "p = proc_ptr k"
  shows "machine_ok k' \<and> proc_is_runnable k' (proc_ptr k') \<and> p_cpu_time_left (procs k' (proc_ptr k')) \<noteq> 0 \<and>
    settled k' (proc_ptr k') \<and> \<not> has (misc k' (proc_ptr k')) MF_CONTEXT_SET"
proof -
  let ?Q = "\<lambda>k'. machine_ok k' \<and> proc_is_runnable k' (proc_ptr k') \<and> p_cpu_time_left (procs k' (proc_ptr k')) \<noteq> 0 \<and>
    settled k' (proc_ptr k') \<and> \<not> has (misc k' (proc_ptr k')) MF_CONTEXT_SET"
  have "machine_ok k \<longrightarrow> environ_ok E \<longrightarrow> p = proc_ptr k \<longrightarrow> ?Q k'"
  proof (rule switch_from.raw_induct [where P = "\<lambda>E pick n p k y. machine_ok k \<longrightarrow> environ_ok E \<longrightarrow> p = proc_ptr k \<longrightarrow> ?Q y",
        OF _ assms(1)], intro impI)
    fix sf :: "environ \<Rightarrow> bool \<Rightarrow> nat \<Rightarrow> int \<Rightarrow> kernel \<Rightarrow> kernel option" and E pick n p k y
    assume IH: "\<And>E pick n p k y. sf E pick n p k = Some y \<Longrightarrow> machine_ok k \<longrightarrow> environ_ok E \<longrightarrow> p = proc_ptr k \<longrightarrow> ?Q y"
      and body: "next_process E pick n p k \<bind> (\<lambda>(q, n', k1).
          if \<not> proc_is_runnable k1 q then None
          else misc_loop E q k1 \<bind> (\<lambda>(go, k2).
            if \<not> go then sf E True n' q k2
            else (if p_cpu_time_left (procs k2 q) = 0 then proc_no_time (load E) q k2 else Some k2) \<bind> (\<lambda>k3.
              if \<not> proc_is_runnable k3 q then sf E True n' q k3 else enter_user k3))) = Some y"
      and ok: "machine_ok k" and E: "environ_ok E" and p: "p = proc_ptr k"
    from body obtain q n' k1 where nx: "next_process E pick n p k = Some (q, n', k1)"
      by (auto simp: bind_eq_Some_conv)
    then obtain go k2 where ml: "misc_loop E q k1 = Some (go, k2)"
      using body by (auto simp: bind_eq_Some_conv split: if_splits)
    note r1 = next_process_result [OF nx ok E p]
    have r2: "machine_ok k2 \<and> proc_ptr k2 = q \<and> (go \<longrightarrow> settled k2 q)"
      using misc_loop_result [OF ml _ _ E] r1 by simp
    show "?Q y"
    proof (cases go)
      case False
      then have "sf E True n' q k2 = Some y" using body nx ml by (auto split: if_splits)
      then show ?thesis using IH r2 E by blast
    next
      case True
      define quantum where "quantum = (if p_cpu_time_left (procs k2 q) = 0 then proc_no_time (load E) q k2 else Some k2)"
      obtain k3 where k3: "quantum = Some k3"
          "(if \<not> proc_is_runnable k3 q then sf E True n' q k3 else enter_user k3) = Some y"
        using body nx ml True by (auto simp: quantum_def bind_eq_Some_conv split: if_split_asm)
      have r3: "machine_ok k3 \<and> proc_ptr k3 = q \<and> (proc_is_runnable k3 q \<longrightarrow> settled k3 q)"
        using k3(1) r1 r2 True proc_no_time_machine [of "load E" q k2 k3]
        by (auto simp: quantum_def split: if_split_asm)
      show ?thesis
      proof (cases "proc_is_runnable k3 q")
        case False
        then show ?thesis using IH k3(2) r3 E by auto
      next
        case run: True
        then have y: "y = clear_misc q MF_CONTEXT_SET k3" "p_cpu_time_left (procs k3 q) \<noteq> 0"
          using k3(2) r3 by (auto simp: enter_user_def Let_def split: if_splits)
        have "settled y q" unfolding y(1) using settled_clear r3 run by blast
        moreover have "machine_ok y" unfolding y(1) using machine_ok_outer [OF status_cur(5) status_keeps(5)] machine_kernel r3 by blast
        ultimately show ?thesis using y r3 run by (simp add: clear_misc_def proc_is_runnable_def)
      qed
    qed
  qed
  then show ?thesis using assms(2-4) by blast
qed

lemma switch_winner:
  assumes "\<not> proc_is_runnable k (proc_ptr k)" and "requeue_preempted (proc_ptr k) k = Some k0"
    and "sched_inv L k0" and "style k0 \<noteq> 0" and "0 < total_tickets k0"
    and "heads E 0 k0 = run_q_head k0" and "0 \<le> draw E 0"
    and "\<forall>p. p \<in> runnables k0 \<longrightarrow> \<not> has (misc k0 p) MISC_WORK \<and> p_cpu_time_left (procs k0 p) \<noteq> 0"
  shows "\<exists>p b. lottery_winner L k0 (draw E 0) = Some p \<and> p \<in> runnables k0 \<and>
    switch_to_user E k = Some (clear_misc p MF_CONTEXT_SET (k0\<lparr>proc_ptr := p, bill_ptr := b\<rparr>))"
proof -
  obtain p k1 where pk: "lottery_winner L k0 (draw E 0) = Some p" "p \<in> runnables k0"
      "pick_proc (run_q_head k0) (draw E 0) k0 = Some (Some p, k1)" "k1 = k0 \<or> k1 = k0\<lparr>bill_ptr := p\<rparr>"
    using pick_proc_lottery [OF assms(3,4,5,7)] by blast
  define b where "b = bill_ptr k1"
  define k2 where "k2 = k0\<lparr>proc_ptr := p, bill_ptr := b\<rparr>"
  have k2': "k1\<lparr>proc_ptr := p\<rparr> = k2" using pk(4) by (auto simp: k2_def b_def)
  have "pick_loop E 0 k0 = Some (p, 1, k1)" using pk(3) assms(6) by (simp add: pick_loop.simps [of E 0])
  then have nx: "next_process E True 0 (proc_ptr k) k = Some (p, 1, k2)"
    using assms(2) k2' by (simp add: next_process_def)
  have p: "proc_is_runnable k2 p" "\<not> has (misc k2 p) MISC_WORK" "p_cpu_time_left (procs k2 p) \<noteq> 0" "proc_ptr k2 = p"
    using pk(2) assms(8) by (auto simp: k2_def runnables_def proc_is_runnable_def)
  have "misc_loop E p k2 = Some (True, k2)" using p(2) by (simp add: misc_loop.simps [of E p])
  then have "switch_from E True 0 (proc_ptr k) k = Some (clear_misc p MF_CONTEXT_SET k2)"
    using nx p by (simp add: switch_from.simps [of E True 0] enter_user_def Let_def)
  then show ?thesis using assms(1) pk(1,2) by (auto simp: switch_to_user_def k2_def)
qed

definition demo_environ :: environ where
  "demo_environ = \<lparr>heads = (\<lambda>_. run_q_head), draw = (\<lambda>_. 17), raised = (\<lambda>_. []), resume = (\<lambda>_. Some),
     is_lethal = (\<lambda>_. False), load = 0\<rparr>"

lemma demo_switch_facts:
  "\<not> proc_is_runnable demo_kernel (proc_ptr demo_kernel)"
  "requeue_preempted (proc_ptr demo_kernel) demo_kernel = Some demo_kernel"
  "style demo_kernel \<noteq> 0" "0 < total_tickets demo_kernel"
  "heads demo_environ 0 demo_kernel = run_q_head demo_kernel" "0 \<le> draw demo_environ 0"
  "\<forall>p. p \<in> runnables demo_kernel \<longrightarrow>
    \<not> has (misc demo_kernel p) MISC_WORK \<and> p_cpu_time_left (procs demo_kernel p) \<noteq> 0"
  by (simp_all add: demo_environ_def)
    (simp_all add: demo_proc_def proc_is_runnable_def requeue_preempted_def proc_is_preempted_def has_def
      RTS_defs idle_proc_def)

lemma demo_environ_ok: "environ_ok demo_environ"
  by (simp add: environ_ok_def demo_environ_def kept_refl)

section \<open>Properties\<close>



end
