(* ===== verification/Sched_Server.thy ===== *)
theory Sched_Server
  imports Kernel_Calls
begin

text \<open>
  The user-space scheduler SCHED (\<^verbatim>\<open>servers/sched/\<close>): its table \<open>schedproc\<close>, the request handlers
  of \<^verbatim>\<open>schedule.c\<close>, the checks of \<^verbatim>\<open>utility.c\<close> and one round of the main loop of \<^verbatim>\<open>main.c\<close>.

  The server decides priorities and quanta and has the kernel carry them out with the calls
  \<open>sys_schedule\<close> and \<open>sys_schedctl\<close>, which are arguments here (the state \<open>'k\<close> of the kernel is part
  of the server's world). What it relies on is the locale \<open>scheduling_kernel\<close>; the kernel of
  \<^verbatim>\<open>Kernel_Calls\<close> provides it. This is the build without \<open>CONFIG_SMP\<close>: there is one CPU.
\<close>

section \<open>The table\<close>

definition PM_PROC_NR :: int where "PM_PROC_NR = 0"
definition RS_PROC_NR :: int where "RS_PROC_NR = 2"
definition SCHED_PROC_NR :: int where "SCHED_PROC_NR = 4"
definition SCHEDULING_START :: int where "SCHEDULING_START = 0xF02"
definition SCHEDULING_STOP :: int where "SCHEDULING_STOP = 0xF03"
definition SCHEDULING_SET_NICE :: int where "SCHEDULING_SET_NICE = 0xF04"
definition SCHEDULING_INHERIT :: int where "SCHEDULING_INHERIT = 0xF05"
definition MAX_USER_Q :: int where "MAX_USER_Q = 0"
definition MIN_USER_Q :: int where "MIN_USER_Q = int NR_SCHED_QUEUES - 1"
definition USER_Q :: int where "USER_Q = (MIN_USER_Q - MAX_USER_Q) div 2 + MAX_USER_Q"
definition DEFAULT_USER_TIME_SLICE :: "32 word" where "DEFAULT_USER_TIME_SLICE = 200"
definition BALANCE_TIMEOUT :: "32 word" where "BALANCE_TIMEOUT = 5"
definition IN_USE :: "32 word" where "IN_USE = 1"
definition CPU_DEAD :: "32 word" where "CPU_DEAD = - 1"
definition SCHEDULE_CHANGE_PRIO :: "32 word" where "SCHEDULE_CHANGE_PRIO = 1"
definition SCHEDULE_CHANGE_QUANTUM :: "32 word" where "SCHEDULE_CHANGE_QUANTUM = 2"
definition SCHEDULE_CHANGE_CPU :: "32 word" where "SCHEDULE_CHANGE_CPU = 4"
definition SCHEDULE_CHANGE_ALL :: "32 word" where
  "SCHEDULE_CHANGE_ALL = SCHEDULE_CHANGE_PRIO OR SCHEDULE_CHANGE_QUANTUM OR SCHEDULE_CHANGE_CPU"

record schedproc =
  endpoint :: int
  parent :: int
  flags :: "32 word"
  max_priority :: "32 word"
  priority :: "32 word"
  time_slice :: "32 word"
  cpu :: "32 word"

text \<open>
  The server: the table, the loads of the CPUs, the ticks \<open>sched_timer\<close> is set to (\<open>None\<close> when it
  is not running), and the kernel.
\<close>

record 'k sched =
  slots :: "int \<Rightarrow> schedproc"
  cpu_proc :: "nat \<Rightarrow> 32 word"
  balance_timeout :: "32 word"
  sched_timer :: "32 word option"
  kern :: 'k

text \<open>The arguments of \<open>sys_schedule\<close> are endpoint, priority, quantum and CPU; those of
  \<open>sys_schedctl\<close> start with the flags.\<close>

type_synonym 'k sys_schedule = "int \<Rightarrow> int \<Rightarrow> int \<Rightarrow> int \<Rightarrow> 'k \<Rightarrow> (code \<times> 'k) option"
type_synonym 'k sys_schedctl = "32 word \<Rightarrow> int \<Rightarrow> int \<Rightarrow> int \<Rightarrow> int \<Rightarrow> 'k \<Rightarrow> (code \<times> 'k) option"

definition upd_slot :: "int \<Rightarrow> (schedproc \<Rightarrow> schedproc) \<Rightarrow> 'k sched \<Rightarrow> 'k sched" where
  "upd_slot p f s = s\<lparr>slots := (slots s)(p := f (slots s p))\<rparr>"

record request =
  r_source :: int
  r_type :: int
  r_endpoint :: int
  r_parent :: int
  r_maxprio :: "32 word"
  r_quantum :: int

section \<open>Checks\<close>

text \<open>The error code, or the slot number.\<close>

definition sched_isokendpt :: "'k sched \<Rightarrow> int \<Rightarrow> code + int" where
  "sched_isokendpt s e =
     (let p = ENDPOINT_P e
      in if p < 0 then Inl EBADEPT
         else if p \<ge> NR_PROCS then Inl EINVAL
         else if e \<noteq> endpoint (slots s p) then Inl EDEADEPT
         else if \<not> has (flags (slots s p)) IN_USE then Inl EDEADEPT
         else Inr p)"

definition sched_isemtyendpt :: "'k sched \<Rightarrow> int \<Rightarrow> code + int" where
  "sched_isemtyendpt s e =
     (let p = ENDPOINT_P e
      in if p < 0 then Inl EBADEPT
         else if p \<ge> NR_PROCS then Inl EINVAL
         else if has (flags (slots s p)) IN_USE then Inl EDEADEPT
         else Inr p)"

definition accept_message :: "request \<Rightarrow> bool" where
  "accept_message m \<longleftrightarrow> r_source m = PM_PROC_NR \<or> r_source m = RS_PROC_NR"

definition no_sys :: "int \<Rightarrow> int \<Rightarrow> code" where
  "no_sys who_e call_nr = ENOSYS"

section \<open>Handlers\<close>

definition pick_cpu :: "int \<Rightarrow> 'k sched \<Rightarrow> 'k sched" where
  "pick_cpu p = upd_slot p (\<lambda>r. r\<lparr>cpu := 0\<rparr>)"

definition schedule_process ::
  "'k sys_schedule \<Rightarrow> int \<Rightarrow> 32 word \<Rightarrow> 'k sched \<Rightarrow> (code \<times> 'k sched) option" where
  "schedule_process sys_schedule p fl s =
     (let s1 = pick_cpu p s;
          rmp = slots s1 p;
          new_prio = (if has fl SCHEDULE_CHANGE_PRIO then sint (priority rmp) else - 1);
          new_quantum = (if has fl SCHEDULE_CHANGE_QUANTUM then sint (time_slice rmp) else - 1);
          new_cpu = (if has fl SCHEDULE_CHANGE_CPU then sint (cpu rmp) else - 1)
      in do {
        (err, k) \<leftarrow> sys_schedule (endpoint rmp) new_prio new_quantum new_cpu (kern s1);
        Some (err, s1\<lparr>kern := k\<rparr>)
      })"

definition schedule_process_local :: "'k sys_schedule \<Rightarrow> int \<Rightarrow> 'k sched \<Rightarrow> (code \<times> 'k sched) option" where
  "schedule_process_local sys_schedule p =
     schedule_process sys_schedule p (SCHEDULE_CHANGE_PRIO OR SCHEDULE_CHANGE_QUANTUM)"

definition do_noquantum :: "'k sys_schedule \<Rightarrow> request \<Rightarrow> 'k sched \<Rightarrow> (code \<times> 'k sched) option" where
  "do_noquantum sys_schedule m s =
     (case sched_isokendpt s (r_source m) of
        Inl _ \<Rightarrow> Some (EBADEPT, s)
      | Inr p \<Rightarrow>
          let s1 = (if priority (slots s p) < word_of_int MIN_USER_Q
                    then upd_slot p (\<lambda>r. r\<lparr>priority := priority r + 1\<rparr>) s else s)
          in do {
            (rv, s2) \<leftarrow> schedule_process_local sys_schedule p s1;
            Some (if rv \<noteq> OK then rv else OK, s2)
          })"

definition do_stop_scheduling :: "request \<Rightarrow> 'k sched \<Rightarrow> code \<times> 'k sched" where
  "do_stop_scheduling m s =
     (if \<not> accept_message m then (EPERM, s)
      else
        (case sched_isokendpt s (r_endpoint m) of
           Inl _ \<Rightarrow> (EBADEPT, s)
         | Inr p \<Rightarrow> (OK, upd_slot p (\<lambda>r. r\<lparr>flags := 0\<rparr>) s)))"

text \<open>The loop that looks for a usable CPU.\<close>

partial_function (option) schedule_on_cpu ::
  "'k sys_schedule \<Rightarrow> int \<Rightarrow> 'k sched \<Rightarrow> (code \<times> 'k sched) option" where
  "schedule_on_cpu sys_schedule p s =
     (case schedule_process sys_schedule p SCHEDULE_CHANGE_ALL s of
        None \<Rightarrow> None
      | Some (rv, s1) \<Rightarrow>
          if rv \<noteq> EBADCPU then Some (rv, s1)
          else schedule_on_cpu sys_schedule p
                 (pick_cpu p (s1\<lparr>cpu_proc := (cpu_proc s1)(unat (cpu (slots s1 p)) := CPU_DEAD)\<rparr>)))"

text \<open>Filling in the slot: what precedes the \<open>switch\<close>, and the \<open>switch\<close> itself.\<close>

definition start_slot :: "request \<Rightarrow> int \<Rightarrow> 'k sched \<Rightarrow> 'k sched" where
  "start_slot m p =
     upd_slot p (\<lambda>r. r\<lparr>endpoint := r_endpoint m, parent := r_parent m, max_priority := r_maxprio m\<rparr>)"

definition start_init :: "int \<Rightarrow> 'k sched \<Rightarrow> 'k sched" where
  "start_init p s =
     (if endpoint (slots s p) = parent (slots s p)
      then upd_slot p (\<lambda>r. r\<lparr>priority := word_of_int USER_Q, time_slice := DEFAULT_USER_TIME_SLICE\<rparr>) s
      else s)"

definition start_priority :: "request \<Rightarrow> int \<Rightarrow> 'k sched \<Rightarrow> code + 'k sched" where
  "start_priority m p s =
     (if r_type m = SCHEDULING_START
      then Inr (upd_slot p (\<lambda>r. r\<lparr>priority := max_priority r, time_slice := word_of_int (r_quantum m)\<rparr>) s)
      else
        (case sched_isokendpt s (r_parent m) of
           Inl rv \<Rightarrow> Inl rv
         | Inr q \<Rightarrow> Inr (upd_slot p (\<lambda>r. r\<lparr>priority := priority (slots s q),
                          time_slice := time_slice (slots s q)\<rparr>) s)))"

text \<open>The reply names the scheduler, when there is one.\<close>

definition do_start_scheduling ::
  "'k sys_schedule \<Rightarrow> 'k sys_schedctl \<Rightarrow> request \<Rightarrow> 'k sched \<Rightarrow> (code \<times> int option \<times> 'k sched) option" where
  "do_start_scheduling sys_schedule sys_schedctl m s =
     (if r_type m \<noteq> SCHEDULING_START \<and> r_type m \<noteq> SCHEDULING_INHERIT then None
      else if \<not> accept_message m then Some (EPERM, None, s)
      else
        (case sched_isemtyendpt s (r_endpoint m) of
           Inl rv \<Rightarrow> Some (rv, None, s)
         | Inr p \<Rightarrow>
             let s1 = start_slot m p s
             in if max_priority (slots s1 p) \<ge> of_nat NR_SCHED_QUEUES then Some (EINVAL, None, s1)
                else
                  (case start_priority m p (start_init p s1) of
                     Inl rv \<Rightarrow> Some (rv, None, start_init p s1)
                   | Inr s2 \<Rightarrow> do {
                       (rv, k) \<leftarrow> sys_schedctl 0 (endpoint (slots s2 p)) 0 0 0 (kern s2);
                       let s3 = s2\<lparr>kern := k\<rparr>;
                       if rv \<noteq> OK then Some (rv, None, s3)
                       else do {
                         let s4 = pick_cpu p (upd_slot p (\<lambda>r. r\<lparr>flags := IN_USE\<rparr>) s3);
                         (rv, s5) \<leftarrow> schedule_on_cpu sys_schedule p s4;
                         Some (if rv \<noteq> OK then (rv, None, s5) else (OK, Some SCHED_PROC_NR, s5))
                       }
                     })))"

definition do_nice :: "'k sys_schedule \<Rightarrow> request \<Rightarrow> 'k sched \<Rightarrow> (code \<times> 'k sched) option" where
  "do_nice sys_schedule m s =
     (if \<not> accept_message m then Some (EPERM, s)
      else
        (case sched_isokendpt s (r_endpoint m) of
           Inl _ \<Rightarrow> Some (EBADEPT, s)
         | Inr p \<Rightarrow>
             let new_q = r_maxprio m; old_q = priority (slots s p); old_max_q = max_priority (slots s p)
             in if new_q \<ge> of_nat NR_SCHED_QUEUES then Some (EINVAL, s)
                else do {
                  (rv, s1) \<leftarrow> schedule_process_local sys_schedule p
                                (upd_slot p (\<lambda>r. r\<lparr>priority := new_q, max_priority := new_q\<rparr>) s);
                  Some (rv, if rv \<noteq> OK
                            then upd_slot p (\<lambda>r. r\<lparr>priority := old_q, max_priority := old_max_q\<rparr>) s1
                            else s1)
                }))"

section \<open>Balancing\<close>

definition init_scheduling :: "32 word \<Rightarrow> 'k sched \<Rightarrow> 'k sched" where
  "init_scheduling hz s =
     s\<lparr>balance_timeout := BALANCE_TIMEOUT * hz, sched_timer := Some (BALANCE_TIMEOUT * hz)\<rparr>"

definition balance_slot :: "'k sys_schedule \<Rightarrow> int \<Rightarrow> 'k sched \<Rightarrow> 'k sched option" where
  "balance_slot sys_schedule p s =
     (if has (flags (slots s p)) IN_USE \<and> priority (slots s p) > max_priority (slots s p)
      then map_option snd (schedule_process_local sys_schedule p
             (upd_slot p (\<lambda>r. r\<lparr>priority := priority r - 1\<rparr>) s))
      else Some s)"

fun balance_loop :: "'k sys_schedule \<Rightarrow> int list \<Rightarrow> 'k sched \<Rightarrow> 'k sched option" where
  "balance_loop sys_schedule [] s = Some s"
| "balance_loop sys_schedule (p # ps) s =
     do { s1 \<leftarrow> balance_slot sys_schedule p s; balance_loop sys_schedule ps s1 }"

definition balance_queues :: "'k sys_schedule \<Rightarrow> 'k sched \<Rightarrow> 'k sched option" where
  "balance_queues sys_schedule s = do {
     s1 \<leftarrow> balance_loop sys_schedule [0..NR_PROCS - 1] s;
     Some (s1\<lparr>sched_timer := Some (balance_timeout s1)\<rparr>)
   }"

section \<open>The main loop\<close>

text \<open>
  One round for a received message. \<open>notify\<close>: it is a notification; \<open>from_kernel\<close>: the flag
  \<open>IPC_FLG_MSG_FROM_KERNEL\<close> of its status; \<open>due\<close>: the timestamp of a clock notification has
  reached the timer. The first result is the reply, if one is sent.
\<close>

definition sched_main ::
  "'k sys_schedule \<Rightarrow> 'k sys_schedctl \<Rightarrow> bool \<Rightarrow> bool \<Rightarrow> bool \<Rightarrow> request \<Rightarrow> 'k sched \<Rightarrow>
     ((code \<times> int option) option \<times> 'k sched) option" where
  "sched_main sys_schedule sys_schedctl notify from_kernel due m s =
     (if notify then
        if r_source m = CLOCK then
          (if due \<and> sched_timer s \<noteq> None
           then map_option (\<lambda>s'. (None, s')) (balance_queues sys_schedule (s\<lparr>sched_timer := None\<rparr>))
           else Some (None, s))
        else Some (Some (ENOSYS, None), s)
      else if r_type m = SCHEDULING_INHERIT \<or> r_type m = SCHEDULING_START then
        map_option (\<lambda>(rv, sch, s'). (Some (rv, sch), s')) (do_start_scheduling sys_schedule sys_schedctl m s)
      else if r_type m = SCHEDULING_STOP then
        (case do_stop_scheduling m s of (rv, s') \<Rightarrow> Some (Some (rv, None), s'))
      else if r_type m = SCHEDULING_SET_NICE then
        map_option (\<lambda>(rv, s'). (Some (rv, None), s')) (do_nice sys_schedule m s)
      else if r_type m = SCHEDULING_NO_QUANTUM then
        (if from_kernel then map_option (\<lambda>(rv, s'). (None, s')) (do_noquantum sys_schedule m s)
         else Some (Some (EPERM, None), s))
      else Some (Some (no_sys (r_source m) (r_type m), None), s))"

section \<open>Priorities stay in range\<close>

text \<open>What a slot in use holds.\<close>

definition slot_ok :: "schedproc \<Rightarrow> bool" where
  "slot_ok r \<longleftrightarrow> (has (flags r) IN_USE \<longrightarrow>
     priority r < of_nat NR_SCHED_QUEUES \<and> max_priority r < of_nat NR_SCHED_QUEUES)"

definition slots_ok :: "'k sched \<Rightarrow> bool" where
  "slots_ok s \<longleftrightarrow> (\<forall>p. slot_ok (slots s p))"

lemma NR_SCHED_QUEUES_word: "(of_nat NR_SCHED_QUEUES :: 32 word) = 16"
  by (simp add: NR_SCHED_QUEUES_def)

lemma MIN_USER_Q_word: "(word_of_int MIN_USER_Q :: 32 word) = 15"
  by (simp add: MIN_USER_Q_def NR_SCHED_QUEUES_def)

lemma USER_Q_word: "(word_of_int USER_Q :: 32 word) = 7"
  by (simp add: USER_Q_def MIN_USER_Q_def MAX_USER_Q_def NR_SCHED_QUEUES_def)

lemma upd_slot_sel [simp]:
  "slots (upd_slot p f s) = (slots s)(p := f (slots s p))" "kern (upd_slot p f s) = kern s"
  "cpu_proc (upd_slot p f s) = cpu_proc s" "balance_timeout (upd_slot p f s) = balance_timeout s"
  "sched_timer (upd_slot p f s) = sched_timer s"
  by (simp_all add: upd_slot_def)

lemma slots_ok_upd: "slots_ok s \<Longrightarrow> slot_ok (f (slots s p)) \<Longrightarrow> slots_ok (upd_slot p f s)"
  by (simp add: slots_ok_def)

lemma slots_ok_kern [simp]: "slots_ok (s\<lparr>kern := k\<rparr>) = slots_ok s" "slots_ok (s\<lparr>sched_timer := t\<rparr>) = slots_ok s"
    "slots_ok (s\<lparr>cpu_proc := c\<rparr>) = slots_ok s"
  by (simp_all add: slots_ok_def)

lemma slot_ok_cpu [simp]: "slot_ok (r\<lparr>cpu := c\<rparr>) = slot_ok r"
  by (simp add: slot_ok_def)

lemma pick_cpu_ok: "slots_ok s \<Longrightarrow> slots_ok (pick_cpu p s)"
  unfolding pick_cpu_def by (rule slots_ok_upd) (simp_all add: slots_ok_def)

lemma sint_small: "w < 16 \<Longrightarrow> 0 \<le> sint w \<and> sint w < 16 \<and> sint w = uint w" for w :: "32 word"
proof -
  assume "w < 16"
  then have u: "uint w < 16" by (simp add: word_less_def)
  have "signed_take_bit 31 (uint w) = uint w"
    by (rule signed_take_bit_int_eq_self) (use u in \<open>simp_all add: order_trans [OF _ uint_ge_0]\<close>)
  then have "sint w = uint w" by (simp add: sint_uint)
  then show ?thesis using u by simp
qed

lemma word_Suc_less: "w < 15 \<Longrightarrow> w + 1 < 16" for w :: "32 word"
  by unat_arith

section \<open>The contract with the kernel\<close>

text \<open>
  What SCHED needs of the kernel: as long as the kernel's invariant holds and the priority is a
  run queue, \<open>sys_schedule\<close> comes back, keeps the invariant and does not complain about the
  CPU; taking over a process comes back and keeps the invariant.
\<close>

locale scheduling_kernel =
  fixes sys_schedule :: "'k sys_schedule" and sys_schedctl :: "'k sys_schedctl" and inv :: "'k \<Rightarrow> bool"
  assumes schedule_returns: "inv k \<Longrightarrow> 0 \<le> prio \<Longrightarrow> prio < int NR_SCHED_QUEUES \<Longrightarrow>
      \<exists>r k'. sys_schedule e prio q c k = Some (r, k') \<and> inv k' \<and> r \<noteq> EBADCPU"
    and takeover_returns: "inv k \<Longrightarrow> \<exists>r k'. sys_schedctl 0 e 0 0 0 k = Some (r, k') \<and> inv k'"
begin

lemma schedule_process_runs:
  assumes "inv (kern s)" "priority (slots s p) < 16" "has fl SCHEDULE_CHANGE_PRIO"
  shows "\<exists>rv k. schedule_process sys_schedule p fl s = Some (rv, (pick_cpu p s)\<lparr>kern := k\<rparr>) \<and>
    inv k \<and> rv \<noteq> EBADCPU"
proof -
  define s1 where "s1 = pick_cpu p s"
  have p1: "priority (slots s1 p) = priority (slots s p)" "kern s1 = kern s" by (simp_all add: s1_def pick_cpu_def)
  have "0 \<le> sint (priority (slots s1 p))" "sint (priority (slots s1 p)) < int NR_SCHED_QUEUES"
    using sint_small [OF assms(2)] by (simp_all add: p1 NR_SCHED_QUEUES_def)
  from schedule_returns [OF assms(1) this] obtain rv k where
    "sys_schedule (endpoint (slots s1 p)) (sint (priority (slots s1 p)))
       (if has fl SCHEDULE_CHANGE_QUANTUM then sint (time_slice (slots s1 p)) else - 1)
       (if has fl SCHEDULE_CHANGE_CPU then sint (cpu (slots s1 p)) else - 1) (kern s) = Some (rv, k)"
    "inv k" "rv \<noteq> EBADCPU" by blast
  then show ?thesis using assms(3) unfolding schedule_process_def
    by (auto simp: Let_def p1 simp flip: s1_def)
qed

lemma local_runs:
  assumes "inv (kern s)" "priority (slots s p) < 16"
  shows "\<exists>rv k. schedule_process_local sys_schedule p s = Some (rv, (pick_cpu p s)\<lparr>kern := k\<rparr>) \<and>
    inv k \<and> rv \<noteq> EBADCPU"
  unfolding schedule_process_local_def
  by (rule schedule_process_runs [OF assms]) (simp add: has_def SCHEDULE_CHANGE_PRIO_def SCHEDULE_CHANGE_QUANTUM_def)

lemma on_cpu_runs:
  assumes "inv (kern s)" "priority (slots s p) < 16"
  shows "\<exists>rv k. schedule_on_cpu sys_schedule p s = Some (rv, (pick_cpu p s)\<lparr>kern := k\<rparr>) \<and> inv k"
proof -
  have "has SCHEDULE_CHANGE_ALL SCHEDULE_CHANGE_PRIO"
    by (simp add: has_def SCHEDULE_CHANGE_ALL_def SCHEDULE_CHANGE_PRIO_def SCHEDULE_CHANGE_QUANTUM_def
        SCHEDULE_CHANGE_CPU_def)
  from schedule_process_runs [OF assms this] show ?thesis by (subst schedule_on_cpu.simps) auto
qed

lemma noquantum_runs:
  assumes "inv (kern s)" "slots_ok s"
  shows "\<exists>rv s'. do_noquantum sys_schedule m s = Some (rv, s') \<and> inv (kern s') \<and> slots_ok s'"
proof (cases "sched_isokendpt s (r_source m)")
  case (Inl e)
  then show ?thesis using assms by (simp add: do_noquantum_def)
next
  case (Inr p)
  then have use: "has (flags (slots s p)) IN_USE"
    by (auto simp: sched_isokendpt_def Let_def split: if_splits)
  then have pr: "priority (slots s p) < 16" "max_priority (slots s p) < 16"
    using assms(2) by (auto simp: slots_ok_def slot_ok_def NR_SCHED_QUEUES_word)
  define s1 where "s1 = (if priority (slots s p) < word_of_int MIN_USER_Q
      then upd_slot p (\<lambda>r. r\<lparr>priority := priority r + 1\<rparr>) s else s)"
  have s1: "inv (kern s1)" "priority (slots s1 p) < 16" "slots_ok s1"
    using assms pr word_Suc_less [of "priority (slots s p)"]
    by (auto simp: s1_def MIN_USER_Q_word slots_ok_def slot_ok_def NR_SCHED_QUEUES_word)
  from local_runs [OF s1(1,2)] obtain rv k where
    "schedule_process_local sys_schedule p s1 = Some (rv, (pick_cpu p s1)\<lparr>kern := k\<rparr>)" "inv k" by blast
  then show ?thesis using Inr pick_cpu_ok [OF s1(3), of p] unfolding do_noquantum_def
    by (simp add: Let_def flip: s1_def)
qed

lemma nice_runs:
  assumes "inv (kern s)" "slots_ok s"
  shows "\<exists>rv s'. do_nice sys_schedule m s = Some (rv, s') \<and> inv (kern s') \<and> slots_ok s'"
proof (cases "accept_message m \<and> r_maxprio m < 16")
  case False
  then show ?thesis using assms
    by (auto simp: do_nice_def NR_SCHED_QUEUES_word Let_def split: sum.splits)
next
  case acc: True
  show ?thesis
  proof (cases "sched_isokendpt s (r_endpoint m)")
    case (Inl e)
    then show ?thesis using assms acc by (simp add: do_nice_def)
  next
    case (Inr p)
    define s0 where "s0 = upd_slot p (\<lambda>r. r\<lparr>priority := r_maxprio m, max_priority := r_maxprio m\<rparr>) s"
    have s0: "inv (kern s0)" "priority (slots s0 p) < 16" "slots_ok s0"
      using assms acc by (auto simp: s0_def slots_ok_def slot_ok_def NR_SCHED_QUEUES_word)
    from local_runs [OF s0(1,2)] obtain rv k where
      run: "schedule_process_local sys_schedule p s0 = Some (rv, (pick_cpu p s0)\<lparr>kern := k\<rparr>)" "inv k" by blast
    define s1 where "s1 = (pick_cpu p s0)\<lparr>kern := k\<rparr>"
    have ok1: "slots_ok s1" using pick_cpu_ok [OF s0(3), of p] by (simp add: s1_def)
    have "slots_ok (upd_slot p (\<lambda>r. r\<lparr>priority := priority (slots s p), max_priority := max_priority (slots s p)\<rparr>) s1)"
      using assms(2) by (intro slots_ok_upd ok1) (auto simp: s1_def s0_def pick_cpu_def slots_ok_def slot_ok_def)
    moreover have "do_nice sys_schedule m s = Some (rv, if rv \<noteq> OK then
        upd_slot p (\<lambda>r. r\<lparr>priority := priority (slots s p), max_priority := max_priority (slots s p)\<rparr>) s1 else s1)"
      using acc Inr run(1) unfolding do_nice_def
      by (simp add: NR_SCHED_QUEUES_word Let_def not_le [symmetric] flip: s0_def s1_def)
    ultimately show ?thesis using ok1 run(2) by (cases "rv = OK") (simp_all add: s1_def)
  qed
qed

lemma start_runs:
  assumes "inv (kern s)" "slots_ok s" "r_type m = SCHEDULING_START \<or> r_type m = SCHEDULING_INHERIT"
  shows "\<exists>rv sch s'. do_start_scheduling sys_schedule sys_schedctl m s = Some (rv, sch, s') \<and>
    inv (kern s') \<and> slots_ok s'"
proof (cases "accept_message m")
  case False
  then show ?thesis using assms by (auto simp: do_start_scheduling_def)
next
  case acc: True
  show ?thesis
  proof (cases "sched_isemtyendpt s (r_endpoint m)")
    case (Inl e)
    then show ?thesis using assms acc by (auto simp: do_start_scheduling_def)
  next
    case (Inr p)
    then have free: "\<not> has (flags (slots s p)) IN_USE"
      by (auto simp: sched_isemtyendpt_def Let_def split: if_splits)
    define s1 where "s1 = start_slot m p s"
    have s1: "inv (kern s1)" "slots_ok s1" "\<not> has (flags (slots s1 p)) IN_USE"
      using assms free by (auto simp: s1_def start_slot_def slots_ok_def slot_ok_def)
    show ?thesis
    proof (cases "max_priority (slots s1 p) \<ge> of_nat NR_SCHED_QUEUES")
      case True
      then show ?thesis using assms acc Inr s1 by (auto simp: do_start_scheduling_def Let_def simp flip: s1_def)
    next
      case False
      define si where "si = start_init p s1"
      have si: "inv (kern si)" "slots_ok si" "\<not> has (flags (slots si p)) IN_USE"
          "max_priority (slots si p) < of_nat NR_SCHED_QUEUES"
        using s1 False by (auto simp: si_def start_init_def slots_ok_def slot_ok_def)
      show ?thesis
      proof (cases "start_priority m p si")
        case (Inl rv)
        then show ?thesis using assms acc Inr False si
          by (auto simp: do_start_scheduling_def Let_def simp flip: s1_def si_def)
      next
        case s2: (Inr s2)
        have k2: "kern s2 = kern si" "slots_ok s2" "max_priority (slots s2 p) < of_nat NR_SCHED_QUEUES"
            "priority (slots s2 p) < of_nat NR_SCHED_QUEUES"
          using s2 si by (auto simp: start_priority_def sched_isokendpt_def slots_ok_def slot_ok_def Let_def
              split: if_splits sum.splits)
        obtain rv k where ctl: "sys_schedctl 0 (endpoint (slots s2 p)) 0 0 0 (kern s2) = Some (rv, k)" "inv k"
          using takeover_returns [of "kern s2" "endpoint (slots s2 p)"] si(1) k2(1) by auto
        define s4 where "s4 = pick_cpu p (upd_slot p (\<lambda>r. r\<lparr>flags := IN_USE\<rparr>) (s2\<lparr>kern := k\<rparr>))"
        have s4: "inv (kern s4)" "slots_ok s4" "priority (slots s4 p) < 16"
          using k2 ctl(2) by (auto simp: s4_def pick_cpu_def slots_ok_def slot_ok_def NR_SCHED_QUEUES_word)
        from on_cpu_runs [OF s4(1,3)] obtain rv' k' where
          cpu: "schedule_on_cpu sys_schedule p s4 = Some (rv', (pick_cpu p s4)\<lparr>kern := k'\<rparr>)" "inv k'" by blast
        have "slots_ok ((pick_cpu p s4)\<lparr>kern := k'\<rparr>)" using pick_cpu_ok [OF s4(2)] by simp
        moreover have "do_start_scheduling sys_schedule sys_schedctl m s =
            (if rv \<noteq> OK then Some (rv, None, s2\<lparr>kern := k\<rparr>)
             else Some (if rv' \<noteq> OK then (rv', None, (pick_cpu p s4)\<lparr>kern := k'\<rparr>)
                        else (OK, Some SCHED_PROC_NR, (pick_cpu p s4)\<lparr>kern := k'\<rparr>)))"
          using assms(3) acc Inr False s2 ctl(1) cpu(1) unfolding do_start_scheduling_def
          by (auto simp: Let_def simp flip: s1_def si_def s4_def)
        ultimately show ?thesis using k2(2) ctl(2) cpu(2) by auto
      qed
    qed
  qed
qed

text \<open>One balancing step of a slot: a penalised process in use comes back by one queue.\<close>

lemma balance_slot_runs:
  assumes "inv (kern s)" "slots_ok s"
  shows "\<exists>s'. balance_slot sys_schedule p s = Some s' \<and> inv (kern s') \<and> slots_ok s' \<and>
    balance_timeout s' = balance_timeout s \<and>
    (\<forall>x. flags (slots s' x) = flags (slots s x) \<and> max_priority (slots s' x) = max_priority (slots s x) \<and>
      priority (slots s' x) = (if x = p \<and> has (flags (slots s x)) IN_USE \<and> priority (slots s x) > max_priority (slots s x)
        then priority (slots s x) - 1 else priority (slots s x)))"
proof (cases "has (flags (slots s p)) IN_USE \<and> priority (slots s p) > max_priority (slots s p)")
  case False
  then show ?thesis using assms by (auto simp: balance_slot_def)
next
  case True
  then have lim: "priority (slots s p) < 16" "max_priority (slots s p) < 16" "priority (slots s p) \<noteq> 0"
    using assms(2) by (auto simp: slots_ok_def slot_ok_def NR_SCHED_QUEUES_word)
  then have dec: "priority (slots s p) - 1 < 16" by unat_arith
  define s0 where "s0 = upd_slot p (\<lambda>r. r\<lparr>priority := priority r - 1\<rparr>) s"
  have s0: "inv (kern s0)" "priority (slots s0 p) < 16" "slots_ok s0"
    using assms dec lim by (auto simp: s0_def slots_ok_def slot_ok_def NR_SCHED_QUEUES_word)
  from local_runs [OF s0(1,2)] obtain rv k where
    run: "schedule_process_local sys_schedule p s0 = Some (rv, (pick_cpu p s0)\<lparr>kern := k\<rparr>)" "inv k" by blast
  have "balance_slot sys_schedule p s = Some ((pick_cpu p s0)\<lparr>kern := k\<rparr>)"
    using True run(1) unfolding balance_slot_def by (simp flip: s0_def)
  then show ?thesis using run(2) True pick_cpu_ok [OF s0(3), of p] by (auto simp: s0_def pick_cpu_def)
qed

lemma balance_loop_runs:
  assumes "inv (kern s)" "slots_ok s" "distinct ps"
  shows "\<exists>s'. balance_loop sys_schedule ps s = Some s' \<and> inv (kern s') \<and> slots_ok s' \<and>
    balance_timeout s' = balance_timeout s \<and>
    (\<forall>x. flags (slots s' x) = flags (slots s x) \<and> max_priority (slots s' x) = max_priority (slots s x) \<and>
      priority (slots s' x) = (if x \<in> set ps \<and> has (flags (slots s x)) IN_USE \<and> priority (slots s x) > max_priority (slots s x)
        then priority (slots s x) - 1 else priority (slots s x)))"
  using assms
proof (induction ps arbitrary: s)
  case Nil
  then show ?case by simp
next
  case (Cons p ps)
  obtain s1 where s1: "balance_slot sys_schedule p s = Some s1" "inv (kern s1)" "slots_ok s1"
      "balance_timeout s1 = balance_timeout s"
      "\<And>x. flags (slots s1 x) = flags (slots s x) \<and> max_priority (slots s1 x) = max_priority (slots s x) \<and>
        priority (slots s1 x) = (if x = p \<and> has (flags (slots s x)) IN_USE \<and> priority (slots s x) > max_priority (slots s x)
          then priority (slots s x) - 1 else priority (slots s x))"
    using balance_slot_runs [OF Cons.prems(1,2), of p] by blast
  have d: "distinct ps" "p \<notin> set ps" using Cons.prems(3) by simp_all
  obtain s' where s': "balance_loop sys_schedule ps s1 = Some s'" "inv (kern s')" "slots_ok s'"
      "balance_timeout s' = balance_timeout s1"
      "\<And>x. flags (slots s' x) = flags (slots s1 x) \<and> max_priority (slots s' x) = max_priority (slots s1 x) \<and>
        priority (slots s' x) = (if x \<in> set ps \<and> has (flags (slots s1 x)) IN_USE \<and> priority (slots s1 x) > max_priority (slots s1 x)
          then priority (slots s1 x) - 1 else priority (slots s1 x))"
    using Cons.IH [OF s1(2,3) d(1)] by blast
  have "flags (slots s' x) = flags (slots s x) \<and> max_priority (slots s' x) = max_priority (slots s x) \<and>
      priority (slots s' x) = (if x \<in> set (p # ps) \<and> has (flags (slots s x)) IN_USE \<and> priority (slots s x) > max_priority (slots s x)
        then priority (slots s x) - 1 else priority (slots s x))" for x
    using s1(5) [of x] s'(5) [of x] d(2) by (cases "x = p") simp_all
  then show ?case using s1(1,4) s'(1-4) by simp
qed

lemma main_runs:
  assumes "inv (kern s)" "slots_ok s"
  shows "\<exists>reply s'. sched_main sys_schedule sys_schedctl n f d m s = Some (reply, s') \<and>
    inv (kern s') \<and> slots_ok s'"
proof (cases n)
  case True
  have "distinct [0..NR_PROCS - 1]" by simp
  from balance_loop_runs [of "s\<lparr>sched_timer := None\<rparr>", OF _ _ this] assms show ?thesis
    using True by (auto simp: sched_main_def balance_queues_def)
next
  case False
  have stop: "inv (kern (snd (do_stop_scheduling m s)))" "slots_ok (snd (do_stop_scheduling m s))"
    using assms by (auto simp: do_stop_scheduling_def slots_ok_def slot_ok_def has_def split: sum.splits)
  show ?thesis
  proof (cases "r_type m = SCHEDULING_INHERIT \<or> r_type m = SCHEDULING_START")
    case True
    with start_runs [OF assms, of m] \<open>\<not> n\<close> show ?thesis by (auto simp: sched_main_def)
  next
    case other: False
    show ?thesis
      using \<open>\<not> n\<close> other stop nice_runs [OF assms, of m] noquantum_runs [OF assms, of m] assms
      by (auto simp: sched_main_def split: prod.splits)
  qed
qed

end

section \<open>The kernel provides it\<close>

text \<open>The calls as SCHED makes them: the kernel sees SCHED's process as the caller.\<close>

definition kernel_schedule :: "kernel sys_schedule" where
  "kernel_schedule e prio quantum c k = do_schedule SCHED_PROC_NR e prio quantum k"

definition kernel_schedctl :: "kernel sys_schedctl" where
  "kernel_schedctl fl e prio quantum c k = do_schedctl SCHED_PROC_NR fl e prio quantum k"

lemma sched_proc_no_EBADCPU: "sched_proc p prio q k = Some (r, k') \<Longrightarrow> r \<noteq> EBADCPU"
  by (auto simp: sched_proc_def Let_def bind_eq_Some_conv split: if_splits)

lemma sched_proc_returns:
  assumes "kernel_ok k" "is_proc p" "0 \<le> prio" "prio < int NR_SCHED_QUEUES"
  shows "\<exists>r k'. sched_proc p prio q k = Some (r, k') \<and> kernel_ok k'"
proof (cases "1 \<le> q \<or> q = - 1")
  case True
  then show ?thesis using sched_proc_lemma [OF assms(1,2) _ assms(4) True] assms(3) by auto
next
  case False
  then have "q < 1 \<and> q \<noteq> - 1" by auto
  then show ?thesis using assms by (auto simp: sched_proc_def TASK_Q_def)
qed

interpretation kernel_scheduling: scheduling_kernel kernel_schedule kernel_schedctl kernel_ok
proof
  fix k :: kernel and prio e q c :: int
  assume k: "kernel_ok k" "0 \<le> prio" "prio < int NR_SCHED_QUEUES"
  show "\<exists>r k'. kernel_schedule e prio q c k = Some (r, k') \<and> kernel_ok k' \<and> r \<noteq> EBADCPU"
  proof (cases "isokendpt k e")
    case None
    then show ?thesis using k by (simp add: kernel_schedule_def do_schedule_def)
  next
    case (Some p)
    show ?thesis
      using sched_proc_returns [OF k(1) isokendpt_is_proc [OF Some] k(2,3), of q] sched_proc_no_EBADCPU [of p prio q k]
        Some k(1)
      by (auto simp: kernel_schedule_def do_schedule_def)
  qed
next
  fix k :: kernel and e :: int
  assume k: "kernel_ok k"
  show "\<exists>r k'. kernel_schedctl 0 e 0 0 0 k = Some (r, k') \<and> kernel_ok k'"
  proof (cases "isokendpt k e")
    case None
    then show ?thesis using k by (simp add: kernel_schedctl_def do_schedctl_def has_def)
  next
    case (Some p)
    have "kernel_ok (upd_proc p (\<lambda>r. r\<lparr>p_scheduler := Some SCHED_PROC_NR\<rparr>) k)"
      by (rule kernel_ok_caller_links(3) [OF k])
        (auto simp: is_proc_def isokprocn_def SCHED_PROC_NR_def NR_TASKS_def NR_PROCS_def)
    then show ?thesis using Some
      by (simp add: kernel_schedctl_def do_schedctl_def has_def SCHEDCTL_FLAG_KERNEL_def)
  qed
qed

section \<open>Properties\<close>

lemma do_stop_slots_ok: "slots_ok s \<Longrightarrow> slots_ok (snd (do_stop_scheduling m s))"
  by (auto simp: do_stop_scheduling_def slots_ok_def slot_ok_def has_def split: sum.splits)

text \<open>A server that schedules processes 1 and 2: 1 was penalised three times.\<close>

definition demo_slot :: "int \<Rightarrow> schedproc" where
  "demo_slot p = \<lparr>endpoint = p, parent = RS_PROC_NR, flags = (if p = 1 \<or> p = 2 then IN_USE else 0),
     max_priority = 7, priority = (if p = 1 then 10 else 7), time_slice = 200, cpu = 0\<rparr>"

definition demo_sched :: "kernel sched" where
  "demo_sched = \<lparr>slots = demo_slot, cpu_proc = (\<lambda>_. 0), balance_timeout = 500, sched_timer = None,
     kern = ipc_kernel\<rparr>"

lemma demo_sched_ok: "slots_ok demo_sched" "kernel_ok (kern demo_sched)"
  by (auto simp: slots_ok_def slot_ok_def demo_sched_def demo_slot_def NR_SCHED_QUEUES_word ipc_kernel_ok)

text \<open>C11. Scheduler and kernel together: whatever message SCHED receives, its round comes back without
  a failed assertion, an endless search for a CPU or an access outside the run queues; every
  process it schedules keeps its priority and its best priority within the sixteen queues, and
  the kernel's run queues, flags and ticket count stay consistent. In particular SCHED never
  makes the request the kernel wrongly accepts, priority 16.
\<close>

theorem sched_round_safe:
  assumes "slots_ok s" and "kernel_ok (kern s)"
  shows "\<exists>reply s'. sched_main kernel_schedule kernel_schedctl notify from_kernel due m s = Some (reply, s') \<and>
    slots_ok s' \<and> kernel_ok (kern s')"
  using kernel_scheduling.main_runs [OF assms(2,1)] by blast

theorem sched_round_safe_witness:
  "\<exists>reply s'. sched_main kernel_schedule kernel_schedctl False False False
     \<lparr>r_source = PM_PROC_NR, r_type = SCHEDULING_SET_NICE, r_endpoint = 1, r_parent = 0, r_maxprio = 16, r_quantum = 0\<rparr>
     demo_sched = Some (reply, s') \<and> slots_ok s' \<and> kernel_ok (kern s')"
  by (rule sched_round_safe [OF demo_sched_ok])

text \<open>C25. A process cannot move itself or others down by forging an out-of-quantum message, and only
  PM and RS can start, stop or renice: every other message is answered with an error and
  changes nothing, neither in SCHED's table nor in the kernel.
\<close>

theorem forged_requests_change_nothing:
  assumes "r_source m \<noteq> PM_PROC_NR" and "r_source m \<noteq> RS_PROC_NR"
  shows "\<exists>r. r \<noteq> OK \<and> sched_main sys_schedule sys_schedctl False False due m s = Some (Some (r, None), s)"
proof (cases "r_type m = SCHEDULING_INHERIT \<or> r_type m = SCHEDULING_START")
  case True
  then show ?thesis using assms by (auto simp: sched_main_def do_start_scheduling_def accept_message_def)
next
  case False
  then show ?thesis using assms
    by (auto simp: sched_main_def do_stop_scheduling_def do_nice_def accept_message_def no_sys_def)
qed

theorem forged_requests_change_nothing_witness:
  "\<exists>r. r \<noteq> OK \<and> sched_main kernel_schedule kernel_schedctl False False False
     \<lparr>r_source = 2000, r_type = SCHEDULING_NO_QUANTUM, r_endpoint = 1, r_parent = 0, r_maxprio = 0, r_quantum = 0\<rparr>
     demo_sched = Some (Some (r, None), demo_sched)"
  by (rule forged_requests_change_nothing) (simp_all add: PM_PROC_NR_def RS_PROC_NR_def)

text \<open>The clock: rounds of the balancing timer.\<close>

fun balance_rounds :: "nat \<Rightarrow> kernel sched \<Rightarrow> kernel sched option" where
  "balance_rounds 0 s = Some s"
| "balance_rounds (Suc n) s = do { s1 \<leftarrow> balance_queues kernel_schedule s; balance_rounds n s1 }"

lemma balance_queues_runs:
  assumes "kernel_ok (kern s)" "slots_ok s"
  shows "\<exists>s'. balance_queues kernel_schedule s = Some s' \<and> kernel_ok (kern s') \<and> slots_ok s' \<and>
    balance_timeout s' = balance_timeout s \<and> sched_timer s' = Some (balance_timeout s) \<and>
    (\<forall>p. flags (slots s' p) = flags (slots s p) \<and> max_priority (slots s' p) = max_priority (slots s p) \<and>
      priority (slots s' p) = (if 0 \<le> p \<and> p < NR_PROCS \<and> has (flags (slots s p)) IN_USE \<and>
          priority (slots s p) > max_priority (slots s p)
        then priority (slots s p) - 1 else priority (slots s p)))"
proof -
  have "distinct [0..NR_PROCS - 1]" by simp
  from kernel_scheduling.balance_loop_runs [OF assms this] obtain s1 where
    s1: "balance_loop kernel_schedule [0..NR_PROCS - 1] s = Some s1" "kernel_ok (kern s1)" "slots_ok s1"
      "balance_timeout s1 = balance_timeout s"
      "\<And>p. flags (slots s1 p) = flags (slots s p) \<and> max_priority (slots s1 p) = max_priority (slots s p) \<and>
        priority (slots s1 p) = (if p \<in> set [0..NR_PROCS - 1] \<and> has (flags (slots s p)) IN_USE \<and>
            priority (slots s p) > max_priority (slots s p)
          then priority (slots s p) - 1 else priority (slots s p))"
    by blast
  have mem: "p \<in> set [0..NR_PROCS - 1] \<longleftrightarrow> 0 \<le> p \<and> p < NR_PROCS" for p by auto
  show ?thesis
    using s1(1-4) s1(5) [unfolded mem] by (simp add: balance_queues_def)
qed

lemma unat_dec: "m < w \<Longrightarrow> unat (w - 1) = unat w - 1 \<and> m \<le> w - 1" for w m :: "32 word"
  by unat_arith

text \<open>Nobody is penalised for good: after enough clock ticks every scheduled process is back at
  its best priority; \<open>n\<close> rounds of \<open>balance_queues\<close> bring a process up by \<open>n\<close> queues but never
  above its best one, and the timer is running again after each.
\<close>

theorem balancing_restores:
  assumes "slots_ok s" and "kernel_ok (kern s)" and "0 \<le> p" and "p < NR_PROCS"
    and "has (flags (slots s p)) IN_USE" and "priority (slots s p) \<ge> max_priority (slots s p)"
  shows "\<exists>s'. balance_rounds n s = Some s' \<and> slots_ok s' \<and> kernel_ok (kern s') \<and>
    unat (priority (slots s' p)) = max (unat (max_priority (slots s p))) (unat (priority (slots s p)) - n) \<and>
    (0 < n \<longrightarrow> sched_timer s' = Some (balance_timeout s))"
  using assms
proof (induction n arbitrary: s)
  case 0
  then show ?case by (auto simp: word_le_nat_alt)
next
  case (Suc n)
  obtain s1 where s1: "balance_queues kernel_schedule s = Some s1" "kernel_ok (kern s1)" "slots_ok s1"
      "balance_timeout s1 = balance_timeout s" "sched_timer s1 = Some (balance_timeout s)"
      "flags (slots s1 p) = flags (slots s p)" "max_priority (slots s1 p) = max_priority (slots s p)"
      "priority (slots s1 p) = (if priority (slots s p) > max_priority (slots s p)
        then priority (slots s p) - 1 else priority (slots s p))"
    using balance_queues_runs [OF Suc.prems(2,1)] Suc.prems(3-5) by auto
  have ge: "priority (slots s1 p) \<ge> max_priority (slots s1 p)"
    using s1(7,8) Suc.prems(6) unat_dec [of "max_priority (slots s p)" "priority (slots s p)"] by auto
  obtain s' where s': "balance_rounds n s1 = Some s'" "slots_ok s'" "kernel_ok (kern s')"
      "unat (priority (slots s' p)) = max (unat (max_priority (slots s1 p))) (unat (priority (slots s1 p)) - n)"
      "0 < n \<longrightarrow> sched_timer s' = Some (balance_timeout s1)"
    using Suc.IH [OF s1(3,2) Suc.prems(3,4) _ ge] s1(6) Suc.prems(5) by auto
  have "unat (priority (slots s' p)) = max (unat (max_priority (slots s p))) (unat (priority (slots s p)) - Suc n)"
  proof (cases "priority (slots s p) > max_priority (slots s p)")
    case True
    then show ?thesis using s'(4) s1(7,8) unat_dec [OF True] by simp
  next
    case False
    then have "priority (slots s p) = max_priority (slots s p)" using Suc.prems(6) by simp
    then show ?thesis using s'(4) s1(7,8) by simp
  qed
  moreover have "sched_timer s' = Some (balance_timeout s)"
    using s'(1,5) s1(4,5) by (cases n) auto
  ultimately show ?case using s1(1) s'(1-3) by simp
qed

theorem balancing_restores_witness:
  "\<exists>s'. balance_rounds 3 demo_sched = Some s' \<and> unat (priority (slots s' 1)) = 7"
proof -
  have h: "(0::int) \<le> 1" "(1::int) < NR_PROCS" "has (flags (slots demo_sched 1)) IN_USE"
      "priority (slots demo_sched 1) \<ge> max_priority (slots demo_sched 1)"
    by (simp_all add: NR_PROCS_def demo_sched_def demo_slot_def has_def IN_USE_def)
  from balancing_restores [OF demo_sched_ok h, of 3] show ?thesis
    by (auto simp: demo_sched_def demo_slot_def)
qed

end
