(* ===== verification/User_Semaphore.thy ===== *)
theory User_Semaphore
  imports Prelude
begin

text \<open>
  The semaphores of \<^verbatim>\<open>program_assignment_3\<close> as user programs see them (\<^verbatim>\<open>PA3/sem.c\<close>): a counter and
  a circular queue of process numbers in a shared memory segment.

  The body of \<open>psem_wait\<close> and \<open>psem_signal\<close> runs between \<open>PSEM_WAIT\<close> and \<open>PSEM_SIGNAL\<close> (or
  \<open>PSEM_BLOCK\<close>, which releases and blocks in one call) on a semaphore of PM, the model of which is
  \<^verbatim>\<open>PM_Semaphore\<close>; it is one atomic operation here. Its result says what happens to processes:
  whether the caller blocks, and which process is woken.
\<close>

section \<open>The circular queue\<close>

text \<open>The segment; \<open>list\<close> is the array behind the four counters.\<close>

record semaphore =
  sem_value :: int
  sem_size :: int
  sem_head :: int
  sem_tail :: int
  sem_list :: "int \<Rightarrow> int"

definition sem_enqueue :: "semaphore \<Rightarrow> int \<Rightarrow> semaphore" where
  "sem_enqueue S p =
     (if sem_head S = c_rem (sem_tail S + 1) (sem_size S) then S
      else
        (let S1 = S\<lparr>sem_tail := c_rem (sem_tail S + 1) (sem_size S)\<rparr>;
             S2 = S1\<lparr>sem_list := (sem_list S1)(sem_tail S1 := p)\<rparr>
         in if sem_head S2 = - 1 then S2\<lparr>sem_head := 0\<rparr> else S2))"

definition sem_dequeue :: "semaphore \<Rightarrow> int \<times> semaphore" where
  "sem_dequeue S =
     (if sem_head S = - 1 \<and> sem_tail S = - 1 then (0, S)
      else
        (let r = sem_list S (sem_head S);
             S1 = S\<lparr>sem_head := sem_head S + 1\<rparr>;
             S2 = (if sem_head S1 = sem_size S1 then S1\<lparr>sem_head := 0\<rparr> else S1);
             S3 = (if sem_head S2 - 1 = sem_tail S2 then S2\<lparr>sem_head := - 1, sem_tail := - 1\<rparr> else S2)
         in (r, S3)))"

section \<open>Semaphore operations\<close>

text \<open>What goes to \<open>semLogfile\<close> (without the times).\<close>

datatype log_entry = Wait_Value int | To_Be_Blocked int | Signal_Value int | To_Be_Woken int int

text \<open>Shared memory segments by key; \<open>None\<close> as a result: \<open>exit(1)\<close>. A new segment holds zeros.\<close>

definition psem_init ::
  "int \<Rightarrow> int \<Rightarrow> int \<Rightarrow> bool \<Rightarrow> (int \<Rightarrow> semaphore option) \<Rightarrow> (int \<Rightarrow> semaphore option) option" where
  "psem_init n sz key init shm =
     (let old = (case shm key of
                   None \<Rightarrow> \<lparr>sem_value = 0, sem_size = 0, sem_head = 0, sem_tail = 0, sem_list = (\<lambda>_. 0)\<rparr>
                 | Some S \<Rightarrow> S)
      in if init then Some (shm(key \<mapsto> old\<lparr>sem_value := n, sem_size := sz, sem_head := - 1, sem_tail := - 1\<rparr>))
         else if shm key = None then None else Some shm)"

definition psem_destroy :: "int \<Rightarrow> (int \<Rightarrow> semaphore option) \<Rightarrow> (int \<Rightarrow> semaphore option)" where
  "psem_destroy key shm = shm(key := None)"

text \<open>\<open>pid\<close> is the number of the calling process. The flag: the caller blocks.\<close>

definition psem_wait :: "int \<Rightarrow> semaphore \<Rightarrow> semaphore \<times> bool \<times> log_entry list" where
  "psem_wait pid S =
     (let S1 = S\<lparr>sem_value := sem_value S - 1\<rparr>
      in if sem_value S1 < 0 then (sem_enqueue S1 pid, True, [Wait_Value (sem_value S1), To_Be_Blocked pid])
         else (S1, False, [Wait_Value (sem_value S1)]))"

text \<open>The process that is woken, if any.\<close>

definition psem_signal :: "int \<Rightarrow> semaphore \<Rightarrow> semaphore \<times> int option \<times> log_entry list" where
  "psem_signal pid S =
     (let S1 = S\<lparr>sem_value := sem_value S + 1\<rparr>
      in if sem_value S1 \<le> 0
         then (let (proc_nr, S2) = sem_dequeue S1
               in if proc_nr \<noteq> 0
                  then (S2, Some proc_nr, [Signal_Value (sem_value S1), To_Be_Woken proc_nr pid])
                  else (S2, None, [Signal_Value (sem_value S1)]))
         else (S1, None, [Signal_Value (sem_value S1)]))"

section \<open>The queue as a list\<close>

text \<open>
  \<open>queue_rep S xs\<close>: the circular queue holds \<open>xs\<close>, oldest first. The empty queue has head and
  tail -1; otherwise the elements lie cyclically from \<open>head\<close> to \<open>tail\<close>.
\<close>

definition queue_rep :: "semaphore \<Rightarrow> int list \<Rightarrow> bool" where
  "queue_rep S xs \<longleftrightarrow> 0 < sem_size S \<and>
     (if xs = [] then sem_head S = - 1 \<and> sem_tail S = - 1
      else 0 \<le> sem_head S \<and> sem_head S < sem_size S \<and> int (length xs) \<le> sem_size S \<and>
           sem_tail S = (sem_head S + int (length xs) - 1) mod sem_size S \<and>
           (\<forall>i < length xs. sem_list S ((sem_head S + int i) mod sem_size S) = xs ! i))"

lemma queue_rep_value [simp]: "queue_rep (S\<lparr>sem_value := v\<rparr>) xs = queue_rep S xs"
  by (simp add: queue_rep_def)

lemma mod_shift_self: "0 \<le> h \<Longrightarrow> h < n \<Longrightarrow> 0 < d \<Longrightarrow> d < n \<Longrightarrow> (h + d) mod n \<noteq> (h::int)"
  by (metis add_0 add_diff_cancel_left' diff_zero dvd_imp_le_int linorder_not_less mod_eq_dvd_iff
      mod_pos_pos_trivial order_less_imp_not_eq2 abs_of_pos zdvd_not_zless)

lemma enqueue_appends:
  assumes rep: "queue_rep S xs"
  shows "queue_rep (sem_enqueue S p) (if int (length xs) < sem_size S then xs @ [p] else xs)"
proof (cases "xs = []")
  case True
  then have S: "0 < sem_size S" "sem_head S = - 1" "sem_tail S = - 1" using rep by (simp_all add: queue_rep_def)
  then have "sem_enqueue S p = S\<lparr>sem_tail := 0, sem_list := (sem_list S)(0 := p), sem_head := 0\<rparr>"
    by (simp add: sem_enqueue_def c_rem_nonneg Let_def)
  then show ?thesis using S True by (simp add: queue_rep_def)
next
  case False
  define n where "n = sem_size S"
  define h where "h = sem_head S"
  define l where "l = int (length xs)"
  have S: "0 < n" "0 \<le> h" "h < n" "l \<le> n" "1 \<le> l" "sem_tail S = (h + l - 1) mod n"
      "\<And>i. i < length xs \<Longrightarrow> sem_list S ((h + int i) mod n) = xs ! i"
    using rep False by (auto simp: queue_rep_def n_def h_def l_def Suc_le_eq)
  have t: "0 \<le> sem_tail S" "sem_tail S < n" using S(1,6) by simp_all
  have nxt: "c_rem (sem_tail S + 1) n = (h + l) mod n"
    using t S(1) by (simp add: c_rem_nonneg S(6) mod_add_left_eq)
  show ?thesis
  proof (cases "l = n")
    case True
    then have "c_rem (sem_tail S + 1) n = h" using nxt S(2,3) by simp
    then have "sem_enqueue S p = S" by (simp add: sem_enqueue_def n_def h_def)
    then show ?thesis using True rep by (simp add: l_def n_def)
  next
    case room: False
    then have ne: "c_rem (sem_tail S + 1) n \<noteq> h"
      using nxt mod_shift_self [OF S(2,3), of l] S(4,5) by simp
    define t' where "t' = (h + l) mod n"
    have S': "sem_enqueue S p = S\<lparr>sem_tail := t', sem_list := (sem_list S)(t' := p)\<rparr>"
      using ne S(2) nxt by (simp add: sem_enqueue_def n_def h_def t'_def Let_def)
    have "sem_list (sem_enqueue S p) ((h + int i) mod n) = (xs @ [p]) ! i" if "i < Suc (length xs)" for i
    proof (cases "i = length xs")
      case True
      then show ?thesis by (simp add: S' t'_def l_def)
    next
      case False
      then have i: "i < length xs" using that by simp
      have "(h + int i) mod n \<noteq> t'"
      proof
        assume "(h + int i) mod n = t'"
        then have "(h + int i) mod n = (h + int i + (l - int i)) mod n" by (simp add: t'_def)
        then have "n dvd (h + int i + (l - int i)) - (h + int i)" by (metis mod_eq_dvd_iff)
        moreover have "0 < l - int i" "l - int i < n" using i room S(4) by (simp_all add: l_def)
        ultimately show False by (simp add: zdvd_not_zless)
      qed
      then show ?thesis using S(7) [OF i] i by (simp add: S' nth_append)
    qed
    moreover have "int (length xs) < n" using room S(4) by (simp add: l_def)
    ultimately show ?thesis using S(1-3) by (simp add: queue_rep_def S' t'_def l_def flip: n_def h_def)
  qed
qed

lemma dequeue_takes_first:
  assumes rep: "queue_rep S (x # xs)"
  shows "fst (sem_dequeue S) = x"
    and "xs \<noteq> [] \<or> sem_tail S \<noteq> sem_size S - 1 \<Longrightarrow> queue_rep (snd (sem_dequeue S)) xs"
    and "xs = [] \<Longrightarrow> sem_tail S = sem_size S - 1 \<Longrightarrow> snd (sem_dequeue S) = S\<lparr>sem_head := 0\<rparr>"
proof -
  define n where "n = sem_size S"
  define h where "h = sem_head S"
  have S: "0 < n" "0 \<le> h" "h < n" "int (length xs) < n" "sem_tail S = (h + int (length xs)) mod n"
      "\<And>i. i < Suc (length xs) \<Longrightarrow> sem_list S ((h + int i) mod n) = (x # xs) ! i"
    using rep by (auto simp: queue_rep_def n_def h_def)
  have t0: "0 \<le> sem_tail S" using S(1,5) by simp
  have first: "sem_list S h = x" using S(6) [of 0] S(2,3) by simp
  define h' where "h' = (if h + 1 = n then 0 else h + 1)"
  have run: "sem_dequeue S = (x, if h' - 1 = sem_tail S then S\<lparr>sem_head := - 1, sem_tail := - 1\<rparr> else S\<lparr>sem_head := h'\<rparr>)"
    using S(2) first by (auto simp: sem_dequeue_def Let_def h'_def h_def n_def)
  then show "fst (sem_dequeue S) = x" by simp
  have h'_mod: "h' = (h + 1) mod n" using S(2,3) by (auto simp: h'_def)
  show "queue_rep (snd (sem_dequeue S)) xs" if "xs \<noteq> [] \<or> sem_tail S \<noteq> sem_size S - 1"
  proof (cases "xs = []")
    case True
    then have "sem_tail S = h" using S(2,3,5) by simp
    moreover from this have "h' = h + 1" using that True by (auto simp: h'_def n_def)
    ultimately show ?thesis using run True S(1) by (simp add: queue_rep_def n_def)
  next
    case False
    define l where "l = int (length xs)"
    have l: "1 \<le> l" "l < n" using False S(4) by (simp_all add: l_def Suc_le_eq)
    have "h' - 1 \<noteq> sem_tail S"
    proof (cases "h + 1 = n")
      case True
      then show ?thesis using t0 by (simp add: h'_def)
    next
      case False
      have "(h + l) mod n \<noteq> h" by (rule mod_shift_self [OF S(2,3)]) (use l in simp_all)
      then show ?thesis using False by (simp add: h'_def S(5) l_def)
    qed
    then have S': "snd (sem_dequeue S) = S\<lparr>sem_head := h'\<rparr>" using run by simp
    have "sem_tail S = (h' + l - 1) mod n"
    proof -
      have "(h' + l - 1) mod n = ((h + 1) mod n + (l - 1)) mod n" by (simp add: h'_mod add_diff_eq)
      also have "\<dots> = (h + l) mod n" by (subst mod_add_left_eq) (simp add: algebra_simps)
      finally show ?thesis by (simp add: S(5) l_def)
    qed
    moreover have "sem_list S ((h' + int i) mod n) = xs ! i" if "i < length xs" for i
    proof -
      have "(h' + int i) mod n = (h + int (Suc i)) mod n"
        by (simp add: h'_mod mod_simps algebra_simps)
      then show ?thesis using S(6) [of "Suc i"] that by simp
    qed
    moreover have "0 \<le> h'" "h' < n" using S(1) by (simp_all add: h'_mod)
    ultimately show ?thesis using False l S(1)
      unfolding S' by (simp add: queue_rep_def l_def flip: n_def)
  qed
  show "snd (sem_dequeue S) = S\<lparr>sem_head := 0\<rparr>" if "xs = []" "sem_tail S = sem_size S - 1"
  proof -
    have "sem_tail S = h" using S(2,3,5) that(1) by simp
    then have "h' = 0" "h = n - 1" using that(2) by (simp_all add: h'_def n_def)
    then show ?thesis using run S(1,2) \<open>sem_tail S = h\<close> by simp
  qed
qed

lemma dequeue_empty: "queue_rep S [] \<Longrightarrow> sem_dequeue S = (0, S)"
  by (simp add: queue_rep_def sem_dequeue_def)

text \<open>After the wrap of the last slot the queue counts as full, with whatever the array holds.\<close>

lemma wrapped_queue_is_full:
  assumes "0 < sem_size S" "sem_head S = 0" "sem_tail S = sem_size S - 1"
  shows "queue_rep S (map (sem_list S) [0..sem_size S - 1])"
proof -
  define n where "n = sem_size S"
  define xs where "xs = map (sem_list S) [0..n - 1]"
  have n: "0 < n" "int (length xs) = n" "xs \<noteq> []" using assms(1) by (simp_all add: n_def xs_def)
  have "xs ! i = sem_list S (int i mod n)" if "i < length xs" for i
    using that n(1) by (simp add: xs_def nth_upto)
  moreover have "(n - 1) mod n = n - 1" by (rule mod_pos_pos_trivial) (use n in simp_all)
  ultimately have "queue_rep S xs"
    unfolding queue_rep_def n(2) assms(2,3) n_def [symmetric] using n(1,3) by (simp only: add_0) auto
  then show ?thesis by (simp add: xs_def n_def)
qed

text \<open>A queue that never holds more than one process stays in slot 0.\<close>

lemma enqueue_single:
  assumes "queue_rep S []" "1 < sem_size S"
  shows "queue_rep (sem_enqueue S p) [p]" "sem_tail (sem_enqueue S p) = 0" "sem_size (sem_enqueue S p) = sem_size S"
    "sem_value (sem_enqueue S p) = sem_value S"
  using enqueue_appends [OF assms(1), of p] assms
  by (simp_all add: queue_rep_def sem_enqueue_def c_rem_nonneg Let_def)

section \<open>Properties\<close>



end
