(* ===== verification/Readers_Writers.thy ===== *)
theory Readers_Writers
  imports User_Semaphore
begin

text \<open>
  The readers-writers programs of \<^verbatim>\<open>program_assignment_3\<close> (\<^verbatim>\<open>PA3/reader.c\<close>, \<^verbatim>\<open>PA3/writer.c\<close>,
  launched by \<^verbatim>\<open>PA3/reader_writer.c\<close>): two readers and a writer share a mailbox \<open>buffer\<close>, a
  count of readers and two semaphores of \<^verbatim>\<open>User_Semaphore\<close>. A step is one statement of one
  process; any process that is not asleep on a semaphore may take the next one. The programs
  call \<open>sem_wait\<close> and \<open>sem_post\<close>, which \<^verbatim>\<open>sem.c\<close> defines under the names \<open>psem_wait\<close> and
  \<open>psem_signal\<close>. Mutual exclusion is proved of the code's own circular queues.
\<close>

section \<open>Programs\<close>

text \<open>The statement a process executes next.\<close>

datatype pc =
    R_Wait_M | R_Inc | R_Wait_W | R_Post_M | R_Read | R_Wait_M2 | R_Dec | R_Post_W | R_Post_M2
  | W_Scan | W_Wait | W_Write | W_Post | W_Done

text \<open>\<open>printed\<close>: the numbers that were printed as received or written, with the process.\<close>

record rw =
  sem_m :: semaphore
  sem_w :: semaphore
  rd_count :: int
  buffer :: int
  input :: int
  pc :: "int \<Rightarrow> pc"
  asleep :: "int \<Rightarrow> bool"
  printed :: "(int \<times> int) list"

definition goto :: "int \<Rightarrow> pc \<Rightarrow> rw \<Rightarrow> rw" where
  "goto p c s = s\<lparr>pc := (pc s)(p := c)\<rparr>"

definition wake :: "int option \<Rightarrow> rw \<Rightarrow> rw" where
  "wake q s = (case q of None \<Rightarrow> s | Some p \<Rightarrow> s\<lparr>asleep := (asleep s)(p := False)\<rparr>)"

definition wait_m :: "int \<Rightarrow> rw \<Rightarrow> rw" where
  "wait_m p s = (case psem_wait p (sem_m s) of (S, b, _) \<Rightarrow> s\<lparr>sem_m := S, asleep := (asleep s)(p := b)\<rparr>)"

definition wait_w :: "int \<Rightarrow> rw \<Rightarrow> rw" where
  "wait_w p s = (case psem_wait p (sem_w s) of (S, b, _) \<Rightarrow> s\<lparr>sem_w := S, asleep := (asleep s)(p := b)\<rparr>)"

definition post_m :: "int \<Rightarrow> rw \<Rightarrow> rw" where
  "post_m p s = (case psem_signal p (sem_m s) of (S, q, _) \<Rightarrow> wake q (s\<lparr>sem_m := S\<rparr>))"

definition post_w :: "int \<Rightarrow> rw \<Rightarrow> rw" where
  "post_w p s = (case psem_signal p (sem_w s) of (S, q, _) \<Rightarrow> wake q (s\<lparr>sem_w := S\<rparr>))"

definition reader_step :: "int \<Rightarrow> rw \<Rightarrow> rw" where
  "reader_step p s =
     (case pc s p of
        R_Wait_M \<Rightarrow> goto p R_Inc (wait_m p s)
      | R_Inc \<Rightarrow>
          (let s1 = s\<lparr>rd_count := rd_count s + 1\<rparr>
           in goto p (if rd_count s1 = 1 then R_Wait_W else R_Post_M) s1)
      | R_Wait_W \<Rightarrow> goto p R_Post_M (wait_w p s)
      | R_Post_M \<Rightarrow> goto p R_Read (post_m p s)
      | R_Read \<Rightarrow> goto p R_Wait_M2 (s\<lparr>printed := printed s @ [(p, buffer s)]\<rparr>)
      | R_Wait_M2 \<Rightarrow> goto p R_Dec (wait_m p s)
      | R_Dec \<Rightarrow>
          (let s1 = s\<lparr>rd_count := rd_count s - 1\<rparr>
           in goto p (if rd_count s1 = 0 then R_Post_W else R_Post_M2) s1)
      | R_Post_W \<Rightarrow> goto p R_Post_M2 (post_w p s)
      | R_Post_M2 \<Rightarrow> goto p R_Wait_M (post_m p s)
      | _ \<Rightarrow> s)"

text \<open>\<open>scanned\<close> is what \<open>scanf\<close> reads: a number, or the end of the input.\<close>

definition writer_step :: "int option \<Rightarrow> int \<Rightarrow> rw \<Rightarrow> rw" where
  "writer_step scanned p s =
     (case pc s p of
        W_Scan \<Rightarrow>
          (case scanned of None \<Rightarrow> goto p W_Done s | Some n \<Rightarrow> goto p W_Wait (s\<lparr>input := n\<rparr>))
      | W_Wait \<Rightarrow> goto p W_Write (wait_w p s)
      | W_Write \<Rightarrow> goto p W_Post (s\<lparr>buffer := input s, printed := printed s @ [(p, input s)]\<rparr>)
      | W_Post \<Rightarrow> goto p W_Scan (post_w p s)
      | _ \<Rightarrow> s)"

text \<open>\<^verbatim>\<open>reader_writer.c\<close>: the two semaphores, the reader count and the three processes.\<close>

definition rw_launch ::
  "(int \<Rightarrow> semaphore option) \<Rightarrow> int \<Rightarrow> int \<Rightarrow> int \<Rightarrow> int \<Rightarrow> rw option" where
  "rw_launch shm b r1 r2 w =
     (case psem_init 1 3 9877 True shm of
        None \<Rightarrow> None
      | Some shm1 \<Rightarrow>
          (case psem_init 1 3 9878 True shm1 of
             None \<Rightarrow> None
           | Some shm2 \<Rightarrow>
               (case (shm2 9877, shm2 9878) of
                  (Some sm, Some sw) \<Rightarrow>
                    Some \<lparr>sem_m = sm, sem_w = sw, rd_count = 0, buffer = b, input = 0,
                          pc = (\<lambda>p. if p = w then W_Scan else R_Wait_M), asleep = (\<lambda>_. False), printed = []\<rparr>
                | _ \<Rightarrow> None)))"

inductive rw_step :: "int \<Rightarrow> int \<Rightarrow> int \<Rightarrow> rw \<Rightarrow> rw \<Rightarrow> bool" for r1 r2 w where
  reader1: "\<not> asleep s r1 \<Longrightarrow> rw_step r1 r2 w s (reader_step r1 s)"
| reader2: "\<not> asleep s r2 \<Longrightarrow> rw_step r1 r2 w s (reader_step r2 s)"
| writer: "\<not> asleep s w \<Longrightarrow> rw_step r1 r2 w s (writer_step scanned w s)"

inductive rw_reachable :: "int \<Rightarrow> int \<Rightarrow> int \<Rightarrow> rw \<Rightarrow> bool" for r1 r2 w where
  launch: "rw_launch shm b r1 r2 w = Some s \<Longrightarrow> rw_reachable r1 r2 w s"
| step: "rw_reachable r1 r2 w s \<Longrightarrow> rw_step r1 r2 w s s' \<Longrightarrow> rw_reachable r1 r2 w s'"

section \<open>Semaphores with at most one sleeper\<close>

definition sem_state :: "semaphore \<Rightarrow> int \<Rightarrow> int list \<Rightarrow> bool" where
  "sem_state S v q \<longleftrightarrow> sem_value S = v \<and> sem_size S = 3 \<and> queue_rep S q \<and> sem_tail S \<le> 0"

lemma psem_wait_free:
  "sem_state S 1 [] \<Longrightarrow> \<exists>S' l. psem_wait p S = (S', False, l) \<and> sem_state S' 0 []"
  by (auto simp: psem_wait_def sem_state_def Let_def queue_rep_def)

lemma psem_wait_busy:
  assumes "sem_state S 0 []"
  shows "\<exists>S' l. psem_wait p S = (S', True, l) \<and> sem_state S' (- 1) [p]"
proof -
  have "queue_rep (S\<lparr>sem_value := - 1\<rparr>) []" "1 < sem_size (S\<lparr>sem_value := - 1\<rparr>)"
    using assms by (simp_all add: sem_state_def)
  note e = enqueue_single [OF this, of p]
  show ?thesis using assms e by (simp add: psem_wait_def sem_state_def Let_def)
qed

lemma psem_signal_quiet:
  "sem_state S 0 [] \<Longrightarrow> \<exists>S' l. psem_signal p S = (S', None, l) \<and> sem_state S' 1 []"
  by (auto simp: psem_signal_def sem_state_def Let_def queue_rep_def)

lemma psem_signal_wakes:
  assumes "sem_state S (- 1) [q]" "q \<noteq> 0"
  shows "\<exists>S' l. psem_signal p S = (S', Some q, l) \<and> sem_state S' 0 []"
proof -
  define S1 where "S1 = S\<lparr>sem_value := 0\<rparr>"
  have rep: "queue_rep S1 [q]" and t: "sem_tail S1 \<noteq> sem_size S1 - 1"
    using assms(1) by (simp_all add: sem_state_def S1_def)
  have d: "fst (sem_dequeue S1) = q" "queue_rep (snd (sem_dequeue S1)) []"
    using dequeue_takes_first(1,2) [OF rep] t by simp_all
  have f: "sem_value (snd (sem_dequeue S1)) = 0" "sem_size (snd (sem_dequeue S1)) = 3"
    using assms(1) by (simp_all add: sem_dequeue_def Let_def S1_def sem_state_def)
  have tl: "sem_tail (snd (sem_dequeue S1)) \<le> 0" using d(2) by (simp add: queue_rep_def)
  have "psem_signal p S = (snd (sem_dequeue S1), Some q, [Signal_Value 0, To_Be_Woken q p])"
    using assms d(1) unfolding psem_signal_def S1_def
    by (simp add: sem_state_def Let_def case_prod_beta)
  then show ?thesis using d(2) f tl by (simp add: sem_state_def)
qed

section \<open>The invariant\<close>

fun in_m :: "pc \<Rightarrow> bool" where
  "in_m R_Inc = True" | "in_m R_Wait_W = True" | "in_m R_Post_M = True" | "in_m R_Dec = True"
| "in_m R_Post_W = True" | "in_m R_Post_M2 = True" | "in_m _ = False"

fun counted :: "pc \<Rightarrow> bool" where
  "counted R_Wait_W = True" | "counted R_Post_M = True" | "counted R_Read = True"
| "counted R_Wait_M2 = True" | "counted R_Dec = True" | "counted _ = False"

fun in_w :: "pc \<Rightarrow> bool" where
  "in_w W_Write = True" | "in_w W_Post = True" | "in_w _ = False"

text \<open>The readers have asked for \<open>sem_w\<close> and not given it back.\<close>

definition group_w :: "pc \<Rightarrow> pc \<Rightarrow> bool" where
  "group_w c c' \<longleftrightarrow> c = R_Post_W \<or> c' = R_Post_W \<or>
     ((counted c \<or> counted c') \<and> c \<noteq> R_Wait_W \<and> c' \<noteq> R_Wait_W)"

fun m_sleeps :: "pc \<Rightarrow> bool \<Rightarrow> bool" where
  "m_sleeps R_Inc a = a" | "m_sleeps R_Dec a = a" | "m_sleeps _ a = False"

fun w_sleeps :: "pc \<Rightarrow> bool \<Rightarrow> bool" where
  "w_sleeps R_Post_M a = a" | "w_sleeps W_Write a = a" | "w_sleeps _ a = False"

fun reader_pc :: "pc \<Rightarrow> bool" where
  "reader_pc W_Scan = False" | "reader_pc W_Wait = False" | "reader_pc W_Write = False"
| "reader_pc W_Post = False" | "reader_pc W_Done = False" | "reader_pc _ = True"

fun may_sleep :: "pc \<Rightarrow> bool" where
  "may_sleep R_Inc = True" | "may_sleep R_Dec = True" | "may_sleep R_Post_M = True" | "may_sleep _ = False"

definition side :: "pc \<Rightarrow> bool \<Rightarrow> pc \<Rightarrow> bool" where
  "side c a c' \<longleftrightarrow> reader_pc c \<and> (a \<longrightarrow> may_sleep c) \<and>
     (c = R_Wait_W \<or> c = R_Post_W \<or> w_sleeps c a \<longrightarrow> \<not> counted c')"

definition control :: "pc \<Rightarrow> bool \<Rightarrow> pc \<Rightarrow> bool \<Rightarrow> pc \<Rightarrow> bool \<Rightarrow> bool" where
  "control c a c' a' d e \<longleftrightarrow>
     side c a c' \<and> side c' a' c \<and> \<not> reader_pc d \<and> (e \<longrightarrow> d = W_Write) \<and>
     (in_m c \<and> in_m c' \<longleftrightarrow> m_sleeps c a \<or> m_sleeps c' a') \<and> \<not> (m_sleeps c a \<and> m_sleeps c' a') \<and>
     (group_w c c' \<and> in_w d \<longleftrightarrow> w_sleeps c a \<or> w_sleeps c' a' \<or> w_sleeps d e) \<and>
     \<not> (w_sleeps c a \<and> w_sleeps c' a') \<and> \<not> ((w_sleeps c a \<or> w_sleeps c' a') \<and> w_sleeps d e)"

text \<open>A semaphore that \<open>i\<close> and \<open>i'\<close> have taken, with the processes marked in \<open>qs\<close> asleep on it.\<close>

definition taken :: "semaphore \<Rightarrow> bool \<Rightarrow> bool \<Rightarrow> (int \<times> bool) list \<Rightarrow> bool" where
  "taken S i i' qs \<longleftrightarrow> sem_state S (1 - of_bool i - of_bool i') (map fst (filter snd qs))"

definition rw_inv :: "int \<Rightarrow> int \<Rightarrow> int \<Rightarrow> rw \<Rightarrow> bool" where
  "rw_inv r r' w s \<longleftrightarrow>
     control (pc s r) (asleep s r) (pc s r') (asleep s r') (pc s w) (asleep s w) \<and>
     rd_count s = of_bool (counted (pc s r)) + of_bool (counted (pc s r')) \<and>
     taken (sem_m s) (in_m (pc s r)) (in_m (pc s r'))
       [(r, m_sleeps (pc s r) (asleep s r)), (r', m_sleeps (pc s r') (asleep s r'))] \<and>
     taken (sem_w s) (group_w (pc s r) (pc s r')) (in_w (pc s w))
       [(r, w_sleeps (pc s r) (asleep s r)), (r', w_sleeps (pc s r') (asleep s r')),
        (w, w_sleeps (pc s w) (asleep s w))]"

lemmas rw_defs = control_def side_def group_w_def

lemma group_w_swap: "group_w c c' = group_w c' c"
  by (auto simp: group_w_def)

lemma control_swap: "control c a c' a' d e \<Longrightarrow> control c' a' c a d e"
  unfolding control_def group_w_swap [of c c'] by blast

lemma taken_swap:
  "taken S i i' [(r, z), (r', z')] \<Longrightarrow> \<not> (z \<and> z') \<Longrightarrow> taken S i' i [(r', z'), (r, z)]"
  "taken S j k [(r, z), (r', z'), x] \<Longrightarrow> \<not> (z \<and> z') \<Longrightarrow> taken S j k [(r', z'), (r, z), x]"
  by (auto simp: taken_def algebra_simps)

lemma rw_inv_swap:
  assumes "rw_inv r r' w s"
  shows "rw_inv r' r w s"
proof -
  have c: "control (pc s r) (asleep s r) (pc s r') (asleep s r') (pc s w) (asleep s w)"
    using assms by (simp add: rw_inv_def)
  then have m: "\<not> (m_sleeps (pc s r) (asleep s r) \<and> m_sleeps (pc s r') (asleep s r'))"
    and w: "\<not> (w_sleeps (pc s r) (asleep s r) \<and> w_sleeps (pc s r') (asleep s r'))"
    unfolding control_def by blast+
  show ?thesis
    using assms control_swap [OF c] taken_swap(1) [OF _ m] taken_swap(2) [OF _ w]
    unfolding rw_inv_def group_w_swap [of "pc s r'"] by (simp add: add.commute)
qed

section \<open>Every step keeps the invariant\<close>

lemma goto_sel [simp]:
  "sem_m (goto p c s) = sem_m s" "sem_w (goto p c s) = sem_w s" "rd_count (goto p c s) = rd_count s"
  "buffer (goto p c s) = buffer s" "asleep (goto p c s) = asleep s" "pc (goto p c s) = (pc s)(p := c)"
  "printed (goto p c s) = printed s" "input (goto p c s) = input s"
  by (simp_all add: goto_def)

text \<open>The moves on the control state alone; \<open>a'\<close> and \<open>e\<close> tell who else sleeps.\<close>

lemma control_wait_m1:
  "control R_Wait_M False c' a' d e \<Longrightarrow> control R_Inc (in_m c') c' a' d e"
  by (cases c'; simp add: rw_defs; cases d; simp)

lemma control_wait_m2:
  "control R_Wait_M2 False c' a' d e \<Longrightarrow> control R_Dec (in_m c') c' a' d e"
  by (cases c'; simp add: rw_defs; cases d; simp)

lemma control_inc1:
  "control R_Inc False c' a' d e \<Longrightarrow> \<not> counted c' \<Longrightarrow> control R_Wait_W False c' a' d e"
  by (cases c'; simp add: rw_defs; cases d; simp)

lemma control_inc2:
  "control R_Inc False c' a' d e \<Longrightarrow> counted c' \<Longrightarrow> control R_Post_M False c' a' d e"
  by (cases c'; simp add: rw_defs; cases d; simp)

lemma control_wait_w:
  "control R_Wait_W False c' a' d e \<Longrightarrow> control R_Post_M (in_w d) c' a' d e"
  by (cases c'; simp add: rw_defs; cases d; simp)

lemma control_read:
  "control R_Read False c' a' d e \<Longrightarrow> control R_Wait_M2 False c' a' d e"
  by (cases c'; simp add: rw_defs; cases d; simp)

lemma control_dec1:
  "control R_Dec False c' a' d e \<Longrightarrow> \<not> counted c' \<Longrightarrow> control R_Post_W False c' a' d e"
  by (cases c'; simp add: rw_defs; cases d; simp)

lemma control_dec2:
  "control R_Dec False c' a' d e \<Longrightarrow> counted c' \<Longrightarrow> control R_Post_M2 False c' a' d e"
  by (cases c'; simp add: rw_defs; cases d; simp)

lemma control_post_w:
  "control R_Post_W False c' a' d e \<Longrightarrow> control R_Post_M2 False c' a' d False"
  by (cases c'; simp add: rw_defs; cases d; simp)

lemma control_post_m:
  "control R_Post_M False c' a' d e \<Longrightarrow> control R_Read False c' (a' \<and> \<not> m_sleeps c' a') d e"
  by (cases c'; simp add: rw_defs; cases d; simp)

lemma control_post_m2:
  "control R_Post_M2 False c' a' d e \<Longrightarrow> control R_Wait_M False c' (a' \<and> \<not> m_sleeps c' a') d e"
  by (cases c'; simp add: rw_defs; cases d; simp)

lemma control_w_wait:
  "control c a c' a' W_Wait False \<Longrightarrow> control c a c' a' W_Write (group_w c c')"
  by (cases c; simp add: rw_defs; cases c'; simp)

lemma control_w_post:
  "control c a c' a' W_Post False \<Longrightarrow> control c (a \<and> \<not> w_sleeps c a) c' (a' \<and> \<not> w_sleeps c' a') W_Scan False"
  by (cases c; simp add: rw_defs; cases c'; simp)

lemma group_w_moves:
  "group_w R_Inc c' = group_w R_Wait_M c'" "group_w R_Dec c' = group_w R_Wait_M2 c'"
  "group_w R_Wait_M2 c' = group_w R_Read c'" "group_w R_Read c' = group_w R_Post_M c'"
  "group_w R_Post_M2 c' = group_w R_Wait_M c'"
  by (simp_all add: group_w_def)

text \<open>\<open>psem_wait\<close> and \<open>psem_signal\<close> in these terms.\<close>

lemma wait_taken:
  assumes "taken S False i [(p, False)]"
  shows "\<exists>S' l. psem_wait p S = (S', i, l) \<and> taken S' True i [(p, i)]"
  using assms psem_wait_free [of S p] psem_wait_busy [of S p] by (cases i) (auto simp: taken_def)

lemma signal_taken:
  assumes "taken S True i [(q, i)]" "q \<noteq> 0"
  shows "\<exists>S' l. psem_signal p S = (S', if i then Some q else None, l) \<and> taken S' False i [(q, False)]"
  using assms psem_signal_quiet [of S p] psem_signal_wakes [of S q p] by (cases i) (auto simp: taken_def)

lemma awake_sleeps [simp]: "\<not> m_sleeps c False" "\<not> w_sleeps c False"
  by (cases c; simp)+

lemma sleeps_asleep: "w_sleeps c a \<Longrightarrow> a" "m_sleeps c a \<Longrightarrow> a" "w_sleeps c a \<Longrightarrow> \<not> m_sleeps c a"
  by (cases c; simp)+

lemma taken_awake [simp]:
  "taken S i i' ((p, False) # qs) = taken S i i' qs"
  "taken S i i' (x # (p, False) # qs) = taken S i i' (x # qs)"
  "taken S i i' [x, y, (p, False)] = taken S i i' [x, y]"
  by (simp_all add: taken_def)

lemma wait_m_keeps:
  assumes inv: "rw_inv r r' w s" and d: "distinct [r, r', w]" and run: "\<not> asleep s r"
    and at: "pc s r = R_Wait_M \<and> c1 = R_Inc \<or> pc s r = R_Wait_M2 \<and> c1 = R_Dec"
  shows "rw_inv r r' w (goto r c1 (wait_m r s))"
proof -
  let ?c' = "pc s r'" and ?a' = "asleep s r'" and ?d = "pc s w" and ?e = "asleep s w"
  have c: "control (pc s r) False ?c' ?a' ?d ?e" using inv run by (simp add: rw_inv_def)
  have m: "\<not> m_sleeps ?c' ?a'" using c at by (auto simp: control_def)
  have "taken (sem_m s) False (in_m ?c') [(r, False)]"
    using inv at m run by (auto simp: rw_inv_def)
  from wait_taken [OF this] obtain S' l where S': "psem_wait r (sem_m s) = (S', in_m ?c', l)"
      "taken S' True (in_m ?c') [(r, in_m ?c')]" by blast
  from at show ?thesis
  proof
    assume p: "pc s r = R_Wait_M \<and> c1 = R_Inc"
    then show ?thesis
      using inv d run S' m control_wait_m1 [of ?c' ?a' ?d ?e] by (simp add: rw_inv_def wait_m_def group_w_moves)
  next
    assume p: "pc s r = R_Wait_M2 \<and> c1 = R_Dec"
    then show ?thesis
      using inv d run S' m control_wait_m2 [of ?c' ?a' ?d ?e] by (simp add: rw_inv_def wait_m_def group_w_moves)
  qed
qed

lemma count_keeps:
  assumes inv: "rw_inv r r' w s" and d: "distinct [r, r', w]" and run: "\<not> asleep s r"
    and at: "pc s r = R_Inc \<or> pc s r = R_Dec \<or> pc s r = R_Read"
  shows "rw_inv r r' w (reader_step r s)"
proof -
  let ?c' = "pc s r'" and ?a' = "asleep s r'" and ?d = "pc s w" and ?e = "asleep s w"
  have g: "\<not> counted ?c' \<Longrightarrow> group_w R_Wait_W ?c' = group_w R_Inc ?c'"
      "counted ?c' \<Longrightarrow> ?c' \<noteq> R_Wait_W \<Longrightarrow> group_w R_Post_M ?c' = group_w R_Inc ?c'"
      "\<not> counted ?c' \<Longrightarrow> group_w R_Post_W ?c' = group_w R_Dec ?c' \<or> ?c' = R_Wait_W"
      "counted ?c' \<Longrightarrow> ?c' \<noteq> R_Wait_W \<Longrightarrow> group_w R_Post_M2 ?c' = group_w R_Dec ?c'"
    by (auto simp: group_w_def)
  have h: "pc s r = R_Inc \<or> pc s r = R_Dec \<Longrightarrow> ?c' \<noteq> R_Wait_W"
    using inv run by (auto simp: rw_inv_def control_def)
  from at consider "pc s r = R_Inc" | "pc s r = R_Dec" | "pc s r = R_Read" by blast
  then show ?thesis
  proof cases
    case 1
    then show ?thesis
      using inv d run g h control_inc1 [of ?c' ?a' ?d ?e] control_inc2 [of ?c' ?a' ?d ?e]
      by (cases "counted ?c'") (simp_all add: rw_inv_def reader_step_def Let_def)
  next
    case 2
    then show ?thesis
      using inv d run g h control_dec1 [of ?c' ?a' ?d ?e] control_dec2 [of ?c' ?a' ?d ?e]
      by (cases "counted ?c'") (simp_all add: rw_inv_def reader_step_def Let_def)
  next
    case 3
    then show ?thesis
      using inv d run control_read [of ?c' ?a' ?d ?e]
      by (simp add: rw_inv_def reader_step_def group_w_moves)
  qed
qed

lemma wait_w_keeps:
  assumes inv: "rw_inv r r' w s" and d: "distinct [r, r', w]" and run: "\<not> asleep s r"
    and at: "pc s r = R_Wait_W"
  shows "rw_inv r r' w (goto r R_Post_M (wait_w r s))"
proof -
  let ?c' = "pc s r'" and ?a' = "asleep s r'" and ?d = "pc s w" and ?e = "asleep s w"
  have c: "control R_Wait_W False ?c' ?a' ?d ?e" using inv run at by (simp add: rw_inv_def)
  then have n: "\<not> counted ?c'" "?c' \<noteq> R_Post_W" by (auto simp: rw_defs)
  then have g: "\<not> group_w R_Wait_W ?c'" "group_w R_Post_M ?c'" "?c' \<noteq> R_Wait_W" by (auto simp: group_w_def)
  then have sl: "\<not> w_sleeps ?c' ?a'" "\<not> w_sleeps ?d ?e" using c by (auto simp: control_def)
  have "taken (sem_w s) False (in_w ?d) [(r, False)]"
    using inv at g sl run by (simp add: rw_inv_def)
  from wait_taken [OF this] obtain S' l where S': "psem_wait r (sem_w s) = (S', in_w ?d, l)"
      "taken S' True (in_w ?d) [(r, in_w ?d)]" by blast
  show ?thesis
    using inv at d run S' g sl n control_wait_w [of ?c' ?a' ?d ?e] by (simp add: rw_inv_def wait_w_def)
qed

lemma post_m_keeps:
  assumes inv: "rw_inv r r' w s" and d: "distinct [r, r', w]" and pos: "r' \<noteq> 0" and run: "\<not> asleep s r"
    and at: "pc s r = R_Post_M \<and> c1 = R_Read \<or> pc s r = R_Post_M2 \<and> c1 = R_Wait_M"
  shows "rw_inv r r' w (goto r c1 (post_m r s))"
proof -
  let ?c' = "pc s r'" and ?a' = "asleep s r'" and ?d = "pc s w" and ?e = "asleep s w"
  have c: "control (pc s r) False ?c' ?a' ?d ?e" using inv run by (simp add: rw_inv_def)
  have m: "m_sleeps ?c' ?a' = in_m ?c'" using c at by (auto simp: control_def)
  have m0: "\<not> m_sleeps ?c' False" and ma: "m_sleeps ?c' ?a' \<Longrightarrow> ?a'" by (cases ?c'; simp)+
  have wa: "w_sleeps ?c' (?a' \<and> \<not> m_sleeps ?c' ?a') = w_sleeps ?c' ?a'"  by (cases ?c'; simp)
  have "taken (sem_m s) True (in_m ?c') [(r', in_m ?c')]"
    using inv at m run by (auto simp: rw_inv_def)
  from signal_taken [OF this pos, of r] obtain S' l where
    S': "psem_signal r (sem_m s) = (S', if in_m ?c' then Some r' else None, l)"
      "taken S' False (in_m ?c') []" by auto
  from at show ?thesis
  proof
    assume p: "pc s r = R_Post_M \<and> c1 = R_Read"
    then show ?thesis
      using inv d run S' m m0 ma wa control_post_m [of ?c' ?a' ?d ?e]
      by (cases "in_m ?c'") (simp_all add: rw_inv_def post_m_def wake_def group_w_moves)
  next
    assume p: "pc s r = R_Post_M2 \<and> c1 = R_Wait_M"
    then show ?thesis
      using inv d run S' m m0 ma wa control_post_m2 [of ?c' ?a' ?d ?e]
      by (cases "in_m ?c'") (simp_all add: rw_inv_def post_m_def wake_def group_w_moves)
  qed
qed

lemma post_w_keeps:
  assumes inv: "rw_inv r r' w s" and d: "distinct [r, r', w]" and pos: "w \<noteq> 0" and run: "\<not> asleep s r"
    and at: "pc s r = R_Post_W"
  shows "rw_inv r r' w (goto r R_Post_M2 (post_w r s))"
proof -
  let ?c' = "pc s r'" and ?a' = "asleep s r'" and ?d = "pc s w" and ?e = "asleep s w"
  have c: "control R_Post_W False ?c' ?a' ?d ?e" using inv run at by (simp add: rw_inv_def)
  then have n: "\<not> counted ?c'" "?c' \<noteq> R_Post_W" "reader_pc ?c'" by (auto simp: rw_defs)
  then have g: "group_w R_Post_W ?c'" "\<not> group_w R_Post_M2 ?c'" by (auto simp: group_w_def)
  have s': "\<not> w_sleeps ?c' ?a'" using n by (cases ?c'; simp)
  then have sl: "w_sleeps ?d ?e = in_w ?d" using c g by (auto simp: control_def)
  have e: "\<not> w_sleeps ?d ?e \<Longrightarrow> \<not> ?e" using c by (auto simp: control_def)
  have d0: "\<not> w_sleeps ?d False" by (cases ?d; simp)
  have "taken (sem_w s) True (in_w ?d) [(w, in_w ?d)]"
    using inv at g sl s' run by (simp add: rw_inv_def)
  from signal_taken [OF this pos, of r] obtain S' l where
    S': "psem_signal r (sem_w s) = (S', if in_w ?d then Some w else None, l)"
      "taken S' False (in_w ?d) []" by auto
  show ?thesis
    using inv at d run S' g sl s' e d0 control_post_w [of ?c' ?a' ?d ?e]
    by (cases "in_w ?d") (simp_all add: rw_inv_def post_w_def wake_def)
qed

lemma reader_keeps:
  assumes "rw_inv r r' w s" "distinct [r, r', w]" "r' \<noteq> 0" "w \<noteq> 0" "\<not> asleep s r"
  shows "rw_inv r r' w (reader_step r s)"
proof (cases "pc s r = R_Inc \<or> pc s r = R_Dec \<or> pc s r = R_Read")
  case True
  then show ?thesis using count_keeps assms by blast
next
  case False
  then show ?thesis
    using assms wait_m_keeps [OF assms(1,2,5)] wait_w_keeps [OF assms(1,2,5)]
      post_m_keeps [OF assms(1-3,5)] post_w_keeps [OF assms(1,2,4,5)]
    by (cases "pc s r") (simp_all add: reader_step_def)
qed

lemma writer_keeps:
  assumes inv: "rw_inv r r' w s" and d: "distinct [r, r', w]" and pos: "r \<noteq> 0" "r' \<noteq> 0"
    and run: "\<not> asleep s w"
  shows "rw_inv r r' w (writer_step scanned w s)"
proof -
  let ?c = "pc s r" and ?a = "asleep s r" and ?c' = "pc s r'" and ?a' = "asleep s r'"
  have c: "control ?c ?a ?c' ?a' (pc s w) False" using inv run by (simp add: rw_inv_def)
  then have nr: "\<not> reader_pc (pc s w)" by (simp add: control_def)
  have wait: "rw_inv r r' w (goto w W_Write (wait_w w s))" if at: "pc s w = W_Wait"
  proof -
    have sl: "\<not> w_sleeps ?c ?a" "\<not> w_sleeps ?c' ?a'" using c at by (auto simp: control_def)
    have "taken (sem_w s) False (group_w ?c ?c') [(w, False)]"
      using inv at sl run by (auto simp: rw_inv_def taken_def)
    from wait_taken [OF this] obtain S' l where S': "psem_wait w (sem_w s) = (S', group_w ?c ?c', l)"
        "taken S' True (group_w ?c ?c') [(w, group_w ?c ?c')]" by blast
    then have "taken S' (group_w ?c ?c') True [(w, group_w ?c ?c')]"
      by (simp add: taken_def algebra_simps)
    then show ?thesis
      using inv at d run S' sl control_w_wait [of ?c ?a ?c' ?a'] by (simp add: rw_inv_def wait_w_def)
  qed
  have post: "rw_inv r r' w (goto w W_Scan (post_w w s))" if at: "pc s w = W_Post"
  proof -
    have one: "\<not> (w_sleeps ?c ?a \<and> w_sleeps ?c' ?a')" "group_w ?c ?c' = (w_sleeps ?c ?a \<or> w_sleeps ?c' ?a')"
      using c at by (auto simp: control_def)
    define q where "q = (if w_sleeps ?c ?a then r else r')"
    have q0: "q \<noteq> 0" using pos by (simp add: q_def)
    have "taken (sem_w s) True (group_w ?c ?c') [(q, group_w ?c ?c')]"
      using inv at one run by (auto simp: rw_inv_def taken_def q_def algebra_simps)
    from signal_taken [OF this q0, of w] obtain S' l where
      S': "psem_signal w (sem_w s) = (S', if group_w ?c ?c' then Some q else None, l)"
        "taken S' False (group_w ?c ?c') []" by auto
    then have t: "taken S' (group_w ?c ?c') False []"
      by (simp add: taken_def algebra_simps)
    note z = sleeps_asleep [of ?c ?a] sleeps_asleep [of ?c' ?a']
    show ?thesis
    proof (cases "w_sleeps ?c ?a")
      case True
      then show ?thesis
        using inv at d run S' t one z control_w_post [of ?c ?a ?c' ?a']
        by (simp add: rw_inv_def post_w_def wake_def q_def)
    next
      case False
      then show ?thesis
        using inv at d run S' t one z control_w_post [of ?c ?a ?c' ?a']
        by (cases "w_sleeps ?c' ?a'") (simp_all add: rw_inv_def post_w_def wake_def q_def)
    qed
  qed
  have other: "rw_inv r r' w (goto w W_Done s)" "rw_inv r r' w (goto w W_Wait (s\<lparr>input := n\<rparr>))"
    if at: "pc s w = W_Scan" for n
  proof -
    have "\<not> w_sleeps ?c ?a" "\<not> w_sleeps ?c' ?a'" using c at by (auto simp: control_def)
    then show "rw_inv r r' w (goto w W_Done s)" "rw_inv r r' w (goto w W_Wait (s\<lparr>input := n\<rparr>))"
      using inv d run at by (simp_all add: rw_inv_def control_def)
  qed
  have put: "rw_inv r r' w (goto w W_Post (s\<lparr>buffer := input s, printed := printed s @ [(w, input s)]\<rparr>))" if "pc s w = W_Write"
  proof -
    have "control ?c ?a ?c' ?a' W_Post False" using c that by (simp add: control_def)
    then show ?thesis using inv d run that by (simp add: rw_inv_def)
  qed
  show ?thesis
    using inv nr wait post other put
    by (cases "pc s w") (simp_all add: writer_step_def split: option.split)
qed

section \<open>Mutual exclusion\<close>

lemma launch_state:
  assumes "rw_launch shm b r r' w = Some s"
  shows "\<exists>S T. sem_state S 1 [] \<and> sem_state T 1 [] \<and>
    s = \<lparr>sem_m = S, sem_w = T, rd_count = 0, buffer = b, input = 0,
         pc = (\<lambda>p. if p = w then W_Scan else R_Wait_M), asleep = (\<lambda>_. False), printed = []\<rparr>"
proof -
  let ?S = "\<lambda>k. (case shm k of
      None \<Rightarrow> \<lparr>sem_value = 0, sem_size = 0, sem_head = 0, sem_tail = 0, sem_list = (\<lambda>_. 0)\<rparr>
    | Some S \<Rightarrow> S)\<lparr>sem_value := 1, sem_size := 3, sem_head := - 1, sem_tail := - 1\<rparr>"
  have e: "s = \<lparr>sem_m = ?S 9877, sem_w = ?S 9878, rd_count = 0, buffer = b, input = 0,
         pc = (\<lambda>p. if p = w then W_Scan else R_Wait_M), asleep = (\<lambda>_. False), printed = []\<rparr>"
    using assms by (simp add: rw_launch_def psem_init_def Let_def)
  have q: "sem_state (?S k) 1 []" for k by (simp add: sem_state_def queue_rep_def)
  show ?thesis by (intro exI conjI, rule q, rule q, rule e)
qed

lemma launch_inv:
  assumes "rw_launch shm b r r' w = Some s" "distinct [r, r', w]"
  shows "rw_inv r r' w s"
proof -
  obtain S T where ST: "sem_state S 1 []" "sem_state T 1 []"
    and s: "s = \<lparr>sem_m = S, sem_w = T, rd_count = 0, buffer = b, input = 0,
         pc = (\<lambda>p. if p = w then W_Scan else R_Wait_M), asleep = (\<lambda>_. False), printed = []\<rparr>"
    using launch_state [OF assms(1)] by (elim exE conjE)
  have "pc s r = R_Wait_M" "pc s r' = R_Wait_M" "pc s w = W_Scan" using assms(2) by (simp_all add: s)
  then show ?thesis using ST unfolding rw_inv_def rw_defs taken_def by (simp add: s)
qed

lemma step_keeps:
  assumes "rw_step r r' w s s'" and inv: "rw_inv r r' w s" and d: "distinct [r, r', w]" "0 \<notin> {r, r', w}"
  shows "rw_inv r r' w s'"
  using assms(1)
proof cases
  case reader1
  then show ?thesis using reader_keeps [OF inv d(1)] d(2) by simp
next
  case reader2
  have "rw_inv r' r w (reader_step r' s)"
    using reader_keeps [OF rw_inv_swap [OF inv]] d reader2 by simp
  then show ?thesis using reader2 rw_inv_swap by simp
next
  case (writer scanned)
  then show ?thesis using writer_keeps [OF inv d(1)] d(2) by simp
qed

lemma reachable_inv:
  assumes "rw_reachable r r' w s" "distinct [r, r', w]" "0 \<notin> {r, r', w}"
  shows "rw_inv r r' w s"
  using assms by (induction rule: rw_reachable.induct) (use launch_inv step_keeps in blast)+

lemma control_excludes:
  assumes "control c a c' a' d e"
  shows "in_w d \<Longrightarrow> \<not> e \<Longrightarrow> c \<noteq> R_Read" "in_m c \<and> in_m c' \<longrightarrow> a \<or> a'"
proof -
  show "in_m c \<and> in_m c' \<longrightarrow> a \<or> a'" using assms sleeps_asleep(2) by (auto simp: control_def)
  assume "in_w d" "\<not> e"
  then have "\<not> group_w c c'" if "c = R_Read" "\<not> w_sleeps c' a'" using assms that by (auto simp: control_def)
  then show "c \<noteq> R_Read" using assms by (cases c'; auto simp: rw_defs)
qed



end
