(* ===== verification/Spec2Isabelle.thy ===== *)
theory Spec2Isabelle
  imports Prelude Disk_Scheduling Shell PM_Semaphore Timers Kernel_State Run_Queues Kernel_IPC Kernel_Calls
    Kernel_Frame Clock Interrupts Process_Calls Privilege_Control Live_Update Grants Grant_Library Kernel_Entry Kernel_Switch Sched_Server User_Semaphore Readers_Writers
begin

text \<open>
  A verification library for the operating-system course work under \<^verbatim>\<open>src/\<close>: a command shell
  (\<^verbatim>\<open>program_assignment_1\<close>), MINIX with a lottery scheduler (\<^verbatim>\<open>program_assignment_2/src/minix\<close>),
  counting semaphores inside PM and a readers-writers program on top of them
  (\<^verbatim>\<open>program_assignment_3/PA3\<close>), and a disk-scheduling simulator (\<^verbatim>\<open>program_assignment_4\<close>). The
  students' own code is modelled throughout; of MINIX, the parts the course work changes and
  depends on: process scheduling, message passing, the clock and interrupts, the kernel calls that drive
  them, memory grants, the way into and out of the kernel, and the scheduler server.

  \<^bold>\<open>Theories and sources.\<close>

  \<^item> \<^verbatim>\<open>Prelude\<close>: C integers, \<open>atoi\<close> and \<open>qsort\<close>, and the theory of linked chains (\<open>chain\<close>)
    that carries all proofs about pointer queues.
  \<^item> \<^verbatim>\<open>Shell\<close>: \<^verbatim>\<open>command.c\<close> and \<^verbatim>\<open>main.c\<close> of assignment 1: \<open>getCommand\<close>, \<open>anaCommand\<close>,
    \<open>exeCommand\<close>, \<open>shell_run\<close>.
  \<^item> \<^verbatim>\<open>Kernel_State\<close>: the records \<open>proc\<close>, \<open>priv\<close>, \<open>kernel\<close> for \<open>struct proc\<close>, \<open>struct priv\<close> and the
    kernel's variables (\<^verbatim>\<open>kernel/proc.h\<close>, \<^verbatim>\<open>priv.h\<close>, \<^verbatim>\<open>cpulocals.h\<close>, \<^verbatim>\<open>minix/endpoint.h\<close>), \<open>proc_init\<close>.
  \<^item> \<^verbatim>\<open>Run_Queues\<close>: the run queues and the lottery of \<^verbatim>\<open>kernel/proc.c\<close>: \<open>enqueue\<close>, \<open>enqueue_head\<close>,
    \<open>dequeue\<close>, \<open>RTS_SET\<close>, \<open>RTS_UNSET\<close>, \<open>ProcessSetPriority\<close>, \<open>pick_proc\<close>.
  \<^item> \<^verbatim>\<open>Kernel_IPC\<close>: message passing of \<^verbatim>\<open>kernel/proc.c\<close>: \<open>mini_send\<close>, \<open>mini_receive\<close>, \<open>mini_notify\<close>,
    \<open>mini_senda\<close>, \<open>deadlock\<close>, \<open>do_sync_ipc\<close>, \<open>do_ipc\<close>; signals (\<open>cause_sig\<close>) of \<^verbatim>\<open>kernel/system.c\<close>.
  \<^item> \<^verbatim>\<open>Kernel_Calls\<close>: privileges and clearing of messages (\<^verbatim>\<open>kernel/system.c\<close>) and the handlers
    of \<^verbatim>\<open>kernel/system/\<close> that schedule, fork, stop, signal and replace processes.
  \<^item> \<^verbatim>\<open>Kernel_Frame\<close>: none of these changes the current process, the clock, the hooks or identities.
  \<^item> \<^verbatim>\<open>Kernel_Entry\<close>: \<open>kernel_call\<close>, its dispatch, its end and its resumption.
  \<^item> \<^verbatim>\<open>Kernel_Switch\<close>: \<open>switch_to_user\<close> with \<open>idle\<close>, requeueing and pending work.
  \<^item> \<^verbatim>\<open>Timers\<close>: the watchdog timers of \<^verbatim>\<open>lib/libtimers\<close>: \<open>tmrs_settimer\<close>, \<open>tmrs_clrtimer\<close>, \<open>tmrs_exptimers\<close>.
  \<^item> \<^verbatim>\<open>Clock\<close>: \<^verbatim>\<open>kernel/clock.c\<close>: \<open>timer_int_handler\<close>, the kernel's timers and the calls on alarms and time.
  \<^item> \<^verbatim>\<open>Interrupts\<close>: \<^verbatim>\<open>kernel/interrupt.c\<close> and \<open>do_irqctl\<close>: the hooks of drivers and \<open>irq_handle\<close>.
  \<^item> \<^verbatim>\<open>Process_Calls\<close>: \<open>do_exec\<close>, \<open>do_clear\<close>, \<open>do_setgrant\<close>, \<open>do_diagctl\<close>, \<open>do_abort\<close>, and the invariant \<open>machine_ok\<close>.
  \<^item> \<^verbatim>\<open>Privilege_Control\<close>: \<^verbatim>\<open>kernel/system/do_privctl.c\<close>: \<open>do_privctl\<close> with all its requests.
  \<^item> \<^verbatim>\<open>Live_Update\<close>: \<^verbatim>\<open>kernel/system/do_update.c\<close>: \<open>do_update\<close>.
  \<^item> \<^verbatim>\<open>Grants\<close>: \<^verbatim>\<open>kernel/system/do_safecopy.c\<close> and \<^verbatim>\<open>do_safememset.c\<close>: \<open>verify_grant\<close>, \<open>safecopy\<close>, \<open>do_vsafecopy\<close>.
  \<^item> \<^verbatim>\<open>Grant_Library\<close>: \<^verbatim>\<open>lib/libsys/safecopies.c\<close>: the grant table of a system process, composed with \<open>do_setgrant\<close>.
  \<^item> \<^verbatim>\<open>Sched_Server\<close>: \<^verbatim>\<open>servers/sched/\<close>: the table, the request handlers, balancing, the main loop.
  \<^item> \<^verbatim>\<open>PM_Semaphore\<close>: \<^verbatim>\<open>servers/pm/psem.c\<close> of assignment 3, handlers over an explicit heap.
  \<^item> \<^verbatim>\<open>User_Semaphore\<close>, \<^verbatim>\<open>Readers_Writers\<close>: \<^verbatim>\<open>sem.c\<close>, and the interleaved loops of \<^verbatim>\<open>reader.c\<close> and
    \<^verbatim>\<open>writer.c\<close> as the step relation \<open>rw_step\<close>.
  \<^item> \<^verbatim>\<open>Disk_Scheduling\<close>: \<^verbatim>\<open>disk_scheduling.c\<close> and \<^verbatim>\<open>main.c\<close> of assignment 4.
  \<^item> This theory: the kernel as a transition system, \<open>system_step\<close>.

  \<^bold>\<open>Conventions.\<close> A function of the source is a HOL function of the same name that takes the
  state it reads and returns the state it leaves. In the kernel, the semaphores of PM and the
  timer queues a result of \<open>None\<close> stands for a panic, a failed assertion, the dereference of a
  null pointer, or a loop that never ends; result codes are the datatype \<open>code\<close>. Loops over pointer structures
  are \<open>partial_function (option)\<close> and have no fuel: the theorems state that the result is
  \<open>Some\<close>, so termination is part of what is proved. Loops over an index range are structural
  recursion, or folds. C \<open>int\<close> and \<open>unsigned\<close> values are \<open>int\<close>; where they can
  wrap (the ticket sums and the random number of the lottery, the disk totals) the wrap-around
  is written out, and \<open>disk_totals_in_range\<close> shows that the disk totals cannot. Flag words,
  clock ticks and interrupt identifiers are machine words (\<open>32 word\<close>, \<open>16 word\<close>), set and tested bitwise.

  \<^bold>\<open>Parameters.\<close> What is not under \<^verbatim>\<open>src/\<close>, or is decided by the machine, is an argument of the
  definitions that use it: the numbers \<open>rand\<close> and \<open>random\<close> draw; the values of the
  uninitialised local \<open>rdy_head\<close> that the lottery reads, and the word behind the array that
  \<open>look\<close> reads; what copying a user's message or asynchronous table returns (\<open>user_msg\<close> and the like, fields
  of the kernel state); the layout of the message union, the numbers of result codes and
  signals, what handlers copy from the memory of their caller, and the handlers of kernel calls not modelled (\<open>abi\<close>); the interrupts that arrive while
  the processor is halted (\<open>environ\<close>); the memory that safe copies read and change (\<open>copier\<close>); \<open>malloc\<close>; the operating system under the shell
  (\<open>shell_os\<close>). The hypotheses on them (\<open>calls_ok\<close>, \<open>request_ok\<close>, \<open>environ_ok\<close>) say that they keep the
  kernel consistent, and witnesses instantiate them.

  \<^bold>\<open>The invariant of the kernel\<close> is \<open>machine_ok\<close>. It consists of \<open>kernel_ok\<close>, about scheduling and links; \<open>table_ok\<close>, about
  process numbers, endpoints and the owners of privilege structures; \<open>clock_owned\<close>, that the queue of timers is sorted and holds timers
  of structures in use only; \<open>irq_ok\<close>, about the chains of hooks; and \<open>hooks_alive\<close>, that hooks belong to live processes. Operations that only
  work on processes and messages leave all of it but \<open>kernel_ok\<close> alone, as the collection \<open>cur\<close> of \<^verbatim>\<open>Kernel_Frame\<close> shows (\<open>outer\<close>), so
  that \<open>machine_ok_outer\<close> carries the invariant over them. The core of \<open>kernel_ok\<close>, \<open>sched_inv\<close>, says that there are lists
  \<open>L q\<close> such that queue \<open>q\<close> of the process table is the chain \<open>L q\<close>, that a process is queued
  exactly once if it is runnable and not at all otherwise, and that \<open>total_tickets\<close> is the sum
  of the tickets of the queued processes. The lemmas in the collection \<open>keeps\<close> prove it of every operation, from
  \<open>enqueue\<close> up to \<open>do_ipc\<close>; \<open>kernel_call_kept\<close>, \<open>irq_handle_machine\<close> and \<open>switch_from_result\<close> prove \<open>machine_ok\<close>, and \<open>system_stays_consistent\<close> is the
  induction over all interleavings of them. On it rest the fairness of the lottery (\<open>lottery_fair\<close>: of the numbers
  the draw can yield, a process gets as many as it has tickets), the liveness of
  \<open>switch_to_user\<close>, and the accounting of forks. Two further invariants are used where they
  are needed: the caller queue of a process is a chain of processes that are sending to it
  (\<open>caller_queue\<close>), which gives the order of service, and the blocking relation is walked
  by \<open>deadlock\<close>, which is characterised exactly.

  \<^bold>\<open>Interfaces\<close> are locales, each interpreted on the code's own definitions.
  \<open>scheduling_kernel\<close> is what SCHED relies on, a kernel that accepts \<open>SYS_SCHEDULE\<close> and
  \<open>SYS_SCHEDCTL\<close> and keeps its invariant, provided by \<^verbatim>\<open>Kernel_Calls\<close> (\<open>kernel_scheduling\<close>).
  \<open>fifo_semaphore\<close> is the contract of a counting semaphore, provided by the handlers of PM
  (\<open>pm_first_fit\<close>). \<open>seek_algorithm\<close> is the contract of a disk-scheduling algorithm, that
  it reports the movement of an order that serves all requests; it is interpreted for each
  algorithm that meets it without conditions.
  \<open>timer_host\<close> is what the timer library relies on, a state that holds a queue and watchdog functions that leave
  the queue alone, provided by the clock of the kernel (\<open>kernel_timers\<close>). \<open>irq_host\<close> is what the handling of an interrupt relies
  on, handlers that leave the chains of hooks alone, provided by the handlers of the kernel (\<open>kernel_irqs\<close>). \<open>grant_store\<close> is
  what a server expects of a table of grants, provided by the library over the kernel (\<open>libsys\<close>).

  \<^bold>\<open>What the groups of theorems show.\<close> Shell: a line is cut into exactly its words, history
  prints the last lines, and the 41st command writes outside the history. Scheduler: queue
  membership follows the flags, the lottery is fair while the accounts are right, and the
  exact inputs for which \<open>ProcessSetPriority\<close> breaks the accounts or the lottery reads an unassigned pointer.
  Message passing: rendezvous, order of waiting senders, which source \<open>receive\<close> serves first,
  exactly when a send is refused as a deadlock, and that a refused call changes nothing. Kernel
  calls: bounds of \<open>sched_proc\<close>, tickets of a forked child, and release of everyone who waits
  for a dead process. SCHED: priorities stay in range in every round, forged requests change
  nothing, balancing restores priorities. Semaphores: refinement of an
  abstract counter with a list of waiters, order of service, freeing of the whole queue; where
  the circular queue of \<^verbatim>\<open>sem.c\<close> is a bounded list and where it is not; mutual exclusion of readers
  and writer in every interleaving. Disk: closed forms of the head movement, order of
  service, optimality conditions, bounds and totals.
  Clock: alarms are queued in the order in which they expire, and a tick rings exactly those that are due.
  Interrupts: an interrupt reaches all drivers with a hook on its line, and the table of hooks implements a registry. Processes and
  privileges: a cleared process leaves nothing behind, a new service gets a clean structure of its own, and a live update swaps two services and can be undone.
  Grants: the kernel accepts exactly the uses that a chain of grants allows (\<open>authorised\<close>), copies under grants are runs of an abstract
  machine that only copies what is granted (\<open>granted_copy\<close>), and the library and the kernel agree on which grants there are.

  \<^bold>\<open>Not modelled.\<close> The two MINIX trees differ only in the files the assignments changed (the
  scheduler here, the semaphore handlers there), so the second tree's copy of the kernel
  is not modelled again. Of the kernel: the architecture layer (page tables,
  FPU, the APIC, exceptions), SMP, profiling, debugging and the kernel calls that
  copy memory without grants, map devices or report information; they appear as the parameter
  \<open>other_call\<close>. The calls that copy under grants are modelled with the kernel they read, but are steps of the transition system only through
  \<open>other_call\<close>, since what they change is memory. Of the servers: VFS, VM, RS, DS, IS, the input, devman and IPC servers, and PM apart from
  its semaphores; further the drivers, file systems, libraries, commands and tests, which are the stock
  MINIX distribution and are not touched by the course work. Of the programs: log files and
  terminal formatting beyond the values printed.
\<close>

section \<open>The kernel as a whole\<close>

text \<open>
  What happens to the kernel between two instructions of user processes: the current process
  traps into message passing or into a kernel call, or an interrupt arrives; then the kernel
  switches to a process. The return value of a trap goes to the register of the caller.
\<close>

datatype mode = User | In_Kernel

inductive system_step :: "abi \<Rightarrow> mode \<times> kernel \<Rightarrow> mode \<times> kernel \<Rightarrow> bool" for A where
  ipc: "do_ipc (lethal A) r1 r2 r3 k = Some (r, k') \<Longrightarrow>
    system_step A (User, k) (In_Kernel, upd_proc (proc_ptr k) (\<lambda>p. p\<lparr>p_retreg := r\<rparr>) k')"
| kcall: "kernel_call A a (proc_ptr k) k = Some k' \<Longrightarrow>
    isokprocn (proc_ptr k) \<Longrightarrow>
    (\<And>m e. user_msg k (proc_ptr k) a = Some m \<Longrightarrow> request_ok A (proc_ptr k) (m\<lparr>m_source := e\<rparr>)
       (upd_proc (proc_ptr k) (\<lambda>r. r\<lparr>p_delivermsg_vir := a\<rparr>) k)) \<Longrightarrow>
    system_step A (User, k) (In_Kernel, k')"
| interrupt: "irq_handle (lethal A) irq k = Some k' \<Longrightarrow> system_step A (User, k) (In_Kernel, k')"
| switch: "environ_ok E \<Longrightarrow> switch_to_user E k = Some k' \<Longrightarrow> system_step A (In_Kernel, k) (User, k')"

inductive_cases system_stepE: "system_step A s s'"

text \<open>What holds of the kernel in each mode.\<close>

definition system_ok :: "mode \<times> kernel \<Rightarrow> bool" where
  "system_ok s \<longleftrightarrow>
     (case s of (m, k) \<Rightarrow> machine_ok k \<and>
        (m = User \<longrightarrow> proc_is_runnable k (proc_ptr k) \<and> p_cpu_time_left (procs k (proc_ptr k)) \<noteq> 0 \<and>
           settled k (proc_ptr k)))"

lemma switch_to_user_result:
  assumes "switch_to_user E k = Some k'" "machine_ok k" "environ_ok E"
  shows "system_ok (User, k')"
  using switch_from_result [OF _ assms(2,3) refl] assms(1) by (auto simp: switch_to_user_def system_ok_def)

lemma system_step_ok:
  assumes "system_step A s s'" "calls_ok A" "system_ok s"
  shows "system_ok s'"
  using assms(1)
proof cases
  case (ipc r1 r2 r3 k r k')
  have ok: "machine_ok k" using assms(3) ipc(1) by (simp add: system_ok_def)
  have "kernel_ok (upd_proc (proc_ptr k) (\<lambda>p. p\<lparr>p_retreg := r\<rparr>) k')"
    by (rule kernel_ok_upd_proc [OF _ do_ipc_keeps [OF ipc(3) machine_kernel [OF ok]]]) simp
  moreover have "outer (upd_proc (proc_ptr k) (\<lambda>p. p\<lparr>p_retreg := r\<rparr>) k') = outer k" using do_ipc_cur [OF ipc(3)] by simp
  ultimately show ?thesis using ipc(2) machine_ok_outer ok by (simp add: system_ok_def)
next
  case (kcall a k k')
  have ok: "machine_ok k" "\<not> has (p_rts_flags (procs k (proc_ptr k))) RTS_SLOT_FREE"
    using assms(3) kcall(1) by (simp_all add: system_ok_def proc_is_runnable_def has_def)
  have "kept k k'" by (rule kernel_call_kept [OF kcall(3) ok(1) kcall(4) ok(2) assms(2) kcall(5)])
  then show ?thesis using kcall(2) by (simp add: system_ok_def kept_def)
next
  case (interrupt irq k k')
  then show ?thesis using assms(3) irq_handle_machine by (simp add: system_ok_def)
next
  case (switch E k k')
  then show ?thesis using switch_to_user_result assms(3) by (simp add: system_ok_def)
qed

inductive system_reachable :: "abi \<Rightarrow> kernel \<Rightarrow> mode \<times> kernel \<Rightarrow> bool" for A k0 where
  boot: "system_reachable A k0 (In_Kernel, k0)"
| step: "system_reachable A k0 s \<Longrightarrow> system_step A s s' \<Longrightarrow> system_reachable A k0 s'"

lemma total_tickets_runnable:
  assumes "kernel_ok k"
  shows "total_tickets k = (\<Sum>p \<in> runnables k. p_tickets (procs k p))"
proof -
  obtain L where L: "sched_inv L k" using assms by (auto simp: kernel_ok_def)
  note q = all_queued_props [OF L]
  have "(\<Sum>p \<leftarrow> all_queued L. p_tickets (procs k p)) = (\<Sum>p \<in> set (all_queued L). p_tickets (procs k p))"
    using q(2) by (rule sum_list_distinct_conv_sum_set)
  then show ?thesis using q by simp
qed


definition demo_abi :: abi where
  "demo_abi = \<lparr>rd = (\<lambda>_ _. 0), wr = (\<lambda>_ _ m. m), wr_map = (\<lambda>_ _ m. m), code_nr = (\<lambda>_. 0), nsig = 30,
     signal_of = Sig, lethal = (\<lambda>_. False), exec_name = (\<lambda>_ _ _. Inr []),
     priv_args = (\<lambda>_ _ _. \<lparr>arg_ptr = False, arg_priv = Inl EINVAL, arg_io = \<lparr>ior_base = 0, ior_limit = 0\<rparr>, arg_mem = Inl EINVAL, arg_irq = 0\<rparr>),
     diag_text = (\<lambda>_ _ _. OK), clock_realtime = 0, kmess_in_use = False, do_serial_debug = False, other_call = (\<lambda>_. None)\<rparr>"


end
